(* ===== verification/NS_Prelude.thy ===== *)
theory NS_Prelude
  imports Main "HOL-Library.Signed_Division" "HOL-Library.Multiset"
begin

text \<open>
  Shared vocabulary of the development: faults as values, checked vector access, C integer
  division and the generic lemmas on lists and sums that the component theories use.
  A \<open>CHECK\<close> or \<open>LOG(FATAL)\<close> of the source, an access outside a vector and an evaluation
  the C++ standard leaves undefined are all branches that return \<open>Inl\<close> of a fault.
\<close>

named_theorems res_simps \<open>rewriting results of fallible operations\<close>
named_theorems vec_simps \<open>rewriting checked vector access\<close>

section \<open>Faults and results\<close>

datatype fault =
    Check_failed string   \<comment> \<open>a dmlc \<open>CHECK\<close> macro that aborts the process\<close>
  | Fatal string          \<comment> \<open>\<open>LOG(FATAL)\<close>\<close>
  | Out_of_range string   \<comment> \<open>an index outside a vector or array\<close>
  | Diverges string       \<comment> \<open>a loop that never ends\<close>
  | Undefined string      \<comment> \<open>other undefined behaviour (signed overflow, division by zero)\<close>

type_synonym 'a res = "fault + 'a"

definition rbind :: "'a res \<Rightarrow> ('a \<Rightarrow> 'b res) \<Rightarrow> 'b res" where
  "rbind r f = (case r of Inl e \<Rightarrow> Inl e | Inr a \<Rightarrow> f a)"

definition rcheck :: "bool \<Rightarrow> string \<Rightarrow> 'a res \<Rightarrow> 'a res" where
  "rcheck b s r = (if b then r else Inl (Check_failed s))"

definition rmap :: "('a \<Rightarrow> 'b) \<Rightarrow> 'a res \<Rightarrow> 'b res" where
  "rmap f r = rbind r (\<lambda>a. Inr (f a))"

definition is_ok :: "'a res \<Rightarrow> bool" where
  "is_ok r = (case r of Inl _ \<Rightarrow> False | Inr _ \<Rightarrow> True)"

lemma rbind_simps [simp, res_simps]:
  "rbind (Inl e) f = Inl e"
  "rbind (Inr a) f = f a"
  by (simp_all add: rbind_def)

lemma rmap_simps [simp, res_simps]:
  "rmap f (Inl e) = Inl e"
  "rmap f (Inr a) = Inr (f a)"
  by (simp_all add: rmap_def)

lemma is_ok_simps [simp, res_simps]:
  "\<not> is_ok (Inl e)"
  "is_ok (Inr a)"
  by (simp_all add: is_ok_def)

lemma is_ok_iff: "is_ok r \<longleftrightarrow> (\<exists>a. r = Inr a)"
  by (cases r) auto

lemma rcheck_simps [simp, res_simps]:
  "rcheck True s r = r"
  "rcheck False s r = Inl (Check_failed s)"
  by (simp_all add: rcheck_def)

lemma rbind_Inr_iff [res_simps]:
  "rbind r f = Inr b \<longleftrightarrow> (\<exists>a. r = Inr a \<and> f a = Inr b)"
  by (cases r) auto

lemma rmap_Inr_iff [res_simps]:
  "rmap f r = Inr b \<longleftrightarrow> (\<exists>a. r = Inr a \<and> b = f a)"
  by (cases r) auto

lemma rcheck_Inr_iff [res_simps]:
  "rcheck b s r = Inr a \<longleftrightarrow> b \<and> r = Inr a"
  by (cases b) auto

lemma rbind_assoc: "rbind (rbind r f) g = rbind r (\<lambda>a. rbind (f a) g)"
  by (cases r) auto

lemma rbind_cong [fundef_cong]:
  "r = r' \<Longrightarrow> (\<And>a. r' = Inr a \<Longrightarrow> f a = g a) \<Longrightarrow> rbind r f = rbind r' g"
  by (cases r) auto

text \<open>A loop over a list whose body may fault: it stops at the first fault.\<close>

fun rfold :: "('x \<Rightarrow> 's \<Rightarrow> 's res) \<Rightarrow> 'x list \<Rightarrow> 's \<Rightarrow> 's res" where
  "rfold f [] s = Inr s"
| "rfold f (x # xs) s = rbind (f x s) (rfold f xs)"

lemma rfold_append:
  "rfold f (xs @ ys) s = rbind (rfold f xs s) (rfold f ys)"
  by (induction xs arbitrary: s) (auto simp: rbind_assoc intro: rbind_cong)

lemma rfold_cong [fundef_cong]:
  "s = s' \<Longrightarrow> xs = xs' \<Longrightarrow> (\<And>x a. x \<in> set xs' \<Longrightarrow> f x a = g x a) \<Longrightarrow>
   rfold f xs s = rfold g xs' s'"
  by (induction xs' arbitrary: s s' xs) (auto intro: rbind_cong)

lemma rfold_total:
  assumes "\<And>x s. x \<in> set xs \<Longrightarrow> f x s = Inr (g x s)"
  shows "rfold f xs s = Inr (fold g xs s)"
  using assms by (induction xs arbitrary: s) auto

lemma rfold_invariant:
  assumes "rfold f xs s = Inr s'" and "P s"
    and "\<And>x s s'. x \<in> set xs \<Longrightarrow> P s \<Longrightarrow> f x s = Inr s' \<Longrightarrow> P s'"
  shows "P s'"
  using assms by (induction xs arbitrary: s) (auto simp: rbind_Inr_iff)

text \<open>A map over a list whose element function may fault.\<close>

fun rmap_list :: "('a \<Rightarrow> 'b res) \<Rightarrow> 'a list \<Rightarrow> 'b list res" where
  "rmap_list f [] = Inr []"
| "rmap_list f (x # xs) = rbind (f x) (\<lambda>y. rmap ((#) y) (rmap_list f xs))"

lemma rmap_list_total:
  assumes "\<And>x. x \<in> set xs \<Longrightarrow> f x = Inr (g x)"
  shows "rmap_list f xs = Inr (map g xs)"
  using assms by (induction xs) auto

lemma rmap_list_Inr_iff:
  "rmap_list f xs = Inr ys \<longleftrightarrow> length ys = length xs \<and> (\<forall>i < length xs. f (xs ! i) = Inr (ys ! i))"
proof (induction xs arbitrary: ys)
  case Nil
  then show ?case by auto
next
  case (Cons x xs)
  show ?case
    by (cases ys) (auto simp: rbind_Inr_iff rmap_Inr_iff Cons.IH nth_Cons All_less_Suc2 split: nat.splits)
qed

section \<open>Vectors\<close>

definition vec_at :: "'a list \<Rightarrow> int \<Rightarrow> 'a res" where
  "vec_at xs i = (if 0 \<le> i \<and> i < int (length xs) then Inr (xs ! nat i)
                  else Inl (Out_of_range ''vector index''))"

definition vec_set :: "'a list \<Rightarrow> int \<Rightarrow> 'a \<Rightarrow> 'a list res" where
  "vec_set xs i v = (if 0 \<le> i \<and> i < int (length xs) then Inr (xs[nat i := v])
                     else Inl (Out_of_range ''vector index''))"

definition vec_back :: "'a list \<Rightarrow> 'a res" where
  "vec_back xs = (if xs = [] then Inl (Undefined ''back of an empty vector'') else Inr (last xs))"

definition vec_pop_back :: "'a list \<Rightarrow> 'a list res" where
  "vec_pop_back xs = (if xs = [] then Inl (Undefined ''pop_back of an empty vector'')
                      else Inr (butlast xs))"

lemma vec_at_Inr_iff [vec_simps]:
  "vec_at xs i = Inr x \<longleftrightarrow> 0 \<le> i \<and> i < int (length xs) \<and> x = xs ! nat i"
  by (auto simp: vec_at_def)

lemma vec_at_int [simp, vec_simps]: "i < length xs \<Longrightarrow> vec_at xs (int i) = Inr (xs ! i)"
  by (simp add: vec_at_def)

lemma vec_at_in_set: "vec_at xs i = Inr x \<Longrightarrow> x \<in> set xs"
  by (auto simp: vec_at_def split: if_splits)

lemma vec_at_nil [simp]: "\<not> is_ok (vec_at [] i)"
  by (simp add: vec_at_def)

lemma vec_at_is_ok [vec_simps]: "is_ok (vec_at xs i) \<longleftrightarrow> 0 \<le> i \<and> i < int (length xs)"
  by (simp add: vec_at_def)

lemma vec_set_Inr_iff [vec_simps]:
  "vec_set xs i v = Inr ys \<longleftrightarrow> 0 \<le> i \<and> i < int (length xs) \<and> ys = xs[nat i := v]"
  by (auto simp: vec_set_def)

lemma vec_set_int [simp, vec_simps]: "i < length xs \<Longrightarrow> vec_set xs (int i) v = Inr (xs[i := v])"
  by (simp add: vec_set_def)

lemma vec_back_Inr_iff [vec_simps]: "vec_back xs = Inr x \<longleftrightarrow> xs \<noteq> [] \<and> x = last xs"
  by (auto simp: vec_back_def)

lemma vec_back_snoc [simp]: "vec_back (xs @ [x]) = Inr x"
  by (simp add: vec_back_def)

lemma vec_pop_back_Inr_iff [vec_simps]:
  "vec_pop_back xs = Inr ys \<longleftrightarrow> xs \<noteq> [] \<and> ys = butlast xs"
  by (auto simp: vec_pop_back_def)

lemma vec_pop_back_snoc [simp]: "vec_pop_back (xs @ [x]) = Inr xs"
  by (simp add: vec_pop_back_def)

section \<open>Machine integers of C++\<close>

text \<open>
  The ids, ranks and counters of the source are \<open>int\<close>; they are modelled by \<open>int\<close> values,
  with the bound written out where the code reaches it. \<open>INT_MAX\<close> doubles as the empty
  marker. Division truncates towards zero (\<open>sdiv\<close>, \<open>smod\<close> of Signed\_Division).
\<close>

definition INT_MAX :: int where
  "INT_MAX = 2 ^ 31 - 1"

definition cint_in_range :: "int \<Rightarrow> bool" where
  "cint_in_range i \<longleftrightarrow> - (2 ^ 31) \<le> i \<and> i \<le> INT_MAX"

definition cint_inc :: "int \<Rightarrow> int res" where
  "cint_inc i = (if i < INT_MAX then Inr (i + 1) else Inl (Undefined ''signed overflow''))"

lemma cint_inc_Inr_iff [res_simps]: "cint_inc i = Inr j \<longleftrightarrow> i < INT_MAX \<and> j = i + 1"
  by (auto simp: cint_inc_def)

lemma sdiv2_double [simp]: "(2 * i :: int) sdiv 2 = i"
  by (simp add: signed_divide_int_def sgn_mult abs_mult sgn_mult_abs)

section \<open>Lists\<close>

lemma sum_list_update_nat:
  fixes xs :: "nat list"
  assumes "i < length xs"
  shows "sum_list (xs[i := v]) + xs ! i = sum_list xs + v"
  using assms by (induction xs arbitrary: i) (auto split: nat.splits)

lemma filter_single:
  "distinct xs \<Longrightarrow> x \<in> set xs \<Longrightarrow> filter (\<lambda>y. y = x) xs = [x]"
  by (induction xs) (auto simp: filter_empty_conv)

lemma last_rev_tl: "xs \<noteq> [] \<Longrightarrow> last (rev xs) = hd xs"
  by (simp add: last_rev)

lemma butlast_rev_tl: "butlast (rev xs) = rev (tl xs)"
  by (cases xs) auto

end
