(* ===== verification/NS_Float.thy ===== *)
theory NS_Float
  imports NS_Prelude Complex_Main "HOL-Library.Log_Nat"
begin

text \<open>
  The \<open>float\<close> and \<open>double\<close> values of the source: IEEE 754 binary32 and binary64 with
  round-to-nearest-even, overflow to infinity, gradual underflow and NaN. A finite value is
  the rational it denotes; the two zeros are one value, since no expression of the modelled
  code divides by a zero of negative sign. The comparisons are the ones of C++: every
  comparison with NaN is false, and \<open>x \<noteq> x\<close> holds for NaN.
\<close>

named_theorems fl_simps \<open>evaluating floating-point operations\<close>

section \<open>Values and rounding\<close>

datatype fl = NaN | Inf bool | Fin rat

definition pow2 :: "int \<Rightarrow> rat" where
  "pow2 e = (if 0 \<le> e then 2 ^ nat e else 1 / 2 ^ nat (- e))"

text \<open>The exponent of a positive rational: the largest \<open>e\<close> with \<open>2 ^ e \<le> x\<close>.\<close>

definition ilog2 :: "rat \<Rightarrow> int" where
  "ilog2 x = (let (p, q) = quotient_of x; e = bitlen p - bitlen q
              in if x < pow2 e then e - 1 else e)"

definition round_half_even :: "rat \<Rightarrow> int" where
  "round_half_even x = (let f = \<lfloor>x\<rfloor>; d = x - of_int f
     in if d < 1 / 2 then f else if d > 1 / 2 then f + 1 else if even f then f else f + 1)"

definition rnd :: "int \<Rightarrow> int \<Rightarrow> int \<Rightarrow> rat \<Rightarrow> fl" where
  "rnd prec emin emax x =
     (if x = 0 then Fin 0
      else let e = max (ilog2 \<bar>x\<bar>) emin; u = pow2 (e - (prec - 1));
               y = of_int (round_half_even (x / u)) * u
           in if \<bar>y\<bar> \<ge> pow2 (emax + 1) then Inf (x < 0) else Fin y)"

definition rnd32 :: "rat \<Rightarrow> fl" where
  "rnd32 = rnd 24 (- 126) 127"

definition rnd64 :: "rat \<Rightarrow> fl" where
  "rnd64 = rnd 53 (- 1022) 1023"

section \<open>Operations, for a rounding\<close>

definition fl_neg :: "fl \<Rightarrow> bool" where
  "fl_neg x = (case x of Fin a \<Rightarrow> a < 0 | Inf s \<Rightarrow> s | NaN \<Rightarrow> False)"

fun fl_add :: "(rat \<Rightarrow> fl) \<Rightarrow> fl \<Rightarrow> fl \<Rightarrow> fl" where
  "fl_add r (Fin a) (Fin b) = r (a + b)"
| "fl_add r (Inf s) (Inf t) = (if s = t then Inf s else NaN)"
| "fl_add r (Inf s) (Fin _) = Inf s"
| "fl_add r (Fin _) (Inf t) = Inf t"
| "fl_add r _ _ = NaN"

fun fl_uminus :: "fl \<Rightarrow> fl" where
  "fl_uminus (Fin a) = Fin (- a)"
| "fl_uminus (Inf s) = Inf (\<not> s)"
| "fl_uminus NaN = NaN"

definition fl_sub :: "(rat \<Rightarrow> fl) \<Rightarrow> fl \<Rightarrow> fl \<Rightarrow> fl" where
  "fl_sub r x y = fl_add r x (fl_uminus y)"

fun fl_mul :: "(rat \<Rightarrow> fl) \<Rightarrow> fl \<Rightarrow> fl \<Rightarrow> fl" where
  "fl_mul r (Fin a) (Fin b) = r (a * b)"
| "fl_mul r (Inf s) (Inf t) = Inf (s \<noteq> t)"
| "fl_mul r (Inf s) (Fin b) = (if b = 0 then NaN else Inf (s \<noteq> (b < 0)))"
| "fl_mul r (Fin a) (Inf t) = (if a = 0 then NaN else Inf (t \<noteq> (a < 0)))"
| "fl_mul r _ _ = NaN"

fun fl_div :: "(rat \<Rightarrow> fl) \<Rightarrow> fl \<Rightarrow> fl \<Rightarrow> fl" where
  "fl_div r (Fin a) (Fin b) =
     (if b = 0 then (if a = 0 then NaN else Inf (a < 0)) else r (a / b))"
| "fl_div r (Inf s) (Fin b) = Inf (s \<noteq> (b < 0))"
| "fl_div r (Fin _) (Inf _) = Fin 0"
| "fl_div r _ _ = NaN"

fun fl_less :: "fl \<Rightarrow> fl \<Rightarrow> bool" where
  "fl_less (Fin a) (Fin b) = (a < b)"
| "fl_less (Inf s) (Fin _) = s"
| "fl_less (Fin _) (Inf t) = (\<not> t)"
| "fl_less (Inf s) (Inf t) = (s \<and> \<not> t)"
| "fl_less _ _ = False"

fun fl_eq :: "fl \<Rightarrow> fl \<Rightarrow> bool" where
  "fl_eq (Fin a) (Fin b) = (a = b)"
| "fl_eq (Inf s) (Inf t) = (s = t)"
| "fl_eq _ _ = False"

text \<open>Conversions: \<open>(float) i\<close>, \<open>(int) x\<close> (undefined out of range), and narrowing.\<close>

definition fl_of_int :: "int \<Rightarrow> fl" where
  "fl_of_int i = rnd32 (of_int i)"

definition rat_trunc :: "rat \<Rightarrow> int" where
  "rat_trunc x = (if x < 0 then - \<lfloor>- x\<rfloor> else \<lfloor>x\<rfloor>)"

definition int_of_fl :: "fl \<Rightarrow> int res" where
  "int_of_fl x = (case x of
      Fin a \<Rightarrow> (if cint_in_range (rat_trunc a) then Inr (rat_trunc a)
                else Inl (Undefined ''float to int conversion''))
    | _ \<Rightarrow> Inl (Undefined ''float to int conversion''))"

definition fl_narrow :: "(rat \<Rightarrow> fl) \<Rightarrow> fl \<Rightarrow> fl" where
  "fl_narrow r x = (case x of Fin a \<Rightarrow> r a | _ \<Rightarrow> x)"

text \<open>Single precision.\<close>

abbreviation "f32_add \<equiv> fl_add rnd32"
abbreviation "f32_sub \<equiv> fl_sub rnd32"
abbreviation "f32_mul \<equiv> fl_mul rnd32"
abbreviation "f32_div \<equiv> fl_div rnd32"

section \<open>Order\<close>

definition not_nan :: "fl \<Rightarrow> bool" where
  "not_nan x \<longleftrightarrow> x \<noteq> NaN"

lemma not_nan_simps [simp]: "not_nan (Fin a)" "not_nan (Inf s)" "\<not> not_nan NaN"
  by (simp_all add: not_nan_def)

lemma fl_less_irrefl [simp]: "\<not> fl_less x x"
  by (cases x) auto

lemma fl_less_trans: "fl_less x y \<Longrightarrow> fl_less y z \<Longrightarrow> fl_less x z"
  by (cases x; cases y; cases z) auto

lemma fl_less_asym: "fl_less x y \<Longrightarrow> \<not> fl_less y x"
  using fl_less_trans fl_less_irrefl by blast

lemma fl_less_linear: "not_nan x \<Longrightarrow> not_nan y \<Longrightarrow> fl_less x y \<or> x = y \<or> fl_less y x"
  by (cases x; cases y) (auto simp: not_nan_def)

lemma fl_less_not_nan: "fl_less x y \<Longrightarrow> not_nan x \<and> not_nan y"
  by (cases x; cases y) (auto simp: not_nan_def)

text \<open>Not being below is transitive on the values that are ordered.\<close>

lemma fl_not_less_trans:
  "not_nan y \<Longrightarrow> \<not> fl_less y x \<Longrightarrow> \<not> fl_less z y \<Longrightarrow> \<not> fl_less z x"
  by (cases x; cases y; cases z) (auto simp: not_nan_def)

lemma fl_not_less_less_trans: "\<not> fl_less z x \<Longrightarrow> fl_less y x \<Longrightarrow> \<not> fl_less z y"
  using fl_less_trans by blast

lemma fl_eq_refl_iff [simp]: "fl_eq x x \<longleftrightarrow> not_nan x"
  by (cases x) (auto simp: not_nan_def)

lemma fl_eq_imp_eq: "fl_eq x y \<Longrightarrow> x = y"
  by (cases x; cases y) auto

lemma fl_eq_Fin [simp]: "fl_eq (Fin a) y \<longleftrightarrow> y = Fin a" "fl_eq y (Fin a) \<longleftrightarrow> y = Fin a"
  by (cases y; auto)+

section \<open>Small integers are exact\<close>

lemma pow2_pos [simp]: "0 < pow2 e"
  by (simp add: pow2_def)

lemma pow2_nat: "0 \<le> e \<Longrightarrow> pow2 e = of_int (2 ^ nat e)"
  by (simp add: pow2_def)

lemma round_half_even_int [simp]: "round_half_even (of_int n) = n"
  by (simp add: round_half_even_def)

lemma bitlen_le: "0 < p \<Longrightarrow> p < 2 ^ n \<Longrightarrow> bitlen p \<le> int n"
proof -
  assume p: "0 < p" "p < 2 ^ n"
  from p have "2 ^ nat (bitlen p - 1) \<le> p" by (simp add: bitlen_bounds)
  with p have "(2::int) ^ nat (bitlen p - 1) < 2 ^ n" by linarith
  then have "nat (bitlen p - 1) < n" by (simp add: power_strict_increasing_iff)
  then show ?thesis by linarith
qed

lemma ilog2_int:
  assumes "0 < p"
  shows "ilog2 (of_int p) = bitlen p - 1"
proof -
  have q: "quotient_of (of_int p) = (p, 1)"
    by (simp add: quotient_of_int)
  have b1: "bitlen 1 = 1" by (simp add: bitlen_alt_def)
  have lo: "2 ^ nat (bitlen p - 1) \<le> p" using assms by (simp add: bitlen_bounds)
  have nn: "0 \<le> bitlen p - 1" using assms bitlen_bounds [of p] by (auto simp: bitlen_alt_def)
  have "pow2 (bitlen p - 1) \<le> of_int p"
    unfolding pow2_nat [OF nn] using lo by (simp only: of_int_le_iff)
  then show ?thesis by (simp add: ilog2_def q b1)
qed

text \<open>An integer below \<open>2 ^ prec\<close> in magnitude is its own rounding.\<close>

lemma rnd_int_exact:
  assumes n: "\<bar>n\<bar> < 2 ^ nat prec" and prec: "0 < prec" "emin \<le> 0" "prec \<le> emax"
  shows "rnd prec emin emax (of_int n) = Fin (of_int n)"
proof (cases "n = 0")
  case True
  then show ?thesis by (simp add: rnd_def)
next
  case False
  define e where "e = bitlen \<bar>n\<bar> - 1"
  have pos: "0 < \<bar>n\<bar>" using False by simp
  have e: "ilog2 (of_int \<bar>n\<bar>) = e" by (simp only: ilog2_int [OF pos] e_def)
  have b1: "1 \<le> bitlen \<bar>n\<bar>" using pos bitlen_bounds [of "\<bar>n\<bar>"] by (auto simp: bitlen_alt_def)
  have e0: "0 \<le> e" using b1 by (simp add: e_def)
  have ep: "e \<le> prec - 1" using bitlen_le [OF pos n] prec(1) by (simp add: e_def)
  define k where "k = nat (prec - 1 - e)"
  have u: "pow2 (e - (prec - 1)) = 1 / 2 ^ k"
  proof (cases "e = prec - 1")
    case True
    then show ?thesis by (simp add: pow2_def k_def)
  next
    case False
    with ep have "\<not> 0 \<le> e - (prec - 1)" by simp
    then show ?thesis by (simp add: pow2_def k_def algebra_simps)
  qed
  have m: "of_int n / pow2 (e - (prec - 1)) = (of_int (n * 2 ^ k) :: rat)"
    by (simp add: u)
  have y: "of_int (round_half_even (of_int n / pow2 (e - (prec - 1)))) * pow2 (e - (prec - 1))
    = (of_int n :: rat)"
    unfolding m round_half_even_int by (simp add: u)
  have "(2::int) ^ nat prec \<le> 2 ^ nat (emax + 1)"
    by (rule power_increasing) (use prec in auto)
  then have "of_int \<bar>n\<bar> < (of_int (2 ^ nat (emax + 1)) :: rat)"
    using n by (subst of_int_less_iff) linarith
  then have big: "\<not> \<bar>of_int n :: rat\<bar> \<ge> pow2 (emax + 1)"
    using prec by (simp add: pow2_nat)
  have mx: "max (ilog2 \<bar>of_int n\<bar>) emin = e"
    using e e0 prec(2) by simp
  show ?thesis
    using False y big by (simp add: rnd_def mx Let_def)
qed

lemma fl_of_int_exact [fl_simps]: "\<bar>n\<bar> < 2 ^ 24 \<Longrightarrow> fl_of_int n = Fin (of_int n)"
  by (simp add: fl_of_int_def rnd32_def rnd_int_exact)

lemma rat_trunc_int [simp]: "rat_trunc (of_int n) = n"
  by (simp add: rat_trunc_def flip: of_int_minus)

lemma int_of_fl_of_int:
  "\<bar>n\<bar> < 2 ^ 24 \<Longrightarrow> int_of_fl (fl_of_int n) = Inr n"
  by (auto simp: fl_of_int_exact int_of_fl_def cint_in_range_def INT_MAX_def)

lemma fl_of_int_inject:
  "\<bar>m\<bar> < 2 ^ 24 \<Longrightarrow> \<bar>n\<bar> < 2 ^ 24 \<Longrightarrow> fl_eq (fl_of_int m) (fl_of_int n) \<longleftrightarrow> m = n"
  by (auto simp: fl_of_int_exact)

end
