(* ===== verification/NS_Message.thy ===== *)
theory NS_Message
  imports NS_Float "HOL-Library.Word"
begin

text \<open>
  The messages of the parameter server (\<open>include/ps/internal/message.h\<close>): nodes, control
  information, the meta data of a message and its data arrays, with the values the default
  constructors give. The members that no constructor initialises (\<open>role\<close> and
  \<open>customer_id\<close> of a node, \<open>barrier_group\<close>, \<open>msg_sig\<close>, \<open>key_data\<close>, \<open>start_time\<close>) start
  at zero here.
\<close>

section \<open>Identifiers\<close>

type_synonym key = "64 word"

definition kEmpty :: int where
  "kEmpty = INT_MAX"

definition kScheduler :: int where
  "kScheduler = 1"

definition kServerGroup :: int where
  "kServerGroup = 2"

definition kWorkerGroup :: int where
  "kWorkerGroup = 4"

definition kMaxKey :: key where
  "kMaxKey = - 1"

section \<open>Data types\<close>

datatype data_type =
  CHAR | INT8 | INT16 | INT32 | INT64 | UINT8 | UINT16 | UINT32 | UINT64 | FLOAT | DOUBLE | OTHER

text \<open>
  A data array of a message. \<open>AddData\<close> keeps the bytes of the array it is given and its
  element type; the receiver reads the array back at the same type, so the model keeps the
  typed elements. The values of the key-value store are bytes (\<open>KVServer<char>\<close>).
\<close>

datatype blob = Keys "key list" | Vals "8 word list" | Lens "int list"

fun GetDataType :: "blob \<Rightarrow> data_type" where
  "GetDataType (Keys _) = UINT64"
| "GetDataType (Vals _) = OTHER"
| "GetDataType (Lens _) = INT32"

text \<open>The capacity in bytes of the array seen as \<open>SArray<char>\<close>.\<close>

fun blob_capacity :: "blob \<Rightarrow> nat" where
  "blob_capacity (Keys ks) = 8 * length ks"
| "blob_capacity (Vals vs) = length vs"
| "blob_capacity (Lens ls) = 4 * length ls"

section \<open>Nodes and control information\<close>

datatype role = SERVER | WORKER | SCHEDULER

record node =
  n_role :: role
  n_id :: int
  n_customer_id :: int
  n_hostname :: string
  n_port :: int
  n_is_recovery :: bool
  n_id_backup :: int

definition Node :: node where
  "Node = \<lparr>n_role = SERVER, n_id = kEmpty, n_customer_id = 0, n_hostname = '''', n_port = kEmpty,
           n_is_recovery = False, n_id_backup = kEmpty\<rparr>"

datatype command =
  EMPTY | TERMINATE | ADD_NODE | BARRIER | ACK | HEARTBEAT | AUTOPULLRPY | ASK | REPLY | ASK1 |
  REPLY1 | REPORT_ETH | REPORT_REPLY | ROUTE_POLICY | ROUTE_RELEASE | RECV_REPLY | SPEED_REPORT |
  REPLY2

record control =
  c_cmd :: command
  c_node :: "node list"
  c_barrier_group :: int
  c_msg_sig :: "64 word"

definition Control :: control where
  "Control = \<lparr>c_cmd = EMPTY, c_node = [], c_barrier_group = 0, c_msg_sig = 0\<rparr>"

definition control_empty :: "control \<Rightarrow> bool" where
  "control_empty c \<longleftrightarrow> c_cmd c = EMPTY"

section \<open>Meta data and messages\<close>

record meta =
  head :: int
  app_id :: int
  customer_id :: int
  timestamp :: int
  sender :: int
  recver :: int
  request :: bool
  push :: bool
  simple_app :: bool
  mkey :: int
  version :: int
  iters :: int
  sender_o :: int   \<comment> \<open>\<open>sender_\<close>: the node that originated the message\<close>
  dst :: int
  priority :: int
  last_hop :: int
  key_data :: "64 word"
  start_time :: fl
  route :: "fl list"
  tree :: "int list"
  body :: string
  data_types :: "data_type list"
  control :: control

definition Meta :: meta where
  "Meta = \<lparr>head = kEmpty, app_id = kEmpty, customer_id = kEmpty, timestamp = kEmpty,
     sender = kEmpty, recver = kEmpty, request = False, push = False, simple_app = False,
     mkey = kEmpty, version = kEmpty, iters = kEmpty, sender_o = kEmpty, dst = kEmpty,
     priority = kEmpty, last_hop = kEmpty, key_data = 0, start_time = Fin 0, route = [],
     tree = [], body = '''', data_types = [], control = Control\<rparr>"

record message =
  meta :: meta
  data :: "blob list"

definition Message :: message where
  "Message = \<lparr>meta = Meta, data = []\<rparr>"

definition AddData :: "message \<Rightarrow> blob \<Rightarrow> message res" where
  "AddData m v = rcheck (length (data m) = length (data_types (meta m)))
     ''data.size() == meta.data_type.size()''
     (Inr (m\<lparr>meta := (meta m)\<lparr>data_types := data_types (meta m) @ [GetDataType v]\<rparr>,
            data := data m @ [v]\<rparr>))"

text \<open>Updates of the meta data of a message, and of its control part.\<close>

definition upd_meta :: "(meta \<Rightarrow> meta) \<Rightarrow> message \<Rightarrow> message" where
  "upd_meta f m = m\<lparr>meta := f (meta m)\<rparr>"

definition set_cmd :: "command \<Rightarrow> meta \<Rightarrow> meta" where
  "set_cmd c m = m\<lparr>control := (control m)\<lparr>c_cmd := c\<rparr>\<rparr>"

abbreviation cmd_of :: "message \<Rightarrow> command" where
  "cmd_of m \<equiv> c_cmd (control (meta m))"

lemma upd_meta_simps [simp]:
  "meta (upd_meta f m) = f (meta m)"
  "data (upd_meta f m) = data m"
  by (simp_all add: upd_meta_def)

lemma set_cmd_simps [simp]:
  "control (set_cmd c m) = (control m)\<lparr>c_cmd := c\<rparr>"
  "recver (set_cmd c m) = recver m" "dst (set_cmd c m) = dst m" "route (set_cmd c m) = route m"
  "sender (set_cmd c m) = sender m" "sender_o (set_cmd c m) = sender_o m"
  "timestamp (set_cmd c m) = timestamp m" "app_id (set_cmd c m) = app_id m"
  "tree (set_cmd c m) = tree m" "request (set_cmd c m) = request m" "push (set_cmd c m) = push m"
  "iters (set_cmd c m) = iters m" "mkey (set_cmd c m) = mkey m"
  "last_hop (set_cmd c m) = last_hop m"
  by (simp_all add: set_cmd_def)

lemma kEmpty_simps [simp]: "kEmpty = 2147483647"
  by (simp add: kEmpty_def INT_MAX_def)

section \<open>Adding data arrays\<close>

definition data_wf :: "message \<Rightarrow> bool" where
  "data_wf m \<longleftrightarrow> data_types (meta m) = map GetDataType (data m)"

lemma data_wf_Message [simp]: "data_wf Message"
  by (simp add: data_wf_def Message_def Meta_def)

text \<open>On well-formed messages \<open>AddData\<close> never fails, appends one array and keeps them well-formed.\<close>

lemma AddData_wf:
  assumes "data_wf m"
  shows "\<exists>m'. AddData m v = Inr m' \<and> data_wf m' \<and> data m' = data m @ [v]"
  using assms by (simp add: AddData_def data_wf_def)

lemma AddData_total:
  "data_wf m \<Longrightarrow> AddData m v = Inr (m\<lparr>meta := (meta m)\<lparr>data_types := data_types (meta m) @ [GetDataType v]\<rparr>,
            data := data m @ [v]\<rparr>)"
  by (simp add: AddData_def data_wf_def)

end
