(* ===== verification/NS_Postoffice.thy ===== *)
theory NS_Postoffice
  imports NS_Message "HOL-Library.AList"
begin

text \<open>
  The post office of a node (\<open>src/postoffice.cc\<close>, \<open>include/ps/internal/postoffice.h\<close>): ranks and
  node ids, node groups, server key ranges, registered customers, barriers and heartbeats.
  The maps the source indexes with \<open>operator[]\<close> are functions whose default is the value-
  initialised entry; where the code asks for the size of a map it is an association list.
  Customers are represented by handles.
\<close>

section \<open>Ranks, ids and groups\<close>

definition WorkerRankToID :: "int \<Rightarrow> int" where
  "WorkerRankToID r = r * 2 + 9"

definition ServerRankToID :: "int \<Rightarrow> int" where
  "ServerRankToID r = r * 2 + 8"

definition IDtoRank :: "int \<Rightarrow> int" where
  "IDtoRank i = max ((i - 8) sdiv 2) 0"

type_synonym handle = nat
type_synonym krange = "key \<times> key"

record postoffice =
  is_worker :: bool
  is_server :: bool
  is_scheduler :: bool
  num_servers :: int
  num_workers :: int
  num_groups :: int
  verbose :: int
  node_ids :: "int \<Rightarrow> int list"
  customers :: "int \<rightharpoonup> (int \<times> handle) list"
  server_key_ranges :: "krange list"
  barrier_done :: "int \<Rightarrow> (int \<times> bool) list"
  heartbeats :: "int \<rightharpoonup> int"
  init_stage :: nat
  po_start_time :: int

text \<open>
  The object the constructor makes. The members it leaves uninitialised (the counts, the roles,
  the verbosity and the start time) are zero here until \<open>InitEnvironment\<close> sets them.
\<close>

definition Postoffice :: postoffice where
  "Postoffice = \<lparr>is_worker = False, is_server = False, is_scheduler = False, num_servers = 0,
     num_workers = 0, num_groups = 0, verbose = 0, node_ids = (\<lambda>_. []), customers = Map.empty,
     server_key_ranges = [], barrier_done = (\<lambda>_. []), heartbeats = Map.empty, init_stage = 0,
     po_start_time = 0\<rparr>"

section \<open>Operations\<close>

subsection \<open>Start and finish\<close>

text \<open>\<open>env\<close> is the environment the process runs in; \<open>atoi\<close> is the C function on its values.\<close>

definition InitEnvironment ::
  "(string \<rightharpoonup> string) \<Rightarrow> (string \<Rightarrow> int) \<Rightarrow> postoffice \<Rightarrow> postoffice res" where
  "InitEnvironment env atoi po =
     (case (env ''DMLC_NUM_WORKER'', env ''DMLC_NUM_SERVER'', env ''DMLC_ROLE'', env ''DMLC_NUM_GROUP'') of
        (Some nw, Some ns, Some role, Some ng) \<Rightarrow>
          Inr (po\<lparr>num_workers := atoi nw, num_servers := atoi ns, num_groups := atoi ng,
                  is_worker := (role = ''worker''), is_server := (role = ''server''),
                  is_scheduler := (role = ''scheduler''),
                  verbose := (case env ''PS_VERBOSE'' of None \<Rightarrow> 0 | Some v \<Rightarrow> atoi v)\<rparr>)
      | _ \<Rightarrow> Inl (Check_failed ''CHECK_NOTNULL''))"

definition push_id :: "int \<Rightarrow> int \<Rightarrow> (int \<Rightarrow> int list) \<Rightarrow> int \<Rightarrow> int list" where
  "push_id i g m = m(g := m g @ [i])"

definition worker_groups :: "int \<Rightarrow> int list" where
  "worker_groups i = [i, kWorkerGroup, kWorkerGroup + kServerGroup, kWorkerGroup + kScheduler,
     kWorkerGroup + kServerGroup + kScheduler]"

definition server_groups :: "int \<Rightarrow> int list" where
  "server_groups i = [i, kServerGroup, kWorkerGroup + kServerGroup, kServerGroup + kScheduler,
     kWorkerGroup + kServerGroup + kScheduler]"

definition scheduler_groups :: "int list" where
  "scheduler_groups = [kScheduler, kScheduler + kServerGroup + kWorkerGroup,
     kScheduler + kWorkerGroup, kScheduler + kServerGroup]"

definition init_node_ids :: "int \<Rightarrow> int \<Rightarrow> (int \<Rightarrow> int list) \<Rightarrow> int \<Rightarrow> int list" where
  "init_node_ids nw ns m =
     (let m1 = fold (\<lambda>i. fold (push_id (WorkerRankToID i)) (worker_groups (WorkerRankToID i)))
                 [0..nw - 1] m;
          m2 = fold (\<lambda>i. fold (push_id (ServerRankToID i)) (server_groups (ServerRankToID i)))
                 [0..ns - 1] m1
      in fold (push_id kScheduler) scheduler_groups m2)"

text \<open>The parts of \<open>Start\<close> before and after the van is started, each guarded by the stage.\<close>

definition po_start_nodes ::
  "(string \<rightharpoonup> string) \<Rightarrow> (string \<Rightarrow> int) \<Rightarrow> postoffice \<Rightarrow> postoffice res" where
  "po_start_nodes env atoi po =
     (if init_stage po = 0 then
        rbind (InitEnvironment env atoi po) (\<lambda>po.
          Inr (po\<lparr>node_ids := init_node_ids (num_workers po) (num_servers po) (node_ids po),
                  init_stage := init_stage po + 1\<rparr>))
      else Inr po)"

definition po_start_clock :: "int \<Rightarrow> postoffice \<Rightarrow> postoffice" where
  "po_start_clock now po =
     (if init_stage po = 1 then po\<lparr>po_start_time := now, init_stage := init_stage po + 1\<rparr> else po)"

text \<open>What \<open>Finalize\<close> does to the post office after its barrier.\<close>

definition po_finalize :: "postoffice \<Rightarrow> int \<Rightarrow> postoffice" where
  "po_finalize po cid =
     (if cid = 0 then
        po\<lparr>num_workers := 0, num_servers := 0, init_stage := 0, customers := Map.empty,
           node_ids := (\<lambda>_. []), barrier_done := (\<lambda>_. []), server_key_ranges := [],
           heartbeats := Map.empty\<rparr>
      else po)"

definition GetNodeIDs :: "postoffice \<Rightarrow> int \<Rightarrow> int list res" where
  "GetNodeIDs po g = rcheck (node_ids po g \<noteq> []) ''node doesn't exist'' (Inr (node_ids po g))"

subsection \<open>Key ranges\<close>

definition GetServerKeyRanges :: "postoffice \<Rightarrow> krange list \<times> postoffice" where
  "GetServerKeyRanges po =
     (if server_key_ranges po = [] then
        let rs = map (\<lambda>i. (kMaxKey div of_int (num_servers po) * of_int i,
                           kMaxKey div of_int (num_servers po) * of_int (i + 1)))
                   [0..num_servers po - 1]
        in (rs, po\<lparr>server_key_ranges := rs\<rparr>)
      else (server_key_ranges po, po))"

subsection \<open>Customers\<close>

definition customers_in :: "postoffice \<Rightarrow> int \<Rightarrow> (int \<times> handle) list" where
  "customers_in po app = (case customers po app of None \<Rightarrow> [] | Some m \<Rightarrow> m)"

text \<open>\<open>insert\<close> of an unordered map keeps an existing entry.\<close>

definition umap_insert :: "int \<Rightarrow> 'v \<Rightarrow> (int \<times> 'v) list \<Rightarrow> (int \<times> 'v) list" where
  "umap_insert k v m = (if map_of m k = None then (k, v) # m else m)"

definition AddCustomer :: "postoffice \<Rightarrow> int \<Rightarrow> int \<Rightarrow> handle \<Rightarrow> postoffice res" where
  "AddCustomer po app cid h =
     rcheck (map_of (customers_in po app) cid = None) ''customer_id already exists''
       (Inr (po\<lparr>customers := (customers po)(app \<mapsto> umap_insert cid h (customers_in po app)),
                barrier_done := (barrier_done po)(app := umap_insert cid False (barrier_done po app))\<rparr>))"

definition RemoveCustomer :: "postoffice \<Rightarrow> int \<Rightarrow> int \<Rightarrow> postoffice" where
  "RemoveCustomer po app cid =
     (let m = AList.delete cid (customers_in po app)
      in po\<lparr>customers := (customers po)(app := (if m = [] then None else Some m))\<rparr>)"

text \<open>
  \<open>GetCustomer\<close> polls once per millisecond; \<open>snap n\<close> is the customer table at attempt \<open>n\<close>, which
  other threads may change. It stops at the first attempt at which the application is known.
\<close>

fun GetCustomer_from ::
  "(nat \<Rightarrow> int \<rightharpoonup> (int \<times> handle) list) \<Rightarrow> int \<Rightarrow> int \<Rightarrow> nat \<Rightarrow> nat \<Rightarrow> handle option" where
  "GetCustomer_from snap app cid i 0 = None"
| "GetCustomer_from snap app cid i (Suc n) =
     (case snap i app of Some m \<Rightarrow> map_of m cid | None \<Rightarrow> GetCustomer_from snap app cid (Suc i) n)"

definition GetCustomer ::
  "(nat \<Rightarrow> int \<rightharpoonup> (int \<times> handle) list) \<Rightarrow> int \<Rightarrow> int \<Rightarrow> int \<Rightarrow> handle option" where
  "GetCustomer snap app cid timeout = GetCustomer_from snap app cid 0 (nat (timeout * 1000 + 1))"

subsection \<open>Barriers\<close>

text \<open>
  The request half of \<open>Barrier\<close>: \<open>None\<close> when the group has at most one node and no message is
  sent, otherwise the message for the scheduler and the state in which the caller waits. The
  role test is the bitwise and of the group with the role's bit.
\<close>

definition role_bit :: "role \<Rightarrow> int" where
  "role_bit r = (case r of SCHEDULER \<Rightarrow> kScheduler | WORKER \<Rightarrow> kWorkerGroup | SERVER \<Rightarrow> kServerGroup)"

definition Barrier_request ::
  "postoffice \<Rightarrow> role \<Rightarrow> int \<Rightarrow> int \<Rightarrow> int \<Rightarrow> (message option \<times> postoffice) res" where
  "Barrier_request po ro cid grp ts =
     rbind (GetNodeIDs po grp) (\<lambda>nodes.
       if length nodes \<le> 1 then Inr (None, po)
       else rcheck (and grp (role_bit ro) \<noteq> 0) ''node_group & role''
         (Inr (Some (upd_meta (\<lambda>m. m\<lparr>recver := kScheduler, request := True, app_id := 0,
                 customer_id := cid, timestamp := ts,
                 control := (control m)\<lparr>c_cmd := BARRIER, c_barrier_group := grp\<rparr>\<rparr>) Message),
               po\<lparr>barrier_done := (barrier_done po)(0 := AList.update cid False (barrier_done po 0))\<rparr>)))"

definition barrier_released :: "postoffice \<Rightarrow> int \<Rightarrow> bool" where
  "barrier_released po cid \<longleftrightarrow> map_of (barrier_done po 0) cid = Some True"

text \<open>
  The loop of \<open>Manage\<close>: it counts \<open>customer_id\<close> up to the current size of the map, into which it
  inserts. \<open>None\<close> is a loop that never ends.
\<close>

partial_function (option) Manage_loop :: "int \<Rightarrow> (int \<times> bool) list \<Rightarrow> (int \<times> bool) list option" where
  "Manage_loop cid al =
     (if cid < int (length al) then Manage_loop (cid + 1) (AList.update cid True al) else Some al)"

definition Manage :: "postoffice \<Rightarrow> message \<Rightarrow> postoffice res option" where
  "Manage po recv =
     (if control_empty (control (meta recv)) then Some (Inl (Check_failed ''!recv.meta.control.empty()''))
      else if cmd_of recv = BARRIER \<and> \<not> request (meta recv) then
        map_option (\<lambda>al. Inr (po\<lparr>barrier_done := (barrier_done po)(app_id (meta recv) := al)\<rparr>))
          (Manage_loop 0 (barrier_done po (app_id (meta recv))))
      else Some (Inr po))"

subsection \<open>Heartbeats\<close>

definition UpdateHeartbeat :: "postoffice \<Rightarrow> int \<Rightarrow> int \<Rightarrow> postoffice" where
  "UpdateHeartbeat po nid t = po\<lparr>heartbeats := (heartbeats po)(nid \<mapsto> t)\<rparr>"

definition node_dead :: "postoffice \<Rightarrow> int \<Rightarrow> int \<Rightarrow> int \<Rightarrow> bool" where
  "node_dead po t curr_time r \<longleftrightarrow>
     (case heartbeats po r of None \<Rightarrow> True | Some h \<Rightarrow> h + t < curr_time) \<and>
     po_start_time po + t < curr_time"

definition GetDeadNodes :: "postoffice \<Rightarrow> bool \<Rightarrow> int \<Rightarrow> int \<Rightarrow> int list res" where
  "GetDeadNodes po van_ready t curr_time =
     (if \<not> van_ready \<or> t = 0 then Inr []
      else rmap (filter (node_dead po t curr_time))
        (GetNodeIDs po (if is_scheduler po then kWorkerGroup + kServerGroup else kScheduler)))"

section \<open>Ids and ranks\<close>

lemmas id_defs = WorkerRankToID_def ServerRankToID_def kScheduler_def kServerGroup_def kWorkerGroup_def

lemma IDtoRank_server: "0 \<le> r \<Longrightarrow> IDtoRank (ServerRankToID r) = r"
  by (simp add: IDtoRank_def ServerRankToID_def sgn_mult signed_divide_int_def sgn_if)

lemma IDtoRank_worker: "0 \<le> r \<Longrightarrow> IDtoRank (WorkerRankToID r) = r"
  by (simp add: IDtoRank_def WorkerRankToID_def signed_divide_int_def)

section \<open>Node groups\<close>

lemma push_id_apply: "push_id i g m h = (if h = g then m h @ [i] else m h)"
  by (simp add: push_id_def)

lemma fold_push_id:
  "distinct gs \<Longrightarrow> fold (push_id i) gs m h = (if h \<in> set gs then m h @ [i] else m h)"
  by (induction gs arbitrary: m) (auto simp: push_id_apply)

lemma fold_push_ids:
  assumes "\<And>i. i \<in> set is \<Longrightarrow> distinct (gs i)"
  shows "fold (\<lambda>i. fold (push_id (f i)) (gs i)) is m h = m h @ map f (filter (\<lambda>i. h \<in> set (gs i)) is)"
  using assms by (induction "is" arbitrary: m) (auto simp: fold_push_id)

lemma distinct_worker_groups: "8 \<le> i \<Longrightarrow> distinct (worker_groups i)"
  by (auto simp: worker_groups_def id_defs)

lemma distinct_server_groups: "8 \<le> i \<Longrightarrow> distinct (server_groups i)"
  by (auto simp: server_groups_def id_defs)

lemma distinct_scheduler_groups: "distinct scheduler_groups"
  by (simp add: scheduler_groups_def id_defs)

lemma init_node_ids_eq:
  "init_node_ids nw ns m h =
     m h @ map WorkerRankToID (filter (\<lambda>i. h \<in> set (worker_groups (WorkerRankToID i))) [0..nw - 1])
         @ map ServerRankToID (filter (\<lambda>i. h \<in> set (server_groups (ServerRankToID i))) [0..ns - 1])
         @ (if h \<in> set scheduler_groups then [kScheduler] else [])"
proof -
  have w: "distinct (worker_groups (WorkerRankToID i))" if "i \<in> set [0..nw - 1]" for i
    using that by (intro distinct_worker_groups) (simp add: WorkerRankToID_def)
  have s: "distinct (server_groups (ServerRankToID i))" if "i \<in> set [0..ns - 1]" for i
    using that by (intro distinct_server_groups) (simp add: ServerRankToID_def)
  show ?thesis
    by (simp only: init_node_ids_def Let_def fold_push_id [OF distinct_scheduler_groups]
        fold_push_ids [OF w] fold_push_ids [OF s]) simp
qed

text \<open>The groups of a started node: every combination of roles, and every node by its own id.\<close>

lemma group_members:
  assumes "m = (\<lambda>_. [])"
  shows "init_node_ids nw ns m kServerGroup = map ServerRankToID [0..ns - 1]"
    and "init_node_ids nw ns m kWorkerGroup = map WorkerRankToID [0..nw - 1]"
    and "init_node_ids nw ns m kScheduler = [kScheduler]"
    and "init_node_ids nw ns m (kWorkerGroup + kServerGroup) =
           map WorkerRankToID [0..nw - 1] @ map ServerRankToID [0..ns - 1]"
    and "init_node_ids nw ns m (kWorkerGroup + kServerGroup + kScheduler) =
           map WorkerRankToID [0..nw - 1] @ map ServerRankToID [0..ns - 1] @ [kScheduler]"
  using assms
  by (auto simp: init_node_ids_eq worker_groups_def server_groups_def scheduler_groups_def id_defs
      filter_True filter_False)

lemma own_group_server:
  assumes "0 \<le> r" "r < ns"
  shows "init_node_ids nw ns (\<lambda>_. []) (ServerRankToID r) = [ServerRankToID r]"
proof -
  let ?h = "ServerRankToID r"
  have grp: "?h \<notin> {1, 2, 4, 5, 6, 3, 7}" using assms(1) by (auto simp: id_defs)
  have w: "filter (\<lambda>i. ?h \<in> set (worker_groups (WorkerRankToID i))) [0..nw - 1] = []"
    using grp by (auto simp: filter_empty_conv worker_groups_def id_defs) presburger
  have "(?h \<in> set (server_groups (ServerRankToID i))) = (i = r)" for i
    using grp by (auto simp: server_groups_def id_defs)
  then have s: "filter (\<lambda>i. ?h \<in> set (server_groups (ServerRankToID i))) [0..ns - 1] = [r]"
    using assms filter_single [of "[0..ns - 1]" r] by simp
  have "?h \<notin> set scheduler_groups" using grp by (simp add: scheduler_groups_def id_defs)
  with w s show ?thesis by (simp add: init_node_ids_eq)
qed

section \<open>Key ranges\<close>

lemma unat_minus_one_word_64: "unat (- 1 :: 64 word) = 18446744073709551615"
  by transfer (simp add: mask_eq_exp_minus_1)

lemma key_div_nat:
  assumes "0 < n" "n < 2 ^ 31" "0 \<le> i" "i \<le> n"
  shows "unat (kMaxKey div of_int n * of_int i :: key) = (2 ^ 64 - 1) div nat n * nat i"
proof -
  have k: "unat kMaxKey = 2 ^ 64 - 1" by (simp add: kMaxKey_def unat_minus_one_word_64)
  have nn: "unat (of_int n :: key) = nat n" "unat (of_int i :: key) = nat i"
    using assms by (auto simp: unat_eq_nat_uint uint_word_of_int take_bit_int_eq_self)
  have "(2 ^ 64 - 1) div nat n * nat i \<le> (2 ^ 64 - 1) div nat n * nat n"
    using assms by (intro mult_le_mono2) simp
  also have "\<dots> \<le> 2 ^ 64 - 1" by (rule div_times_less_eq_dividend)
  finally have "(2 ^ 64 - 1) div nat n * nat i < (2 ^ 64 :: nat)" by simp
  then show ?thesis
    by (simp add: unat_word_ariths unat_div nn k mod_mult_left_eq)
qed

lemma GetServerKeyRanges_ranges:
  assumes "server_key_ranges po = []" "0 < num_servers po" "num_servers po < 2 ^ 31"
    and "GetServerKeyRanges po = (rs, po')" and "i < nat (num_servers po)"
  shows "length rs = nat (num_servers po) \<and>
    unat (fst (rs ! i)) = (2 ^ 64 - 1) div nat (num_servers po) * i \<and>
    unat (snd (rs ! i)) = (2 ^ 64 - 1) div nat (num_servers po) * (i + 1)"
proof -
  let ?n = "num_servers po"
  have rs: "rs = map (\<lambda>i. (kMaxKey div of_int ?n * of_int i, kMaxKey div of_int ?n * of_int (i + 1)))
      [0..?n - 1]"
    using assms(1,4) by (auto simp: GetServerKeyRanges_def Let_def)
  have "rs ! i = (kMaxKey div of_int ?n * of_int (int i), kMaxKey div of_int ?n * of_int (int i + 1))"
    using assms(5) by (simp add: rs)
  then show ?thesis
    using key_div_nat [of ?n "int i"] key_div_nat [of ?n "int i + 1"] assms(2,3,5)
    by (simp add: rs nat_add_distrib)
qed

section \<open>Barrier release\<close>

lemma Manage_loop_step:
  "cid < int (length al) \<Longrightarrow> Manage_loop cid al = Manage_loop (cid + 1) (AList.update cid True al)"
  "\<not> cid < int (length al) \<Longrightarrow> Manage_loop cid al = Some al"
  by (subst Manage_loop.simps, simp)+

text \<open>
  The keys below \<open>cid\<close> are all present and marked; the loop goes on exactly while some key is
  at least \<open>cid\<close>, because the map then has more than \<open>cid\<close> entries.
\<close>

definition manage_inv :: "int \<Rightarrow> (int \<times> bool) list \<Rightarrow> bool" where
  "manage_inv cid al \<longleftrightarrow> 0 \<le> cid \<and> distinct (map fst al) \<and> (\<forall>k \<in> set (map fst al). 0 \<le> k) \<and>
     (\<forall>k. 0 \<le> k \<and> k < cid \<longrightarrow> map_of al k = Some True)"

lemma manage_inv_length:
  assumes "manage_inv cid al"
  shows "cid < int (length al) \<longleftrightarrow> (\<exists>k \<in> set (map fst al). cid \<le> k)"
proof -
  let ?K = "set (map fst al)"
  have card: "card ?K = length al"
    using assms distinct_card [of "map fst al"] by (simp add: manage_inv_def)
  have low: "{0..<cid} \<subseteq> ?K"
  proof
    fix k assume "k \<in> {0..<cid}"
    then have "map_of al k = Some True" using assms by (simp add: manage_inv_def)
    from map_of_SomeD [OF this] show "k \<in> ?K" by force
  qed
  show ?thesis
  proof
    assume lt: "cid < int (length al)"
    show "\<exists>k \<in> ?K. cid \<le> k"
    proof (rule ccontr)
      assume "\<not> (\<exists>k \<in> ?K. cid \<le> k)"
      then have "?K \<subseteq> {0..<cid}" using assms unfolding manage_inv_def by fastforce
      then have "card ?K \<le> card {0..<cid}" by (intro card_mono) auto
      with lt card assms show False unfolding manage_inv_def by simp linarith
    qed
  next
    assume "\<exists>k \<in> ?K. cid \<le> k"
    then obtain k where k: "k \<in> ?K" "cid \<le> k" by blast
    then have "card (insert k {0..<cid}) \<le> card ?K" using low by (intro card_mono) auto
    with k(2) card assms show "cid < int (length al)" by (simp add: manage_inv_def)
  qed
qed

lemma manage_inv_step:
  assumes "manage_inv cid al"
  shows "manage_inv (cid + 1) (AList.update cid True al)"
  using assms
  by (auto simp: manage_inv_def distinct_update update_conv' dom_update order_less_le
      simp flip: map_map dest: zless_imp_add1_zle)

lemma Manage_loop_total:
  assumes "manage_inv cid al" "\<forall>k \<in> set (map fst al). k \<le> M"
  shows "\<exists>al'. Manage_loop cid al = Some al' \<and> set (map fst al) \<subseteq> set (map fst al') \<and>
    (\<forall>k \<in> set (map fst al'). map_of al' k = Some True)"
  using assms
proof (induction "nat (M + 1 - cid)" arbitrary: cid al rule: less_induct)
  case less
  show ?case
  proof (cases "cid < int (length al)")
    case False
    then have "\<forall>k \<in> set (map fst al). k < cid"
      using manage_inv_length [OF less.prems(1)] by auto
    then have "\<forall>k \<in> set (map fst al). map_of al k = Some True"
      using less.prems by (auto simp: manage_inv_def)
    with False show ?thesis by (simp add: Manage_loop_step)
  next
    case True
    let ?al = "AList.update cid True al"
    from True manage_inv_length [OF less.prems(1)] less.prems(2) have le: "cid \<le> M" by force
    have keys: "set (map fst ?al) = insert cid (set (map fst al))" by (simp add: dom_update)
    have M: "\<forall>k \<in> set (map fst ?al). k \<le> M" unfolding keys using le less.prems(2) by auto
    have "nat (M + 1 - (cid + 1)) < nat (M + 1 - cid)" using le by simp
    from less.hyps [OF this manage_inv_step [OF less.prems(1)] M] True keys show ?thesis
      by (auto simp: Manage_loop_step)
  qed
qed

end
