(* ===== verification/NS_Queue.thy ===== *)
theory NS_Queue
  imports NS_Message
begin

text \<open>
  The message queues (\<open>include/ps/internal/threadsafe_queue.h\<close>, \<open>threadsafe_pqueue.h\<close>): a
  \<open>std::priority_queue\<close> over a vector, ordered by \<open>meta.priority\<close>. The standard library's binary
  heap is written out (\<open>push_heap\<close> moves the new element towards the root, \<open>pop_heap\<close> moves the
  hole to a leaf and then the last element up again). The locale \<open>pqueue\<close> states what the
  clients of a queue rely on; it is interpreted on the heap.
\<close>

section \<open>The heap\<close>

text \<open>
  \<open>below\<close> is the comparison object: \<open>below x y\<close> says that \<open>x\<close> may be placed below \<open>y\<close>.
\<close>

function sift_up :: "('a \<Rightarrow> 'a \<Rightarrow> bool) \<Rightarrow> 'a list \<Rightarrow> nat \<Rightarrow> 'a \<Rightarrow> 'a list" where
  "sift_up below xs h v =
     (if 0 < h \<and> below (xs ! ((h - 1) div 2)) v
      then sift_up below (xs[h := xs ! ((h - 1) div 2)]) ((h - 1) div 2) v
      else xs[h := v])"
  by auto
termination by (relation "measure (\<lambda>(_, _, h, _). h)") auto

function hole_down :: "('a \<Rightarrow> 'a \<Rightarrow> bool) \<Rightarrow> 'a list \<Rightarrow> nat \<Rightarrow> 'a list \<times> nat" where
  "hole_down below xs h =
     (if 2 * h + 2 < length xs then
        let c = (if below (xs ! (2 * h + 2)) (xs ! (2 * h + 1)) then 2 * h + 1 else 2 * h + 2)
        in hole_down below (xs[h := xs ! c]) c
      else if 2 * h + 2 = length xs then (xs[h := xs ! (2 * h + 1)], 2 * h + 1)
      else (xs, h))"
  by auto
termination by (relation "measure (\<lambda>(_, xs, h). length xs - h)") auto

declare sift_up.simps [simp del] hole_down.simps [simp del]

definition heap_push :: "('a \<Rightarrow> 'a \<Rightarrow> bool) \<Rightarrow> 'a list \<Rightarrow> 'a \<Rightarrow> 'a list" where
  "heap_push below xs v = sift_up below (xs @ [v]) (length xs) v"

definition heap_pop :: "('a \<Rightarrow> 'a \<Rightarrow> bool) \<Rightarrow> 'a list \<Rightarrow> 'a list" where
  "heap_pop below xs =
     (if length xs \<le> 1 then []
      else let (ys, h) = hole_down below (butlast xs) 0 in sift_up below ys h (last xs))"

section \<open>The queues of messages\<close>

type_synonym queue = "message list"

definition Compare :: "message \<Rightarrow> message \<Rightarrow> bool" where
  "Compare l r \<longleftrightarrow> priority (meta l) \<le> priority (meta r)"

definition Push :: "queue \<Rightarrow> message \<Rightarrow> queue" where
  "Push q m = heap_push Compare q m"

text \<open>\<open>None\<close>: the queue is empty and the calling thread waits.\<close>

definition WaitAndPop :: "queue \<Rightarrow> (message \<times> queue) option" where
  "WaitAndPop q = (if q = [] then None else Some (q ! 0, heap_pop Compare q))"

definition q_empty :: "queue \<Rightarrow> bool" where
  "q_empty q \<longleftrightarrow> q = []"

definition q_size :: "queue \<Rightarrow> int" where
  "q_size q = int (length q)"

definition q_top :: "queue \<Rightarrow> message res" where
  "q_top q = (if q = [] then Inl (Undefined ''top of an empty queue'') else Inr (q ! 0))"

definition queue_check :: "queue \<Rightarrow> bool" where
  "queue_check q \<longleftrightarrow>
     q \<noteq> [] \<and> cmd_of (q ! 0) = REPLY1 \<and> recver (meta (q ! 0)) smod 2 = 0"

definition QueuePush :: "queue \<Rightarrow> message \<Rightarrow> queue" where
  "QueuePush q m = heap_push Compare q m"

definition WaitAndPop2 :: "queue \<Rightarrow> (message \<times> queue) res" where
  "WaitAndPop2 q = rbind (q_top q) (\<lambda>m. Inr (m, heap_pop Compare q))"

section \<open>Correctness of the heap\<close>

lemma mset_move:
  assumes "h < length xs" "p < length xs" "p \<noteq> h"
  shows "mset (xs[h := xs ! p]) - {# xs[h := xs ! p] ! p #} = mset xs - {# xs ! h #}"
  using assms by (simp add: mset_update)

lemma length_sift_up [simp]: "length (sift_up below xs h v) = length xs"
  by (induction below xs h v rule: sift_up.induct) (subst sift_up.simps, simp)

text \<open>Replacing the element in the hole: the contents change by that element only.\<close>

lemma mset_sift_up:
  "h < length xs \<Longrightarrow> mset (sift_up below xs h v) = add_mset v (mset xs - {# xs ! h #})"
proof (induction below xs h v rule: sift_up.induct)
  case (1 below xs h v)
  let ?p = "(h - 1) div 2"
  show ?case
  proof (cases "0 < h \<and> below (xs ! ?p) v")
    case True
    then have p: "?p < h" by auto
    with 1(1) [OF True] 1(2) mset_move [of h xs ?p]
    have "mset (sift_up below (xs[h := xs ! ?p]) ?p v) = add_mset v (mset xs - {# xs ! h #})"
      by simp
    with True show ?thesis by (simp add: sift_up.simps [of below xs h v])
  next
    case False
    with 1(2) show ?thesis by (auto simp: sift_up.simps [of below xs h v] mset_update)
  qed
qed

text \<open>
  What moving the hole down keeps: a relation between the vector and the hole that is kept when
  the greatest child of the hole takes its place.
\<close>

lemma hole_down_invariant:
  fixes prio :: "'a \<Rightarrow> int"
  assumes "I xs h" "h < length xs"
    and step: "\<And>xs h c. I xs h \<Longrightarrow> c < length xs \<Longrightarrow> c = 2 * h + 1 \<or> c = 2 * h + 2 \<Longrightarrow>
      (\<And>d. d = 2 * h + 1 \<or> d = 2 * h + 2 \<Longrightarrow> d < length xs \<Longrightarrow> prio (xs ! d) \<le> prio (xs ! c)) \<Longrightarrow>
      I (xs[h := xs ! c]) c"
    and "hole_down (\<lambda>x y. prio x \<le> prio y) xs h = (ys, k)"
  shows "I ys k \<and> k < length ys \<and> length ys = length xs \<and> length ys \<le> 2 * k + 1"
  using assms(1,2,4)
proof (induction "\<lambda>x y :: 'a. prio x \<le> prio y" xs h rule: hole_down.induct)
  case (1 xs h)
  let ?c = "if prio (xs ! (2 * h + 2)) \<le> prio (xs ! (2 * h + 1)) then 2 * h + 1 else 2 * h + 2"
  consider "2 * h + 2 < length xs" | "2 * h + 2 = length xs" | "length xs < 2 * h + 2" by linarith
  then show ?case
  proof cases
    case a: 1
    have "I (xs[h := xs ! ?c]) ?c" using a by (intro step [OF "1.prems"(1)]) auto
    moreover have "hole_down (\<lambda>x y. prio x \<le> prio y) (xs[h := xs ! ?c]) ?c = (ys, k)"
      using a "1.prems"(3) by (subst (asm) hole_down.simps) (simp only: Let_def if_True)
    moreover have "?c < length xs" using a by simp
    ultimately show ?thesis using "1.hyps" [OF a refl] unfolding length_list_update by blast
  next
    case a: 2
    then have "I (xs[h := xs ! (2 * h + 1)]) (2 * h + 1)"
      by (intro step [OF "1.prems"(1)]) auto
    with a "1.prems"(3) show ?thesis by (auto simp: hole_down.simps)
  next
    case a: 3
    with "1.prems" show ?thesis by (auto simp: hole_down.simps)
  qed
qed

text \<open>
  \<open>heap_from\<close>: no element is above its parent; \<open>heap_hole\<close>: the same of every pair that does not
  involve the hole, and the children of the hole are not above its parent.
\<close>

definition heap :: "('a \<Rightarrow> int) \<Rightarrow> 'a list \<Rightarrow> bool" where
  "heap prio xs \<longleftrightarrow> (\<forall>i. 0 < i \<and> i < length xs \<longrightarrow> prio (xs ! i) \<le> prio (xs ! ((i - 1) div 2)))"

definition heap_hole :: "('a \<Rightarrow> int) \<Rightarrow> 'a list \<Rightarrow> nat \<Rightarrow> bool" where
  "heap_hole prio xs h \<longleftrightarrow>
     (\<forall>i. 0 < i \<and> i < length xs \<and> i \<noteq> h \<and> (i - 1) div 2 \<noteq> h \<longrightarrow>
        prio (xs ! i) \<le> prio (xs ! ((i - 1) div 2))) \<and>
     (\<forall>i. 0 < i \<and> i < length xs \<and> (i - 1) div 2 = h \<and> 0 < h \<longrightarrow>
        prio (xs ! i) \<le> prio (xs ! ((h - 1) div 2)))"

lemma heap_holeD:
  assumes "heap_hole prio xs h" "0 < i" "i < length xs"
  shows "i \<noteq> h \<Longrightarrow> (i - 1) div 2 \<noteq> h \<Longrightarrow> prio (xs ! i) \<le> prio (xs ! ((i - 1) div 2))"
    and "(i - 1) div 2 = h \<Longrightarrow> 0 < h \<Longrightarrow> prio (xs ! i) \<le> prio (xs ! ((h - 1) div 2))"
  using assms by (auto simp: heap_hole_def)

lemma heap_hole_up:
  assumes "heap_hole prio xs h" "0 < h" "h < length xs"
  shows "heap_hole prio (xs[h := xs ! ((h - 1) div 2)]) ((h - 1) div 2)"
proof -
  let ?p = "(h - 1) div 2"
  have p: "?p < h" using assms(2) by auto
  show ?thesis
    unfolding heap_hole_def
  proof (intro conjI allI impI)
    fix i assume i: "0 < i \<and> i < length (xs[h := xs ! ?p]) \<and> i \<noteq> ?p \<and> (i - 1) div 2 \<noteq> ?p"
    then have "i \<noteq> h" by auto
    with i p assms show "prio (xs[h := xs ! ?p] ! i) \<le> prio (xs[h := xs ! ?p] ! ((i - 1) div 2))"
      using heap_holeD [OF assms(1), of i] by (cases "(i - 1) div 2 = h") auto
  next
    fix i assume i: "0 < i \<and> i < length (xs[h := xs ! ?p]) \<and> (i - 1) div 2 = ?p \<and> 0 < ?p"
    then have gp: "prio (xs ! ?p) \<le> prio (xs ! ((?p - 1) div 2))"
      using p assms by (intro heap_holeD(1) [OF assms(1)]) auto
    have "i \<noteq> h \<Longrightarrow> prio (xs ! i) \<le> prio (xs ! ?p)"
      using heap_holeD(1) [OF assms(1), of i] i p by auto
    moreover have "(?p - 1) div 2 \<noteq> h" using i p by linarith
    ultimately show "prio (xs[h := xs ! ?p] ! i) \<le> prio (xs[h := xs ! ?p] ! ((?p - 1) div 2))"
      using gp p i assms(3) by (cases "i = h") auto
  qed
qed

lemma heap_sift_up:
  assumes "heap_hole prio xs h" "h < length xs"
    and "\<And>i. 0 < i \<Longrightarrow> i < length xs \<Longrightarrow> (i - 1) div 2 = h \<Longrightarrow> prio (xs ! i) \<le> prio v"
  shows "heap prio (sift_up (\<lambda>x y. prio x \<le> prio y) xs h v)"
  using assms
proof (induction "\<lambda>x y :: 'a. prio x \<le> prio y" xs h v rule: sift_up.induct)
  case (1 xs h v)
  let ?p = "(h - 1) div 2"
  show ?case
  proof (cases "0 < h \<and> prio (xs ! ?p) \<le> prio v")
    case True
    then have p: "?p < h" by auto
    have "prio (xs[h := xs ! ?p] ! i) \<le> prio v"
      if "0 < i" "i < length (xs[h := xs ! ?p])" "(i - 1) div 2 = ?p" for i
      using that True p "1.prems"(2) heap_holeD(1) [OF "1.prems"(1), of i] by (cases "i = h") auto
    with 1(1) [OF True heap_hole_up] True p 1(2,3) show ?thesis
      by (simp add: sift_up.simps [of _ xs h v])
  next
    case False
    have "prio (xs[h := v] ! i) \<le> prio (xs[h := v] ! ((i - 1) div 2))" if i: "0 < i" "i < length xs" for i
      using that False "1.prems" heap_holeD(1) [OF "1.prems"(1), of i]
      by (cases "i = h"; cases "(i - 1) div 2 = h") auto
    with False show ?thesis by (auto simp: sift_up.simps [of _ xs h v] heap_def)
  qed
qed

lemma heap_hole_down_step:
  assumes "heap_hole prio xs h" "c < length xs" "c = 2 * h + 1 \<or> c = 2 * h + 2"
    and "\<And>d. d = 2 * h + 1 \<or> d = 2 * h + 2 \<Longrightarrow> d < length xs \<Longrightarrow> prio (xs ! d) \<le> prio (xs ! c)"
  shows "heap_hole prio (xs[h := xs ! c]) c"
proof -
  have par: "(c - 1) div 2 = h" "h < c" using assms(3) by auto
  have ch: "i = 2 * h + 1 \<or> i = 2 * h + 2" if "(i - 1) div 2 = h" "0 < i" for i using that by arith
  show ?thesis
    unfolding heap_hole_def
  proof (intro conjI allI impI)
    fix i assume i: "0 < i \<and> i < length (xs[h := xs ! c]) \<and> i \<noteq> c \<and> (i - 1) div 2 \<noteq> c"
    consider "i = h" | "(i - 1) div 2 = h" "i \<noteq> h" | "(i - 1) div 2 \<noteq> h" "i \<noteq> h" by blast
    then show "prio (xs[h := xs ! c] ! i) \<le> prio (xs[h := xs ! c] ! ((i - 1) div 2))"
    proof cases
      case 1
      with i have "(i - 1) div 2 \<noteq> h" by auto
      with 1 i par assms(2,3) show ?thesis using heap_holeD(2) [OF assms(1), of c] by auto
    next
      case 2
      with i par assms(2) show ?thesis using assms(4) [OF ch] by auto
    next
      case 3
      with i show ?thesis using heap_holeD(1) [OF assms(1), of i] by auto
    qed
  next
    fix i assume i: "0 < i \<and> i < length (xs[h := xs ! c]) \<and> (i - 1) div 2 = c \<and> 0 < c"
    then have lt: "c < i" by linarith
    then have "prio (xs ! i) \<le> prio (xs ! c)"
      using i par heap_holeD(1) [OF assms(1), of i] by auto
    with i lt par assms(2) show "prio (xs[h := xs ! c] ! i) \<le> prio (xs[h := xs ! c] ! ((c - 1) div 2))"
      by auto
  qed
qed

lemma heap_root_max:
  assumes "heap prio xs" "i < length xs"
  shows "prio (xs ! i) \<le> prio (xs ! 0)"
  using assms(2)
proof (induction i rule: less_induct)
  case (less i)
  show ?case
  proof (cases "i = 0")
    case False
    then have "prio (xs ! i) \<le> prio (xs ! ((i - 1) div 2))" using assms(1) less.prems by (auto simp: heap_def)
    also have "\<dots> \<le> prio (xs ! 0)" using False less.prems by (intro less.IH) auto
    finally show ?thesis .
  qed simp
qed

lemma heap_empty [simp]: "heap prio []"
  by (simp add: heap_def)

lemma heap_heap_push:
  assumes "heap prio xs"
  shows "heap prio (heap_push (\<lambda>x y. prio x \<le> prio y) xs v)"
  unfolding heap_push_def
proof (rule heap_sift_up)
  have par: "(i - 1) div 2 < length xs" if "0 < i" "i < length (xs @ [v])" for i
    using that by auto
  have "prio ((xs @ [v]) ! i) \<le> prio ((xs @ [v]) ! ((i - 1) div 2))"
    if "0 < i" "i < length (xs @ [v])" "i \<noteq> length xs" for i
    using that par [OF that(1,2)] assms by (simp add: heap_def nth_append)
  with par show "heap_hole prio (xs @ [v]) (length xs)"
    unfolding heap_hole_def by (metis less_irrefl)
  show "prio ((xs @ [v]) ! i) \<le> prio v"
    if "0 < i" "i < length (xs @ [v])" "(i - 1) div 2 = length xs" for i
    using par [OF that(1,2)] that(3) by simp
qed simp

lemma mset_heap_push: "mset (heap_push below xs v) = add_mset v (mset xs)"
  by (simp add: heap_push_def mset_sift_up)

lemma heap_pop_correct:
  assumes "heap prio xs" "xs \<noteq> []"
  shows "heap prio (heap_pop (\<lambda>x y. prio x \<le> prio y) xs) \<and>
         mset (heap_pop (\<lambda>x y. prio x \<le> prio y) xs) = mset xs - {# xs ! 0 #}"
proof (cases "length xs \<le> 1")
  case True
  with assms(2) obtain x where "xs = [x]" by (cases xs) auto
  then show ?thesis by (simp add: heap_pop_def)
next
  case False
  let ?b = "butlast xs" and ?I = "\<lambda>ys h. heap_hole prio ys h \<and> h < length ys \<and>
    mset ys - {# ys ! h #} = mset (butlast xs) - {# butlast xs ! 0 #}"
  obtain ys h where d: "hole_down (\<lambda>x y. prio x \<le> prio y) ?b 0 = (ys, h)" by fastforce
  have "?I ys h \<and> h < length ys \<and> length ys = length ?b \<and> length ys \<le> 2 * h + 1"
  proof (rule hole_down_invariant [OF _ _ _ d])
    show "?I ?b 0"
      using assms(1) False by (auto simp: heap_hole_def heap_def nth_butlast)
  next
    fix zs k c
    assume "?I zs k" "c < length zs" "c = 2 * k + 1 \<or> c = 2 * k + 2"
      "\<And>d. d = 2 * k + 1 \<or> d = 2 * k + 2 \<Longrightarrow> d < length zs \<Longrightarrow> prio (zs ! d) \<le> prio (zs ! c)"
    note st = this
    have "heap_hole prio (zs[k := zs ! c]) c" using st by (intro heap_hole_down_step) blast+
    moreover have "k < length zs" "c \<noteq> k" using st(1,3) by auto
    ultimately show "?I (zs[k := zs ! c]) c"
      using mset_move [of k zs c] st(1,2) unfolding length_list_update by metis
  qed (use False in simp)
  then have I: "?I ys h" "length ys \<le> 2 * h + 1" by auto
  have pop: "heap_pop (\<lambda>x y. prio x \<le> prio y) xs = sift_up (\<lambda>x y. prio x \<le> prio y) ys h (last xs)"
    using False d by (simp add: heap_pop_def)
  have "heap prio (sift_up (\<lambda>x y. prio x \<le> prio y) ys h (last xs))"
    using I by (intro heap_sift_up) auto
  moreover have "add_mset (last xs) (mset ?b - {# ?b ! 0 #}) = mset xs - {# xs ! 0 #}"
    using False assms(2) by (cases xs rule: rev_cases) (auto simp: nth_append)
  ultimately show ?thesis using I pop by (simp add: mset_sift_up)
qed

section \<open>The contract of a priority queue\<close>

fun drain :: "('q \<Rightarrow> ('a \<times> 'q) option) \<Rightarrow> nat \<Rightarrow> 'q \<Rightarrow> 'a list" where
  "drain popf 0 q = []"
| "drain popf (Suc n) q = (case popf q of None \<Rightarrow> [] | Some (x, q') \<Rightarrow> x # drain popf n q')"

locale pqueue =
  fixes prio :: "'a \<Rightarrow> int"
    and ok :: "'q \<Rightarrow> bool"
    and contents :: "'q \<Rightarrow> 'a multiset"
    and pushf :: "'q \<Rightarrow> 'a \<Rightarrow> 'q"
    and popf :: "'q \<Rightarrow> ('a \<times> 'q) option"
  assumes ok_push: "ok q \<Longrightarrow> ok (pushf q x)"
    and contents_push: "ok q \<Longrightarrow> contents (pushf q x) = add_mset x (contents q)"
    and pop_None: "ok q \<Longrightarrow> popf q = None \<longleftrightarrow> contents q = {#}"
    and pop_Some: "ok q \<Longrightarrow> popf q = Some (x, q') \<Longrightarrow>
      ok q' \<and> contents q = add_mset x (contents q') \<and> (\<forall>y \<in># contents q'. prio y \<le> prio x)"
begin

lemma pop_push_not_stuck: "ok q \<Longrightarrow> \<exists>y q'. popf (pushf q x) = Some (y, q')"
  using pop_None [OF ok_push, of q x] contents_push [of q x] by (cases "popf (pushf q x)") auto

text \<open>An element of higher priority than all that wait overtakes them.\<close>

lemma pop_overtakes:
  assumes "ok q" "\<forall>y \<in># contents q. prio y < prio x"
  shows "\<exists>q'. popf (pushf q x) = Some (x, q') \<and> ok q' \<and> contents q' = contents q"
proof -
  obtain y q' where p: "popf (pushf q x) = Some (y, q')" using pop_push_not_stuck [OF assms(1)] by blast
  from pop_Some [OF ok_push [OF assms(1)] p]
  have y: "ok q'" "add_mset x (contents q) = add_mset y (contents q')" "\<forall>z \<in># contents q'. prio z \<le> prio y"
    by (auto simp: contents_push [OF assms(1)])
  have "y = x"
  proof (rule ccontr)
    assume "y \<noteq> x"
    with y(2) have "y \<in># contents q" "x \<in># contents q'"
      by (metis insert_iff set_mset_add_mset_insert)+
    with assms(2) y(3) show False by fastforce
  qed
  with p y show ?thesis by auto
qed

lemma drain_sorted:
  assumes "ok q" "size (contents q) \<le> n"
  shows "mset (drain popf n q) = contents q \<and> sorted_wrt (\<lambda>x y. prio y \<le> prio x) (drain popf n q)"
  using assms
proof (induction n arbitrary: q)
  case (Suc n)
  show ?case
  proof (cases "popf q")
    case None
    with pop_None [OF Suc.prems(1)] show ?thesis by simp
  next
    case (Some p)
    then obtain x q' where p: "popf q = Some (x, q')" by (cases p) auto
    from pop_Some [OF Suc.prems(1) this] Suc.prems(2)
    have q': "ok q'" "contents q = add_mset x (contents q')" "\<forall>y \<in># contents q'. prio y \<le> prio x"
      "size (contents q') \<le> n" by auto
    with Suc.IH [OF q'(1,4)] p show ?thesis by (auto simp flip: set_mset_mset)
  qed
qed simp

end

section \<open>The message queue is a priority queue\<close>

abbreviation prio_of :: "message \<Rightarrow> int" where
  "prio_of m \<equiv> priority (meta m)"

definition queue_ok :: "queue \<Rightarrow> bool" where
  "queue_ok q \<longleftrightarrow> heap prio_of q"

lemma Compare_prio: "Compare = (\<lambda>x y. prio_of x \<le> prio_of y)"
  by (intro ext) (simp add: Compare_def)

interpretation mq: pqueue prio_of queue_ok mset Push WaitAndPop
proof
  fix q m
  assume "queue_ok q"
  then show "queue_ok (Push q m)"
    by (simp add: queue_ok_def Push_def Compare_prio heap_heap_push)
next
  fix q m
  show "mset (Push q m) = add_mset m (mset q)"
    by (simp add: Push_def mset_heap_push)
next
  fix q
  show "(WaitAndPop q = None) = (mset q = {#})"
    by (simp add: WaitAndPop_def)
next
  fix q m q'
  assume q: "queue_ok q" and "WaitAndPop q = Some (m, q')"
  then have p: "q \<noteq> []" "m = q ! 0" "q' = heap_pop Compare q"
    by (auto simp: WaitAndPop_def split: if_splits)
  from heap_pop_correct [of prio_of q] q p
  have h: "heap prio_of q'" "mset q' = mset q - {# q ! 0 #}"
    by (auto simp: queue_ok_def Compare_prio)
  have "prio_of y \<le> prio_of m" if "y \<in># mset q'" for y
  proof -
    from that h(2) have "y \<in> set q" by (metis in_diffD set_mset_mset)
    with heap_root_max [of prio_of q] q p show ?thesis by (auto simp: queue_ok_def in_set_conv_nth)
  qed
  with h p show "queue_ok q' \<and> mset q = add_mset m (mset q') \<and> (\<forall>y \<in># mset q'. prio_of y \<le> prio_of m)"
    by (simp add: queue_ok_def)
qed

lemma queue_ok_empty [simp]: "queue_ok []"
  by (simp add: queue_ok_def)

lemma QueuePush_eq: "QueuePush = Push"
  by (intro ext) (simp add: QueuePush_def Push_def)

lemma WaitAndPop2_eq:
  "WaitAndPop2 q = (case WaitAndPop q of None \<Rightarrow> Inl (Undefined ''top of an empty queue'') | Some p \<Rightarrow> Inr p)"
  by (simp add: WaitAndPop2_def WaitAndPop_def q_top_def)

end
