(* ===== verification/NS_Customer.thy ===== *)
theory NS_Customer
  imports NS_Postoffice NS_Queue
begin

text \<open>
  Customers (\<open>src/customer.cc\<close>, \<open>include/ps/internal/customer.h\<close>): the tracker of requests and
  responses and the receiving thread. The receive handle is a parameter that acts on the
  application's state. The wait on the condition variable is the predicate the thread waits
  for; the threads that call a customer are sequences of its events in any order.
\<close>

section \<open>State and operations\<close>

record customer =
  cu_app_id :: int
  cu_customer_id :: int
  recv_queue :: queue
  tracker :: "(int \<times> int) list"
  joined :: bool   \<comment> \<open>the receiving thread has left its loop\<close>

type_synonym 's recv_handle = "message \<Rightarrow> 's \<Rightarrow> 's res"

definition Customer :: "postoffice \<Rightarrow> int \<Rightarrow> int \<Rightarrow> handle \<Rightarrow> (customer \<times> postoffice) res" where
  "Customer po aid cid h = rbind (AddCustomer po aid cid h) (\<lambda>po'.
     Inr (\<lparr>cu_app_id = aid, cu_customer_id = cid, recv_queue = [], tracker = [], joined = False\<rparr>, po'))"

text \<open>The destructor, up to the join of the receiving thread.\<close>

definition Customer_destroy :: "customer \<Rightarrow> postoffice \<Rightarrow> customer \<times> postoffice" where
  "Customer_destroy c po =
     (c\<lparr>recv_queue := Push (recv_queue c) (upd_meta (set_cmd TERMINATE) Message)\<rparr>,
      RemoveCustomer po (cu_app_id c) (cu_customer_id c))"

definition NewRequest :: "postoffice \<Rightarrow> int \<Rightarrow> customer \<Rightarrow> (int \<times> customer) res" where
  "NewRequest po r c = rbind (GetNodeIDs po r) (\<lambda>ids.
     Inr (int (length (tracker c)), c\<lparr>tracker := tracker c @ [(int (length ids), 0)]\<rparr>))"

text \<open>The condition \<open>WaitRequest\<close> waits for.\<close>

definition WaitRequest :: "customer \<Rightarrow> int \<Rightarrow> bool res" where
  "WaitRequest c ts = rbind (vec_at (tracker c) ts) (\<lambda>p. Inr (fst p = snd p))"

definition NumResponse :: "customer \<Rightarrow> int \<Rightarrow> int res" where
  "NumResponse c ts = rbind (vec_at (tracker c) ts) (\<lambda>p. Inr (snd p))"

definition AddResponse :: "int \<Rightarrow> int \<Rightarrow> customer \<Rightarrow> customer res" where
  "AddResponse ts n c = rbind (vec_at (tracker c) ts) (\<lambda>p.
     if cint_in_range (snd p + n)
     then rmap (\<lambda>t. c\<lparr>tracker := t\<rparr>) (vec_set (tracker c) ts (fst p, snd p + n))
     else Inl (Undefined ''signed overflow''))"

definition Accept :: "message \<Rightarrow> customer \<Rightarrow> customer" where
  "Accept m c = c\<lparr>recv_queue := Push (recv_queue c) m\<rparr>"

text \<open>
  One iteration of the loop of \<open>Receiving\<close>, with the messages it handed to the receive handle.
  On an empty queue the thread waits and nothing changes.
\<close>

definition Receiving_step ::
  "'s recv_handle \<Rightarrow> customer \<Rightarrow> 's \<Rightarrow> (message list \<times> customer \<times> 's) res" where
  "Receiving_step h c s =
     (if joined c then Inr ([], c, s)
      else case WaitAndPop (recv_queue c) of
        None \<Rightarrow> Inr ([], c, s)
      | Some (m, q) \<Rightarrow>
          if \<not> control_empty (control (meta m)) \<and> cmd_of m = TERMINATE
          then Inr ([], c\<lparr>recv_queue := q, joined := True\<rparr>, s)
          else rbind (h m s) (\<lambda>s'.
            if request (meta m) then Inr ([m], c\<lparr>recv_queue := q\<rparr>, s')
            else rmap (\<lambda>c'. ([m], c', s'))
              (AddResponse (timestamp (meta m)) 1 (c\<lparr>recv_queue := q\<rparr>))))"

section \<open>Sequences of events\<close>

datatype customer_event = New_request int | Accept_msg message | Add_response int int | Receive

fun customer_do ::
  "postoffice \<Rightarrow> 's recv_handle \<Rightarrow> customer_event \<Rightarrow> customer \<times> 's \<Rightarrow>
   (message list \<times> customer \<times> 's) res" where
  "customer_do po h (New_request r) (c, s) = rmap (\<lambda>(_, c'). ([], c', s)) (NewRequest po r c)"
| "customer_do po h (Accept_msg m) (c, s) = Inr ([], Accept m c, s)"
| "customer_do po h (Add_response ts n) (c, s) = rmap (\<lambda>c'. ([], c', s)) (AddResponse ts n c)"
| "customer_do po h Receive (c, s) = Receiving_step h c s"

fun customer_run ::
  "postoffice \<Rightarrow> 's recv_handle \<Rightarrow> customer_event list \<Rightarrow> customer \<times> 's \<Rightarrow>
   (message list \<times> customer \<times> 's) res" where
  "customer_run po h [] cs = Inr ([], cs)"
| "customer_run po h (e # es) cs = rbind (customer_do po h e cs) (\<lambda>(l, cs').
     rmap (\<lambda>(l', cs''). (l @ l', cs'')) (customer_run po h es cs'))"

section \<open>The tracker counts the responses\<close>

definition is_response :: "int \<Rightarrow> message \<Rightarrow> bool" where
  "is_response ts m \<longleftrightarrow> \<not> request (meta m) \<and> timestamp (meta m) = ts"

fun added :: "int \<Rightarrow> customer_event \<Rightarrow> int" where
  "added ts (Add_response t n) = (if t = ts then n else 0)"
| "added ts _ = 0"

definition responses :: "int \<Rightarrow> message list \<Rightarrow> int" where
  "responses ts ms = int (length (filter (is_response ts) ms))"

lemma responses_simps [simp]:
  "responses ts [] = 0"
  "responses ts (m # ms) = (if is_response ts m then 1 else 0) + responses ts ms"
  "responses ts (ms @ ns) = responses ts ms + responses ts ns"
  by (simp_all add: responses_def)

definition tracks :: "nat \<Rightarrow> int \<Rightarrow> int \<Rightarrow> customer \<Rightarrow> bool" where
  "tracks ts n k c \<longleftrightarrow> ts < length (tracker c) \<and> tracker c ! ts = (n, k)"

lemma AddResponse_tracks:
  assumes "AddResponse t j c = Inr c'" "tracks ts n k c"
  shows "tracks ts n (k + (if t = int ts then j else 0)) c'"
  using assms
  by (auto simp: AddResponse_def rbind_Inr_iff rmap_Inr_iff vec_simps tracks_def nth_list_update
      split: if_splits)

lemma NewRequest_tracks:
  "NewRequest po r c = Inr (t, c') \<Longrightarrow> tracks ts n k c \<Longrightarrow> tracks ts n k c'"
  by (auto simp: NewRequest_def rbind_Inr_iff tracks_def nth_append)

lemma Receiving_tracks:
  assumes "Receiving_step h c s = Inr (l, c', s')" "tracks ts n k c"
  shows "tracks ts n (k + responses (int ts) l) c'"
proof -
  have q: "tracks ts n k (c\<lparr>recv_queue := q, joined := j\<rparr>) = tracks ts n k c"
    "tracks ts n k (c\<lparr>recv_queue := q\<rparr>) = tracks ts n k c" for q j
    by (simp_all add: tracks_def)
  show ?thesis
    using assms q
    by (auto simp: Receiving_step_def rbind_Inr_iff rmap_Inr_iff is_response_def
        split: if_splits option.splits dest!: AddResponse_tracks [where ts = ts])
qed

lemma customer_do_tracks:
  assumes "customer_do po h e (c, s) = Inr (l, c', s')" "tracks ts n k c"
  shows "tracks ts n (k + responses (int ts) l + added (int ts) e) c'"
  using assms
  by (cases e) (auto simp: rmap_Inr_iff Accept_def tracks_def
      dest: NewRequest_tracks AddResponse_tracks Receiving_tracks)

lemma customer_run_tracks:
  assumes "customer_run po h es (c, s) = Inr (l, c', s')" "tracks ts n k c"
  shows "tracks ts n (k + responses (int ts) l + sum_list (map (added (int ts)) es)) c'"
  using assms
proof (induction es arbitrary: c s l k)
  case (Cons e es)
  then obtain l1 c1 s1 l2 where e: "customer_do po h e (c, s) = Inr (l1, c1, s1)"
    and es: "customer_run po h es (c1, s1) = Inr (l2, c', s')" and l: "l = l1 @ l2"
    by (auto simp: rbind_Inr_iff rmap_Inr_iff)
  from Cons.IH [OF es customer_do_tracks [OF e Cons.prems(2)]] l show ?case
    by (simp add: algebra_simps)
qed simp

lemma tracks_WaitRequest: "tracks ts n k c \<Longrightarrow> WaitRequest c (int ts) = Inr (n = k)"
  by (simp add: WaitRequest_def tracks_def)

lemma NewRequest_starts:
  "NewRequest po r c = Inr (t, c') \<Longrightarrow>
   \<exists>ids. GetNodeIDs po r = Inr ids \<and> t = int (length (tracker c)) \<and>
     tracks (length (tracker c)) (int (length ids)) 0 c'"
  by (auto simp: NewRequest_def rbind_Inr_iff tracks_def)

section \<open>The receiving thread drains its queue\<close>

definition handles_all :: "'s recv_handle \<Rightarrow> bool" where
  "handles_all h \<longleftrightarrow> (\<forall>m s. is_ok (h m s))"

text \<open>
  Every response that waits is for a known request, no count reaches the bound of \<open>int\<close>, and
  nothing tells the thread to stop.
\<close>

definition drainable :: "customer \<Rightarrow> bool" where
  "drainable c \<longleftrightarrow> \<not> joined c \<and> queue_ok (recv_queue c) \<and>
     (\<forall>m \<in> set (recv_queue c). cmd_of m \<noteq> TERMINATE \<and>
        (\<not> request (meta m) \<longrightarrow> 0 \<le> timestamp (meta m) \<and> timestamp (meta m) < int (length (tracker c)))) \<and>
     (\<forall>p \<in> set (tracker c). 0 \<le> snd p \<and> snd p + int (length (recv_queue c)) \<le> INT_MAX)"

lemma WaitAndPop_length:
  "queue_ok q \<Longrightarrow> WaitAndPop q = Some (m, q') \<Longrightarrow> length q = Suc (length q')"
  using mq.pop_Some [of q m q'] size_mset [of q] size_mset [of q'] by simp

lemma AddResponse_Inr_iff:
  "AddResponse ts n c = Inr c' \<longleftrightarrow> (\<exists>p. vec_at (tracker c) ts = Inr p \<and> cint_in_range (snd p + n) \<and>
     c' = c\<lparr>tracker := (tracker c)[nat ts := (fst p, snd p + n)]\<rparr>)"
  by (auto simp: AddResponse_def rbind_Inr_iff rmap_Inr_iff vec_simps)

lemma drainable_response:
  assumes "drainable c" "m \<in> set (recv_queue c)" "\<not> request (meta m)"
    and q: "set q \<subseteq> set (recv_queue c)" "queue_ok q" "length (recv_queue c) = Suc (length q)"
  shows "\<exists>c'. AddResponse (timestamp (meta m)) 1 (c\<lparr>recv_queue := q\<rparr>) = Inr c' \<and>
    drainable c' \<and> recv_queue c' = q \<and> length (tracker c') = length (tracker c)"
proof -
  let ?ts = "timestamp (meta m)"
  have ts: "0 \<le> ?ts" "nat ?ts < length (tracker c)" using assms(1-3) by (auto simp: drainable_def)
  let ?p = "tracker c ! nat ?ts"
  have p: "?p \<in> set (tracker c)" using ts by simp
  have bnd: "0 \<le> snd r \<and> snd r + 1 + int (length q) \<le> INT_MAX" if "r \<in> set (tracker c)" for r
    using assms(1) q(3) that unfolding drainable_def by fastforce
  let ?t = "(tracker c)[nat ?ts := (fst ?p, snd ?p + 1)]"
  let ?c = "c\<lparr>recv_queue := q, tracker := ?t\<rparr>"
  have at: "vec_at (tracker c) ?ts = Inr ?p" using ts by (simp add: vec_at_def)
  have "cint_in_range (snd ?p + 1)" using bnd [OF p] by (simp add: cint_in_range_def)
  with at have "AddResponse ?ts 1 (c\<lparr>recv_queue := q\<rparr>) = Inr ?c"
    by (simp add: AddResponse_Inr_iff)
  moreover have "\<forall>r \<in> set ?t. 0 \<le> snd r \<and> snd r + int (length q) \<le> INT_MAX"
    using bnd bnd [OF p] by (auto dest!: set_update_subset_insert [THEN subsetD]) force+
  then have "drainable ?c" using assms(1) q by (auto simp: drainable_def)
  ultimately show ?thesis by auto
qed

lemma drain_step:
  assumes "drainable c" "recv_queue c \<noteq> []" "handles_all h"
  shows "\<exists>m c' s'. Receiving_step h c s = Inr ([m], c', s') \<and> drainable c' \<and>
    mset (recv_queue c) = add_mset m (mset (recv_queue c'))"
proof -
  have ok: "queue_ok (recv_queue c)" using assms(1) by (simp add: drainable_def)
  obtain m q where pop: "WaitAndPop (recv_queue c) = Some (m, q)"
    using assms(2) mq.pop_None [OF ok] by (cases "WaitAndPop (recv_queue c)") auto
  from mq.pop_Some [OF ok pop] have q: "queue_ok q" "mset (recv_queue c) = add_mset m (mset q)" by auto
  have sub: "set q \<subseteq> set (recv_queue c)" "m \<in> set (recv_queue c)"
    using q(2) by (auto simp flip: set_mset_mset)
  have len: "length (recv_queue c) = Suc (length q)" using WaitAndPop_length [OF ok pop] .
  obtain s' where s': "h m s = Inr s'" using assms(3) by (auto simp: handles_all_def is_ok_iff)
  have live: "\<not> joined c" "cmd_of m \<noteq> TERMINATE" using assms(1) sub(2) by (auto simp: drainable_def)
  have dq: "drainable (c\<lparr>recv_queue := q\<rparr>)"
    using assms(1) sub(1) q(1) len unfolding drainable_def by fastforce
  show ?thesis
  proof (cases "request (meta m)")
    case True
    with pop s' live dq q(2) show ?thesis by (auto simp: Receiving_step_def)
  next
    case False
    from drainable_response [OF assms(1) sub(2) False sub(1) q(1) len] obtain c' where
      "AddResponse (timestamp (meta m)) 1 (c\<lparr>recv_queue := q\<rparr>) = Inr c'" "drainable c'" "recv_queue c' = q"
      by blast
    with False pop s' live q(2) show ?thesis by (auto simp: Receiving_step_def)
  qed
qed

lemma drain_all:
  assumes "drainable c" "handles_all h"
  shows "\<exists>l c' s'. customer_run po h (replicate (length (recv_queue c)) Receive) (c, s) = Inr (l, c', s') \<and>
    recv_queue c' = [] \<and> mset l = mset (recv_queue c)"
  using assms
proof (induction "length (recv_queue c)" arbitrary: c s)
  case (Suc n)
  then have "recv_queue c \<noteq> []" by auto
  from drain_step [OF Suc.prems(1) this Suc.prems(2)] obtain m c1 s1 where
    1: "Receiving_step h c s = Inr ([m], c1, s1)" "drainable c1"
      "mset (recv_queue c) = add_mset m (mset (recv_queue c1))" by blast
  have n: "n = length (recv_queue c1)" using Suc.hyps(2) arg_cong [OF 1(3), of size] by simp
  from Suc.hyps(1) [OF n 1(2) Suc.prems(2)] obtain l c' s' where
    "customer_run po h (replicate n Receive) (c1, s1) = Inr (l, c', s')" "recv_queue c' = []"
    "mset l = mset (recv_queue c1)" unfolding n by blast
  with 1 show ?case by (simp flip: Suc.hyps(2))
qed simp

lemma responses_mset: "mset l = mset l' \<Longrightarrow> responses ts l = responses ts l'"
  unfolding responses_def by (metis mset_filter size_mset)

section \<open>Termination overtakes waiting messages\<close>

lemma terminate_overtakes:
  assumes "queue_ok (recv_queue c)" "\<not> joined c"
    and "\<forall>m \<in> set (recv_queue c). priority (meta m) < kEmpty"
    and "Customer_destroy c po = (c', po')"
  shows "\<exists>q. Receiving_step h c' s = Inr ([], c'\<lparr>recv_queue := q, joined := True\<rparr>, s) \<and>
    mset q = mset (recv_queue c)"
proof -
  let ?t = "upd_meta (set_cmd TERMINATE) Message"
  have "\<forall>m \<in># mset (recv_queue c). prio_of m < prio_of ?t"
    using assms(3) by (simp add: set_cmd_def Message_def Meta_def)
  from mq.pop_overtakes [OF assms(1) this] obtain q where
    "WaitAndPop (Push (recv_queue c) ?t) = Some (?t, q)" "mset q = mset (recv_queue c)" by blast
  moreover have "cmd_of ?t = TERMINATE" "\<not> control_empty (control (meta ?t))"
    by (simp_all add: control_empty_def)
  moreover have "c' = c\<lparr>recv_queue := Push (recv_queue c) ?t\<rparr>"
    using assms(4) by (auto simp: Customer_destroy_def)
  ultimately show ?thesis using assms(2) by (intro exI [of _ q]) (simp add: Receiving_step_def)
qed

end
