(* ===== verification/NS_Resender.thy ===== *)
theory NS_Resender
  imports NS_Message
begin

text \<open>
  The resender (\<open>src/resender.h\<close>): the buffer of messages that wait for their acknowledgement,
  the signatures already accepted, and the periodic pass of the monitor thread. Messages the
  source gives to \<open>van_->Send\<close> are returned. The last sections compose two resenders over a
  network that may lose, duplicate and reorder messages.
\<close>

unbundle bit_operations_syntax

section \<open>State and operations\<close>

record entry =
  e_msg :: message
  e_send :: int
  num_retry :: int

record resender =
  send_buff :: "(64 word \<times> entry) list"
  acked :: "64 word list"
  rs_timeout :: int
  max_num_retry :: int

definition Resender :: "int \<Rightarrow> int \<Rightarrow> resender" where
  "Resender timeout max_retry =
     \<lparr>send_buff = [], acked = [], rs_timeout = timeout, max_num_retry = max_retry\<rparr>"

text \<open>
  The signature: 16 bits of the application id, 8 bits of the sender and of the receiver, then
  the timestamp and the request flag. The shift of the \<open>int\<close> timestamp is defined below \<open>2^30\<close>.
\<close>

definition sig_word :: "16 word \<Rightarrow> 8 word \<Rightarrow> 8 word \<Rightarrow> int \<Rightarrow> bool \<Rightarrow> 64 word" where
  "sig_word aid s r ts req =
     push_bit 48 (ucast aid) OR push_bit 40 (ucast s) OR push_bit 32 (ucast r) OR
     push_bit 1 (of_int ts) OR of_bool req"

definition GetKey :: "int \<Rightarrow> message \<Rightarrow> 64 word res" where
  "GetKey my_id m =
     (let ts = timestamp (meta m) in
      rcheck (ts \<noteq> kEmpty) ''timestamp != Meta::kEmpty''
        (if ts < 0 \<or> 2 ^ 30 \<le> ts then Inl (Undefined ''signed shift overflow'')
         else Inr (sig_word (of_int (app_id (meta m)))
                     (of_int (if sender (meta m) = kEmpty then my_id else sender (meta m)))
                     (of_int (recver (meta m))) ts (request (meta m)))))"

definition AddOutgoing :: "int \<Rightarrow> int \<Rightarrow> message \<Rightarrow> resender \<Rightarrow> resender res" where
  "AddOutgoing my_id now m rs =
     (if cmd_of m = ACK then Inr rs
      else rcheck (timestamp (meta m) \<noteq> kEmpty) ''timestamp != Meta::kEmpty''
        (rbind (GetKey my_id m) (\<lambda>k.
           if map_of (send_buff rs) k \<noteq> None then Inr rs
           else Inr (rs\<lparr>send_buff := (k, \<lparr>e_msg = m, e_send = now, num_retry = 0\<rparr>) # send_buff rs\<rparr>))))"

definition ack_of :: "message \<Rightarrow> 64 word \<Rightarrow> message" where
  "ack_of m k = upd_meta (\<lambda>a. a\<lparr>recver := sender (meta m), sender := recver (meta m),
     control := (control a)\<lparr>c_cmd := ACK, c_msg_sig := k\<rparr>\<rparr>) Message"

text \<open>The result: whether the message is to be dropped, the messages sent, the new state.\<close>

definition AddIncomming :: "int \<Rightarrow> message \<Rightarrow> resender \<Rightarrow> (bool \<times> message list \<times> resender) res" where
  "AddIncomming my_id m rs =
     (if cmd_of m = TERMINATE then Inr (False, [], rs)
      else if cmd_of m = ACK then
        Inr (True, [], rs\<lparr>send_buff := filter (\<lambda>p. fst p \<noteq> c_msg_sig (control (meta m))) (send_buff rs)\<rparr>)
      else rbind (GetKey my_id m) (\<lambda>k.
        let duplicated = (k \<in> set (acked rs)) in
        Inr (duplicated, [ack_of m k],
             if duplicated then rs else rs\<lparr>acked := k # acked rs\<rparr>)))"

text \<open>One pass of the monitor over the buffer: an entry times out after one period per try.\<close>

definition timed_out :: "resender \<Rightarrow> int \<Rightarrow> entry \<Rightarrow> bool" where
  "timed_out rs now e \<longleftrightarrow> e_send e + rs_timeout rs * (1 + num_retry e) < now"

fun monitor_pass ::
  "resender \<Rightarrow> int \<Rightarrow> (64 word \<times> entry) list \<Rightarrow> (message list \<times> (64 word \<times> entry) list) res" where
  "monitor_pass rs now [] = Inr ([], [])"
| "monitor_pass rs now ((k, e) # es) =
     (if timed_out rs now e then
        rcheck (num_retry e + 1 < max_num_retry rs) ''num_retry < max_num_retry''
          (rmap (\<lambda>(ms, es'). (e_msg e # ms, (k, e\<lparr>num_retry := num_retry e + 1\<rparr>) # es'))
             (monitor_pass rs now es))
      else rmap (\<lambda>(ms, es'). (ms, (k, e) # es')) (monitor_pass rs now es))"

definition Monitoring :: "int \<Rightarrow> resender \<Rightarrow> (message list \<times> resender) res" where
  "Monitoring now rs =
     rmap (\<lambda>(ms, es). (ms, rs\<lparr>send_buff := es\<rparr>)) (monitor_pass rs now (send_buff rs))"

section \<open>Signatures\<close>

lemma high_bit_int:
  assumes "0 \<le> ts" "ts < 2 ^ 30" "30 \<le> n"
  shows "\<not> bit (ts :: int) n"
proof -
  have "take_bit 30 ts = ts" using assms by (simp add: take_bit_int_eq_self)
  with assms(3) show ?thesis by (metis bit_take_bit_iff not_less)
qed

lemma bit_double_64: "bit (w * 2 :: 64 word) n \<longleftrightarrow> 0 < n \<and> n < 64 \<and> bit w (n - 1)"
  by (cases n) (auto simp: bit_double_iff mult.commute [of w] dest: bit_imp_le_length)

lemma sig_word_bits:
  assumes "0 \<le> ts" "ts < 2 ^ 30"
  shows "n < 16 \<Longrightarrow> bit (sig_word aid s r ts req) (48 + n) = bit aid n"
    and "n < 8 \<Longrightarrow> bit (sig_word aid s r ts req) (40 + n) = bit s n"
    and "n < 8 \<Longrightarrow> bit (sig_word aid s r ts req) (32 + n) = bit r n"
    and "n < 30 \<Longrightarrow> bit (sig_word aid s r ts req) (1 + n) = bit ts n"
    and "bit (sig_word aid s r ts req) 0 = req"
  using high_bit_int [OF assms, of "47 + n"] high_bit_int [OF assms, of "39 + n"]
    high_bit_int [OF assms, of "31 + n"]
    bit_imp_le_length [of s "8 + n"] bit_imp_le_length [of r "8 + n"] bit_imp_le_length [of r "16 + n"]
  by (auto simp: sig_word_def bit_simps bit_double_64)

lemma sig_word_inject:
  assumes eq: "sig_word aid s r ts req = sig_word aid' s' r' ts' req'"
    and "0 \<le> ts" "ts < 2 ^ 30" "0 \<le> ts'" "ts' < 2 ^ 30"
  shows "aid = aid' \<and> s = s' \<and> r = r' \<and> ts = ts' \<and> req = req'"
proof (intro conjI)
  note b = sig_word_bits [OF assms(2,3), where aid = aid and s = s and r = r and req = req]
    sig_word_bits [OF assms(4,5), where aid = aid' and s = s' and r = r' and req = req']
  show "aid = aid'" by (rule bit_word_eqI) (use eq b(1,6) in simp)
  show "s = s'" by (rule bit_word_eqI) (use eq b(2,7) in simp)
  show "r = r'" by (rule bit_word_eqI) (use eq b(3,8) in simp)
  have "bit ts n = bit ts' n" for n
    using eq b(4,9) [of n] high_bit_int assms(2-5) by (cases "n < 30") auto
  then show "ts = ts'" by (simp add: bit_eq_iff)
  show "req = req'" using eq b(5,10) by simp
qed

lemma of_int_inject_range:
  assumes "(of_int a :: 'a::len word) = of_int b" "0 \<le> a" "a < 2 ^ LENGTH('a)" "0 \<le> b" "b < 2 ^ LENGTH('a)"
  shows "a = b"
  using assms by (metis take_bit_int_eq_self uint_word_of_int_eq)

definition eff_sender :: "int \<Rightarrow> message \<Rightarrow> int" where
  "eff_sender my_id m = (if sender (meta m) = kEmpty then my_id else sender (meta m))"

lemma GetKey_Inr_iff:
  "GetKey my_id m = Inr k \<longleftrightarrow> 0 \<le> timestamp (meta m) \<and> timestamp (meta m) < 2 ^ 30 \<and>
     k = sig_word (of_int (app_id (meta m))) (of_int (eff_sender my_id m)) (of_int (recver (meta m)))
           (timestamp (meta m)) (request (meta m))"
  by (auto simp: GetKey_def Let_def rcheck_def eff_sender_def)

section \<open>Acknowledgements over an unreliable network\<close>

text \<open>
  Node \<open>sid\<close> sends to node \<open>rid\<close>. The network is the set of messages ever sent: it may deliver
  any of them any number of times, in any order, or never. Delivery sets the sender to the
  identity of the socket and the receiver to the local id, as \<open>RecvMsg\<close> does.
\<close>

record link =
  l_snd :: resender
  l_rcv :: resender
  net :: "message set"
  l_sent :: "message set"
  delivered :: "message list"

definition stamp :: "int \<Rightarrow> int \<Rightarrow> message \<Rightarrow> message" where
  "stamp sid rid m = upd_meta (\<lambda>a. a\<lparr>sender := sid, recver := rid\<rparr>) m"

definition payload :: "int \<Rightarrow> int \<Rightarrow> message \<Rightarrow> bool" where
  "payload sid rid m \<longleftrightarrow> cmd_of m \<noteq> ACK \<and> cmd_of m \<noteq> TERMINATE \<and> recver (meta m) = rid \<and>
     (sender (meta m) = kEmpty \<or> sender (meta m) = sid)"

inductive link_step :: "int \<Rightarrow> int \<Rightarrow> link \<Rightarrow> link \<Rightarrow> bool" for sid rid where
  Send_msg: "payload sid rid m \<Longrightarrow> AddOutgoing sid now m (l_snd l) = Inr s \<Longrightarrow>
    link_step sid rid l (l\<lparr>l_snd := s, net := insert m (net l), l_sent := insert m (l_sent l)\<rparr>)"
| Deliver: "m \<in> net l \<Longrightarrow> cmd_of m \<noteq> ACK \<Longrightarrow>
    AddIncomming rid (stamp sid rid m) (l_rcv l) = Inr (dup, acks, r) \<Longrightarrow>
    link_step sid rid l (l\<lparr>l_rcv := r, net := set acks \<union> net l,
      delivered := (if dup then delivered l else stamp sid rid m # delivered l)\<rparr>)"
| Deliver_ack: "a \<in> net l \<Longrightarrow> cmd_of a = ACK \<Longrightarrow>
    AddIncomming sid a (l_snd l) = Inr (dup, acks, s) \<Longrightarrow>
    link_step sid rid l (l\<lparr>l_snd := s, net := set acks \<union> net l\<rparr>)"
| Resend: "Monitoring now (l_snd l) = Inr (ms, s) \<Longrightarrow>
    link_step sid rid l (l\<lparr>l_snd := s, net := set ms \<union> net l\<rparr>)"

inductive link_reach :: "int \<Rightarrow> int \<Rightarrow> link \<Rightarrow> bool" for sid rid where
  Init: "link_reach sid rid \<lparr>l_snd = Resender t n, l_rcv = Resender t' n', net = {}, l_sent = {}, delivered = []\<rparr>"
| Step: "link_reach sid rid l \<Longrightarrow> link_step sid rid l l' \<Longrightarrow> link_reach sid rid l'"

section \<open>The link delivers every message at most once and keeps it until delivered\<close>

lemma stamp_simps [simp]:
  "sender (meta (stamp sid rid m)) = sid" "recver (meta (stamp sid rid m)) = rid"
  "cmd_of (stamp sid rid m) = cmd_of m" "timestamp (meta (stamp sid rid m)) = timestamp (meta m)"
  "app_id (meta (stamp sid rid m)) = app_id (meta m)" "request (meta (stamp sid rid m)) = request (meta m)"
  by (simp_all add: stamp_def)

lemma GetKey_stamp:
  assumes "payload sid rid m" "sid \<noteq> kEmpty"
  shows "GetKey rid (stamp sid rid m) = GetKey sid m"
  using assms by (auto simp: GetKey_def payload_def Let_def)

definition key_in :: "int \<Rightarrow> message \<Rightarrow> 64 word set \<Rightarrow> bool" where
  "key_in my_id m K \<longleftrightarrow> (\<exists>k \<in> K. GetKey my_id m = Inr k)"

definition link_inv :: "int \<Rightarrow> int \<Rightarrow> link \<Rightarrow> bool" where
  "link_inv sid rid l \<longleftrightarrow>
     map (GetKey rid) (delivered l) = map Inr (acked (l_rcv l)) \<and> distinct (acked (l_rcv l)) \<and>
     (\<forall>m \<in> net l. (cmd_of m = ACK \<and> c_msg_sig (control (meta m)) \<in> set (acked (l_rcv l))) \<or>
        (payload sid rid m \<and> m \<in> l_sent l)) \<and>
     (\<forall>(k, e) \<in> set (send_buff (l_snd l)). payload sid rid (e_msg e) \<and> e_msg e \<in> l_sent l) \<and>
     (\<forall>m \<in> l_sent l. key_in sid m (fst ` set (send_buff (l_snd l)) \<union> set (acked (l_rcv l)))) \<and>
     set (delivered l) \<subseteq> stamp sid rid ` l_sent l"

lemma monitor_pass_entries:
  assumes "monitor_pass rs now es = Inr (ms, es')"
  shows "map fst es' = map fst es \<and> map (e_msg \<circ> snd) es' = map (e_msg \<circ> snd) es \<and>
    ms = map (e_msg \<circ> snd) (filter (timed_out rs now \<circ> snd) es)"
  using assms
proof (induction es arbitrary: ms es')
  case (Cons p es)
  then show ?case
    by (cases p) (auto simp: rcheck_Inr_iff rmap_Inr_iff split: if_splits)
qed simp

lemma AddOutgoing_cases:
  assumes "AddOutgoing my_id now m rs = Inr rs'" "cmd_of m \<noteq> ACK"
  shows "\<exists>k. GetKey my_id m = Inr k \<and> acked rs' = acked rs \<and>
    (rs' = rs \<and> k \<in> fst ` set (send_buff rs) \<or>
     send_buff rs' = (k, \<lparr>e_msg = m, e_send = now, num_retry = 0\<rparr>) # send_buff rs)"
proof -
  obtain k where k: "GetKey my_id m = Inr k"
    using assms by (auto simp: AddOutgoing_def rcheck_Inr_iff rbind_Inr_iff split: if_splits)
  show ?thesis
  proof (cases "map_of (send_buff rs) k = None")
    case True
    with assms k show ?thesis by (auto simp: AddOutgoing_def rcheck_Inr_iff)
  next
    case False
    then have "k \<in> fst ` set (send_buff rs)" by (simp add: map_of_eq_None_iff)
    with False assms k show ?thesis by (auto simp: AddOutgoing_def rcheck_Inr_iff)
  qed
qed

lemma AddIncomming_payload:
  assumes "AddIncomming my_id m rs = Inr (d, acks, rs')" "cmd_of m \<noteq> ACK" "cmd_of m \<noteq> TERMINATE"
  shows "\<exists>k. GetKey my_id m = Inr k \<and> acks = [ack_of m k] \<and> d = (k \<in> set (acked rs)) \<and>
    rs' = (if d then rs else rs\<lparr>acked := k # acked rs\<rparr>)"
  using assms by (auto simp: AddIncomming_def rbind_Inr_iff Let_def split: if_splits)

lemma AddIncomming_ack:
  assumes "AddIncomming my_id a rs = Inr (d, acks, rs')" "cmd_of a = ACK"
  shows "acks = [] \<and> rs' = rs\<lparr>send_buff := filter (\<lambda>p. fst p \<noteq> c_msg_sig (control (meta a))) (send_buff rs)\<rparr>"
  using assms by (auto simp: AddIncomming_def)

lemma ack_of_simps [simp]: "cmd_of (ack_of m k) = ACK" "c_msg_sig (control (meta (ack_of m k))) = k"
  by (simp_all add: ack_of_def)

lemma link_inv_send:
  assumes "link_inv sid rid l" "payload sid rid m" "AddOutgoing sid now m (l_snd l) = Inr s"
  shows "link_inv sid rid (l\<lparr>l_snd := s, net := insert m (net l), l_sent := insert m (l_sent l)\<rparr>)"
  using assms AddOutgoing_cases [OF assms(3)]
  by (auto simp: link_inv_def payload_def key_in_def)

lemma link_inv_deliver:
  assumes "link_inv sid rid l" "m \<in> net l" "cmd_of m \<noteq> ACK" "sid \<noteq> kEmpty"
    "AddIncomming rid (stamp sid rid m) (l_rcv l) = Inr (d, acks, r)"
  shows "link_inv sid rid (l\<lparr>l_rcv := r, net := set acks \<union> net l,
      delivered := (if d then delivered l else stamp sid rid m # delivered l)\<rparr>)"
proof -
  have m: "payload sid rid m" "m \<in> l_sent l" using assms(1-3) by (auto simp: link_inv_def)
  then have "cmd_of m \<noteq> TERMINATE" by (simp add: payload_def)
  with AddIncomming_payload [OF assms(5)] assms(3) obtain k where
    k: "GetKey rid (stamp sid rid m) = Inr k" "acks = [ack_of (stamp sid rid m) k]"
      "d = (k \<in> set (acked (l_rcv l)))" "r = (if d then l_rcv l else (l_rcv l)\<lparr>acked := k # acked (l_rcv l)\<rparr>)"
    by auto
  have "key_in sid x (A \<union> insert k B)" if "key_in sid x (A \<union> B)" for x A B
    using that by (auto simp: key_in_def)
  with assms(1) m k show ?thesis by (cases d) (auto simp: link_inv_def)
qed

lemma link_inv_ack:
  assumes "link_inv sid rid l" "a \<in> net l" "cmd_of a = ACK" "AddIncomming sid a (l_snd l) = Inr (d, acks, s)"
  shows "link_inv sid rid (l\<lparr>l_snd := s, net := set acks \<union> net l\<rparr>)"
proof -
  let ?k = "c_msg_sig (control (meta a))"
  have k: "?k \<in> set (acked (l_rcv l))" using assms(1-3) by (auto simp: link_inv_def payload_def)
  have s: "acks = []" "s = (l_snd l)\<lparr>send_buff := filter (\<lambda>p. fst p \<noteq> ?k) (send_buff (l_snd l))\<rparr>"
    using AddIncomming_ack [OF assms(4,3)] by auto
  have "key_in sid m (fst ` {p \<in> set (send_buff (l_snd l)). fst p \<noteq> ?k} \<union> set (acked (l_rcv l)))"
    if "key_in sid m (fst ` set (send_buff (l_snd l)) \<union> set (acked (l_rcv l)))" for m
    using that k unfolding key_in_def by force
  with assms(1) s show ?thesis by (auto simp: link_inv_def)
qed

lemma link_inv_resend:
  assumes "link_inv sid rid l" "Monitoring now (l_snd l) = Inr (ms, s)"
  shows "link_inv sid rid (l\<lparr>l_snd := s, net := set ms \<union> net l\<rparr>)"
proof -
  obtain es where es: "monitor_pass (l_snd l) now (send_buff (l_snd l)) = Inr (ms, es)"
    "s = (l_snd l)\<lparr>send_buff := es\<rparr>"
    using assms(2) by (auto simp: Monitoring_def rmap_Inr_iff)
  note p = monitor_pass_entries [OF es(1)]
  have keys: "fst ` set es = fst ` set (send_buff (l_snd l))" using p by (metis set_map)
  have msgs: "(e_msg \<circ> snd) ` set es = (e_msg \<circ> snd) ` set (send_buff (l_snd l))" using p by (metis set_map)
  have buf: "payload sid rid x \<and> x \<in> l_sent l" if "x \<in> (e_msg \<circ> snd) ` set (send_buff (l_snd l))" for x
    using that assms(1) by (auto simp: link_inv_def)
  have new: "payload sid rid x \<and> x \<in> l_sent l" if "x \<in> set ms" for x
    using that p by (intro buf) auto
  have "\<forall>(k, e) \<in> set es. payload sid rid (e_msg e) \<and> e_msg e \<in> l_sent l"
    using buf unfolding msgs [symmetric] by force
  with assms(1) es(2) keys new show ?thesis unfolding link_inv_def by (auto simp: payload_def)
qed

lemma link_reach_inv:
  assumes "link_reach sid rid l" "sid \<noteq> kEmpty"
  shows "link_inv sid rid l"
  using assms
proof (induction rule: link_reach.induct)
  case (Init t n t' n')
  then show ?case by (simp add: link_inv_def Resender_def)
next
  case (Step l l')
  note inv = Step.IH [OF Step.prems]
  from Step.hyps(2) show ?case
  proof cases
    case (Send_msg m now s)
    then show ?thesis using link_inv_send [OF inv] by simp
  next
    case (Deliver m dup acks r)
    then show ?thesis using link_inv_deliver [OF inv _ _ Step.prems] by blast
  next
    case (Deliver_ack a dup acks s)
    then show ?thesis using link_inv_ack [OF inv] by simp
  next
    case (Resend now ms s)
    then show ?thesis using link_inv_resend [OF inv] by simp
  qed
qed

section \<open>Retries\<close>

definition retry_ok :: "resender \<Rightarrow> 64 word \<times> entry \<Rightarrow> bool" where
  "retry_ok rs p \<longleftrightarrow> 0 \<le> num_retry (snd p) \<and> num_retry (snd p) < max_num_retry rs"

definition retry_inv :: "resender \<Rightarrow> bool" where
  "retry_inv rs \<longleftrightarrow> list_all (retry_ok rs) (send_buff rs)"

lemma monitor_pass_retry:
  "monitor_pass rs now es = Inr (ms, es') \<Longrightarrow> list_all (retry_ok rs) es \<Longrightarrow> list_all (retry_ok rs) es'"
proof (induction es arbitrary: ms es')
  case (Cons p es)
  then show ?case
    by (cases p) (auto simp: rcheck_Inr_iff rmap_Inr_iff retry_ok_def split: if_splits)
qed simp

lemma retry_ok_buff [simp]: "retry_ok (rs\<lparr>send_buff := b\<rparr>) = retry_ok rs"
  by (intro ext) (simp add: retry_ok_def)

lemma Monitoring_retry: "Monitoring now rs = Inr (ms, rs') \<Longrightarrow> retry_inv rs \<Longrightarrow> retry_inv rs'"
  by (auto simp: Monitoring_def rmap_Inr_iff retry_inv_def monitor_pass_retry)

end
