(* ===== verification/NS_Paths.thy ===== *)
theory NS_Paths
  imports NS_Float
begin

text \<open>
  The path search of the scheduler (\<open>src/van.cc\<close>): \<open>find_trace\<close> enumerates the simple paths of
  the overlay network with their costs, \<open>min\<close> picks the cheapest. Ranks are natural numbers
  below \<open>num_nodes\<close>; the link speeds \<open>tps\<close> are a square matrix of single-precision values.
  The lemmas show that the search returns exactly the simple paths between its two ends, each
  once and with the cost the source accumulates along it, and that \<open>min\<close> returns the first
  smallest entry.
\<close>

section \<open>Data\<close>

definition num_nodes :: nat where
  "num_nodes = 9"

type_synonym speeds_matrix = "fl list list"
type_synonym trace = "nat list"
type_synonym route_table = "trace list list list"

definition tpa :: "speeds_matrix \<Rightarrow> nat \<Rightarrow> nat \<Rightarrow> fl" where
  "tpa tps i j = tps ! i ! j"

text \<open>The adjacency the program starts from; its non-zero entries become random speeds.\<close>

definition initial_tps :: speeds_matrix where
  "initial_tps = map (map (\<lambda>b. Fin (if b then 1 else 0)))
    [[False, True, True, False, False, False, False, False, False],
     [True, False, True, False, True, False, False, False, False],
     [True, True, False, True, False, False, False, False, False],
     [False, False, True, False, True, True, False, False, False],
     [False, True, False, True, False, False, True, False, False],
     [False, False, False, True, False, False, True, True, True],
     [False, False, False, False, True, True, False, True, False],
     [False, False, False, False, False, True, True, False, True],
     [False, False, False, False, False, True, False, True, False]]"

section \<open>Operations\<close>

fun i_in_trace :: "'a \<Rightarrow> 'a list \<Rightarrow> bool" where
  "i_in_trace i [] = False"
| "i_in_trace i (it # rest) = (if it = i then True else i_in_trace i rest)"

fun x_in_array_from :: "'a \<Rightarrow> 'a list \<Rightarrow> int \<Rightarrow> int" where
  "x_in_array_from x [] i = - 1"
| "x_in_array_from x (a # as) i = (if a = x then i else x_in_array_from x as (i + 1))"

definition x_in_array :: "'a \<Rightarrow> 'a list \<Rightarrow> int" where
  "x_in_array x as = x_in_array_from x as 0"

definition edge_cost :: "speeds_matrix \<Rightarrow> nat \<Rightarrow> nat \<Rightarrow> fl" where
  "edge_cost tps u v = f32_div (Fin 1) (tpa tps u v)"

lemma i_in_trace_set [simp]: "i_in_trace i trc \<longleftrightarrow> i \<in> set trc"
  by (induction trc) auto

text \<open>
  \<open>find_trace\<close>: the loop over the next hop \<open>i\<close>, with the trace so far and its cost passed by
  value and the members \<open>max_tps\<close> and \<open>traces\<close> threaded as the accumulator.
\<close>

function find_trace_loop ::
  "nat \<Rightarrow> speeds_matrix \<Rightarrow> nat \<Rightarrow> nat \<Rightarrow> fl \<Rightarrow> trace \<Rightarrow> nat \<Rightarrow> fl list \<times> trace list \<Rightarrow>
   fl list \<times> trace list" where
  "find_trace_loop N tps start end1 max_tp trc i acc =
     (if i < N then
        if i = start \<or> fl_eq (tpa tps start i) (Fin 0) then
          find_trace_loop N tps start end1 max_tp trc (Suc i) acc
        else if i = end1 then
          find_trace_loop N tps start end1 max_tp trc (Suc i)
            (fst acc @ [f32_add max_tp (edge_cost tps start i)], snd acc @ [trc @ [i]])
        else if i_in_trace i trc then
          find_trace_loop N tps start end1 max_tp trc (Suc i) acc
        else
          find_trace_loop N tps start end1 max_tp trc (Suc i)
            (find_trace_loop N tps i end1 (f32_add max_tp (edge_cost tps start i)) (trc @ [i]) 0 acc)
      else acc)"
  by pat_completeness auto

termination
proof (relation "inv_image (finite_psubset <*lex*> less_than)
    (\<lambda>(N, tps, start, end1, max_tp, trc, i, acc). ({..<N} - set trc, N - i))",
    goal_cases)
  case 1
  show ?case by auto
qed (auto simp: finite_psubset_def)

declare find_trace_loop.simps [simp del]

definition find_trace ::
  "speeds_matrix \<Rightarrow> nat \<Rightarrow> nat \<Rightarrow> fl \<Rightarrow> trace \<Rightarrow> fl list \<times> trace list \<Rightarrow> fl list \<times> trace list" where
  "find_trace tps start end1 max_tp trc acc =
     find_trace_loop num_nodes tps start end1 max_tp trc 0 acc"

text \<open>\<open>Van::min\<close>: the index of the first smallest entry below \<open>100000000\<close>, or \<open>-1\<close>.\<close>

fun vmin_loop :: "fl list \<Rightarrow> int \<Rightarrow> fl \<Rightarrow> int \<Rightarrow> int" where
  "vmin_loop [] i min_v index = index"
| "vmin_loop (x # xs) i min_v index =
     (if fl_less x min_v then vmin_loop xs (i + 1) x i else vmin_loop xs (i + 1) min_v index)"

definition vmin :: "fl list \<Rightarrow> int" where
  "vmin max_tps = vmin_loop max_tps 0 (Fin 100000000) (- 1)"

section \<open>The search without its accumulator\<close>

text \<open>
  The paths found, as the nodes that follow the current trace, in the order of discovery.
\<close>

definition edge :: "speeds_matrix \<Rightarrow> nat \<Rightarrow> nat \<Rightarrow> bool" where
  "edge tps u v \<longleftrightarrow> u \<noteq> v \<and> \<not> fl_eq (tpa tps u v) (Fin 0)"

function exts :: "nat \<Rightarrow> speeds_matrix \<Rightarrow> nat \<Rightarrow> nat \<Rightarrow> trace \<Rightarrow> nat \<Rightarrow> trace list" where
  "exts N tps s e trc i =
     (if i < N then
        (if \<not> edge tps s i then []
         else if i = e then [[i]]
         else if i \<in> set trc then []
         else map ((#) i) (exts N tps i e (trc @ [i]) 0)) @ exts N tps s e trc (Suc i)
      else [])"
  by pat_completeness auto
termination
proof (relation "inv_image (finite_psubset <*lex*> less_than)
    (\<lambda>(N, tps, s, e, trc, i). ({..<N} - set trc, N - i))", goal_cases)
  case 1
  show ?case by auto
qed (auto simp: finite_psubset_def)

declare exts.simps [simp del]

fun path_cost :: "speeds_matrix \<Rightarrow> fl \<Rightarrow> trace \<Rightarrow> fl" where
  "path_cost tps c (u # v # t) = path_cost tps (f32_add c (edge_cost tps u v)) (v # t)"
| "path_cost tps c _ = c"

lemma find_trace_loop_exts:
  "find_trace_loop N tps s e c trc i acc =
     (fst acc @ map (\<lambda>p. path_cost tps c (s # p)) (exts N tps s e trc i),
      snd acc @ map (\<lambda>p. trc @ p) (exts N tps s e trc i))"
proof (induction N tps s e c trc i acc rule: find_trace_loop.induct)
  case (1 N tps s e c trc i acc)
  show ?case
  proof (cases "i < N")
    case False
    then show ?thesis by (simp add: find_trace_loop.simps [of N] exts.simps [of N])
  next
    case True
    then show ?thesis
      using "1.IH" by (simp add: find_trace_loop.simps [of N tps s e c trc i acc]
        exts.simps [of N tps s e trc i] edge_def comp_def)
  qed
qed

section \<open>Simple paths\<close>

text \<open>
  A simple path from \<open>a\<close> to \<open>b\<close>: its nodes are distinct ranks and every hop is a link with
  a non-zero speed.
\<close>

definition simple_path :: "nat \<Rightarrow> speeds_matrix \<Rightarrow> nat \<Rightarrow> nat \<Rightarrow> trace \<Rightarrow> bool" where
  "simple_path N tps a b t \<longleftrightarrow>
     t \<noteq> [] \<and> hd t = a \<and> last t = b \<and> distinct t \<and> set t \<subseteq> {..<N} \<and> successively (edge tps) t"

definition ext_ok :: "nat \<Rightarrow> speeds_matrix \<Rightarrow> nat \<Rightarrow> nat \<Rightarrow> trace \<Rightarrow> trace \<Rightarrow> bool" where
  "ext_ok N tps s e trc p \<longleftrightarrow>
     p \<noteq> [] \<and> last p = e \<and> distinct p \<and> set p \<subseteq> {..<N} \<and> set p \<inter> set trc = {} \<and>
     successively (edge tps) (s # p)"

lemma ext_ok_Cons:
  "ext_ok N tps s e trc (i # q) \<longleftrightarrow>
     i < N \<and> i \<notin> set trc \<and> edge tps s i \<and>
     (q = [] \<and> i = e \<or> q \<noteq> [] \<and> ext_ok N tps i e (trc @ [i]) q)"
  by (auto simp: ext_ok_def)

lemma set_exts:
  assumes "e \<notin> set trc"
  shows "set (exts N tps s e trc i) = {p. ext_ok N tps s e trc p \<and> i \<le> hd p}"
  using assms
proof (induction N tps s e trc i rule: exts.induct)
  case (1 N tps s e trc i)
  have out: "ext_ok N tps s e trc p \<Longrightarrow> hd p < N" for p
    by (cases p) (auto simp: ext_ok_def)
  show ?case
  proof (cases "i < N")
    case False
    with out show ?thesis by (fastforce simp: exts.simps [of N])
  next
    case True
    have rest: "set (exts N tps s e trc (Suc i)) = {p. ext_ok N tps s e trc p \<and> Suc i \<le> hd p}"
      using "1.IH" "1.prems" True by blast
    have here: "set (if \<not> edge tps s i then [] else if i = e then [[i]] else if i \<in> set trc then []
         else map ((#) i) (exts N tps i e (trc @ [i]) 0)) = {p. ext_ok N tps s e trc p \<and> hd p = i}"
      (is "set ?L = ?R")
    proof -
      have "set ?L = {i # q | q. ext_ok N tps s e trc (i # q)}"
      proof (cases "\<not> edge tps s i \<or> i \<in> set trc")
        case True
        with "1.prems" show ?thesis by (auto simp: ext_ok_Cons)
      next
        case False
        show ?thesis
        proof (cases "i = e")
          case True
          have "ext_ok N tps i e (trc @ [i]) q \<Longrightarrow> False" for q
            using True by (auto simp: ext_ok_def)
          with True False "1.prems" \<open>i < N\<close> show ?thesis by (auto simp: ext_ok_Cons)
        next
          case ne: False
          have sub: "set (exts N tps i e (trc @ [i]) 0) = {p. ext_ok N tps i e (trc @ [i]) p \<and> 0 \<le> hd p}"
            using "1.IH"(1) False ne True "1.prems" by auto
          have nn: "ext_ok N tps i e (trc @ [i]) q \<Longrightarrow> q \<noteq> []" for q
            by (simp add: ext_ok_def)
          from False ne True nn show ?thesis by (auto simp: ext_ok_Cons sub)
        qed
      qed
      also have "\<dots> = ?R"
      proof -
        have "(\<exists>q. p = i # q \<and> ext_ok N tps s e trc (i # q)) \<longleftrightarrow> ext_ok N tps s e trc p \<and> hd p = i" for p
          by (cases p) (auto simp: ext_ok_def simp del: successively.simps)
        then show ?thesis by blast
      qed
      finally show ?thesis .
    qed
    have step: "set (exts N tps s e trc i) =
        {p. ext_ok N tps s e trc p \<and> hd p = i} \<union> {p. ext_ok N tps s e trc p \<and> Suc i \<le> hd p}"
      using True by (subst exts.simps) (simp only: if_True set_append here rest)
    show ?thesis
      unfolding step by (auto simp: Suc_le_eq order_le_less)
  qed
qed

lemma distinct_exts:
  "e \<notin> set trc \<Longrightarrow> distinct (exts N tps s e trc i)"
proof (induction N tps s e trc i rule: exts.induct)
  case (1 N tps s e trc i)
  have later: "p \<in> set (exts N tps s e trc (Suc i)) \<Longrightarrow> Suc i \<le> hd p" for p
    using set_exts [OF "1.prems", of N tps s "Suc i"] by simp
  show ?case
  proof (cases "i < N")
    case False
    then show ?thesis by (simp add: exts.simps [of N])
  next
    case True
    have fresh: "i # q \<notin> set (exts N tps s e trc (Suc i))" for q
      using later [of "i # q"] by auto
    show ?thesis
      using "1.IH" "1.prems" True fresh
      by (simp add: exts.simps [of N tps s e trc i] distinct_map disjoint_iff image_iff) blast
  qed
qed

lemma find_trace_traces:
  assumes "a \<noteq> b" and "a < num_nodes"
  shows "set (snd (find_trace tps a b c [a] ([], []))) = {t. simple_path num_nodes tps a b t}"
proof -
  have "snd (find_trace tps a b c [a] ([], [])) = map ((#) a) (exts num_nodes tps a b [a] 0)"
    by (simp add: find_trace_def find_trace_loop_exts)
  moreover have "set (exts num_nodes tps a b [a] 0) = {p. ext_ok num_nodes tps a b [a] p}"
    using assms by (simp add: set_exts)
  moreover have "simple_path num_nodes tps a b t \<longleftrightarrow> (\<exists>p. t = a # p \<and> ext_ok num_nodes tps a b [a] p)" for t
    using assms by (cases t) (auto simp: simple_path_def ext_ok_def)
  ultimately show ?thesis by auto
qed

lemma find_trace_distinct:
  "a \<noteq> b \<Longrightarrow> distinct (snd (find_trace tps a b c [a] ([], [])))"
  by (simp add: find_trace_def find_trace_loop_exts distinct_map distinct_exts)

lemma find_trace_costs:
  "fst (find_trace tps a b c [a] ([], [])) =
     map (path_cost tps c) (snd (find_trace tps a b c [a] ([], [])))"
  by (simp add: find_trace_def find_trace_loop_exts)

lemma find_trace_length:
  "length (fst (find_trace tps a b c [a] ([], []))) = length (snd (find_trace tps a b c [a] ([], [])))"
  by (simp add: find_trace_costs)

section \<open>The smallest entry\<close>

lemma vmin_loop_cases:
  assumes "not_nan m"
  shows "(vmin_loop xs i m d = d \<and> (\<forall>x \<in> set xs. \<not> fl_less x m)) \<or>
     (\<exists>j < length xs. vmin_loop xs i m d = i + int j \<and> fl_less (xs ! j) m \<and>
       (\<forall>k < length xs. \<not> fl_less (xs ! k) (xs ! j)) \<and> (\<forall>k < j. fl_less (xs ! j) (xs ! k) \<or> xs ! k = NaN))"
  using assms
proof (induction xs arbitrary: i m d)
  case Nil
  then show ?case by simp
next
  case (Cons x xs)
  show ?case
  proof (cases "fl_less x m")
    case False
    from Cons.IH [OF Cons.prems, of "i + 1" d] show ?thesis
    proof (elim disjE exE conjE)
      assume "vmin_loop xs (i + 1) m d = d" "\<forall>x \<in> set xs. \<not> fl_less x m"
      with False show ?thesis by simp
    next
      fix j assume j: "j < length xs" "vmin_loop xs (i + 1) m d = i + 1 + int j" "fl_less (xs ! j) m"
        "\<forall>k < length xs. \<not> fl_less (xs ! k) (xs ! j)" "\<forall>k < j. fl_less (xs ! j) (xs ! k) \<or> xs ! k = NaN"
      have x: "fl_less (xs ! j) x \<or> x = NaN"
        using False j(3) Cons.prems fl_less_linear [of x m] fl_less_trans not_nan_def by metis
      with False j show ?thesis
        by (intro disjI2 exI [of _ "Suc j"])
          (auto simp: less_Suc_eq_0_disj nth_Cons split: nat.splits dest: fl_less_asym)
    qed
  next
    case True
    then have nx: "not_nan x" by (simp add: fl_less_not_nan)
    from Cons.IH [OF nx, of "i + 1" i] show ?thesis
    proof (elim disjE exE conjE)
      assume "vmin_loop xs (i + 1) x i = i" "\<forall>y \<in> set xs. \<not> fl_less y x"
      with True show ?thesis
        by (intro disjI2 exI [of _ 0]) (auto simp: less_Suc_eq_0_disj)
    next
      fix j assume j: "j < length xs" "vmin_loop xs (i + 1) x i = i + 1 + int j" "fl_less (xs ! j) x"
        "\<forall>k < length xs. \<not> fl_less (xs ! k) (xs ! j)" "\<forall>k < j. fl_less (xs ! j) (xs ! k) \<or> xs ! k = NaN"
      from True j show ?thesis
        by (intro disjI2 exI [of _ "Suc j"])
          (auto simp: less_Suc_eq_0_disj nth_Cons split: nat.splits dest: fl_less_asym intro: fl_less_trans)
    qed
  qed
qed

lemma vmin_cases:
  obtains (none) "vmin xs = - 1" "\<forall>x \<in> set xs. \<not> fl_less x (Fin 100000000)"
  | (some) j where "j < length xs" "vmin xs = int j" "fl_less (xs ! j) (Fin 100000000)"
      "\<forall>k < length xs. \<not> fl_less (xs ! k) (xs ! j)" "\<forall>k < j. fl_less (xs ! j) (xs ! k) \<or> xs ! k = NaN"
  using vmin_loop_cases [of "Fin 100000000" xs 0 "- 1"] unfolding vmin_def
  by (force simp: not_nan_def)

lemma vmin_exists:
  assumes "x \<in> set xs" and "fl_less x (Fin 100000000)"
  obtains j where "j < length xs" "vmin xs = int j" "fl_less (xs ! j) (Fin 100000000)"
    "\<forall>k < length xs. \<not> fl_less (xs ! k) (xs ! j)"
  using assms by (cases rule: vmin_cases [of xs]) auto

end
