(* ===== verification/NS_Routes.thy ===== *)
theory NS_Routes
  imports NS_Paths
begin

text \<open>
  The choice of routes by the scheduler (\<open>add_route\<close> of \<open>src/van.cc\<close>). For every ordered pair
  of ranks the traces found are taken one after the other, cheapest first (or at random when
  \<open>enable_random\<close> is set); a trace that shares an intermediate node with one already taken is
  replaced by an empty entry. The lemmas show that the routes kept for a pair are distinct
  simple paths with pairwise disjoint intermediate nodes, that the first one is a cheapest
  path, and that the computation succeeds on a connected overlay.
\<close>

section \<open>Operations\<close>

text \<open>
  The cost that marks a trace as used. \<open>rand\<close> is the stream of values of the C library's
  \<open>rand()\<close>; the number of calls made so far selects the next one.
\<close>

definition used_cost :: fl where
  "used_cost = Fin 1000000"

record select_state =
  s_max_tps :: "fl list"
  s_mid_nodes :: "nat list"
  s_routes :: "trace list"
  s_rands :: nat

definition mids :: "trace \<Rightarrow> nat list" where
  "mids t = butlast (tl t)"

fun add_mids :: "nat list \<Rightarrow> nat list \<Rightarrow> nat list" where
  "add_mids [] mid_nodes = mid_nodes"
| "add_mids (h # hs) mid_nodes =
     add_mids hs (if i_in_trace h mid_nodes then mid_nodes else mid_nodes @ [h])"

fun any_in_trace :: "nat list \<Rightarrow> nat list \<Rightarrow> bool" where
  "any_in_trace [] mid_nodes = False"
| "any_in_trace (h # hs) mid_nodes = (if i_in_trace h mid_nodes then True else any_in_trace hs mid_nodes)"

definition choose_index ::
  "bool \<Rightarrow> (nat \<Rightarrow> nat) \<Rightarrow> trace list \<Rightarrow> select_state \<Rightarrow> (int \<times> nat) res" where
  "choose_index enable_random rand traces s =
     (if enable_random then
        (if traces = [] then Inl (Undefined ''rand() % 0'')
         else Inr (int (rand (s_rands s) mod length traces), Suc (s_rands s)))
      else Inr (vmin (s_max_tps s), s_rands s))"

definition add_route_iter ::
  "bool \<Rightarrow> (nat \<Rightarrow> nat) \<Rightarrow> trace list \<Rightarrow> nat \<Rightarrow> select_state \<Rightarrow> select_state res" where
  "add_route_iter enable_random rand traces k s =
     rbind (choose_index enable_random rand traces s) (\<lambda>(min_index, rc).
     rbind (vec_at (s_max_tps s) min_index) (\<lambda>c.
       let s = s\<lparr>s_rands := rc\<rparr> in
       if fl_eq c used_cost then Inr (s\<lparr>s_routes := s_routes s @ [[]]\<rparr>)
       else rbind (vec_at traces min_index) (\<lambda>t.
         rbind (vec_set (s_max_tps s) min_index used_cost) (\<lambda>mt.
           if any_in_trace (mids t) (s_mid_nodes s) then
             Inr (s\<lparr>s_max_tps := mt, s_routes := s_routes s @ [[]]\<rparr>)
           else
             Inr (s\<lparr>s_max_tps := mt, s_routes := s_routes s @ [t],
                    s_mid_nodes := add_mids (mids t) (s_mid_nodes s)\<rparr>)))))"

definition select_routes ::
  "bool \<Rightarrow> bool \<Rightarrow> (nat \<Rightarrow> nat) \<Rightarrow> fl list \<times> trace list \<Rightarrow> nat \<Rightarrow> select_state res" where
  "select_routes enable_random enable_muti_trace rand mt rc =
     rfold (add_route_iter enable_random rand (snd mt))
       [0..<(if enable_muti_trace then length (snd mt) else 1)]
       \<lparr>s_max_tps = fst mt, s_mid_nodes = [], s_routes = [], s_rands = rc\<rparr>"

definition add_route_pair ::
  "bool \<Rightarrow> bool \<Rightarrow> (nat \<Rightarrow> nat) \<Rightarrow> speeds_matrix \<Rightarrow> nat \<times> nat \<Rightarrow> route_table \<times> nat \<Rightarrow>
   (route_table \<times> nat) res" where
  "add_route_pair enable_random enable_muti_trace rand tps ij rt =
     (let (i, j) = ij; (tab, rc) = rt in
      if i = j then Inr (tab, rc)
      else rmap (\<lambda>s. (tab[i := (tab ! i)[j := s_routes s]], s_rands s))
             (select_routes enable_random enable_muti_trace rand
                (find_trace tps i j (Fin 0) [i] ([], [])) rc))"

definition empty_table :: route_table where
  "empty_table = replicate num_nodes (replicate num_nodes [])"

definition add_route ::
  "bool \<Rightarrow> bool \<Rightarrow> (nat \<Rightarrow> nat) \<Rightarrow> speeds_matrix \<Rightarrow> route_table res" where
  "add_route enable_random enable_muti_trace rand tps =
     rmap fst (rfold (add_route_pair enable_random enable_muti_trace rand tps)
       (List.product [0..<num_nodes] [0..<num_nodes]) (empty_table, 0))"

definition route_at :: "route_table \<Rightarrow> nat \<Rightarrow> nat \<Rightarrow> trace list" where
  "route_at tab i j = tab ! i ! j"

section \<open>One selection step\<close>

lemma any_in_trace_iff [simp]: "any_in_trace hs ms \<longleftrightarrow> set hs \<inter> set ms \<noteq> {}"
  by (induction hs) auto

lemma set_add_mids [simp]: "set (add_mids hs ms) = set hs \<union> set ms"
  by (induction hs arbitrary: ms) auto

text \<open>
  The invariant of the selection loop over the traces \<open>ts\<close>: the kept routes are traces whose
  entry is marked as used, they are distinct and their intermediate nodes are disjoint and all
  recorded in \<open>mid_nodes\<close>.
\<close>

definition kept :: "select_state \<Rightarrow> trace list" where
  "kept s = filter (\<lambda>t. t \<noteq> []) (s_routes s)"

definition pairwise_disjoint :: "trace list \<Rightarrow> bool" where
  "pairwise_disjoint rs = sorted_wrt (\<lambda>a b. a \<noteq> b \<and> set (mids a) \<inter> set (mids b) = {}) rs"

definition select_inv :: "trace list \<Rightarrow> select_state \<Rightarrow> bool" where
  "select_inv ts s \<longleftrightarrow>
     length (s_max_tps s) = length ts \<and>
     (\<forall>t \<in> set (kept s). \<exists>i < length ts. ts ! i = t \<and> s_max_tps s ! i = used_cost) \<and>
     pairwise_disjoint (kept s) \<and>
     (\<forall>t \<in> set (kept s). set (mids t) \<subseteq> set (s_mid_nodes s))"

lemma add_route_iter_cases:
  assumes "add_route_iter er rand ts k s = Inr s'" and "length (s_max_tps s) = length ts"
  obtains (skip) i where "i < length ts"
      "s_max_tps s' = s_max_tps s \<or> s_max_tps s' = (s_max_tps s)[i := used_cost]"
      "s_routes s' = s_routes s @ [[]]" "s_mid_nodes s' = s_mid_nodes s"
  | (take) i where "i < length ts" "s_max_tps s ! i \<noteq> used_cost"
      "s_max_tps s' = (s_max_tps s)[i := used_cost]" "s_routes s' = s_routes s @ [ts ! i]"
      "set (mids (ts ! i)) \<inter> set (s_mid_nodes s) = {}"
      "s_mid_nodes s' = add_mids (mids (ts ! i)) (s_mid_nodes s)"
proof -
  from assms(1) obtain mi rc c where ch: "choose_index er rand ts s = Inr (mi, rc)"
    and c: "vec_at (s_max_tps s) mi = Inr c"
    by (auto simp: add_route_iter_def rbind_Inr_iff)
  then have mi: "0 \<le> mi" "nat mi < length ts" "c = s_max_tps s ! nat mi"
    using assms(2) by (auto simp: vec_at_Inr_iff)
  have t: "vec_at ts mi = Inr (ts ! nat mi)"
    and m: "vec_set (s_max_tps s) mi used_cost = Inr ((s_max_tps s)[nat mi := used_cost])"
    using mi assms(2) by (auto simp: vec_at_def vec_set_def)
  show thesis
  proof (cases "fl_eq c used_cost")
    case True
    with assms(1) ch c mi show thesis
      by (intro skip [of "nat mi"]) (auto simp: add_route_iter_def)
  next
    case ne: False
    then have ne': "s_max_tps s ! nat mi \<noteq> used_cost"
      using mi(3) by (auto simp: used_cost_def)
    show thesis
    proof (cases "set (mids (ts ! nat mi)) \<inter> set (s_mid_nodes s) = {}")
      case True
      with assms(1) ch c t m ne ne' mi show thesis
        by (intro take [of "nat mi"]) (auto simp: add_route_iter_def)
    next
      case False
      with assms(1) ch c t m ne mi show thesis
        by (intro skip [of "nat mi"]) (auto simp: add_route_iter_def)
    qed
  qed
qed

lemma add_route_iter_inv:
  assumes step: "add_route_iter er rand ts k s = Inr s'" and inv: "select_inv ts s"
    and ts: "distinct ts"
  shows "select_inv ts s'"
proof -
  from inv have len: "length (s_max_tps s) = length ts" by (simp add: select_inv_def)
  from step len show ?thesis
  proof (cases rule: add_route_iter_cases)
    case (skip i)
    then have kept: "kept s' = kept s" by (simp add: kept_def)
    have "\<exists>j < length ts. ts ! j = t \<and> s_max_tps s' ! j = used_cost" if "t \<in> set (kept s)" for t
      using that inv skip(2) len unfolding select_inv_def by (metis nth_list_update_eq nth_list_update_neq)
    with skip inv kept show ?thesis by (auto simp: select_inv_def)
  next
    case (take i)
    have new: "ts ! i \<notin> set (kept s)"
      using inv take(1,2) ts by (auto simp: select_inv_def nth_eq_iff_index_eq)
    have kept: "kept s' = (if ts ! i = [] then kept s else kept s @ [ts ! i])"
      using take by (simp add: kept_def)
    have used: "\<exists>j < length ts. ts ! j = t \<and> s_max_tps s' ! j = used_cost" if "t \<in> set (kept s')" for t
    proof (cases "t = ts ! i")
      case True
      with take len show ?thesis by auto
    next
      case False
      with that kept have "t \<in> set (kept s)" by (auto split: if_splits)
      with inv obtain j where j: "j < length ts" "ts ! j = t" "s_max_tps s ! j = used_cost"
        by (auto simp: select_inv_def)
      with take(3) len have "s_max_tps s' ! j = used_cost" by (cases "i = j") auto
      with j show ?thesis by blast
    qed
    have "pairwise_disjoint (kept s')"
      using inv take(5) new kept
      by (auto simp: select_inv_def pairwise_disjoint_def sorted_wrt_append)
    moreover have "\<forall>t \<in> set (kept s'). set (mids t) \<subseteq> set (s_mid_nodes s')"
      using inv kept take(6) by (auto simp: select_inv_def)
    ultimately show ?thesis using used take(3) len by (simp add: select_inv_def)
  qed
qed

lemma select_routes_inv:
  assumes "select_routes er em rand mt rc = Inr s" and "distinct (snd mt)"
    and "length (fst mt) = length (snd mt)"
  shows "select_inv (snd mt) s"
  using assms(1) unfolding select_routes_def
  by (rule rfold_invariant [where P = "select_inv (snd mt)"])
    (use assms(2,3) add_route_iter_inv in \<open>auto simp: select_inv_def kept_def pairwise_disjoint_def\<close>)

section \<open>The whole table\<close>

lemma add_route_pair_simps:
  "add_route_pair er em rand tps (i, i) (tab, rc) = Inr (tab, rc)"
  "i \<noteq> j \<Longrightarrow> add_route_pair er em rand tps (i, j) (tab, rc) =
     rmap (\<lambda>s. (tab[i := (tab ! i)[j := s_routes s]], s_rands s))
       (select_routes er em rand (find_trace tps i j (Fin 0) [i] ([], [])) rc)"
  by (simp_all add: add_route_pair_def)

definition square :: "'a list list \<Rightarrow> bool" where
  "square m \<longleftrightarrow> length m = num_nodes \<and> (\<forall>row \<in> set m. length row = num_nodes)"

lemma square_update:
  "square m \<Longrightarrow> i < num_nodes \<Longrightarrow> length row = num_nodes \<Longrightarrow> square (m[i := row])"
  by (auto simp: square_def dest!: set_update_subset_insert [THEN subsetD])

lemma square_row: "square m \<Longrightarrow> i < num_nodes \<Longrightarrow> length (m ! i) = num_nodes"
  by (simp add: square_def)

lemma square_empty_table: "square empty_table"
  by (simp add: square_def empty_table_def)

lemma add_route_fold:
  assumes "rfold (add_route_pair er em rand tps) ps (tab, rc) = Inr (tab', rc')"
    and "distinct ps" and "set ps \<subseteq> {..<num_nodes} \<times> {..<num_nodes}" and "square tab"
    and "i < num_nodes" and "j < num_nodes"
  shows "square tab' \<and>
    (if (i, j) \<in> set ps \<and> i \<noteq> j
     then \<exists>r s. select_routes er em rand (find_trace tps i j (Fin 0) [i] ([], [])) r = Inr s \<and>
            route_at tab' i j = s_routes s
     else route_at tab' i j = route_at tab i j)"
  using assms
proof (induction ps arbitrary: tab rc)
  case Nil
  then show ?case by simp
next
  case (Cons p ps)
  obtain a b where p: "p = (a, b)" by (cases p)
  from Cons.prems p have ab: "a < num_nodes" "b < num_nodes" by auto
  show ?case
  proof (cases "a = b")
    case True
    with Cons p show ?thesis by (auto simp: add_route_pair_simps)
  next
    case False
    with Cons.prems(1) p obtain s where
      s: "select_routes er em rand (find_trace tps a b (Fin 0) [a] ([], [])) rc = Inr s"
      and rest: "rfold (add_route_pair er em rand tps) ps
        (tab[a := (tab ! a)[b := s_routes s]], s_rands s) = Inr (tab', rc')"
      by (auto simp: add_route_pair_simps rbind_Inr_iff rmap_Inr_iff)
    have sq: "square (tab[a := (tab ! a)[b := s_routes s]])"
      using Cons.prems(4) ab by (simp add: square_update square_row)
    note IH = Cons.IH [OF rest _ _ sq Cons.prems(5,6)]
    have upd: "route_at (tab[a := (tab ! a)[b := s_routes s]]) i j =
        (if i = a \<and> j = b then s_routes s else route_at tab i j)"
      using Cons.prems(4) ab by (auto simp: route_at_def square_def nth_list_update)
    from IH Cons.prems(2,3) p show ?thesis
      using s False unfolding upd by (auto split: if_splits)
  qed
qed

lemma all_pairs:
  "distinct (List.product [0..<num_nodes] [0..<num_nodes])"
  "set (List.product [0..<num_nodes] [0..<num_nodes]) \<subseteq> {..<num_nodes} \<times> {..<num_nodes}"
  by (auto simp: distinct_product)

lemma add_route_entry:
  assumes "add_route er em rand tps = Inr tab" and "i < num_nodes" "j < num_nodes" "i \<noteq> j"
  obtains r s where
    "select_routes er em rand (find_trace tps i j (Fin 0) [i] ([], [])) r = Inr s"
    "route_at tab i j = s_routes s"
proof -
  from assms(1) obtain rc where
    "rfold (add_route_pair er em rand tps) (List.product [0..<num_nodes] [0..<num_nodes])
       (empty_table, 0) = Inr (tab, rc)"
    by (auto simp: add_route_def rmap_Inr_iff)
  from add_route_fold [OF this all_pairs square_empty_table assms(2,3)] assms show thesis
    by (auto intro: that)
qed

lemma add_route_square:
  assumes "add_route er em rand tps = Inr tab"
  shows "square tab"
proof -
  from assms obtain rc where
    "rfold (add_route_pair er em rand tps) (List.product [0..<num_nodes] [0..<num_nodes])
       (empty_table, 0) = Inr (tab, rc)"
    by (auto simp: add_route_def rmap_Inr_iff)
  from add_route_fold [OF this all_pairs square_empty_table, of 0 0] show ?thesis
    by (auto simp: num_nodes_def)
qed

text \<open>The routes of a pair are distinct simple paths with disjoint intermediate nodes.\<close>

lemma add_route_disjoint:
  assumes "add_route er em rand tps = Inr tab" and "i < num_nodes" "j < num_nodes" "i \<noteq> j"
  defines "rs \<equiv> filter (\<lambda>t. t \<noteq> []) (route_at tab i j)"
  shows "(\<forall>t \<in> set rs. simple_path num_nodes tps i j t) \<and> pairwise_disjoint rs"
proof -
  let ?ft = "find_trace tps i j (Fin 0) [i] ([], [])"
  from add_route_entry [OF assms(1-4)] obtain r s where
    s: "select_routes er em rand ?ft r = Inr s" and rt: "route_at tab i j = s_routes s" .
  have "select_inv (snd ?ft) s"
    using s by (rule select_routes_inv) (use assms(4) in \<open>simp_all add: find_trace_distinct find_trace_length\<close>)
  moreover have "rs = kept s" by (simp add: rs_def kept_def rt)
  moreover have "set (snd ?ft) = {t. simple_path num_nodes tps i j t}"
    using assms by (simp add: find_trace_traces)
  ultimately show ?thesis
    unfolding select_inv_def by (metis mem_Collect_eq nth_mem)
qed

section \<open>Success and the cheapest route\<close>

definition cheapest :: "speeds_matrix \<Rightarrow> nat \<Rightarrow> nat \<Rightarrow> trace \<Rightarrow> bool" where
  "cheapest tps i j t \<longleftrightarrow> simple_path num_nodes tps i j t \<and>
     (\<forall>t'. simple_path num_nodes tps i j t' \<longrightarrow>
        \<not> fl_less (path_cost tps (Fin 0) t') (path_cost tps (Fin 0) t))"

text \<open>Every ordered pair of ranks is joined by a path whose cost is below the marker of used traces.\<close>

definition overlay_connected :: "speeds_matrix \<Rightarrow> bool" where
  "overlay_connected tps \<longleftrightarrow> (\<forall>i < num_nodes. \<forall>j < num_nodes. i \<noteq> j \<longrightarrow>
     (\<exists>t. simple_path num_nodes tps i j t \<and> fl_less (path_cost tps (Fin 0) t) used_cost))"

lemma used_cost_below: "fl_less used_cost (Fin 100000000)"
  by (simp add: used_cost_def)

lemma add_route_iter_ok:
  assumes "length (s_max_tps s) = length ts"
    and "\<exists>c \<in> set (s_max_tps s). fl_less c (Fin 100000000)"
  shows "\<exists>s'. add_route_iter False rand ts k s = Inr s' \<and> length (s_max_tps s') = length ts \<and>
     (\<exists>c \<in> set (s_max_tps s'). fl_less c (Fin 100000000))"
proof -
  from assms(2) obtain j where j: "j < length (s_max_tps s)" "vmin (s_max_tps s) = int j"
    "fl_less (s_max_tps s ! j) (Fin 100000000)"
    using vmin_exists by metis
  have u: "\<exists>c \<in> set ((s_max_tps s)[j := used_cost]). fl_less c (Fin 100000000)"
    using j(1) used_cost_below by (auto intro!: bexI [of _ used_cost] set_update_memI)
  show ?thesis
    using j u assms by (auto simp: add_route_iter_def choose_index_def)
qed

lemma select_routes_ok:
  assumes "length (fst mt) = length (snd mt)"
    and "\<exists>c \<in> set (fst mt). fl_less c (Fin 100000000)"
  shows "\<exists>s. select_routes False em rand mt rc = Inr s"
proof -
  have "\<exists>s'. rfold (add_route_iter False rand (snd mt)) ks s = Inr s'"
    if "length (s_max_tps s) = length (snd mt)"
      "\<exists>c \<in> set (s_max_tps s). fl_less c (Fin 100000000)" for ks s
    using that
  proof (induction ks arbitrary: s)
    case Nil
    then show ?case by simp
  next
    case (Cons k ks)
    from add_route_iter_ok [OF Cons.prems, of rand k] obtain s1 where
      "add_route_iter False rand (snd mt) k s = Inr s1" "length (s_max_tps s1) = length (snd mt)"
      "\<exists>c \<in> set (s_max_tps s1). fl_less c (Fin 100000000)"
      by blast
    with Cons.IH [of s1] show ?case by simp
  qed
  with assms show ?thesis by (auto simp: select_routes_def)
qed

lemma add_route_iter_routes:
  "add_route_iter er rand ts k s = Inr s' \<Longrightarrow> \<exists>t. s_routes s' = s_routes s @ [t]"
  by (auto simp: add_route_iter_def rbind_Inr_iff Let_def split: if_splits)

lemma rfold_routes_prefix:
  "rfold (add_route_iter er rand ts) ks s = Inr s' \<Longrightarrow> \<exists>us. s_routes s' = s_routes s @ us"
  by (induction ks arbitrary: s) (force simp: rbind_Inr_iff dest: add_route_iter_routes)+

text \<open>In the deterministic mode the first route taken is the one \<open>min\<close> picks.\<close>

lemma select_routes_first:
  assumes sel: "select_routes False em rand mt rc = Inr s"
    and len: "length (fst mt) = length (snd mt)" and j: "vmin (fst mt) = int j" "j < length (fst mt)"
    and cost: "fst mt ! j \<noteq> used_cost"
  shows "\<exists>us. s_routes s = snd mt ! j # us"
proof -
  let ?s0 = "\<lparr>s_max_tps = fst mt, s_mid_nodes = [], s_routes = [], s_rands = rc\<rparr>"
  let ?n = "if em then length (snd mt) else 1"
  have "0 < ?n" using j len by auto
  then have "[0..<?n] = 0 # [Suc 0..<?n]" by (rule upt_conv_Cons)
  with sel obtain s1 where s1: "add_route_iter False rand (snd mt) 0 ?s0 = Inr s1"
    and rest: "rfold (add_route_iter False rand (snd mt)) [Suc 0..<?n] s1 = Inr s"
    by (auto simp: select_routes_def rbind_Inr_iff)
  have "\<not> fl_eq (fst mt ! j) used_cost"
    using cost by (auto simp: used_cost_def)
  with s1 j len have "s_routes s1 = [snd mt ! j]"
    by (auto simp: add_route_iter_def choose_index_def split: if_splits)
  with rfold_routes_prefix [OF rest] show ?thesis by auto
qed

lemma find_trace_min:
  assumes "i < num_nodes" "i \<noteq> j" "simple_path num_nodes tps i j t"
    "fl_less (path_cost tps (Fin 0) t) used_cost"
  defines "mt \<equiv> find_trace tps i j (Fin 0) [i] ([], [])"
  obtains k where "k < length (fst mt)" "vmin (fst mt) = int k" "fst mt ! k \<noteq> used_cost"
    "cheapest tps i j (snd mt ! k)"
proof -
  have paths: "set (snd mt) = {t. simple_path num_nodes tps i j t}"
    using assms by (simp add: find_trace_traces)
  have costs: "fst mt = map (path_cost tps (Fin 0)) (snd mt)"
    by (simp add: mt_def find_trace_costs)
  have tin: "path_cost tps (Fin 0) t \<in> set (fst mt)"
    using assms(3) paths by (auto simp: costs)
  obtain k where k: "k < length (fst mt)" "vmin (fst mt) = int k"
    "\<forall>m < length (fst mt). \<not> fl_less (fst mt ! m) (fst mt ! k)"
    using vmin_exists [OF tin fl_less_trans [OF assms(4) used_cost_below]] by metis
  from tin obtain m where m: "m < length (fst mt)" "fst mt ! m = path_cost tps (Fin 0) t"
    by (metis in_set_conv_nth)
  with k(3) assms(4) have ne: "fst mt ! k \<noteq> used_cost" by metis
  have "snd mt ! k \<in> set (snd mt)" using k(1) by (simp add: costs)
  moreover have "\<not> fl_less (path_cost tps (Fin 0) t') (path_cost tps (Fin 0) (snd mt ! k))"
    if t': "simple_path num_nodes tps i j t'" for t'
  proof -
    from t' paths have "t' \<in> set (snd mt)" by auto
    then obtain m where "m < length (snd mt)" "snd mt ! m = t'" by (metis in_set_conv_nth)
    with k(1,3) show ?thesis by (auto simp: costs)
  qed
  ultimately have "cheapest tps i j (snd mt ! k)" using paths by (auto simp: cheapest_def)
  with k ne that show thesis by blast
qed

lemma add_route_connected:
  assumes "overlay_connected tps"
  shows "\<exists>tab. add_route False em rand tps = Inr tab"
proof -
  have pair: "is_ok (add_route_pair False em rand tps (i, j) (tab, rc))"
    if "i < num_nodes" "j < num_nodes" for i j tab rc
  proof (cases "i = j")
    case False
    with that assms obtain t where t: "simple_path num_nodes tps i j t"
      "fl_less (path_cost tps (Fin 0) t) used_cost"
      by (auto simp: overlay_connected_def)
    let ?mt = "find_trace tps i j (Fin 0) [i] ([], [])"
    have "path_cost tps (Fin 0) t \<in> set (fst ?mt)"
      using t(1) that False by (simp add: find_trace_costs find_trace_traces)
    with t(2) have "\<exists>c \<in> set (fst ?mt). fl_less c (Fin 100000000)"
      using fl_less_trans used_cost_below by blast
    then obtain s where "select_routes False em rand ?mt rc = Inr s"
      using select_routes_ok [OF find_trace_length] by blast
    with False show ?thesis by (simp add: add_route_pair_simps)
  qed (simp add: add_route_pair_simps)
  have "is_ok (rfold (add_route_pair False em rand tps) ps st)"
    if "set ps \<subseteq> {..<num_nodes} \<times> {..<num_nodes}" for ps st
    using that
  proof (induction ps arbitrary: st)
    case (Cons p ps)
    then show ?case using pair [of "fst p" "snd p" "fst st" "snd st"]
      by (fastforce simp: is_ok_iff)
  qed simp
  from this [of "List.product [0..<num_nodes] [0..<num_nodes]" "(empty_table, 0)"]
  show ?thesis by (force simp: add_route_def is_ok_iff)
qed

lemma add_route_first_cheapest:
  assumes "overlay_connected tps" and "add_route False em rand tps = Inr tab"
    and "i < num_nodes" "j < num_nodes" "i \<noteq> j"
  shows "\<exists>r rs. route_at tab i j = r # rs \<and> cheapest tps i j r"
proof -
  let ?mt = "find_trace tps i j (Fin 0) [i] ([], [])"
  from assms obtain t where t: "simple_path num_nodes tps i j t"
    "fl_less (path_cost tps (Fin 0) t) used_cost"
    by (auto simp: overlay_connected_def)
  obtain k where k: "k < length (fst ?mt)" "vmin (fst ?mt) = int k" "fst ?mt ! k \<noteq> used_cost"
    "cheapest tps i j (snd ?mt ! k)"
    using find_trace_min [OF assms(3,5) t] .
  from add_route_entry [OF assms(2-5)] obtain r s where
    s: "select_routes False em rand ?mt r = Inr s" and rt: "route_at tab i j = s_routes s" .
  from select_routes_first [OF s find_trace_length k(2,1,3)] rt k(4) show ?thesis by auto
qed

end
