(* ===== verification/NS_Roots.thy ===== *)
theory NS_Roots
  imports NS_Routes
begin

text \<open>
  The performance of every rank as the root of an aggregation tree and the choice of the
  enabled roots (\<open>compute_performance\<close>), and the test that decides whether the measured link
  speeds have changed enough for a new decision (\<open>check_change\<close>), from \<open>src/van.cc\<close>. The locals
  \<open>log_global\<close>, \<open>log_count\<close> and \<open>perf_temp\<close> of the source are never read and are left out; \<open>log\<close>
  is the set of links already counted for the current root. The lemmas show that exactly the
  requested number of roots with the highest performance is kept, that the computation
  succeeds on the tables \<open>add_route\<close> produces, and that unchanged speeds never trigger an update.
\<close>

section \<open>Operations\<close>

fun grow :: "'a list list \<Rightarrow> nat \<Rightarrow> 'a list list" where
  "grow tp n = tp @ replicate (n - length tp) []"

definition hop_iter ::
  "speeds_matrix \<Rightarrow> trace \<Rightarrow> nat \<Rightarrow> fl list list \<times> (nat \<times> nat) list \<Rightarrow> fl list list \<times> (nat \<times> nat) list" where
  "hop_iter tps r k s =
     (let (tp, lg) = s; u = r ! k; v = r ! Suc k in
      if (u, v) \<in> set lg then s
      else (tp[k := tp ! k @ [tpa tps u v]], (u, v) # lg))"

definition perf_row ::
  "speeds_matrix \<Rightarrow> route_table \<Rightarrow> nat \<Rightarrow> nat \<Rightarrow> fl list list \<times> (nat \<times> nat) list \<Rightarrow>
   (fl list list \<times> (nat \<times> nat) list) res" where
  "perf_row tps tab i j s =
     (if i = j then Inr s
      else rbind (vec_at (route_at tab i j) 0) (\<lambda>r.
        if r = [] then Inl (Out_of_range ''route[i][j][0].size()-1'')
        else Inr (fold (hop_iter tps r) [0..<length r - 1] (grow (fst s) (length r), snd s))))"

definition level_iter :: "fl list \<Rightarrow> fl \<Rightarrow> fl res" where
  "level_iter lvl p =
     (if lvl = [] then Inr p
      else rbind (vec_at lvl (vmin lvl)) (\<lambda>m. Inr (f32_add p (f32_div (Fin 1) m))))"

definition perf_of :: "speeds_matrix \<Rightarrow> route_table \<Rightarrow> nat \<Rightarrow> fl res" where
  "perf_of tps tab i =
     rbind (rfold (perf_row tps tab i) [0..<num_nodes] ([], [])) (\<lambda>(tp, lg).
     rmap (\<lambda>p. f32_div (Fin 1) p) (rfold level_iter tp (Fin 0)))"

definition kEmpty_fl :: fl where
  "kEmpty_fl = fl_of_int INT_MAX"

definition drop_iter :: "nat \<Rightarrow> fl list \<Rightarrow> fl list res" where
  "drop_iter k perf = vec_set perf (vmin perf) kEmpty_fl"

definition select_roots :: "int \<Rightarrow> fl list \<Rightarrow> fl list res" where
  "select_roots num_enable_server perf =
     rmap (map (\<lambda>p. if fl_eq p kEmpty_fl then Fin 0 else p))
       (rfold drop_iter [0..<nat (int num_nodes - num_enable_server)] perf)"

definition compute_performance ::
  "speeds_matrix \<Rightarrow> route_table \<Rightarrow> int \<Rightarrow> fl list res" where
  "compute_performance tps tab num_enable_server =
     rbind (rmap_list (perf_of tps tab) [0..<num_nodes]) (select_roots num_enable_server)"

subsection \<open>Change detection\<close>

definition fl_abs_diff :: "fl \<Rightarrow> fl \<Rightarrow> fl" where
  "fl_abs_diff a b = (if fl_less (Fin 0) (f32_sub a b) then f32_sub a b else f32_sub b a)"

definition change_iter :: "speeds_matrix \<Rightarrow> speeds_matrix \<Rightarrow> nat \<times> nat \<Rightarrow> int \<times> fl \<Rightarrow> int \<times> fl" where
  "change_iter tps temp ij s =
     (let (i, j) = ij; (num, diff) = s; a = tpa tps i j; b = tpa temp i j in
      if \<not> fl_eq a b then (num + 1, f32_add diff (f32_div (fl_abs_diff a b) b)) else s)"

definition check_change :: "speeds_matrix \<Rightarrow> speeds_matrix \<Rightarrow> fl" where
  "check_change tps temp =
     (let (num, diff) = fold (change_iter tps temp) (List.product [0..<num_nodes] [0..<num_nodes]) (0, Fin 0)
      in f32_div diff (fl_of_int num))"

section \<open>Selection of the roots\<close>

lemma kEmpty_fl_eq: "kEmpty_fl = Fin 2147483648"
  by code_simp

text \<open>
  After \<open>m\<close> rounds the entries of a set \<open>D\<close> of \<open>m\<close> ranks carry the marker, the others are
  unchanged and none of them is below an entry of \<open>D\<close>.
\<close>

definition dropped :: "fl list \<Rightarrow> fl list \<Rightarrow> nat set \<Rightarrow> bool" where
  "dropped perf perf' D \<longleftrightarrow>
     D \<subseteq> {..<length perf} \<and> perf' = map (\<lambda>i. if i \<in> D then kEmpty_fl else perf ! i) [0..<length perf] \<and>
     (\<forall>d \<in> D. \<forall>k < length perf. k \<notin> D \<longrightarrow> \<not> fl_less (perf ! k) (perf ! d))"

lemma drop_iter_dropped:
  assumes d: "dropped perf perf' D" and card: "card D < length perf"
    and small: "\<forall>p \<in> set perf. fl_less p (Fin 100000000)"
  shows "\<exists>j < length perf. j \<notin> D \<and> (\<exists>perf''. drop_iter k perf' = Inr perf'' \<and> dropped perf perf'' (insert j D))"
proof -
  have len: "length perf' = length perf" using d by (simp add: dropped_def)
  have nth: "perf' ! i = (if i \<in> D then kEmpty_fl else perf ! i)" if "i < length perf" for i
    using d that by (simp add: dropped_def)
  have "D \<noteq> {..<length perf}" using card by auto
  then obtain i where i: "i < length perf" "i \<notin> D" using d by (auto simp: dropped_def)
  then have "perf' ! i \<in> set perf'" by (simp add: len)
  moreover from i have "fl_less (perf' ! i) (Fin 100000000)"
    using small nth by auto
 ultimately obtain j where j: "j < length perf" "vmin perf' = int j" "fl_less (perf' ! j) (Fin 100000000)"
    "\<forall>k < length perf. \<not> fl_less (perf' ! k) (perf' ! j)"
    using vmin_exists len by metis
  have jD: "j \<notin> D"
    using j(1,3) nth by (auto simp: kEmpty_fl_eq)
  have "drop_iter k perf' = Inr (perf'[j := kEmpty_fl])"
    using j len by (simp add: drop_iter_def)
  moreover have "dropped perf (perf'[j := kEmpty_fl]) (insert j D)"
    unfolding dropped_def
  proof (intro conjI)
    show "insert j D \<subseteq> {..<length perf}" using d j(1) by (auto simp: dropped_def)
    show "perf'[j := kEmpty_fl] = map (\<lambda>i. if i \<in> insert j D then kEmpty_fl else perf ! i) [0..<length perf]"
      by (rule nth_equalityI) (auto simp: len nth nth_list_update j(1))
    show "\<forall>d \<in> insert j D. \<forall>k < length perf. k \<notin> insert j D \<longrightarrow> \<not> fl_less (perf ! k) (perf ! d)"
      using d j(4) jD nth j(1) by (auto simp: dropped_def)
  qed
  ultimately show ?thesis using j(1) jD by blast
qed

lemma drop_rounds:
  assumes small: "\<forall>p \<in> set perf. fl_less p (Fin 100000000)" and "card D + length ks \<le> length perf"
    and "dropped perf perf' D" and "finite D"
  shows "\<exists>D' perf''. rfold drop_iter ks perf' = Inr perf'' \<and> dropped perf perf'' D' \<and>
    card D' = card D + length ks"
  using assms(2-4)
proof (induction ks arbitrary: D perf')
  case Nil
  then show ?case by auto
next
  case (Cons k ks)
  from drop_iter_dropped [OF Cons.prems(2) _ small, of k] Cons.prems(1)
  obtain j q where j: "j \<notin> D" "drop_iter k perf' = Inr q" "dropped perf q (insert j D)" by auto
  from Cons.IH [of "insert j D" q] Cons.prems j show ?case by auto
qed

lemma select_roots_best:
  assumes small: "\<forall>p \<in> set perf. fl_less p (Fin 100000000)" and len: "length perf = num_nodes"
    and n: "0 \<le> n" "n \<le> int num_nodes"
  shows "\<exists>K \<subseteq> {..<num_nodes}. card K = nat n \<and>
    select_roots n perf = Inr (map (\<lambda>i. if i \<in> K then perf ! i else Fin 0) [0..<num_nodes]) \<and>
    (\<forall>k \<in> K. \<forall>d < num_nodes. d \<notin> K \<longrightarrow> \<not> fl_less (perf ! k) (perf ! d))"
proof -
  have "dropped perf perf {}"
    by (simp add: dropped_def map_nth)
  moreover have "nat (int num_nodes - n) \<le> num_nodes" using n by linarith
  ultimately
  obtain D q where D: "rfold drop_iter [0..<nat (int num_nodes - n)] perf = Inr q" "dropped perf q D"
    "card D = nat (int num_nodes - n)"
    using drop_rounds [OF small, of "{}" "[0..<nat (int num_nodes - n)]" perf] len by auto
  have sub: "D \<subseteq> {..<num_nodes}" using D(2) len by (simp add: dropped_def)
  then have "card ({..<num_nodes} - D) = num_nodes - card D"
    by (subst card_Diff_subset) (auto intro: finite_subset)
  then have card: "card ({..<num_nodes} - D) = nat n" using D(3) n by simp
  have "perf ! i \<noteq> kEmpty_fl" if "i < num_nodes" for i
    using small that len nth_mem [of i perf] by (force simp: kEmpty_fl_eq)
  then have "map (\<lambda>p. if fl_eq p kEmpty_fl then Fin 0 else p) q =
      map (\<lambda>i. if i \<in> {..<num_nodes} - D then perf ! i else Fin 0) [0..<num_nodes]"
    using D(2) len by (auto simp: dropped_def kEmpty_fl_eq)
  then have "select_roots n perf = Inr (map (\<lambda>i. if i \<in> {..<num_nodes} - D then perf ! i else Fin 0) [0..<num_nodes])"
    by (simp add: select_roots_def D(1))
  moreover have "\<forall>k \<in> {..<num_nodes} - D. \<forall>d < num_nodes. d \<notin> {..<num_nodes} - D \<longrightarrow>
      \<not> fl_less (perf ! k) (perf ! d)"
    using D(2) len by (auto simp: dropped_def)
  ultimately show ?thesis using card by (intro exI [of _ "{..<num_nodes} - D"]) blast
qed

section \<open>The performance is defined on a complete table\<close>

text \<open>
  A table is complete when every pair of different ranks has a non-empty first route along
  links; the tables of a connected overlay are.
\<close>

definition complete_table :: "speeds_matrix \<Rightarrow> route_table \<Rightarrow> bool" where
  "complete_table tps tab \<longleftrightarrow> square tab \<and> (\<forall>i < num_nodes. \<forall>j < num_nodes. i \<noteq> j \<longrightarrow>
     (\<exists>r rs. route_at tab i j = r # rs \<and> simple_path num_nodes tps i j r))"

lemma add_route_complete:
  "overlay_connected tps \<Longrightarrow> add_route False em rand tps = Inr tab \<Longrightarrow> complete_table tps tab"
  unfolding complete_table_def
  using add_route_square add_route_first_cheapest cheapest_def by metis

definition speeds_small :: "speeds_matrix \<Rightarrow> bool" where
  "speeds_small tps \<longleftrightarrow> (\<forall>i < num_nodes. \<forall>j < num_nodes. fl_less (tpa tps i j) (Fin 100000000))"

definition levels_small :: "fl list list \<Rightarrow> bool" where
  "levels_small tp \<longleftrightarrow> (\<forall>lvl \<in> set tp. \<forall>x \<in> set lvl. fl_less x (Fin 100000000))"

lemma hop_iter_pair:
  "hop_iter tps r k (tp, lg) =
     (if (r ! k, r ! Suc k) \<in> set lg then (tp, lg)
      else (tp[k := tp ! k @ [tpa tps (r ! k) (r ! Suc k)]], (r ! k, r ! Suc k) # lg))"
  by (simp add: hop_iter_def Let_def)

lemma hop_fold_small:
  assumes "speeds_small tps" and "set r \<subseteq> {..<num_nodes}" and "set ks \<subseteq> {..<length r - 1}"
    and "levels_small (fst st)" and "length r \<le> length (fst st)"
  shows "levels_small (fst (fold (hop_iter tps r) ks st))"
  using assms(3-5)
proof (induction ks arbitrary: st)
  case Nil
  then show ?case by simp
next
  case (Cons k ks)
  obtain tp lg where st: "st = (tp, lg)" by (cases st)
  from Cons.prems have k: "Suc k < length r" "k < length tp" by (auto simp: st)
  then have "r ! k < num_nodes" "r ! Suc k < num_nodes"
    using assms(2) by (auto dest!: subsetD)
  then have "fl_less (tpa tps (r ! k) (r ! Suc k)) (Fin 100000000)"
    using assms(1) by (simp add: speeds_small_def)
  moreover have "\<forall>x \<in> set (tp ! k). fl_less x (Fin 100000000)"
    using Cons.prems(2) nth_mem [OF k(2)] unfolding st levels_small_def fst_conv by blast
  ultimately have "levels_small (fst (hop_iter tps r k st))"
    using Cons.prems(2) k
    by (auto simp: st hop_iter_pair levels_small_def dest!: set_update_subset_insert [THEN subsetD])
  moreover have "length r \<le> length (fst (hop_iter tps r k st))"
    using Cons.prems(3) by (simp add: st hop_iter_pair)
  ultimately show ?case using Cons.IH Cons.prems(1) by simp
qed

lemma perf_rows_ok:
  assumes "speeds_small tps" and "complete_table tps tab" and "i < num_nodes"
    and "set js \<subseteq> {..<num_nodes}" and "levels_small (fst st)"
  shows "\<exists>st'. rfold (perf_row tps tab i) js st = Inr st' \<and> levels_small (fst st')"
  using assms(4,5)
proof (induction js arbitrary: st)
  case Nil
  then show ?case by simp
next
  case (Cons j js)
  show ?case
  proof (cases "i = j")
    case True
    with Cons show ?thesis by (simp add: perf_row_def)
  next
    case False
    from Cons.prems(1) have "j < num_nodes" by simp
    with False assms(2,3) obtain r rs where r: "route_at tab i j = r # rs"
      "simple_path num_nodes tps i j r"
      unfolding complete_table_def by blast
    then have rn: "r \<noteq> []" "set r \<subseteq> {..<num_nodes}" by (auto simp: simple_path_def)
    define st' where "st' = fold (hop_iter tps r) [0..<length r - 1] (grow (fst st) (length r), snd st)"
    have "perf_row tps tab i j st = Inr st'"
      using False r(1) rn(1) by (simp add: perf_row_def vec_at_def st'_def)
    moreover have "levels_small (fst st')"
      unfolding st'_def
      by (rule hop_fold_small [OF assms(1) rn(2)]) (use Cons.prems(2) in \<open>auto simp: levels_small_def\<close>)
    ultimately show ?thesis using Cons.IH [of st'] Cons.prems(1) by auto
  qed
qed

lemma level_fold_ok:
  "levels_small tp \<Longrightarrow> \<exists>p'. rfold level_iter tp p = Inr p'"
proof (induction tp arbitrary: p)
  case Nil
  then show ?case by simp
next
  case (Cons lvl tp)
  have "\<exists>q. level_iter lvl p = Inr q"
  proof (cases lvl)
    case Nil
    then show ?thesis by (simp add: level_iter_def)
  next
    case (Cons x xs)
    with Cons.prems have "x \<in> set lvl" "fl_less x (Fin 100000000)" by (auto simp: levels_small_def)
    then obtain j where "j < length lvl" "vmin lvl = int j" using vmin_exists by metis
    then show ?thesis by (simp add: level_iter_def)
  qed
  with Cons.IH Cons.prems show ?case by (fastforce simp: levels_small_def)
qed

lemma perf_of_ok:
  assumes "speeds_small tps" and "complete_table tps tab" and "i < num_nodes"
  shows "\<exists>p. perf_of tps tab i = Inr p"
proof -
  from perf_rows_ok [OF assms, of "[0..<num_nodes]" "([], [])"] obtain tp lg where
    tp: "rfold (perf_row tps tab i) [0..<num_nodes] ([], []) = Inr (tp, lg)" "levels_small tp"
    by (auto simp: levels_small_def atLeast0LessThan)
  from level_fold_ok [OF tp(2)] obtain p where "rfold level_iter tp (Fin 0) = Inr p" by blast
  with tp(1) show ?thesis by (simp add: perf_of_def)
qed

lemma perf_list_ok:
  assumes "speeds_small tps" and "complete_table tps tab"
  shows "\<exists>perf. rmap_list (perf_of tps tab) [0..<num_nodes] = Inr perf \<and> length perf = num_nodes"
proof -
  have "\<forall>i \<in> set [0..<num_nodes]. \<exists>p. perf_of tps tab i = Inr p"
    using perf_of_ok [OF assms] by simp
  then obtain g where "\<forall>i \<in> set [0..<num_nodes]. perf_of tps tab i = Inr (g i)" by metis
  then have "rmap_list (perf_of tps tab) [0..<num_nodes] = Inr (map g [0..<num_nodes])"
    by (intro rmap_list_total) simp
  then show ?thesis by simp
qed

lemma compute_performance_roots:
  assumes perf: "rmap_list (perf_of tps tab) [0..<num_nodes] = Inr perf"
    and small: "\<forall>p \<in> set perf. fl_less p (Fin 100000000)" and n: "0 \<le> n" "n \<le> int num_nodes"
  shows "\<exists>K \<subseteq> {..<num_nodes}. card K = nat n \<and>
    compute_performance tps tab n = Inr (map (\<lambda>i. if i \<in> K then perf ! i else Fin 0) [0..<num_nodes]) \<and>
    (\<forall>k \<in> K. \<forall>d < num_nodes. d \<notin> K \<longrightarrow> \<not> fl_less (perf ! k) (perf ! d))"
proof -
  have "length perf = num_nodes" using perf by (simp add: rmap_list_Inr_iff)
  from select_roots_best [OF small this n] perf show ?thesis
    by (simp add: compute_performance_def)
qed

section \<open>Change detection\<close>

lemma change_fold_same:
  assumes "\<forall>(i, j) \<in> set ps. not_nan (tpa tps i j)"
  shows "fold (change_iter tps tps) ps s = s"
  using assms by (induction ps arbitrary: s) (auto simp: change_iter_def split: prod.splits)

lemma check_change_same:
  assumes "\<forall>i < num_nodes. \<forall>j < num_nodes. not_nan (tpa tps i j)"
  shows "check_change tps tps = NaN"
proof -
  have "fold (change_iter tps tps) (List.product [0..<num_nodes] [0..<num_nodes]) (0, Fin 0) = (0, Fin 0)"
    using assms by (intro change_fold_same) auto
  then show ?thesis by (simp add: check_change_def fl_of_int_exact)
qed

section \<open>A full mesh of equal links\<close>

definition mesh_tps :: speeds_matrix where
  "mesh_tps = replicate num_nodes (replicate num_nodes (Fin 1))"

definition mesh_table :: route_table where
  "mesh_table = map (\<lambda>i. map (\<lambda>j. if i = j then [] else [[i, j]]) [0..<num_nodes]) [0..<num_nodes]"

lemma mesh_perf: "rmap_list (perf_of mesh_tps mesh_table) [0..<num_nodes] = Inr (replicate num_nodes (Fin 1))"
  by code_simp

end
