(* ===== verification/NS_Trees.thy ===== *)
theory NS_Trees
  imports NS_Roots
begin

text \<open>
  The aggregation trees (\<open>PolicyDecision\<close> of \<open>src/van.cc\<close>): for every enabled root \<open>i\<close> the
  parent of a node \<open>j\<close> is the next hop of its first route to \<open>i\<close>, and its children are the
  nodes whose parent it is. The lemmas show that the decision succeeds on a complete table,
  and that following parents leads every node to the root in fewer than \<open>num_nodes\<close> steps when
  the first routes are cheapest and the path costs involve no rounding.
\<close>

section \<open>Operations\<close>

definition next_hop :: "route_table \<Rightarrow> nat \<Rightarrow> nat \<Rightarrow> int res" where
  "next_hop tab i j =
     (if i = j then Inr (- 2)
      else rbind (vec_at (route_at tab i j) 0) (\<lambda>r. rmap int (vec_at r 1)))"

definition next_hop_list :: "route_table \<Rightarrow> int list list res" where
  "next_hop_list tab =
     rmap_list (\<lambda>i. rmap_list (next_hop tab i) [0..<num_nodes]) [0..<num_nodes]"

text \<open>The entry of root \<open>i\<close> in the policy of node \<open>j\<close>: parent, children, terminator.\<close>

definition policy_entry :: "int list list \<Rightarrow> nat \<Rightarrow> nat \<Rightarrow> int list" where
  "policy_entry nh i j =
     nh ! j ! i # map int (filter (\<lambda>k. nh ! k ! i = int j) [0..<num_nodes]) @ [- 1]"

definition policy_of :: "fl list \<Rightarrow> int list list \<Rightarrow> nat \<Rightarrow> fl list" where
  "policy_of perf nh j =
     perf @ map fl_of_int
       (concat (map (\<lambda>i. if \<not> fl_eq (perf ! i) (Fin 0) then policy_entry nh i j else [])
         [0..<length perf]))"

definition PolicyDecision :: "fl list \<Rightarrow> route_table \<Rightarrow> fl list list res" where
  "PolicyDecision perf tab =
     rmap (\<lambda>nh. map (policy_of perf nh) [0..<num_nodes]) (next_hop_list tab)"

section \<open>Next hops\<close>

lemma simple_path_two:
  assumes "simple_path N tps i j r" and "i \<noteq> j"
  obtains h t where "r = i # h # t" "h < N" "edge tps i h" "simple_path N tps h j (h # t)"
proof -
  obtain u where u: "r = i # u" using assms(1) by (cases r) (auto simp: simple_path_def)
  with assms obtain h t where "u = h # t" by (cases u) (auto simp: simple_path_def)
  with u assms that show thesis by (auto simp: simple_path_def)
qed

lemma next_hop_complete:
  assumes "complete_table tps tab" and "i < num_nodes" "j < num_nodes" "i \<noteq> j"
  obtains h t rs where "route_at tab i j = (i # h # t) # rs" "next_hop tab i j = Inr (int h)"
    "h < num_nodes" "edge tps i h"
proof -
  from assms obtain r rs where r: "route_at tab i j = r # rs" "simple_path num_nodes tps i j r"
    unfolding complete_table_def by blast
  from simple_path_two [OF r(2) assms(4)] obtain h t where
    h: "r = i # h # t" "h < num_nodes" "edge tps i h" by metis
  with r assms(4) show thesis by (intro that [of h t rs]) (auto simp: next_hop_def vec_at_def)
qed

definition hops_ok :: "int list list \<Rightarrow> bool" where
  "hops_ok nh \<longleftrightarrow> length nh = num_nodes \<and>
     (\<forall>i < num_nodes. length (nh ! i) = num_nodes \<and>
       (\<forall>j < num_nodes. (i = j \<longrightarrow> nh ! i ! j = - 2) \<and>
          (i \<noteq> j \<longrightarrow> 0 \<le> nh ! i ! j \<and> nh ! i ! j < int num_nodes)))"

lemma next_hop_list_complete:
  assumes "complete_table tps tab"
  shows "\<exists>nh. next_hop_list tab = Inr nh \<and> hops_ok nh \<and>
     (\<forall>i < num_nodes. \<forall>j < num_nodes. next_hop tab i j = Inr (nh ! i ! j))"
proof -
  have ok: "\<exists>x. next_hop tab i j = Inr x" if "i < num_nodes" "j < num_nodes" for i j
  proof (cases "i = j")
    case True
    then show ?thesis by (simp add: next_hop_def)
  next
    case False
    from next_hop_complete [OF assms that False] show ?thesis by metis
  qed
  define g where "g i j = projr (next_hop tab i j)" for i j
  have g: "next_hop tab i j = Inr (g i j)" if "i < num_nodes" "j < num_nodes" for i j
    using ok [OF that] by (auto simp: g_def)
  define nh where "nh = map (\<lambda>i. map (g i) [0..<num_nodes]) [0..<num_nodes]"
  have "next_hop_list tab = Inr nh"
    unfolding next_hop_list_def nh_def by (intro rmap_list_total) (simp add: g)
  moreover have nth: "nh ! i ! j = g i j" if "i < num_nodes" "j < num_nodes" for i j
    using that by (simp add: nh_def)
  have "hops_ok nh"
    unfolding hops_ok_def
  proof (intro conjI allI impI)
    fix i j assume "i < num_nodes" "j < num_nodes" "i = j"
    then show "nh ! i ! j = - 2" using g [of i j] nth by (simp add: next_hop_def)
  next
    fix i j assume ij: "i < num_nodes" "j < num_nodes" "i \<noteq> j"
    from next_hop_complete [OF assms this] obtain h where "next_hop tab i j = Inr (int h)" "h < num_nodes"
      by metis
    with ij g [of i j] nth show "0 \<le> nh ! i ! j" "nh ! i ! j < int num_nodes" by auto
  qed (simp_all add: nh_def)
  ultimately show ?thesis using g nth by auto
qed

lemma PolicyDecision_complete:
  assumes "complete_table tps tab"
  shows "\<exists>nh. PolicyDecision perf tab = Inr (map (policy_of perf nh) [0..<num_nodes]) \<and> hops_ok nh \<and>
     (\<forall>i < num_nodes. \<forall>j < num_nodes. next_hop tab i j = Inr (nh ! i ! j))"
  using next_hop_list_complete [OF assms] by (auto simp: PolicyDecision_def)

section \<open>Loop freedom\<close>

fun wsum :: "(nat \<Rightarrow> nat \<Rightarrow> rat) \<Rightarrow> trace \<Rightarrow> rat" where
  "wsum w (u # v # t) = w u v + wsum w (v # t)"
| "wsum w _ = 0"

text \<open>The speeds are such that no sum of link costs along a simple path is rounded.\<close>

definition exact_costs :: "speeds_matrix \<Rightarrow> (nat \<Rightarrow> nat \<Rightarrow> rat) \<Rightarrow> bool" where
  "exact_costs tps w \<longleftrightarrow> (\<forall>u < num_nodes. \<forall>v < num_nodes. edge tps u v \<longrightarrow> 0 < w u v) \<and>
     (\<forall>a b t. simple_path num_nodes tps a b t \<longrightarrow> path_cost tps (Fin 0) t = Fin (wsum w t))"

definition cheapest_table :: "speeds_matrix \<Rightarrow> route_table \<Rightarrow> bool" where
  "cheapest_table tps tab \<longleftrightarrow> (\<forall>i < num_nodes. \<forall>j < num_nodes. i \<noteq> j \<longrightarrow>
     (\<exists>r rs. route_at tab i j = r # rs \<and> cheapest tps i j r))"

text \<open>The distance to the root \<open>i\<close> along the first route.\<close>

definition root_dist :: "(nat \<Rightarrow> nat \<Rightarrow> rat) \<Rightarrow> route_table \<Rightarrow> nat \<Rightarrow> nat \<Rightarrow> rat" where
  "root_dist w tab i j = (if j = i then 0 else wsum w (hd (route_at tab j i)))"

lemma wsum_nonneg:
  assumes "\<And>u v. u < num_nodes \<Longrightarrow> v < num_nodes \<Longrightarrow> edge tps u v \<Longrightarrow> 0 < w u v"
    and "set t \<subseteq> {..<num_nodes}" and "successively (edge tps) t"
  shows "0 \<le> wsum w t"
  using assms(2,3)
proof (induction t rule: induct_list012)
  case (3 u v t)
  then have "0 < w u v" by (intro assms(1)) auto
  with 3 show ?case by simp
qed simp_all

text \<open>The next hop of a cheapest route is strictly closer to the root.\<close>

lemma next_hop_closer:
  assumes ex: "exact_costs tps w" and ch: "cheapest_table tps tab"
    and ij: "i < num_nodes" "j < num_nodes" "j \<noteq> i" and nh: "next_hop tab j i = Inr x"
  shows "0 \<le> x \<and> nat x < num_nodes \<and> root_dist w tab i (nat x) < root_dist w tab i j"
proof -
  from ch ij obtain r rs where r: "route_at tab j i = r # rs" "cheapest tps j i r"
    unfolding cheapest_table_def by metis
  from r(2) have sp: "simple_path num_nodes tps j i r" by (simp add: cheapest_def)
  from simple_path_two [OF sp ij(3)] obtain h t where h: "r = j # h # t" "h < num_nodes"
    "edge tps j h" "simple_path num_nodes tps h i (h # t)" by metis
  have x: "x = int h" using nh r(1) h(1) ij(3) by (simp add: next_hop_def vec_at_def)
  have w: "0 < w j h" using ex h ij by (simp add: exact_costs_def)
  have dj: "root_dist w tab i j = w j h + wsum w (h # t)"
    using r(1) h(1) ij(3) by (simp add: root_dist_def)
  have "root_dist w tab i h \<le> wsum w (h # t)"
  proof (cases "h = i")
    case True
    have "0 \<le> wsum w (h # t)"
      using h(4) ex by (intro wsum_nonneg [of tps]) (auto simp: exact_costs_def simple_path_def)
    with True show ?thesis by (simp add: root_dist_def)
  next
    case False
    with ch ij(1) h(2) obtain r' rs' where r': "route_at tab h i = r' # rs'" "cheapest tps h i r'"
      unfolding cheapest_table_def by metis
    then have sp': "simple_path num_nodes tps h i r'" by (simp add: cheapest_def)
    have "\<not> fl_less (path_cost tps (Fin 0) (h # t)) (path_cost tps (Fin 0) r')"
      using r'(2) h(4) by (simp add: cheapest_def)
    then have "wsum w r' \<le> wsum w (h # t)"
      using ex sp' h(4) by (simp add: exact_costs_def)
    with False r'(1) show ?thesis by (simp add: root_dist_def)
  qed
  with dj w x h(2) show ?thesis by simp
qed

text \<open>Following the parent pointers of root \<open>i\<close>.\<close>

fun follow :: "int list list \<Rightarrow> nat \<Rightarrow> nat \<Rightarrow> nat \<Rightarrow> nat" where
  "follow nh i 0 j = j"
| "follow nh i (Suc n) j = (if j = i then i else follow nh i n (nat (nh ! j ! i)))"

lemma follow_root:
  assumes closer: "\<And>j. j < num_nodes \<Longrightarrow> j \<noteq> i \<Longrightarrow>
      nat (nh ! j ! i) < num_nodes \<and> d (nat (nh ! j ! i)) < (d j :: 'a :: linorder)"
    and "j < num_nodes" and "card {k \<in> {..<num_nodes}. d k < d j} \<le> n"
  shows "follow nh i n j = i"
  using assms(2,3)
proof (induction n arbitrary: j)
  case 0
  show ?case
  proof (rule ccontr)
    assume "follow nh i 0 j \<noteq> i"
    with closer [of j] 0 have "nat (nh ! j ! i) \<in> {k \<in> {..<num_nodes}. d k < d j}" by simp
    moreover have "finite {k \<in> {..<num_nodes}. d k < d j}" by simp
    ultimately show False using 0 by (metis card_gt_0_iff empty_iff not_le)
  qed
next
  case (Suc n)
  show ?case
  proof (cases "j = i")
    case False
    let ?h = "nat (nh ! j ! i)"
    from closer [OF Suc.prems(1) False] have h: "?h < num_nodes" "d ?h < d j" by auto
    then have "{k \<in> {..<num_nodes}. d k < d ?h} \<subset> {k \<in> {..<num_nodes}. d k < d j}" by auto
    then have "card {k \<in> {..<num_nodes}. d k < d ?h} < card {k \<in> {..<num_nodes}. d k < d j}"
      by (intro psubset_card_mono) auto
    with Suc.IH [OF h(1)] Suc.prems(2) False show ?thesis by simp
  qed simp
qed

lemma follow_root_table:
  assumes ex: "exact_costs tps w" and ch: "cheapest_table tps tab"
    and nh: "\<forall>i < num_nodes. \<forall>j < num_nodes. next_hop tab i j = Inr (nh ! i ! j)"
    and ij: "i < num_nodes" "j < num_nodes"
  shows "follow nh i (num_nodes - 1) j = i"
proof (rule follow_root [where d = "root_dist w tab i"])
  fix k assume k: "k < num_nodes" "k \<noteq> i"
  with next_hop_closer [OF ex ch ij(1) k] nh ij(1)
  show "nat (nh ! k ! i) < num_nodes \<and> root_dist w tab i (nat (nh ! k ! i)) < root_dist w tab i k" by simp
next
  have "{k \<in> {..<num_nodes}. root_dist w tab i k < root_dist w tab i j} \<subseteq> {..<num_nodes} - {j}" by auto
  then have "card {k \<in> {..<num_nodes}. root_dist w tab i k < root_dist w tab i j} \<le> card ({..<num_nodes} - {j})"
    by (intro card_mono) auto
  with ij(2) show "card {k \<in> {..<num_nodes}. root_dist w tab i k < root_dist w tab i j} \<le> num_nodes - 1" by simp
qed (fact ij(2))

lemma add_route_cheapest_table:
  "overlay_connected tps \<Longrightarrow> add_route False em rand tps = Inr tab \<Longrightarrow> cheapest_table tps tab"
  unfolding cheapest_table_def using add_route_first_cheapest by metis

section \<open>The overlay with unit speeds\<close>

text \<open>
  The matrix the program starts from, before the speeds are set: a concrete overlay on which the
  hypotheses of the lemmas above hold.
\<close>

lemma tpa_initial:
  "i < num_nodes \<Longrightarrow> j < num_nodes \<Longrightarrow> tpa initial_tps i j = Fin 0 \<or> tpa initial_tps i j = Fin 1"
proof -
  assume "i < num_nodes" "j < num_nodes"
  moreover have "list_all (\<lambda>row. length row = num_nodes \<and> list_all (\<lambda>x. x = Fin 0 \<or> x = Fin 1) row) initial_tps
      \<and> length initial_tps = num_nodes"
    by code_simp
  ultimately show ?thesis by (simp add: tpa_def list_all_length)
qed

lemma edge_cost_initial:
  assumes "i < num_nodes" "j < num_nodes" "edge initial_tps i j"
  shows "edge_cost initial_tps i j = Fin 1"
proof -
  have "rnd32 1 = Fin 1" by code_simp
  moreover have "tpa initial_tps i j = Fin 1"
    using tpa_initial [OF assms(1,2)] assms(3) by (auto simp: edge_def)
  ultimately show ?thesis by (simp add: edge_cost_def)
qed

lemma path_cost_initial:
  assumes "successively (edge initial_tps) t" "set t \<subseteq> {..<num_nodes}" "c + length t < 2 ^ 24"
  shows "path_cost initial_tps (Fin (of_nat c)) t = Fin (of_nat (c + (length t - 1)))"
  using assms
proof (induction t arbitrary: c rule: induct_list012)
  case (3 u v t)
  have "rnd32 (of_nat c + 1) = Fin (of_nat (Suc c))"
    using 3(5) rnd_int_exact [of "int (Suc c)" 24 "-126" 127] by (simp add: rnd32_def add.commute)
  with 3(2) [of "Suc c"] 3(3-5) show ?case by (simp add: edge_cost_initial algebra_simps)
qed simp_all

lemma simple_path_length:
  assumes "simple_path N tps a b t"
  shows "length t \<le> N"
proof -
  have "card (set t) \<le> card {..<N}"
    using assms by (intro card_mono) (auto simp: simple_path_def)
  with assms show ?thesis by (simp add: simple_path_def distinct_card)
qed

lemma path_cost_initial_simple:
  assumes "simple_path num_nodes initial_tps a b t"
  shows "path_cost initial_tps (Fin 0) t = Fin (of_nat (length t - 1))"
  using path_cost_initial [of t 0] simple_path_length [OF assms] assms
  by (simp add: simple_path_def num_nodes_def)

lemma wsum_one: "wsum (\<lambda>_ _. 1) t = of_nat (length t - 1)"
  by (induction t rule: induct_list012) simp_all

lemma exact_costs_initial: "exact_costs initial_tps (\<lambda>_ _. 1)"
  by (simp add: exact_costs_def path_cost_initial_simple wsum_one)

text \<open>A path for every pair, read off a table of next hops.\<close>

definition initial_hops :: "nat list list" where
  "initial_hops =
    [[0, 1, 2, 2, 1, 2, 1, 1, 2], [0, 1, 2, 2, 4, 2, 4, 4, 2], [0, 1, 2, 3, 1, 3, 1, 3, 3],
     [2, 2, 2, 3, 4, 5, 4, 5, 5], [1, 1, 1, 3, 4, 3, 6, 6, 3], [3, 3, 3, 3, 3, 5, 6, 7, 8],
     [4, 4, 4, 4, 4, 5, 6, 7, 5], [5, 6, 5, 5, 6, 5, 6, 7, 8], [5, 5, 5, 5, 5, 5, 5, 7, 8]]"

fun hop_path :: "nat \<Rightarrow> nat \<Rightarrow> nat \<Rightarrow> trace" where
  "hop_path 0 i j = [i]"
| "hop_path (Suc n) i j = (if i = j then [i] else i # hop_path n (initial_hops ! i ! j) j)"

lemma connected_initial: "overlay_connected initial_tps"
proof -
  have "list_all (\<lambda>(i, j). i = j \<or> (let t = hop_path 8 i j in t \<noteq> [] \<and> hd t = i \<and> last t = j \<and>
      distinct t \<and> list_all (\<lambda>x. x < num_nodes) t \<and> successively (edge initial_tps) t))
      (List.product [0..<num_nodes] [0..<num_nodes])"
    by code_simp
  then have sp: "simple_path num_nodes initial_tps i j (hop_path 8 i j)"
    if "i < num_nodes" "j < num_nodes" "i \<noteq> j" for i j
    using that unfolding simple_path_def by (fastforce simp: list_all_iff Let_def)
  show ?thesis
    unfolding overlay_connected_def
  proof (intro allI impI)
    fix i j assume ij: "i < num_nodes" "j < num_nodes" "i \<noteq> j"
    from path_cost_initial_simple [OF sp [OF ij]] simple_path_length [OF sp [OF ij]]
    have "fl_less (path_cost initial_tps (Fin 0) (hop_path 8 i j)) used_cost"
      by (simp add: used_cost_def num_nodes_def)
    with sp [OF ij] show "\<exists>t. simple_path num_nodes initial_tps i j t \<and>
        fl_less (path_cost initial_tps (Fin 0) t) used_cost"
      by blast
  qed
qed

lemma speeds_small_initial: "speeds_small initial_tps"
  using tpa_initial by (fastforce simp: speeds_small_def)

end
