(* ===== verification/NS_Node.thy ===== *)
theory NS_Node
  imports NS_Customer NS_Resender NS_Trees
begin

text \<open>
  The state of a node (the members of \<open>Van\<close> in \<open>include/ps/internal/van.h\<close>, with its post office)
  and the sending half of the van (\<open>src/van.cc\<close>): \<open>Add_trace\<close>, \<open>Send_transmit\<close>, \<open>Send\<close>, \<open>Push\<close>
  and one iteration of \<open>Sending\<close>, with \<open>EnableSendCheck\<close>. Messages given to a socket are
  appended to \<open>outbox\<close>, messages given to a customer to \<open>accepted\<close>. The clocks a handler reads are
  fields of the state. On a server the source keeps in \<open>route[0]\<close> what \<open>route0\<close> is here; on the
  scheduler \<open>route\<close> is the table \<open>sched_route\<close>. The byte counters, which nothing reads, are left out.
\<close>

section \<open>State\<close>

record vnet =
  my_node :: node
  my_node_group :: "node list"
  my_container_id :: int
  vsenders :: "int list"   \<comment> \<open>the node ids a socket is connected to\<close>
  connected_nodes :: "string \<rightharpoonup> int"
  shared_node_mapping :: "int \<rightharpoonup> int"
  vnum_servers :: int
  vnum_workers :: int
  node_container_id :: "int \<Rightarrow> int"
  eth_sort :: "node list list"
  eth_node :: "node list"
  num_report_eth :: int
  neighbors :: "int list"
  nodes_meta :: meta
  recovery_meta :: meta
  barrier_count :: "int list"
  vready :: bool

record vroute =
  sched_route :: route_table
  route0 :: "int list list list"
  vtps :: speeds_matrix
  vperf :: "fl list"
  perf_update_flag :: bool
  vmid_tp :: fl
  vparents :: "int list"
  vsons :: "int list list"
  vparents_temp :: "int list"
  vsons_temp :: "int list list"
  viters :: int
  init_flag :: bool
  change_flag :: bool
  notify_count :: int

record vsend =
  send_queue_group :: "queue list"
  send_queue_map :: "(int \<times> int) list"
  receive_flag :: "bool list"
  sending_threads :: "int list"
  vspeeds :: "fl list list"
  cache_count :: int
  enable_send :: int
  key_timestamp :: "key \<Rightarrow> int"

record vconf =
  cf_second_queue_limit :: int
  cf_size_msg_report :: int
  cf_size_cache :: int
  cf_num_msg_report :: int
  cf_report_rate :: fl
  cf_update_rate :: fl
  cf_enable_random :: bool
  cf_enable_muti_trace :: bool
  cf_num_enable_server :: int
  cf_heartbeat_timeout :: int
  cf_container_id :: "int option"

record nstate =
  vnt :: vnet
  vrt :: vroute
  vsd :: vsend
  cfg :: vconf
  npo :: postoffice
  vtimestamp :: int
  vresender :: "resender option"
  now_ms :: int
  now_sec :: fl
  now_time :: int
  env_rank :: "int option"   \<comment> \<open>\<open>DMLC_RANK\<close>\<close>
  outbox :: "message list"
  accepted :: "(handle \<times> message) list"

abbreviation my_id :: "nstate \<Rightarrow> int" where
  "my_id s \<equiv> n_id (my_node (vnt s))"

definition upd_vn :: "(vnet \<Rightarrow> vnet) \<Rightarrow> nstate \<Rightarrow> nstate" where
  "upd_vn f s = s\<lparr>vnt := f (vnt s)\<rparr>"

definition upd_vr :: "(vroute \<Rightarrow> vroute) \<Rightarrow> nstate \<Rightarrow> nstate" where
  "upd_vr f s = s\<lparr>vrt := f (vrt s)\<rparr>"

definition upd_vs :: "(vsend \<Rightarrow> vsend) \<Rightarrow> nstate \<Rightarrow> nstate" where
  "upd_vs f s = s\<lparr>vsd := f (vsd s)\<rparr>"

text \<open>
  \<open>operator[]\<close> of \<open>send_queue_map\<close> gives zero for a node without an entry; the entry it then
  inserts has the same value.
\<close>

definition queue_index :: "nstate \<Rightarrow> int \<Rightarrow> int" where
  "queue_index s i = (case map_of (send_queue_map (vsd s)) i of None \<Rightarrow> 0 | Some q \<Rightarrow> q)"

definition queue_to :: "nstate \<Rightarrow> int \<Rightarrow> queue res" where
  "queue_to s i = vec_at (send_queue_group (vsd s)) (queue_index s i)"

text \<open>Conversion of a 64-bit unsigned or wider value to \<open>int\<close>.\<close>

definition cint_wrap :: "int \<Rightarrow> int" where
  "cint_wrap x = (x + 2 ^ 31) mod 2 ^ 32 - 2 ^ 31"

section \<open>Sending\<close>

text \<open>\<open>SendMsg\<close> of the ZeroMQ van, seen from the van: a missing socket returns -1.\<close>

definition van_SendMsg :: "message \<Rightarrow> nstate \<Rightarrow> (bool \<times> nstate) res" where
  "van_SendMsg msg s =
     rcheck (recver (meta msg) \<noteq> kEmpty) ''id != Meta::kEmpty''
       (if recver (meta msg) \<in> set (vsenders (vnt s)) then Inr (True, s\<lparr>outbox := outbox s @ [msg]\<rparr>)
        else Inr (False, s))"

definition add_outgoing :: "message \<Rightarrow> nstate \<Rightarrow> nstate res" where
  "add_outgoing msg s = (case vresender s of
       None \<Rightarrow> Inr s
     | Some rs \<Rightarrow> rmap (\<lambda>rs'. s\<lparr>vresender := Some rs'\<rparr>) (AddOutgoing (my_id s) (now_ms s) msg rs))"

text \<open>The rank of a destination, server or worker.\<close>

definition dst_rank :: "int \<Rightarrow> int" where
  "dst_rank d = (if d smod 2 \<noteq> 0 then d - 9 else d - 8) sdiv 2"

text \<open>The loop that appends a route in reverse, without its first node.\<close>

definition push_route :: "int list \<Rightarrow> message \<Rightarrow> message res" where
  "push_route r msg =
     (if r = [] then Inl (Out_of_range ''size()-1 of an empty route'')
      else Inr (upd_meta (\<lambda>m. m\<lparr>route := route m @ map fl_of_int (rev (tl r))\<rparr>) msg))"

definition recver_from_route :: "message \<Rightarrow> message res" where
  "recver_from_route msg =
     rbind (vec_back (route (meta msg))) (\<lambda>x. rmap (\<lambda>i. upd_meta (\<lambda>m. m\<lparr>recver := i\<rparr>) msg) (int_of_fl x))"

definition main_route :: "nstate \<Rightarrow> int \<Rightarrow> int list res" where
  "main_route s rank = rbind (vec_at (route0 (vrt s)) rank) (\<lambda>rs. vec_at rs 0)"

definition Add_trace :: "message \<Rightarrow> nstate \<Rightarrow> message res" where
  "Add_trace msg s =
     (let msg = upd_meta (\<lambda>m. (set_cmd REPLY1 m)
            \<lparr>dst := (if dst m = kEmpty then recver m else dst m), priority := 0,
             sender := (if sender m = kEmpty then my_id s else sender m),
             sender_o := (if sender_o m = kEmpty then my_id s else sender_o m),
             last_hop := my_id s\<rparr>) msg;
          d = dst (meta msg)
      in if is_worker (npo s) then Inr (upd_meta (\<lambda>m. m\<lparr>recver := my_id s - 1\<rparr>) msg)
         else if d = my_id s + 1 then Inr (upd_meta (\<lambda>m. m\<lparr>recver := d\<rparr>) msg)
         else rbind (main_route s (dst_rank d)) (\<lambda>r. rbind (push_route r msg) recver_from_route))"

definition Send_transmit :: "message \<Rightarrow> nstate \<Rightarrow> nstate res" where
  "Send_transmit msg s =
     rbind (van_SendMsg msg s) (\<lambda>(ok, s). rcheck ok ''send_bytes != -1'' (add_outgoing msg s))"

definition Send :: "message \<Rightarrow> nstate \<Rightarrow> (message \<times> nstate) res" where
  "Send msg s =
     rbind (if (is_worker (npo s) \<or> is_server (npo s)) \<and> cmd_of msg = EMPTY then Add_trace msg s else Inr msg)
       (\<lambda>msg.
     rbind (van_SendMsg msg s) (\<lambda>(ok, s).
     rcheck ok ''send_bytes != -1''
     (rbind (add_outgoing msg s) (\<lambda>s.
        Inr (if cmd_of msg = REPLY1 \<and> data msg = []
             then upd_meta (\<lambda>m. m\<lparr>recver := dst m, dst := kEmpty,
                    control := (control m)\<lparr>c_cmd := EMPTY, c_node := []\<rparr>\<rparr>) msg
             else msg, s)))))"

text \<open>A call of \<open>Send\<close> that does not use the message afterwards.\<close>

definition send_only :: "message \<Rightarrow> nstate \<Rightarrow> nstate res" where
  "send_only msg s = rmap snd (Send msg s)"

section \<open>Flow control\<close>

definition restart_msg :: "int \<Rightarrow> int \<Rightarrow> int \<Rightarrow> message" where
  "restart_msg me to_id flag = upd_meta (\<lambda>m. (set_cmd RECV_REPLY m)\<lparr>sender := me, sender_o := me,
     last_hop := me, recver := to_id, mkey := - 2, iters := flag\<rparr>) Message"

definition restart_iter :: "node \<Rightarrow> nstate \<Rightarrow> nstate res" where
  "restart_iter n s =
     (if n_id n = my_id s then Inr s
      else rbind (vec_at (receive_flag (vsd s)) (queue_index s (n_id n))) (\<lambda>fl.
        if fl then Inr s
        else rbind (send_only (restart_msg (my_id s) (n_id n) (enable_send (vsd s))) s) (\<lambda>s.
          rmap (\<lambda>rf. upd_vs (\<lambda>v. v\<lparr>receive_flag := rf\<rparr>) s)
            (vec_set (receive_flag (vsd s)) (queue_index s (n_id n)) True))))"

definition EnableSendCheck :: "nstate \<Rightarrow> nstate res" where
  "EnableSendCheck s =
     (if cache_count (vsd s) > cf_size_cache (cfg s) then Inr (upd_vs (\<lambda>v. v\<lparr>enable_send := 0\<rparr>) s)
      else if enable_send (vsd s) \<noteq> 1 \<and> cache_count (vsd s) < cf_size_cache (cfg s) sdiv 5
      then rfold restart_iter (eth_node (vnt s)) (upd_vs (\<lambda>v. v\<lparr>enable_send := 1\<rparr>) s)
      else Inr s)"

section \<open>Send queues\<close>

text \<open>
  The search for an auxiliary route: the first further route whose first queue is short while
  the queue of the main route is long.
\<close>

fun aux_route :: "nstate \<Rightarrow> int list list \<Rightarrow> message \<Rightarrow> message res" where
  "aux_route s [] msg = Inr msg"
| "aux_route s (r # rs) msg =
     rbind (vec_at r 1) (\<lambda>temp.
     rbind (queue_to s (recver (meta msg))) (\<lambda>qm.
     rbind (if q_size qm > 2 * cf_second_queue_limit (cfg s)
            then rmap (\<lambda>qt. q_size qt < cf_second_queue_limit (cfg s)) (queue_to s temp) else Inr False) (\<lambda>free.
       if free
       then rbind (push_route r (upd_meta (\<lambda>m. m\<lparr>route := []\<rparr>) msg)) recver_from_route
       else aux_route s rs msg)))"

definition choose_route :: "message \<Rightarrow> nstate \<Rightarrow> message res" where
  "choose_route msg s =
     (if is_server (npo s) \<and> (cmd_of msg = EMPTY \<or> (sender_o (meta msg) = my_id s + 1 \<and> cmd_of msg = REPLY1))
      then rbind (if cmd_of msg = EMPTY then Add_trace msg s else Inr msg) (\<lambda>msg.
        if dst (meta msg) \<noteq> my_id s + 1
        then rbind (vec_at (route0 (vrt s)) (dst_rank (dst (meta msg)))) (\<lambda>rs. aux_route s (drop 1 rs) msg)
        else Inr msg)
      else Inr msg)"

definition enqueue :: "message \<Rightarrow> nstate \<Rightarrow> nstate res" where
  "enqueue msg s =
     (let i = queue_index s (recver (meta msg)) in
      rbind (vec_at (send_queue_group (vsd s)) i) (\<lambda>q.
      rmap (\<lambda>g. upd_vs (\<lambda>v. v\<lparr>send_queue_group := g\<rparr>) s)
        (vec_set (send_queue_group (vsd s)) i (QueuePush q msg))))"

definition van_Push :: "message \<Rightarrow> nstate \<Rightarrow> nstate res" where
  "van_Push msg s =
     rbind (choose_route msg s) (\<lambda>msg.
     rbind (enqueue msg s) (\<lambda>s.
       if recver (meta msg) \<noteq> my_id s + 1 \<and> length (data msg) > 1
       then EnableSendCheck (upd_vs (\<lambda>v. v\<lparr>cache_count :=
              cint_wrap (cache_count v + int (blob_capacity (data msg ! 1)))\<rparr>) s)
       else Inr s))"

text \<open>
  One iteration of \<open>Sending\<close> for a node: \<open>None\<close> while the queue is empty; otherwise the state and
  whether the thread leaves its loop.
\<close>

definition mark_report :: "message \<Rightarrow> nstate \<Rightarrow> message" where
  "mark_report msg s =
     (if length (data msg) > 1 \<and> int (blob_capacity (data msg ! 1)) \<ge> cf_size_msg_report (cfg s) mod 2 ^ 64
      then upd_meta (\<lambda>m. m\<lparr>start_time := now_sec s, mkey := - 1\<rparr>) msg else msg)"

definition Sending_step :: "int \<Rightarrow> nstate \<Rightarrow> (bool \<times> nstate) res option" where
  "Sending_step nid s =
     (case queue_to s nid of
        Inl e \<Rightarrow> Some (Inl e)
      | Inr q \<Rightarrow> (if q_empty q then None else Some (
          rbind (WaitAndPop2 q) (\<lambda>(msg, q').
          rbind (vec_set (send_queue_group (vsd s)) (queue_index s nid) q') (\<lambda>g.
          rbind (Send (mark_report msg s) (upd_vs (\<lambda>v. v\<lparr>send_queue_group := g\<rparr>) s)) (\<lambda>(msg, s).
            Inr (cmd_of msg = TERMINATE, s)))))))"

section \<open>Control messages are sent as they are\<close>

lemma upd_simps [simp]:
  "vnt (upd_vn f1 s) = f1 (vnt s)" "vrt (upd_vn f1 s) = vrt s" "vsd (upd_vn f1 s) = vsd s"
  "vnt (upd_vr f2 s) = vnt s" "vrt (upd_vr f2 s) = f2 (vrt s)" "vsd (upd_vr f2 s) = vsd s"
  "vnt (upd_vs f3 s) = vnt s" "vrt (upd_vs f3 s) = vrt s" "vsd (upd_vs f3 s) = f3 (vsd s)"
  "npo (upd_vn f1 s) = npo s" "npo (upd_vr f2 s) = npo s" "npo (upd_vs f3 s) = npo s"
  "cfg (upd_vn f1 s) = cfg s" "cfg (upd_vr f2 s) = cfg s" "cfg (upd_vs f3 s) = cfg s"
  "outbox (upd_vn f1 s) = outbox s" "outbox (upd_vr f2 s) = outbox s" "outbox (upd_vs f3 s) = outbox s"
  "accepted (upd_vn f1 s) = accepted s" "accepted (upd_vr f2 s) = accepted s" "accepted (upd_vs f3 s) = accepted s"
  "vresender (upd_vn f1 s) = vresender s" "vresender (upd_vr f2 s) = vresender s" "vresender (upd_vs f3 s) = vresender s"
  "vtimestamp (upd_vn f1 s) = vtimestamp s" "vtimestamp (upd_vr f2 s) = vtimestamp s" "vtimestamp (upd_vs f3 s) = vtimestamp s"
  by (simp_all add: upd_vn_def upd_vr_def upd_vs_def)

lemma queue_index_upd [simp]:
  "send_queue_map (f (vsd s)) = send_queue_map (vsd s) \<Longrightarrow> queue_index (upd_vs f s) = queue_index s"
  by (intro ext) (simp add: queue_index_def)

lemma queue_index_out [simp]:
  "queue_index (s\<lparr>outbox := ob\<rparr>) = queue_index s" "queue_index (s\<lparr>vresender := r\<rparr>) = queue_index s"
  by (intro ext; simp add: queue_index_def)+

lemma add_outgoing_Inr: "add_outgoing msg s = Inr s' \<Longrightarrow> \<exists>rs. s' = s\<lparr>vresender := rs\<rparr>"
  by (auto simp: add_outgoing_def rmap_Inr_iff split: option.splits)
    (metis (mono_tags) nstate.surjective nstate.update_convs(7))

lemma send_control:
  assumes "send_only msg s = Inr s'" "cmd_of msg \<noteq> EMPTY"
  shows "recver (meta msg) \<in> set (vsenders (vnt s)) \<and> (\<exists>rs. s' = s\<lparr>outbox := outbox s @ [msg], vresender := rs\<rparr>)"
  using assms
  by (auto simp: send_only_def Send_def van_SendMsg_def rmap_Inr_iff rbind_Inr_iff rcheck_Inr_iff
      split: if_splits dest: add_outgoing_Inr)

lemma send_control_ok:
  assumes "cmd_of msg \<noteq> EMPTY" "recver (meta msg) \<in> set (vsenders (vnt s))" "recver (meta msg) \<noteq> kEmpty"
    and "vresender s = None"
  shows "send_only msg s = Inr (s\<lparr>outbox := outbox s @ [msg]\<rparr>)"
  using assms by (simp add: send_only_def Send_def van_SendMsg_def add_outgoing_def)

section \<open>Flow control has hysteresis\<close>

lemma restart_iter_cases:
  assumes "restart_iter n s = Inr s'"
  obtains (own) "n_id n = my_id s" "s' = s"
  | (on) "n_id n \<noteq> my_id s" "vec_at (receive_flag (vsd s)) (queue_index s (n_id n)) = Inr True" "s' = s"
  | (restart) rs where "n_id n \<noteq> my_id s"
      "vec_at (receive_flag (vsd s)) (queue_index s (n_id n)) = Inr False"
      "s' = upd_vs (\<lambda>v. v\<lparr>receive_flag := (receive_flag v)[nat (queue_index s (n_id n)) := True]\<rparr>)
         (s\<lparr>outbox := outbox s @ [restart_msg (my_id s) (n_id n) (enable_send (vsd s))], vresender := rs\<rparr>)"
proof (cases "n_id n = my_id s")
  case True
  with assms show thesis by (intro own) (simp_all add: restart_iter_def)
next
  case False
  with assms obtain b where b: "vec_at (receive_flag (vsd s)) (queue_index s (n_id n)) = Inr b"
    by (auto simp: restart_iter_def rbind_Inr_iff)
  show thesis
  proof (cases b)
    case True
    with False assms b show thesis by (intro on) (simp_all add: restart_iter_def)
  next
    case nb: False
    let ?m = "restart_msg (my_id s) (n_id n) (enable_send (vsd s))"
    from False assms b nb obtain s1 where s1: "send_only ?m s = Inr s1"
      and s': "rmap (\<lambda>rf. upd_vs (\<lambda>v. v\<lparr>receive_flag := rf\<rparr>) s1)
        (vec_set (receive_flag (vsd s1)) (queue_index s1 (n_id n)) True) = Inr s'"
      by (auto simp: restart_iter_def rbind_Inr_iff)
    from send_control [OF s1] obtain rs where "s1 = s\<lparr>outbox := outbox s @ [?m], vresender := rs\<rparr>"
      by (auto simp: restart_msg_def)
    with s' have "s' = upd_vs (\<lambda>v. v\<lparr>receive_flag := (receive_flag v)[nat (queue_index s (n_id n)) := True]\<rparr>)
         (s\<lparr>outbox := outbox s @ [?m], vresender := rs\<rparr>)"
      by (auto simp: rmap_Inr_iff vec_simps upd_vs_def)
    with False b nb show thesis by (intro restart) simp_all
  qed
qed

definition flag_on :: "nstate \<Rightarrow> node \<Rightarrow> bool" where
  "flag_on s n \<longleftrightarrow> vec_at (receive_flag (vsd s)) (queue_index s (n_id n)) = Inr True"

lemma restart_iter_flags:
  assumes "restart_iter n s = Inr s'"
  shows "enable_send (vsd s') = enable_send (vsd s) \<and> cache_count (vsd s') = cache_count (vsd s) \<and> my_id s' = my_id s \<and>
    (n_id n \<noteq> my_id s \<longrightarrow> flag_on s' n) \<and> (\<forall>k. flag_on s k \<longrightarrow> flag_on s' k) \<and>
    send_queue_group (vsd s') = send_queue_group (vsd s)"
  using assms
proof (cases rule: restart_iter_cases)
  case (restart rs)
  have qi: "queue_index s' = queue_index s" unfolding restart(3) by simp
  show ?thesis
    using restart(1,2) unfolding flag_on_def qi unfolding restart(3)
    by (auto simp: vec_simps nth_list_update)
qed (auto simp: flag_on_def)

lemma restart_fold_flags:
  assumes "rfold restart_iter ns s = Inr s'"
  shows "enable_send (vsd s') = enable_send (vsd s) \<and> cache_count (vsd s') = cache_count (vsd s) \<and> my_id s' = my_id s \<and>
    (\<forall>n \<in> set ns. n_id n \<noteq> my_id s \<longrightarrow> flag_on s' n) \<and> (\<forall>k. flag_on s k \<longrightarrow> flag_on s' k) \<and>
    send_queue_group (vsd s') = send_queue_group (vsd s)"
  using assms
proof (induction ns arbitrary: s)
  case (Cons n ns)
  then obtain s1 where s1: "restart_iter n s = Inr s1" "rfold restart_iter ns s1 = Inr s'"
    by (auto simp: rbind_Inr_iff)
  from restart_iter_flags [OF s1(1)] Cons.IH [OF s1(2)] show ?case by auto
qed simp

lemma EnableSendCheck_cases:
  assumes "EnableSendCheck s = Inr s'"
  shows "cache_count (vsd s') = cache_count (vsd s) \<and>
    (cache_count (vsd s) > cf_size_cache (cfg s) \<longrightarrow> enable_send (vsd s') = 0) \<and>
    (enable_send (vsd s) \<noteq> 1 \<and> enable_send (vsd s') = 1 \<longrightarrow>
       cache_count (vsd s) < cf_size_cache (cfg s) sdiv 5 \<and>
       (\<forall>n \<in> set (eth_node (vnt s)). n_id n \<noteq> my_id s \<longrightarrow> flag_on s' n)) \<and>
    (enable_send (vsd s) = 1 \<and> cache_count (vsd s) \<le> cf_size_cache (cfg s) \<longrightarrow> s' = s)"
  using assms
  by (auto simp: EnableSendCheck_def split: if_splits dest!: restart_fold_flags)

section \<open>A pushed message waits in the queue of its receiver\<close>

lemma EnableSendCheck_queues:
  "EnableSendCheck s = Inr s' \<Longrightarrow>
   send_queue_group (vsd s') = send_queue_group (vsd s) \<and> queue_index s' = queue_index s"
proof -
  have "queue_index s' = queue_index s" if "restart_iter n s = Inr s'" for n s s'
    using that by (cases rule: restart_iter_cases) auto
  then have "queue_index s' = queue_index s" if "rfold restart_iter ns s = Inr s'" for ns s s'
    using that by (induction ns arbitrary: s) (auto simp: rbind_Inr_iff)
  then show "EnableSendCheck s = Inr s' \<Longrightarrow> ?thesis"
    by (auto simp: EnableSendCheck_def split: if_splits dest: restart_fold_flags)
qed

lemma enqueue_Inr:
  assumes "enqueue msg s = Inr s'"
  obtains q i where "queue_to s (recver (meta msg)) = Inr q" "i = nat (queue_index s (recver (meta msg)))"
    "i < length (send_queue_group (vsd s))" "0 \<le> queue_index s (recver (meta msg))"
    "s' = upd_vs (\<lambda>v. v\<lparr>send_queue_group := (send_queue_group v)[i := Push q msg]\<rparr>) s"
  using assms
  by (auto simp: enqueue_def Let_def rbind_Inr_iff rmap_Inr_iff queue_to_def vec_simps QueuePush_eq upd_vs_def)

lemma van_Push_queued:
  assumes "van_Push msg s = Inr s'"
  shows "\<exists>m q. choose_route msg s = Inr m \<and> queue_to s (recver (meta m)) = Inr q \<and>
    queue_to s' (recver (meta m)) = Inr (Push q m) \<and>
    (\<forall>j. j \<noteq> nat (queue_index s (recver (meta m))) \<longrightarrow>
       send_queue_group (vsd s') ! j = send_queue_group (vsd s) ! j)"
proof -
  from assms obtain m s1 where m: "choose_route msg s = Inr m" and s1: "enqueue m s = Inr s1"
    and s': "(if recver (meta m) \<noteq> my_id s1 + 1 \<and> length (data m) > 1
       then EnableSendCheck (upd_vs (\<lambda>v. v\<lparr>cache_count :=
              cint_wrap (cache_count v + int (blob_capacity (data m ! 1)))\<rparr>) s1)
       else Inr s1) = Inr s'"
    by (auto simp: van_Push_def rbind_Inr_iff)
  obtain q i where q: "queue_to s (recver (meta m)) = Inr q"
    "i = nat (queue_index s (recver (meta m)))" "i < length (send_queue_group (vsd s))"
    "0 \<le> queue_index s (recver (meta m))"
    "s1 = upd_vs (\<lambda>v. v\<lparr>send_queue_group := (send_queue_group v)[i := Push q m]\<rparr>) s" by (rule enqueue_Inr [OF s1])
  have "send_queue_group (vsd s') = send_queue_group (vsd s1) \<and> queue_index s' = queue_index s1"
  proof (cases "recver (meta m) \<noteq> my_id s1 + 1 \<and> length (data m) > 1")
    case True
    with s' have "EnableSendCheck (upd_vs (\<lambda>v. v\<lparr>cache_count :=
              cint_wrap (cache_count v + int (blob_capacity (data m ! 1)))\<rparr>) s1) = Inr s'" by simp
    from EnableSendCheck_queues [OF this] show ?thesis by simp
  next
    case False
    with s' show ?thesis by auto
  qed
  then have "send_queue_group (vsd s') = (send_queue_group (vsd s))[i := Push q m] \<and> queue_index s' = queue_index s"
    using q(5) by simp
  with m q show ?thesis by (intro exI [of _ m] exI [of _ q]) (auto simp: queue_to_def vec_at_def)
qed

section \<open>A message a server sends follows one of its routes\<close>

text \<open>A message on its way: the route holds the rest of the path, nearest node last.\<close>

definition carries :: "int list \<Rightarrow> message \<Rightarrow> bool" where
  "carries p msg \<longleftrightarrow> route (meta msg) = map fl_of_int (rev p)"

definition small_ids :: "int list \<Rightarrow> bool" where
  "small_ids p \<longleftrightarrow> (\<forall>x \<in> set p. \<bar>x\<bar> < 2 ^ 24)"

lemma push_and_aim:
  assumes "rbind (push_route r (upd_meta (\<lambda>m. m\<lparr>route := []\<rparr>) msg)) recver_from_route = Inr m" "small_ids r"
  shows "carries (tl r) m \<and> tl r \<noteq> [] \<and> recver (meta m) = hd (tl r) \<and> dst (meta m) = dst (meta msg) \<and> data m = data msg"
proof -
  from assms(1) have r: "r \<noteq> []" "tl r \<noteq> []"
    by (auto simp: push_route_def recver_from_route_def rbind_Inr_iff rmap_Inr_iff vec_simps split: if_splits)
  then obtain x y p where p: "r = x # y # p" by (cases r; cases "tl r") auto
  have "int_of_fl (fl_of_int y) = Inr y" using assms(2) by (simp add: p small_ids_def int_of_fl_of_int)
  with assms(1) show ?thesis
    by (auto simp: p push_route_def recver_from_route_def vec_back_def carries_def)
qed

lemma aux_route_carries:
  assumes "aux_route s rs msg = Inr m" "\<forall>r \<in> set rs. small_ids r"
  shows "m = msg \<or> (\<exists>r \<in> set rs. carries (tl r) m \<and> tl r \<noteq> [] \<and> recver (meta m) = hd (tl r) \<and>
     dst (meta m) = dst (meta msg) \<and> data m = data msg)"
  using assms
proof (induction rs)
  case (Cons r rs)
  from Cons.prems(1) obtain free where
    f: "(if free then rbind (push_route r (upd_meta (\<lambda>m. m\<lparr>route := []\<rparr>) msg)) recver_from_route
         else aux_route s rs msg) = Inr m"
    by (auto simp: rbind_Inr_iff)
  show ?case
  proof (cases free)
    case True
    with f push_and_aim [of r msg m] Cons.prems(2) show ?thesis by auto
  next
    case False
    with f Cons show ?thesis by auto
  qed
qed simp

lemma Add_trace_server:
  assumes "Add_trace msg s = Inr m" "is_server (npo s)" "\<not> is_worker (npo s)" "route (meta msg) = []"
    and "dst (meta m) \<noteq> my_id s + 1" "\<forall>rs \<in> set (route0 (vrt s)). \<forall>r \<in> set rs. small_ids r"
  shows "\<exists>r. main_route s (dst_rank (dst (meta m))) = Inr r \<and> carries (tl r) m \<and> tl r \<noteq> [] \<and>
    recver (meta m) = hd (tl r) \<and> data m = data msg \<and> cmd_of m = REPLY1"
proof -
  let ?m1 = "upd_meta (\<lambda>m. (set_cmd REPLY1 m)
            \<lparr>dst := (if dst m = kEmpty then recver m else dst m), priority := 0,
             sender := (if sender m = kEmpty then my_id s else sender m),
             sender_o := (if sender_o m = kEmpty then my_id s else sender_o m),
             last_hop := my_id s\<rparr>) msg"
  have nil: "upd_meta (\<lambda>m. m\<lparr>route := []\<rparr>) ?m1 = ?m1" using assms(4) by (simp add: upd_meta_def set_cmd_def)
  from assms(1,3,5) obtain r where r: "main_route s (dst_rank (dst (meta ?m1))) = Inr r"
    "rbind (push_route r ?m1) recver_from_route = Inr m"
    by (auto simp: Add_trace_def Let_def rbind_Inr_iff split: if_splits)
  then have small: "small_ids r"
    using assms(6) by (auto simp: main_route_def rbind_Inr_iff dest!: vec_at_in_set)
  from push_and_aim [of r ?m1 m] r(2) nil small have
    c: "carries (tl r) m \<and> tl r \<noteq> [] \<and> recver (meta m) = hd (tl r) \<and> dst (meta m) = dst (meta ?m1) \<and> data m = data ?m1"
    by simp
  moreover have "cmd_of m = REPLY1"
    using r(2) by (auto simp: push_route_def recver_from_route_def rbind_Inr_iff rmap_Inr_iff split: if_splits)
  ultimately show ?thesis using r(1) by auto
qed

lemma choose_route_released:
  assumes "choose_route msg s = Inr m" "is_server (npo s)" "\<not> is_worker (npo s)" "cmd_of msg = EMPTY"
    and "route (meta msg) = []" "dst (meta m) \<noteq> my_id s + 1"
    and "\<forall>rs \<in> set (route0 (vrt s)). \<forall>r \<in> set rs. small_ids r"
  shows "\<exists>rs r. vec_at (route0 (vrt s)) (dst_rank (dst (meta m))) = Inr rs \<and> r \<in> set rs \<and>
    carries (tl r) m \<and> tl r \<noteq> [] \<and> recver (meta m) = hd (tl r) \<and> data m = data msg"
proof -
  from assms(1,2,4) obtain m1 where m1: "Add_trace msg s = Inr m1"
    and m: "(if dst (meta m1) \<noteq> my_id s + 1
        then rbind (vec_at (route0 (vrt s)) (dst_rank (dst (meta m1)))) (\<lambda>rs. aux_route s (drop 1 rs) m1)
        else Inr m1) = Inr m"
    by (auto simp: choose_route_def rbind_Inr_iff)
  with assms(6) have d1: "dst (meta m1) \<noteq> my_id s + 1" by (auto split: if_splits)
  with m obtain rs where rs: "vec_at (route0 (vrt s)) (dst_rank (dst (meta m1))) = Inr rs"
    "aux_route s (drop 1 rs) m1 = Inr m" by (auto simp: rbind_Inr_iff)
  from Add_trace_server [OF m1 assms(2,3,5) d1 assms(7)] obtain r where
    r: "main_route s (dst_rank (dst (meta m1))) = Inr r" "carries (tl r) m1" "tl r \<noteq> []"
      "recver (meta m1) = hd (tl r)" "data m1 = data msg" by blast
  have main: "r \<in> set rs" using r(1) rs(1) by (auto simp: main_route_def intro: vec_at_in_set)
  have small: "\<forall>r \<in> set (drop 1 rs). small_ids r"
    using vec_at_in_set [OF rs(1)] assms(7) by (auto dest: in_set_dropD)
  from aux_route_carries [OF rs(2) small] r rs(1) main show ?thesis
    by (metis in_set_dropD)
qed

end
