(* ===== verification/NS_Transfer.thy ===== *)
theory NS_Transfer
  imports NS_Node
begin

text \<open>
  What a node does with the data messages it receives (\<open>src/van.cc\<close>): delivery to a customer,
  forwarding along the route a message carries (\<open>REPLY1\<close>), distribution to the children of an
  aggregation tree (\<open>REPLY2\<close>), the acknowledgement and speed measurement of received data
  (\<open>RecvReply\<close>, \<open>ProcessRecvReplyCommand\<close>) and the speed reports at the scheduler.
\<close>

section \<open>Delivery\<close>

definition RelationUpdate :: "nstate \<Rightarrow> nstate" where
  "RelationUpdate s = upd_vr (\<lambda>v. v\<lparr>vparents := vparents_temp v, vsons := vsons_temp v\<rparr>) s"

definition unwrap_reply1 :: "message \<Rightarrow> nstate \<Rightarrow> message res" where
  "unwrap_reply1 msg s =
     (if cmd_of msg = REPLY1 then
        let msg = upd_meta (\<lambda>m. m\<lparr>dst := kEmpty, control := (control m)\<lparr>c_cmd := EMPTY, c_node := []\<rparr>\<rparr>) msg in
        rbind (if tree (meta msg) \<noteq> [] \<and> my_id s = 9
               then rmap (\<lambda>t. upd_meta (\<lambda>m. m\<lparr>timestamp := t\<rparr>) msg) (cint_inc (timestamp (meta msg)))
               else Inr msg) (\<lambda>msg.
        Inr (if is_worker (npo s) \<and> length (data msg) > 1
             then upd_meta (\<lambda>m. m\<lparr>timestamp := key_timestamp (vsd s) (key_data m)\<rparr>) msg else msg))
      else Inr msg)"

definition ProcessDataMsg :: "message \<Rightarrow> nstate \<Rightarrow> nstate res" where
  "ProcessDataMsg msg s =
     rbind (unwrap_reply1 msg s) (\<lambda>msg.
     rcheck (sender (meta msg) \<noteq> kEmpty) ''sender != kEmpty''
     (rcheck (recver (meta msg) \<noteq> kEmpty) ''recver != kEmpty''
     (rcheck (app_id (meta msg) \<noteq> kEmpty) ''app_id != kEmpty''
       (let aid = app_id (meta msg);
            cid = (if is_worker (npo s) then customer_id (meta msg) else aid)
        in case GetCustomer (\<lambda>_. customers (npo s)) aid cid 5 of
             None \<Rightarrow> Inl (Check_failed ''timeout to wait App ready'')
           | Some h \<Rightarrow> Inr (s\<lparr>accepted := accepted s @ [(h, msg)]\<rparr>)))))"

section \<open>Aggregation trees\<close>

text \<open>The data arrays are added as \<open>SArray<char>\<close>, whose element type has no name of its own.\<close>

definition reply2_msg :: "message \<Rightarrow> int \<Rightarrow> message" where
  "reply2_msg msg son =
     \<lparr>meta = Meta\<lparr>app_id := app_id (meta msg), customer_id := customer_id (meta msg),
        request := request (meta msg), push := push (meta msg), head := head (meta msg),
        timestamp := timestamp (meta msg), recver := son, sender := sender (meta msg),
        sender_o := sender_o (meta msg), tree := [- 1], key_data := key_data (meta msg),
        data_types := map (\<lambda>_. OTHER) (data msg)\<rparr>,
      data = data msg\<rparr>"

definition ProcessReply2Command :: "message \<Rightarrow> nstate \<Rightarrow> nstate res" where
  "ProcessReply2Command msg s =
     rbind (vec_at (vsons (vrt s)) ((sender_o (meta msg) - 8) sdiv 2)) (\<lambda>ss.
       rfold (\<lambda>son. van_Push (reply2_msg msg son)) ss s)"

section \<open>Forwarding\<close>

definition ProcessReply1Command :: "message \<Rightarrow> nstate \<Rightarrow> nstate res" where
  "ProcessReply1Command msg s =
     (let msg = upd_meta (\<lambda>m. m\<lparr>last_hop := my_id s\<rparr>) msg in
      if route (meta msg) = [] then
        if iters (meta msg) \<noteq> 0 \<and> push (meta msg) \<and> request (meta msg) then
          let s = (if iters (meta msg) \<noteq> viters (vrt s) \<and> \<not> init_flag (vrt s)
                   then RelationUpdate (upd_vr (\<lambda>v. v\<lparr>viters := iters (meta msg)\<rparr>) s) else s)
          in ProcessDataMsg (upd_meta (\<lambda>m. m\<lparr>dst := recver m\<rparr>) msg) s
        else
          rbind (main_route s ((dst (meta msg) - 8) sdiv 2)) (\<lambda>r.
          rbind (push_route r msg) (\<lambda>msg.
          rbind (recver_from_route msg) (\<lambda>msg. van_Push msg s)))
      else if dst (meta msg) = my_id s + 1 then
        if tree (meta msg) \<noteq> [] then ProcessReply2Command msg s
        else van_Push (upd_meta (\<lambda>m. m\<lparr>recver := dst m\<rparr>) msg) s
      else
        rbind (recver_from_route (upd_meta (\<lambda>m. m\<lparr>route := butlast (route m)\<rparr>) msg)) (\<lambda>msg.
          van_Push msg s))"

section \<open>Speeds\<close>

definition ProcessSpeedReportCommand :: "message \<Rightarrow> nstate \<Rightarrow> nstate res" where
  "ProcessSpeedReportCommand msg s =
     (let i = (last_hop (meta msg) - 8) sdiv 2; j = (sender_o (meta msg) - 8) sdiv 2 in
      rmap (upd_vr (\<lambda>v. v\<lparr>change_flag := True\<rparr>))
       (rfold (\<lambda>x s. if fl_eq x (Fin 0) then Inr s
          else rbind (vec_at (vtps (vrt s)) i) (\<lambda>row.
               rbind (vec_set row j x) (\<lambda>row.
               rmap (\<lambda>t. upd_vr (\<lambda>v. v\<lparr>vtps := t\<rparr>) s) (vec_set (vtps (vrt s)) i row))))
        (route (meta msg)) s))"

text \<open>
  The row of doubles of a link: 0 the data sent, 1 the time taken, 2 the start time of the
  current measurement, 3 the number of measurements, 4 the size of the current one, 5 the speed
  last reported.
\<close>

definition speed_row :: "nstate \<Rightarrow> int \<Rightarrow> fl list res" where
  "speed_row s i = rbind (vec_at (vspeeds (vsd s)) i) (\<lambda>r.
     if length r = 6 then Inr r else Inl (Out_of_range ''speeds[i][k]''))"

definition set_speed_row :: "int \<Rightarrow> fl list \<Rightarrow> nstate \<Rightarrow> nstate res" where
  "set_speed_row i r s = rmap (\<lambda>t. upd_vs (\<lambda>v. v\<lparr>vspeeds := t\<rparr>) s) (vec_set (vspeeds (vsd s)) i r)"

definition measure_row :: "fl \<Rightarrow> fl list \<Rightarrow> fl list" where
  "measure_row now r =
     r[1 := fl_add rnd64 (r ! 1) (fl_sub rnd64 now (r ! 2)),
       3 := fl_add rnd64 (r ! 3) (Fin 1),
       0 := fl_add rnd64 (r ! 0) (r ! 4)]"

definition speed_changed :: "fl list \<Rightarrow> fl \<Rightarrow> bool" where
  "speed_changed r rate =
     (let d = fl_sub rnd64 (r ! 0) (r ! 5);
          a = (if fl_less (Fin 0) d then d else fl_sub rnd64 (r ! 5) (r ! 0))
      in fl_less rate (fl_div rnd64 a (r ! 5)))"

definition report_route :: "fl list list \<Rightarrow> nat \<Rightarrow> fl list" where
  "report_route sp idx = map (\<lambda>i. if fl_eq (sp ! i ! 1) (Fin 0) \<or> i \<noteq> idx then Fin 0
     else fl_narrow rnd32 (sp ! i ! 0)) [1..<length sp - 1]"

definition report_msg :: "int \<Rightarrow> int \<Rightarrow> fl list \<Rightarrow> message" where
  "report_msg me lh rt = upd_meta (\<lambda>m. (set_cmd SPEED_REPORT m)\<lparr>sender := me, sender_o := me,
     recver := 1, last_hop := lh, route := rt\<rparr>) Message"

definition send_report :: "message \<Rightarrow> int \<Rightarrow> nstate \<Rightarrow> nstate res" where
  "send_report msg idx s =
     (let rpt = report_msg (my_id s) (last_hop (meta msg)) (report_route (vspeeds (vsd s)) (nat idx));
          total = fold (\<lambda>x t. f32_add t x) (route (meta rpt)) (Fin 0)
      in rbind (if \<not> fl_eq total (Fin 0) then send_only rpt s else Inr s) (\<lambda>s.
         rbind (speed_row s idx) (\<lambda>r. set_speed_row idx (r[5 := r ! 0]) s)))"

definition measure_link :: "message \<Rightarrow> nstate \<Rightarrow> nstate res" where
  "measure_link msg s =
     (let idx = queue_index s (sender_o (meta msg)) in
      rbind (speed_row s idx) (\<lambda>r.
      rbind (set_speed_row idx (measure_row (now_sec s) r) s) (\<lambda>s.
      rbind (speed_row s idx) (\<lambda>r.
        if fl_eq (r ! 3) (rnd64 (of_int (cf_num_msg_report (cfg s)))) then
          rbind (set_speed_row idx (r[0 := fl_div rnd64 (r ! 0) (r ! 1)]) s) (\<lambda>s.
          rbind (speed_row s idx) (\<lambda>r.
          rbind (if speed_changed r (cf_report_rate (cfg s)) then send_report msg idx s else Inr s) (\<lambda>s.
          rbind (speed_row s idx) (\<lambda>r.
            set_speed_row idx (r[0 := Fin 0, 1 := Fin 0, 3 := Fin 0]) s))))
        else Inr s))))"

definition ProcessRecvReplyCommand :: "message \<Rightarrow> nstate \<Rightarrow> nstate res" where
  "ProcessRecvReplyCommand msg s =
     rbind (case route (meta msg) of
         [] \<Rightarrow> Inr s
       | x # _ \<Rightarrow> rmap (\<lambda>c. upd_vs (\<lambda>v. v\<lparr>cache_count := c\<rparr>) s)
                   (int_of_fl (f32_sub (fl_of_int (cache_count (vsd s))) x))) (\<lambda>s.
     rbind (EnableSendCheck s) (\<lambda>s.
       if mkey (meta msg) = - 1 then measure_link msg s else Inr s))"

definition stop_flag :: "int \<Rightarrow> nstate \<Rightarrow> nstate res" where
  "stop_flag i s =
     (if enable_send (vsd s) = 0
      then rmap (\<lambda>rf. upd_vs (\<lambda>v. v\<lparr>receive_flag := rf\<rparr>) s)
             (vec_set (receive_flag (vsd s)) (queue_index s i) False)
      else Inr s)"

definition capacity_route :: "message \<Rightarrow> fl list" where
  "capacity_route msg =
     (if length (data msg) > 1 then [fl_of_int (int (blob_capacity (data msg ! 1)))] else [])"

definition measured_msg :: "message \<Rightarrow> int \<Rightarrow> message" where
  "measured_msg msg flag = upd_meta (\<lambda>m. m\<lparr>sender := last_hop (meta msg), sender_o := last_hop (meta msg),
     last_hop := last_hop (meta msg), recver := recver (meta msg), route := capacity_route msg, mkey := - 1,
     iters := flag\<rparr>) Message"

definition recv_reply_msg :: "message \<Rightarrow> int \<Rightarrow> int \<Rightarrow> message" where
  "recv_reply_msg msg me flag = upd_meta (\<lambda>m. (set_cmd RECV_REPLY m)\<lparr>sender := me, sender_o := me,
     last_hop := me, recver := last_hop (meta msg), route := capacity_route msg,
     mkey := (if mkey (meta msg) = - 1 then - 1 else mkey m), iters := flag\<rparr>) Message"

definition RecvReply :: "message \<Rightarrow> nstate \<Rightarrow> nstate res" where
  "RecvReply msg s =
     (if length (data msg) > 1 \<and> mkey (meta msg) = - 1 then
        let rpl = measured_msg msg (enable_send (vsd s)); idx = queue_index s (sender_o (meta rpl)) in
        rbind (stop_flag (recver (meta rpl)) s) (\<lambda>s.
        rbind (speed_row s idx) (\<lambda>r.
        rbind (set_speed_row idx (r[4 := fl_div rnd64 (rnd64 (of_nat (blob_capacity (data msg ! 1)))) (Fin 1000000),
                                     2 := start_time (meta msg)]) s) (\<lambda>s.
          ProcessRecvReplyCommand rpl s)))
      else
        let rpl = recv_reply_msg msg (my_id s) (enable_send (vsd s)) in
        rbind (stop_flag (recver (meta rpl)) s) (\<lambda>s. send_only rpl s))"

section \<open>Dispatch of the data commands\<close>

definition ProcessReply1 :: "message \<Rightarrow> nstate \<Rightarrow> nstate res" where
  "ProcessReply1 msg s =
     rbind (if last_hop (meta msg) > 0 \<and> last_hop (meta msg) smod 2 = 0 \<and> is_server (npo s)
            then RecvReply msg s else Inr s) (\<lambda>s.
       if dst (meta msg) \<noteq> my_id s then ProcessReply1Command msg s else ProcessDataMsg msg s)"

definition ProcessReply2 :: "message \<Rightarrow> nstate \<Rightarrow> nstate res" where
  "ProcessReply2 msg s =
     rbind (if last_hop (meta msg) smod 2 = 0 \<and> is_server (npo s) then RecvReply msg s else Inr s)
       (ProcessReply2Command msg)"

section \<open>Forwarding along the route a message carries\<close>

text \<open>The message \<open>ProcessReply1Command\<close> pushes at server \<open>me\<close> with routes \<open>r0\<close>.\<close>

definition forward :: "int \<Rightarrow> int list list list \<Rightarrow> message \<Rightarrow> message res" where
  "forward me r0 msg =
     (let msg = upd_meta (\<lambda>m. m\<lparr>last_hop := me\<rparr>) msg in
      if route (meta msg) = [] then
        rbind (rbind (vec_at r0 ((dst (meta msg) - 8) sdiv 2)) (\<lambda>rs. vec_at rs 0)) (\<lambda>r.
        rbind (push_route r msg) recver_from_route)
      else if dst (meta msg) = me + 1 then Inr (upd_meta (\<lambda>m. m\<lparr>recver := dst m\<rparr>) msg)
      else recver_from_route (upd_meta (\<lambda>m. m\<lparr>route := butlast (route m)\<rparr>) msg))"

lemma ProcessReply1Command_forward:
  assumes "\<not> (route (meta msg) = [] \<and> iters (meta msg) \<noteq> 0 \<and> push (meta msg) \<and> request (meta msg))"
    and "\<not> (route (meta msg) \<noteq> [] \<and> dst (meta msg) = my_id s + 1 \<and> tree (meta msg) \<noteq> [])"
  shows "ProcessReply1Command msg s = rbind (forward (my_id s) (route0 (vrt s)) msg) (\<lambda>m. van_Push m s)"
  using assms
  by (auto simp: ProcessReply1Command_def forward_def Let_def main_route_def rbind_assoc)

text \<open>
  The way of a message through the servers: it is forwarded until it reaches the server of its
  destination; on every hop the transport sets sender and receiver.
\<close>

fun journey ::
  "nat \<Rightarrow> (int \<Rightarrow> int list list list) \<Rightarrow> int \<Rightarrow> message \<Rightarrow> (int list \<times> message) res" where
  "journey n R me msg =
     (if dst (meta msg) = me \<or> dst (meta msg) = me + 1 then Inr ([me], msg)
      else case n of
        0 \<Rightarrow> Inl (Undefined ''hops exhausted'')
      | Suc n \<Rightarrow> rbind (forward me (R me) msg) (\<lambda>m.
          rmap (\<lambda>(hops, m'). (me # hops, m')) (journey n R (recver (meta m)) (stamp me (recver (meta m)) m))))"

declare journey.simps [simp del]

lemma journey_step:
  "dst (meta msg) \<noteq> me \<Longrightarrow> dst (meta msg) \<noteq> me + 1 \<Longrightarrow> forward me (R me) msg = Inr m \<Longrightarrow>
   journey n R (recver (meta m)) (stamp me (recver (meta m)) m) = Inr (hops, m') \<Longrightarrow>
   journey (Suc n) R me msg = Inr (me # hops, m')"
  by (simp add: journey.simps [of "Suc n" R me msg])

definition same_content :: "message \<Rightarrow> message \<Rightarrow> bool" where
  "same_content a b \<longleftrightarrow> data a = data b \<and> dst (meta a) = dst (meta b) \<and> sender_o (meta a) = sender_o (meta b) \<and>
     timestamp (meta a) = timestamp (meta b) \<and> app_id (meta a) = app_id (meta b) \<and>
     customer_id (meta a) = customer_id (meta b) \<and> request (meta a) = request (meta b) \<and>
     push (meta a) = push (meta b) \<and> key_data (meta a) = key_data (meta b) \<and> cmd_of a = cmd_of b \<and>
     head (meta a) = head (meta b) \<and> tree (meta a) = tree (meta b) \<and> mkey (meta a) = mkey (meta b)"

lemma same_content_refl [simp]: "same_content a a"
  by (simp add: same_content_def)

lemma same_content_trans: "same_content a b \<Longrightarrow> same_content b c \<Longrightarrow> same_content a c"
  by (simp add: same_content_def)

lemma same_content_stamp [simp]: "same_content (stamp x y m) m"
  by (simp add: same_content_def stamp_def)

lemma forward_start:
  assumes "route (meta msg) = []" "vec_at r0 ((dst (meta msg) - 8) sdiv 2) = Inr ((me # y # p) # rs)"
    and "small_ids (y # p)"
  shows "\<exists>m. forward me r0 msg = Inr m \<and> carries (y # p) m \<and> recver (meta m) = y \<and> same_content m msg"
proof -
  have "int_of_fl (fl_of_int y) = Inr y" using assms(3) by (simp add: small_ids_def int_of_fl_of_int)
  with assms(1,2) show ?thesis
    by (simp add: forward_def Let_def push_route_def recver_from_route_def vec_at_def vec_back_def
        carries_def same_content_def)
qed

lemma forward_next:
  assumes "carries (me # y # p) msg" "small_ids (me # y # p)" "dst (meta msg) \<noteq> me + 1"
  shows "\<exists>m. forward me r0 msg = Inr m \<and> carries (y # p) m \<and> recver (meta m) = y \<and> same_content m msg"
proof -
  have "int_of_fl (fl_of_int y) = Inr y" using assms(2) by (simp add: small_ids_def int_of_fl_of_int)
  with assms(1,3) show ?thesis
    by (simp add: forward_def Let_def recver_from_route_def vec_back_def carries_def same_content_def
        butlast_append)
qed

lemma stamp_route [simp]: "route (meta (stamp x y m)) = route (meta m)" "dst (meta (stamp x y m)) = dst (meta m)"
  by (simp_all add: stamp_def)

lemma journey_carried:
  assumes "carries (me # p) msg" "small_ids (me # p)" "length p \<le> n"
    and "dst (meta msg) = last (me # p) \<or> dst (meta msg) = last (me # p) + 1"
    and "\<forall>x \<in> set (butlast (me # p)). dst (meta msg) \<noteq> x \<and> dst (meta msg) \<noteq> x + 1"
  shows "\<exists>m. journey n R me msg = Inr (me # p, m) \<and> same_content m msg"
  using assms
proof (induction p arbitrary: me msg n)
  case Nil
  then show ?case by (auto simp: journey.simps)
next
  case (Cons y p)
  then obtain n' where n: "n = Suc n'" by (cases n) auto
  from Cons.prems(5) have far: "dst (meta msg) \<noteq> me" "dst (meta msg) \<noteq> me + 1" by auto
  from forward_next [OF Cons.prems(1,2) far(2), of "R me"] obtain m where
    m: "forward me (R me) msg = Inr m" "carries (y # p) m" "recver (meta m) = y" "same_content m msg" by blast
  let ?m = "stamp me y m"
  have d: "dst (meta ?m) = dst (meta msg)" using m(4) by (simp add: same_content_def)
  have c: "carries (y # p) ?m" using m(2) by (simp add: carries_def)
  have "\<exists>m'. journey n' R y ?m = Inr (y # p, m') \<and> same_content m' ?m"
  proof (rule Cons.IH [OF c])
    show "small_ids (y # p)" using Cons.prems(2) by (simp add: small_ids_def)
    show "length p \<le> n'" using Cons.prems(3) n by simp
    show "dst (meta ?m) = last (y # p) \<or> dst (meta ?m) = last (y # p) + 1"
      using Cons.prems(4) by (simp only: d last_ConsR list.distinct not_False_eq_True)
    show "\<forall>x \<in> set (butlast (y # p)). dst (meta ?m) \<noteq> x \<and> dst (meta ?m) \<noteq> x + 1"
      using Cons.prems(5) by (simp only: d butlast.simps list.distinct if_False list.set) blast
  qed
  then obtain m' where "journey n' R y ?m = Inr (y # p, m')" "same_content m' ?m" by blast
  with journey_step [of msg me R m n' "y # p" m', OF far m(1)] m(3,4) n show ?case
    by (metis same_content_trans same_content_stamp)
qed

lemma journey_from_start:
  assumes "route (meta msg) = []" "vec_at (R me) ((dst (meta msg) - 8) sdiv 2) = Inr ((me # y # p) # rs)"
    and "small_ids (y # p)" "length p < n"
    and "dst (meta msg) = last (y # p) \<or> dst (meta msg) = last (y # p) + 1"
    and "\<forall>x \<in> set (butlast (me # y # p)). dst (meta msg) \<noteq> x \<and> dst (meta msg) \<noteq> x + 1"
  shows "\<exists>m. journey n R me msg = Inr (me # y # p, m) \<and> same_content m msg"
proof -
  obtain n' where n: "n = Suc n'" using assms(4) by (cases n) auto
  from assms(6) have far: "dst (meta msg) \<noteq> me" "dst (meta msg) \<noteq> me + 1" by auto
  from forward_start [OF assms(1-3)] obtain m where
    m: "forward me (R me) msg = Inr m" "carries (y # p) m" "recver (meta m) = y" "same_content m msg" by blast
  let ?m = "stamp me y m"
  have d: "dst (meta ?m) = dst (meta msg)" using m(4) by (simp add: same_content_def)
  have c: "carries (y # p) ?m" using m(2) by (simp add: carries_def)
  have rest: "\<forall>x \<in> set (butlast (y # p)). dst (meta ?m) \<noteq> x \<and> dst (meta ?m) \<noteq> x + 1"
    using assms(6) by (simp only: d butlast.simps(2) [of me] list.distinct if_False list.set) blast
  have len: "length p \<le> n'" using assms(4) n by simp
  have "\<exists>m'. journey n' R y ?m = Inr (y # p, m') \<and> same_content m' ?m"
    using assms(5) by (intro journey_carried [OF c assms(3) len _ rest]) (simp only: d)
  then obtain m' where "journey n' R y ?m = Inr (y # p, m')" "same_content m' ?m" by blast
  with journey_step [of msg me R m n' "y # p" m', OF far m(1)] m(3,4) n show ?thesis
    by (metis same_content_trans same_content_stamp)
qed

end
