(* ===== verification/NS_Release.thy ===== *)
theory NS_Release
  imports NS_Trees
begin

text \<open>
  The payload of the \<open>ROUTE_RELEASE\<close> messages (\<open>src/van.cc\<close>): the scheduler flattens the routes
  of one server (\<open>route_update\<close>) and the aggregation trees (\<open>PolicyDecision\<close>) into vectors of
  floats, the servers parse them back (\<open>ProcessRouteReleaseCommand\<close>). \<open>-2\<close> opens a row of
  routes, \<open>-1\<close> closes a route or a list of children. The lemmas are the round trips: a server
  recovers exactly its non-empty routes, in node ids, and exactly its parent and children for
  every root.
\<close>

section \<open>Operations\<close>

abbreviation server_id :: "nat \<Rightarrow> int" where
  "server_id r \<equiv> int r * 2 + 8"

abbreviation worker_id :: "nat \<Rightarrow> int" where
  "worker_id r \<equiv> int r * 2 + 9"

subsection \<open>Routes of a server\<close>

definition encode_route :: "trace \<Rightarrow> fl list" where
  "encode_route r = (if r = [] then [] else map (\<lambda>it. fl_of_int (int it)) r @ [Fin (- 1)])"

definition encode_row :: "trace list \<Rightarrow> fl list" where
  "encode_row rs = Fin (- 2) # concat (map encode_route rs)"

definition encode_routes :: "fl \<Rightarrow> trace list list \<Rightarrow> fl list" where
  "encode_routes mid_tp rows = mid_tp # concat (map encode_row rows)"

definition decode_hop :: "fl \<Rightarrow> int res" where
  "decode_hop x = int_of_fl (f32_add (f32_mul x (Fin 2)) (Fin 8))"

definition decode_step ::
  "fl \<Rightarrow> int list list list \<times> nat \<times> nat \<Rightarrow> (int list list list \<times> nat \<times> nat) res" where
  "decode_step x s =
     (let (temp, row, col) = s in
      if fl_eq x (Fin (- 2)) then Inr (temp, Suc row, 1)
      else if fl_eq x (Fin (- 1)) then Inr (temp, row, Suc col)
      else if row = 0 then Inl (Out_of_range ''temp[row-1]'')
      else rbind (decode_hop x) (\<lambda>h.
        let temp1 = grow temp row; cols = grow (temp1 ! (row - 1)) col
        in Inr (temp1[row - 1 := cols[col - 1 := cols ! (col - 1) @ [h]]], row, col)))"

definition decode_routes :: "fl list \<Rightarrow> (fl \<times> int list list list) res" where
  "decode_routes rt =
     rbind (rfold decode_step (tl rt) ([], 0, 1)) (\<lambda>(temp, row, col).
     rmap (\<lambda>mid_tp. (mid_tp, temp)) (vec_at rt 0))"

subsection \<open>Trees of a server\<close>

fun parse_sons :: "fl list \<Rightarrow> (int list \<times> fl list) res" where
  "parse_sons [] = Inl (Out_of_range ''msg.meta.route[j]'')"
| "parse_sons (x # rest) =
     (if fl_eq x (Fin (- 1)) then Inr ([], rest)
      else rbind (int_of_fl x) (\<lambda>k. rmap (\<lambda>(ss, r). ((k * 2 + 9) # ss, r)) (parse_sons rest)))"

definition parse_parent :: "int \<Rightarrow> fl \<Rightarrow> int res" where
  "parse_parent my_id x =
     (if fl_eq x (Fin (- 2)) then Inr my_id else rmap (\<lambda>p. p * 2 + 8) (int_of_fl x))"

lemma parse_sons_shorter: "parse_sons xs = Inr (ss, rest) \<Longrightarrow> length rest < length xs"
  by (induction xs arbitrary: ss) (auto simp: rbind_Inr_iff rmap_Inr_iff split: if_splits)

text \<open>
  The loop \<open>while (j < msg.meta.route.size())\<close>: \<open>rest\<close> is the vector from position \<open>j\<close> on,
  \<open>i\<close> the current root; reading \<open>perf[i]\<close> past its end is a fault.
\<close>

function parse_trees :: "int \<Rightarrow> fl list \<Rightarrow> nat \<Rightarrow> fl list \<Rightarrow> (int list \<times> int list list) res" where
  "parse_trees my_id perf i rest =
     (case rest of
        [] \<Rightarrow> Inr ([], [])
      | x # xs \<Rightarrow>
          if i < length perf then
            if \<not> fl_eq (perf ! i) (Fin 0) then
              rbind (parse_parent my_id x) (\<lambda>p.
              rbind (parse_sons xs) (\<lambda>(ss, rest').
              rmap (\<lambda>(ps, sss). (p # ps, ss # sss)) (parse_trees my_id perf (Suc i) rest')))
            else rmap (\<lambda>(ps, sss). ((- 1) # ps, [] # sss)) (parse_trees my_id perf (Suc i) rest)
          else Inl (Out_of_range ''perf[i]''))"
  by pat_completeness auto
termination
  by (relation "measure (\<lambda>(my_id, perf, i, rest). length perf - i)") auto

declare parse_trees.simps [simp del]

definition decode_policy :: "int \<Rightarrow> fl list \<Rightarrow> (fl list \<times> int list \<times> int list list) res" where
  "decode_policy my_id rt =
     (if length rt < num_nodes then Inl (Out_of_range ''route.begin() + num_nodes'')
      else let perf = take num_nodes rt in
        rmap (\<lambda>(ps, sss).
          (perf, ps @ replicate (num_nodes - length ps) (- 1),
           map (\<lambda>ss. ss @ [my_id + 1]) (sss @ replicate (num_nodes - length sss) [])))
        (parse_trees my_id perf 0 (drop num_nodes rt)))"

section \<open>Round trip of the routes\<close>

lemma fl_of_int_nat: "n < 2 ^ 20 \<Longrightarrow> fl_of_int (int n) = Fin (of_nat n)"
  by (simp add: fl_of_int_exact)

lemma decode_hop_int:
  assumes "n < 2 ^ 20"
  shows "decode_hop (fl_of_int (int n)) = Inr (server_id n)"
proof -
  have "rnd32 (of_int (2 * int n)) = Fin (of_int (2 * int n))"
    unfolding rnd32_def by (rule rnd_int_exact) (use assms in auto)
  moreover have "rnd32 (of_int (2 * int n + 8)) = Fin (of_int (2 * int n + 8))"
    unfolding rnd32_def by (rule rnd_int_exact) (use assms in auto)
  moreover have "int_of_fl (Fin (of_int (2 * int n + 8))) = Inr (2 * int n + 8)"
    unfolding int_of_fl_def using assms by (simp only: fl.case rat_trunc_int) (simp add: cint_in_range_def INT_MAX_def)
  ultimately show ?thesis
    using assms by (simp add: decode_hop_def fl_of_int_nat algebra_simps)
qed

lemma decode_marks:
  "decode_step (Fin (- 2)) (temp, row, col) = Inr (temp, Suc row, 1)"
  "decode_step (Fin (- 1)) (temp, row, col) = Inr (temp, row, Suc col)"
  by (simp_all add: decode_step_def)

lemma decode_node:
  assumes "n < 2 ^ 20" and "row \<noteq> 0"
  shows "decode_step (fl_of_int (int n)) (temp, row, col) =
    (let temp1 = grow temp row; cols = grow (temp1 ! (row - 1)) col
     in Inr (temp1[row - 1 := cols[col - 1 := cols ! (col - 1) @ [server_id n]]], row, col))"
  using assms by (simp add: decode_step_def decode_hop_int) (simp add: fl_of_int_nat)

text \<open>The nodes of one route extend the current column.\<close>

lemma decode_rest:
  assumes "\<forall>n \<in> set r. n < 2 ^ 20"
  shows "rfold decode_step (map (\<lambda>it. fl_of_int (int it)) r) (T @ [cs @ [c]], Suc (length T), Suc (length cs)) =
    Inr (T @ [cs @ [c @ map server_id r]], Suc (length T), Suc (length cs))"
  using assms
proof (induction r arbitrary: c)
  case Nil
  then show ?case by simp
next
  case (Cons n r)
  then show ?case by (simp add: decode_node nth_append)
qed

lemma decode_route_next:
  assumes "\<forall>n \<in> set r. n < 2 ^ 20" and "r \<noteq> []"
  shows "rfold decode_step (encode_route r) (T @ [cs], Suc (length T), Suc (length cs)) =
    Inr (T @ [cs @ [map server_id r]], Suc (length T), Suc (Suc (length cs)))"
proof (cases r)
  case (Cons n r')
  with assms decode_rest [of r' T cs "[server_id n]"] show ?thesis
    by (simp add: encode_route_def rfold_append decode_node nth_append decode_marks)
qed (use assms in simp)

lemma decode_route_first:
  assumes "\<forall>n \<in> set r. n < 2 ^ 20" and "r \<noteq> []" and "length T \<le> row"
  shows "rfold decode_step (encode_route r) (T, Suc row, Suc 0) =
    Inr (grow T row @ [[map server_id r]], Suc row, Suc (Suc 0))"
proof (cases r)
  case (Cons n r')
  have g: "grow T (Suc row) = grow T row @ [[]]"
    using assms(3) by (simp add: Suc_diff_le replicate_append_same)
  have l: "length (grow T row) = row" using assms(3) by simp
  have g1: "grow [] (Suc 0) = [[]]" by simp
  have u: "(grow T row @ [[]])[row := y] = grow T row @ [y]" for y
    by (simp add: list_update_append l del: grow.simps)
  have n: "(grow T row @ [[]]) ! row = []"
    by (simp add: nth_append l del: grow.simps)
  have "decode_step (fl_of_int (int n)) (T, Suc row, 1) = Inr (grow T row @ [[[server_id n]]], Suc row, 1)"
    using assms(1) Cons by (simp only: decode_node g u n diff_Suc_1 Let_def list.set_intros) (simp add: n u g1 del: grow.simps)
  with assms Cons decode_rest [of r' "grow T row" "[]" "[server_id n]"] show ?thesis
    by (simp add: encode_route_def rfold_append l decode_marks del: grow.simps)
qed (use assms in simp)

definition nonempty :: "'a list list \<Rightarrow> 'a list list" where
  "nonempty xs = filter (\<lambda>x. x \<noteq> []) xs"

lemma nonempty_simps [simp]:
  "nonempty [] = []" "nonempty ([] # xs) = nonempty xs"
  "x \<noteq> [] \<Longrightarrow> nonempty (x # xs) = x # nonempty xs"
  by (simp_all add: nonempty_def)

lemma decode_row_more:
  assumes "\<forall>r \<in> set rs. \<forall>n \<in> set r. n < 2 ^ 20"
  shows "rfold decode_step (concat (map encode_route rs)) (T @ [cs], Suc (length T), Suc (length cs)) =
    Inr (T @ [cs @ map (map server_id) (nonempty rs)], Suc (length T), Suc (length cs + length (nonempty rs)))"
  using assms
proof (induction rs arbitrary: cs)
  case Nil
  then show ?case by simp
next
  case (Cons r rs)
  show ?case
  proof (cases "r = []")
    case True
    with Cons show ?thesis by (simp add: encode_route_def)
  next
    case False
    with Cons.prems Cons.IH [of "cs @ [map server_id r]"] show ?thesis
      by (simp add: rfold_append decode_route_next)
  qed
qed

lemma decode_row:
  assumes "\<forall>r \<in> set rs. \<forall>n \<in> set r. n < 2 ^ 20" and "length T \<le> row"
  shows "\<exists>col. rfold decode_step (encode_row rs) (T, row, c) =
    Inr (if nonempty rs = [] then T else grow T row @ [map (map server_id) (nonempty rs)], Suc row, col)"
  using assms
proof (induction rs)
  case Nil
  then show ?case by (simp add: encode_row_def decode_marks)
next
  case (Cons r rs)
  show ?case
  proof (cases "r = []")
    case True
    with Cons show ?thesis
      by (cases "nonempty rs = []") (simp_all add: encode_row_def encode_route_def del: grow.simps)
  next
    case False
    have l: "length (grow T row) = row" using Cons.prems(2) by simp
    show ?thesis
      using False Cons.prems decode_row_more [of rs "grow T row" "[map server_id r]"] l
      by (simp add: encode_row_def decode_marks rfold_append decode_route_first
            del: grow.simps)
  qed
qed

text \<open>
  The rows of the parsed table: the routes of each destination without the empty ones, and
  without the rows after the last one that has a route.
\<close>

definition strip_end :: "'a list list \<Rightarrow> 'a list list" where
  "strip_end xs = rev (dropWhile (\<lambda>x. x = []) (rev xs))"

definition server_routes :: "trace list list \<Rightarrow> int list list list" where
  "server_routes rows = strip_end (map (\<lambda>rs. map (map server_id) (nonempty rs)) rows)"

lemma strip_end_snoc [simp]:
  "strip_end (xs @ [[]]) = strip_end xs" "x \<noteq> [] \<Longrightarrow> strip_end (xs @ [x]) = xs @ [x]"
  by (simp_all add: strip_end_def)

lemma length_strip_end: "length (strip_end xs) \<le> length xs"
  unfolding strip_end_def length_rev by (rule le_trans [OF length_dropWhile_le]) simp

lemma grow_strip_end: "grow (strip_end xs) (length xs) = xs"
proof (induction xs rule: rev_induct)
  case Nil
  then show ?case by (simp add: strip_end_def)
next
  case (snoc x xs)
  show ?case
  proof (cases "x = []")
    case True
    have "grow (strip_end xs) (Suc (length xs)) = grow (strip_end xs) (length xs) @ [[]]"
      using length_strip_end [of xs] by (simp add: Suc_diff_le replicate_append_same)
    with True snoc show ?thesis by (simp del: grow.simps)
  qed simp
qed

lemma decode_rows:
  assumes "\<forall>rs \<in> set rows. \<forall>r \<in> set rs. \<forall>n \<in> set r. n < 2 ^ 20"
  shows "\<exists>col. rfold decode_step (concat (map encode_row rows)) ([], 0, 1) =
    Inr (server_routes rows, length rows, col)"
  using assms
proof (induction rows rule: rev_induct)
  case Nil
  then show ?case by (simp add: server_routes_def strip_end_def)
next
  case (snoc rs rows)
  then obtain col where IH: "rfold decode_step (concat (map encode_row rows)) ([], 0, 1) =
    Inr (server_routes rows, length rows, col)" by auto
  have len: "length (server_routes rows) \<le> length rows"
    unfolding server_routes_def by (rule le_trans [OF length_strip_end]) simp
  have grow: "grow (server_routes rows) (length rows) = map (\<lambda>rs. map (map server_id) (nonempty rs)) rows"
    unfolding server_routes_def
    using grow_strip_end [of "map (\<lambda>rs. map (map server_id) (nonempty rs)) rows"] by simp
  have "server_routes (rows @ [rs]) =
      (if nonempty rs = [] then server_routes rows
       else grow (server_routes rows) (length rows) @ [map (map server_id) (nonempty rs)])"
    unfolding grow by (simp add: server_routes_def)
  with IH decode_row [OF _ len, of rs col] snoc.prems show ?case
    by (simp add: rfold_append del: grow.simps)
qed

lemma decode_encode_routes:
  assumes "\<forall>rs \<in> set rows. \<forall>r \<in> set rs. \<forall>n \<in> set r. n < 2 ^ 20"
  shows "decode_routes (encode_routes mid_tp rows) = Inr (mid_tp, server_routes rows)"
  using decode_rows [OF assms] by (auto simp: decode_routes_def encode_routes_def vec_at_def)

text \<open>Looking a destination up in the parsed table gives its routes, in order and in node ids.\<close>

lemma server_routes_lookup:
  assumes "j < length rows" and "nonempty (rows ! j) \<noteq> []"
  shows "j < length (server_routes rows) \<and>
    server_routes rows ! j = map (map server_id) (nonempty (rows ! j))"
proof -
  let ?xs = "map (\<lambda>rs. map (map server_id) (nonempty rs)) rows"
  have g: "grow (strip_end ?xs) (length ?xs) = ?xs" by (rule grow_strip_end)
  have "?xs ! j \<noteq> []" using assms by simp
  have j: "j < length (strip_end ?xs)"
  proof (rule ccontr)
    assume "\<not> j < length (strip_end ?xs)"
    then have "grow (strip_end ?xs) (length ?xs) ! j = []"
      using assms(1) length_strip_end [of ?xs] by (simp add: nth_append)
    with g \<open>?xs ! j \<noteq> []\<close> show False by simp
  qed
  then have "strip_end ?xs ! j = grow (strip_end ?xs) (length ?xs) ! j" by (simp add: nth_append)
  with j g assms show ?thesis by (simp add: server_routes_def)
qed

section \<open>Round trip of the trees\<close>

definition sons_of :: "int list list \<Rightarrow> nat \<Rightarrow> nat \<Rightarrow> nat list" where
  "sons_of nh i j = filter (\<lambda>k. nh ! k ! i = int j) [0..<num_nodes]"

text \<open>What server \<open>j\<close> should learn about root \<open>i\<close>: its parent and its children.\<close>

definition exp_parent :: "fl list \<Rightarrow> int list list \<Rightarrow> nat \<Rightarrow> nat \<Rightarrow> int" where
  "exp_parent perf nh j i =
     (if fl_eq (perf ! i) (Fin 0) then - 1 else if i = j then server_id j else nh ! j ! i * 2 + 8)"

definition exp_sons :: "fl list \<Rightarrow> int list list \<Rightarrow> nat \<Rightarrow> nat \<Rightarrow> int list" where
  "exp_sons perf nh j i = (if fl_eq (perf ! i) (Fin 0) then [] else map worker_id (sons_of nh i j))"

definition policy_tail :: "fl list \<Rightarrow> int list list \<Rightarrow> nat \<Rightarrow> nat \<Rightarrow> fl list" where
  "policy_tail perf nh j i = map fl_of_int
     (concat (map (\<lambda>i. if \<not> fl_eq (perf ! i) (Fin 0) then policy_entry nh i j else []) [i..<length perf]))"

lemma parse_sons_encoded:
  assumes "\<forall>k \<in> set ks. k < 2 ^ 20"
  shows "parse_sons (map (\<lambda>k. fl_of_int (int k)) ks @ Fin (- 1) # rest) = Inr (map worker_id ks, rest)"
  using assms
proof (induction ks)
  case Nil
  then show ?case by simp
next
  case (Cons k ks)
  have "int_of_fl (fl_of_int (int k)) = Inr (int k)"
    using Cons.prems by (intro int_of_fl_of_int) simp
  with Cons show ?case by (simp add: fl_of_int_nat)
qed

lemma parse_parent_encoded:
  assumes "hops_ok nh" and "j < num_nodes" and "i < num_nodes" and "\<not> fl_eq (perf ! i) (Fin 0)"
  shows "parse_parent (server_id j) (fl_of_int (nh ! j ! i)) = Inr (exp_parent perf nh j i)"
proof -
  have nz: "perf ! i \<noteq> Fin 0" using assms(4) by auto
  show ?thesis
  proof (cases "i = j")
    case True
    with assms have "nh ! j ! i = - 2" by (simp add: hops_ok_def)
    with True nz show ?thesis
      by (simp add: parse_parent_def exp_parent_def fl_of_int_exact)
  next
    case False
    with assms have "0 \<le> nh ! j ! i" "nh ! j ! i < 9" by (auto simp: hops_ok_def num_nodes_def)
    with False nz int_of_fl_of_int [of "nh ! j ! i"] show ?thesis
      by (simp add: parse_parent_def exp_parent_def fl_of_int_exact)
  qed
qed

lemma fl_of_int_minus1: "fl_of_int (- 1) = Fin (- 1)"
  by (simp add: fl_of_int_exact)

lemma policy_tail_step:
  "i < length perf \<Longrightarrow> policy_tail perf nh j i =
     (if \<not> fl_eq (perf ! i) (Fin 0)
      then fl_of_int (nh ! j ! i) # map (\<lambda>k. fl_of_int (int k)) (sons_of nh i j) @
             Fin (- 1) # policy_tail perf nh j (Suc i)
      else policy_tail perf nh j (Suc i))"
  by (simp add: policy_tail_def upt_conv_Cons policy_entry_def sons_of_def fl_of_int_minus1 comp_def)

lemma policy_tail_Nil:
  assumes "policy_tail perf nh j i = []" and "i \<le> k" and "k < length perf"
  shows "perf ! k = Fin 0"
proof -
  have "\<forall>k \<in> set [i..<length perf]. (if \<not> fl_eq (perf ! k) (Fin 0) then policy_entry nh k j else []) = []"
    using assms(1) by (simp add: policy_tail_def)
  with assms(2,3) have "(if \<not> fl_eq (perf ! k) (Fin 0) then policy_entry nh k j else []) = []" by simp
  then show ?thesis by (simp add: policy_entry_def split: if_splits)
qed

lemma parse_trees_encoded:
  assumes nh: "hops_ok nh" and j: "j < num_nodes" and len: "length perf = num_nodes"
    and i: "i \<le> num_nodes"
  shows "\<exists>ps sss. parse_trees (server_id j) perf i (policy_tail perf nh j i) = Inr (ps, sss) \<and>
    ps @ replicate (num_nodes - i - length ps) (- 1) = map (exp_parent perf nh j) [i..<num_nodes] \<and>
    sss @ replicate (num_nodes - i - length sss) [] = map (exp_sons perf nh j) [i..<num_nodes]"
  using i
proof (induction "num_nodes - i" arbitrary: i)
  case 0
  then show ?case using len by (simp add: policy_tail_def parse_trees.simps)
next
  case (Suc m)
  then have lt: "i < num_nodes" by simp
  let ?rest = "policy_tail perf nh j i"
  have m: "m = num_nodes - Suc i" "Suc i \<le> num_nodes" using Suc.hyps(2) lt by auto
  obtain ps sss where
    IH: "parse_trees (server_id j) perf (Suc i) (policy_tail perf nh j (Suc i)) = Inr (ps, sss)"
      "ps @ replicate (num_nodes - Suc i - length ps) (- 1) = map (exp_parent perf nh j) [Suc i..<num_nodes]"
      "sss @ replicate (num_nodes - Suc i - length sss) [] = map (exp_sons perf nh j) [Suc i..<num_nodes]"
    using Suc.hyps(1) [OF m] by blast
  have up: "[i..<num_nodes] = i # [Suc i..<num_nodes]" using lt by (rule upt_conv_Cons)
  show ?case
  proof (cases "fl_eq (perf ! i) (Fin 0)")
    case False
    have "\<forall>k \<in> set (sons_of nh i j). k < 2 ^ 20"
      by (auto simp: sons_of_def num_nodes_def)
    then have "parse_sons (map (\<lambda>k. fl_of_int (int k)) (sons_of nh i j) @ Fin (- 1) # rest) =
        Inr (exp_sons perf nh j i, rest)" for rest
      using False by (simp add: parse_sons_encoded exp_sons_def)
    then have "parse_trees (server_id j) perf i ?rest =
        Inr (exp_parent perf nh j i # ps, exp_sons perf nh j i # sss)"
      using False lt len IH(1) parse_parent_encoded [OF nh j lt False]
      by (simp only: policy_tail_step [of i perf nh j] parse_trees.simps [of _ _ i]) simp
    with IH(2,3) up show ?thesis by simp
  next
    case True
    show ?thesis
    proof (cases "?rest = []")
      case Nil: True
      note z = policy_tail_Nil [OF Nil, unfolded len]
      then have "map (exp_parent perf nh j) [i..<num_nodes] = replicate (num_nodes - i) (- 1)"
        "map (exp_sons perf nh j) [i..<num_nodes] = replicate (num_nodes - i) []"
        by (auto simp: exp_parent_def exp_sons_def intro!: nth_equalityI)
      with Nil show ?thesis by (simp add: parse_trees.simps)
    next
      case NE: False
      have "parse_trees (server_id j) perf i ?rest =
          Inr (exp_parent perf nh j i # ps, exp_sons perf nh j i # sss)"
      proof -
        have t: "?rest = policy_tail perf nh j (Suc i)"
          using True lt len by (simp add: policy_tail_step [of i perf nh j])
        obtain x xs where x: "policy_tail perf nh j (Suc i) = x # xs"
          using NE t by (metis neq_Nil_conv)
        show ?thesis
          unfolding t using True lt len IH(1) x
          by (simp add: parse_trees.simps [of _ _ i] exp_parent_def exp_sons_def)
      qed
      with IH(2,3) up show ?thesis by simp
    qed
  qed
qed

lemma decode_policy_of:
  assumes "hops_ok nh" and "j < num_nodes" and len: "length perf = num_nodes"
  shows "decode_policy (server_id j) (policy_of perf nh j) =
    Inr (perf, map (exp_parent perf nh j) [0..<num_nodes],
         map (\<lambda>i. exp_sons perf nh j i @ [worker_id j]) [0..<num_nodes])"
proof -
  have p: "policy_of perf nh j = perf @ policy_tail perf nh j 0"
    by (simp add: policy_of_def policy_tail_def)
  from parse_trees_encoded [OF assms, of 0] obtain ps sss where
    ps: "parse_trees (server_id j) perf 0 (policy_tail perf nh j 0) = Inr (ps, sss)"
      "ps @ replicate (num_nodes - length ps) (- 1) = map (exp_parent perf nh j) [0..<num_nodes]"
      "sss @ replicate (num_nodes - length sss) [] = map (exp_sons perf nh j) [0..<num_nodes]"
    by auto
  have "map (\<lambda>ss. ss @ [server_id j + 1]) (sss @ replicate (num_nodes - length sss) []) =
      map (\<lambda>i. exp_sons perf nh j i @ [worker_id j]) [0..<num_nodes]"
    unfolding ps(3) by simp
  with ps(1,2) show ?thesis by (simp add: decode_policy_def p len del: map_append)
qed

text \<open>Parents and children agree across the servers.\<close>

lemma parent_iff_son:
  assumes "hops_ok nh" and "i < num_nodes" "j < num_nodes" "k < num_nodes" "j \<noteq> i"
    and "\<not> fl_eq (perf ! i) (Fin 0)"
  shows "exp_parent perf nh j i = server_id k \<longleftrightarrow> worker_id j \<in> set (exp_sons perf nh k i)"
  using assms by (auto simp: exp_parent_def exp_sons_def sons_of_def)

end
