(* ===== verification/NS_Wire.thy ===== *)
theory NS_Wire
  imports NS_Message
begin

text \<open>
  The wire format: \<open>PBMeta\<close> with its submessages (\<open>src/meta.proto\<close>), \<open>PackMeta\<close> and
  \<open>UnpackMeta\<close> (\<open>src/van.cc\<close>), and the frames of \<open>SendMsg\<close> and \<open>RecvMsg\<close> (\<open>src/zmq_van.h\<close>).
  An optional field is an option value; reading an unset field gives the default of its type.
  The serialisation of a \<open>PBMeta\<close> to bytes is the protobuf library's: it is the parameter \<open>ser\<close>,
  \<open>prs\<close> of the operations that use it. Data arrays travel as they are.
\<close>

section \<open>Protocol buffers\<close>

record pbnode =
  pb_role :: int
  pb_id :: "int option"
  pb_hostname :: "string option"
  pb_port :: "int option"
  pb_is_recovery :: "bool option"
  pb_n_customer_id :: "int option"
  pb_id_backup :: "int option"

record pbcontrol =
  pb_cmd :: int
  pb_node :: "pbnode list"
  pb_barrier_group :: "int option"
  pb_msg_sig :: "64 word option"

record pbmeta =
  pb_head :: "int option"
  pb_body :: "string option"
  pb_control :: "pbcontrol option"
  pb_request :: "bool option"
  pb_app_id :: "int option"
  pb_timestamp :: "int option"
  pb_data_type :: "int list"
  pb_customer_id :: "int option"
  pb_push :: "bool option"
  pb_simple_app :: "bool option"
  pb_key :: "int option"
  pb_version :: "int option"
  pb_iters :: "int option"
  pb_sender_o :: "int option"
  pb_dst :: "int option"
  pb_route :: "fl list"
  pb_priority :: "int option"
  pb_last_hop :: "int option"
  pb_tree :: "int list"
  pb_key_data :: "64 word option"
  pb_start_time :: "fl option"

definition pb_int :: "int option \<Rightarrow> int" where
  "pb_int x = (case x of None \<Rightarrow> 0 | Some v \<Rightarrow> v)"

definition pb_bool :: "bool option \<Rightarrow> bool" where
  "pb_bool x = (case x of None \<Rightarrow> False | Some v \<Rightarrow> v)"

definition pb_string :: "string option \<Rightarrow> string" where
  "pb_string x = (case x of None \<Rightarrow> [] | Some v \<Rightarrow> v)"

definition pb_int_or :: "int \<Rightarrow> int option \<Rightarrow> int" where
  "pb_int_or d x = (case x of None \<Rightarrow> d | Some v \<Rightarrow> v)"

section \<open>Enumerations as integers\<close>

definition all_commands :: "command list" where
  "all_commands = [EMPTY, TERMINATE, ADD_NODE, BARRIER, ACK, HEARTBEAT, AUTOPULLRPY, ASK, REPLY, ASK1,
     REPLY1, REPORT_ETH, REPORT_REPLY, ROUTE_POLICY, ROUTE_RELEASE, RECV_REPLY, SPEED_REPORT, REPLY2]"

definition all_data_types :: "data_type list" where
  "all_data_types = [data_type.CHAR, INT8, INT16, INT32, INT64, UINT8, UINT16, UINT32, UINT64, FLOAT, DOUBLE, OTHER]"

definition all_roles :: "role list" where
  "all_roles = [SERVER, WORKER, SCHEDULER]"

text \<open>The number of an enumerator is its position; a number out of range has no enumerator.\<close>

fun enum_num :: "'a list \<Rightarrow> 'a \<Rightarrow> int" where
  "enum_num [] c = 0"
| "enum_num (x # xs) c = (if x = c then 0 else 1 + enum_num xs c)"

definition enum_of :: "'a list \<Rightarrow> int \<Rightarrow> 'a res" where
  "enum_of xs n = (if 0 \<le> n \<and> n < int (length xs) then Inr (xs ! nat n)
                   else Inl (Undefined ''enumerator out of range''))"

section \<open>Packing and unpacking\<close>

definition unless_empty :: "int \<Rightarrow> int option" where
  "unless_empty v = (if v \<noteq> kEmpty then Some v else None)"

definition pack_node :: "node \<Rightarrow> pbnode" where
  "pack_node n = \<lparr>pb_role = enum_num all_roles (n_role n), pb_id = Some (n_id n),
     pb_hostname = Some (n_hostname n), pb_port = Some (n_port n),
     pb_is_recovery = Some (n_is_recovery n), pb_n_customer_id = Some (n_customer_id n),
     pb_id_backup = Some (n_id_backup n)\<rparr>"

definition pack_control :: "control \<Rightarrow> pbcontrol" where
  "pack_control c = \<lparr>pb_cmd = enum_num all_commands (c_cmd c), pb_node = map pack_node (c_node c),
     pb_barrier_group = (if c_cmd c = BARRIER then Some (c_barrier_group c) else None),
     pb_msg_sig = (if c_cmd c \<noteq> BARRIER \<and> c_cmd c = ACK then Some (c_msg_sig c) else None)\<rparr>"

definition PackMeta :: "meta \<Rightarrow> pbmeta" where
  "PackMeta m = \<lparr>pb_head = Some (head m),
     pb_body = (if body m \<noteq> [] then Some (body m) else None),
     pb_control = (if \<not> control_empty (control m) then Some (pack_control (control m)) else None),
     pb_request = Some (request m), pb_app_id = unless_empty (app_id m),
     pb_timestamp = unless_empty (timestamp m),
     pb_data_type = map (enum_num all_data_types) (data_types m),
     pb_customer_id = Some (customer_id m), pb_push = Some (push m),
     pb_simple_app = Some (simple_app m), pb_key = unless_empty (mkey m),
     pb_version = unless_empty (version m), pb_iters = unless_empty (iters m),
     pb_sender_o = unless_empty (sender_o m), pb_dst = unless_empty (dst m), pb_route = route m,
     pb_priority = unless_empty (priority m), pb_last_hop = unless_empty (last_hop m),
     pb_tree = tree m, pb_key_data = Some (key_data m), pb_start_time = Some (start_time m)\<rparr>"

definition unpack_node :: "pbnode \<Rightarrow> node res" where
  "unpack_node p = rmap (\<lambda>r. \<lparr>n_role = r, n_id = pb_int_or kEmpty (pb_id p),
       n_customer_id = pb_int (pb_n_customer_id p), n_hostname = pb_string (pb_hostname p),
       n_port = pb_int (pb_port p), n_is_recovery = pb_bool (pb_is_recovery p),
       n_id_backup = pb_int_or kEmpty (pb_id_backup p)\<rparr>)
     (enum_of all_roles (pb_role p))"

definition unpack_control :: "control \<Rightarrow> pbcontrol option \<Rightarrow> control res" where
  "unpack_control c0 pc = (case pc of
       None \<Rightarrow> Inr (c0\<lparr>c_cmd := EMPTY\<rparr>)
     | Some p \<Rightarrow> rbind (enum_of all_commands (pb_cmd p)) (\<lambda>cmd.
         rbind (rmap_list unpack_node (pb_node p)) (\<lambda>ns.
           Inr \<lparr>c_cmd = cmd, c_node = c_node c0 @ ns, c_barrier_group = pb_int (pb_barrier_group p),
                c_msg_sig = (case pb_msg_sig p of None \<Rightarrow> 0 | Some v \<Rightarrow> v)\<rparr>)))"

text \<open>
  The \<open>tree\<close> goes through \<open>static_cast<float>\<close>; \<open>m0\<close> is the receiver's meta object, whose
  sender and receiver are already set.
\<close>

definition UnpackMeta :: "pbmeta \<Rightarrow> meta \<Rightarrow> meta res" where
  "UnpackMeta pb m0 =
     rbind (rmap_list (\<lambda>t. int_of_fl (fl_of_int t)) (pb_tree pb)) (\<lambda>tr.
     rbind (rmap_list (enum_of all_data_types) (pb_data_type pb)) (\<lambda>dt.
     rbind (unpack_control (control m0) (pb_control pb)) (\<lambda>c.
     Inr (m0\<lparr>head := pb_int (pb_head pb), app_id := pb_int_or kEmpty (pb_app_id pb),
        customer_id := pb_int (pb_customer_id pb), timestamp := pb_int_or kEmpty (pb_timestamp pb),
        request := pb_bool (pb_request pb), push := pb_bool (pb_push pb),
        simple_app := pb_bool (pb_simple_app pb), mkey := pb_int_or kEmpty (pb_key pb),
        version := pb_int_or kEmpty (pb_version pb), iters := pb_int_or kEmpty (pb_iters pb),
        sender_o := pb_int_or kEmpty (pb_sender_o pb), dst := pb_int_or kEmpty (pb_dst pb),
        priority := pb_int_or kEmpty (pb_priority pb), last_hop := pb_int_or kEmpty (pb_last_hop pb),
        key_data := (case pb_key_data pb of None \<Rightarrow> 0 | Some v \<Rightarrow> v),
        start_time := (case pb_start_time pb of None \<Rightarrow> Fin 0 | Some v \<Rightarrow> v),
        route := pb_route pb, tree := tr, body := pb_string (pb_body pb), data_types := dt,
        control := c\<rparr>))))"

section \<open>Frames\<close>

text \<open>The identity a node gives its sockets, and how the receiver reads it.\<close>

fun digits :: "nat \<Rightarrow> string" where
  "digits n = (if n < 10 then [char_of (48 + n)] else digits (n div 10) @ [char_of (48 + n mod 10)])"

declare digits.simps [simp del]

definition int_str :: "int \<Rightarrow> string" where
  "int_str i = (if 0 \<le> i then digits (nat i) else CHR ''-'' # digits (nat (- i)))"

definition identity :: "int \<Rightarrow> string" where
  "identity i = ''ps'' @ (if 0 \<le> i then digits (nat i) else CHR ''-'' # digits (nat (- i)))"

fun node_id_loop :: "string \<Rightarrow> int \<Rightarrow> int option res" where
  "node_id_loop [] i = Inr (Some i)"
| "node_id_loop (c # cs) i =
     (let d = of_char c :: int in
      if 48 \<le> d \<and> d \<le> 57 then
        (if cint_in_range (i * 10) \<and> cint_in_range (i * 10 + d) then node_id_loop cs (i * 10 + d - 48)
         else Inl (Undefined ''signed overflow''))
      else Inr None)"

definition GetNodeID :: "string \<Rightarrow> int res" where
  "GetNodeID buf =
     (if length buf > 2 \<and> buf ! 0 = CHR ''p'' \<and> buf ! 1 = CHR ''s''
      then rmap (\<lambda>r. case r of Some i \<Rightarrow> i | None \<Rightarrow> kEmpty) (node_id_loop (drop 2 buf) 0)
      else Inr kEmpty)"

datatype 'b frame = Meta_frame 'b | Data_frame blob

text \<open>
  \<open>senders\<close> are the ids with a socket; the result is \<open>None\<close> when \<open>SendMsg\<close> returns -1. A
  transport error of the socket, which also gives -1, is not modelled.
\<close>

definition SendMsg :: "(pbmeta \<Rightarrow> 'b) \<Rightarrow> int list \<Rightarrow> message \<Rightarrow> 'b frame list option res" where
  "SendMsg ser senders m =
     rcheck (recver (meta m) \<noteq> kEmpty) ''id != Meta::kEmpty''
       (if recver (meta m) \<in> set senders
        then Inr (Some (Meta_frame (ser (PackMeta (meta m))) # map Data_frame (data m)))
        else Inr None)"

fun data_frames :: "'b frame list \<Rightarrow> blob list res" where
  "data_frames [] = Inr []"
| "data_frames (Data_frame b # fs) = rmap ((#) b) (data_frames fs)"
| "data_frames (Meta_frame _ # fs) = Inl (Undefined ''meta frame after the first'')"

definition RecvMsg :: "('b \<Rightarrow> pbmeta option) \<Rightarrow> int \<Rightarrow> string \<Rightarrow> 'b frame list \<Rightarrow> message res" where
  "RecvMsg prs my_id ident fs =
     rbind (GetNodeID ident) (\<lambda>sid.
       case fs of
         Meta_frame b # ds \<Rightarrow>
           (case prs b of None \<Rightarrow> Inl (Check_failed ''failed to parse string into protobuf'')
            | Some pb \<Rightarrow> rbind (UnpackMeta pb (Meta\<lparr>sender := sid, recver := my_id\<rparr>)) (\<lambda>m.
                rmap (\<lambda>bs. \<lparr>meta = m, data = bs\<rparr>) (data_frames ds)))
       | _ \<Rightarrow> Inl (Check_failed ''zmq_msg_more''))"

section \<open>Round trip of the meta data\<close>

lemma enum_num_nth: "x \<in> set xs \<Longrightarrow> 0 \<le> enum_num xs x \<and> enum_num xs x < int (length xs) \<and> xs ! nat (enum_num xs x) = x"
proof (induction xs)
  case (Cons a xs)
  then show ?case by (auto simp: nat_add_distrib)
qed simp

lemma enum_round_trip: "x \<in> set xs \<Longrightarrow> enum_of xs (enum_num xs x) = Inr x"
  using enum_num_nth [of x xs] by (simp add: enum_of_def)

lemma all_commands_UNIV [simp]: "c \<in> set all_commands"
  by (cases c) (simp_all add: all_commands_def)

lemma all_data_types_UNIV [simp]: "c \<in> set all_data_types"
  by (cases c) (simp_all add: all_data_types_def)

lemma all_roles_UNIV [simp]: "c \<in> set all_roles"
  by (cases c) (simp_all add: all_roles_def)

lemma unpack_pack_node: "unpack_node (pack_node n) = Inr n"
  by (simp add: unpack_node_def pack_node_def enum_round_trip pb_int_or_def pb_int_def pb_string_def pb_bool_def)

text \<open>What of the control part travels: the group of a barrier and the signature of an ACK only.\<close>

definition wire_control :: "control \<Rightarrow> control" where
  "wire_control c =
     (if control_empty c then Control
      else c\<lparr>c_barrier_group := (if c_cmd c = BARRIER then c_barrier_group c else 0),
             c_msg_sig := (if c_cmd c = ACK then c_msg_sig c else 0)\<rparr>)"

lemma unpack_pack_control:
  assumes "c0 = Control"
  shows "unpack_control c0 (if \<not> control_empty c then Some (pack_control c) else None) = Inr (wire_control c)"
proof (cases "control_empty c")
  case True
  with assms show ?thesis by (simp add: unpack_control_def wire_control_def Control_def)
next
  case False
  have "rmap_list unpack_node (map pack_node ns) = Inr ns" for ns
    by (induction ns) (simp_all add: unpack_pack_node)
  with False assms show ?thesis
    by (simp add: unpack_control_def pack_control_def wire_control_def Control_def enum_round_trip pb_int_def)
qed

lemma unless_empty_or [simp]: "pb_int_or kEmpty (unless_empty v) = v"
  by (simp add: pb_int_or_def unless_empty_def)

lemma tree_round_trip:
  "\<forall>t \<in> set ts. \<bar>t\<bar> < 2 ^ 24 \<Longrightarrow> rmap_list (\<lambda>t. int_of_fl (fl_of_int t)) ts = Inr ts"
  using rmap_list_total [of ts "\<lambda>t. int_of_fl (fl_of_int t)" id] by (simp add: int_of_fl_of_int)

lemma UnpackMeta_PackMeta:
  assumes "\<forall>t \<in> set (tree m). \<bar>t\<bar> < 2 ^ 24"
  shows "UnpackMeta (PackMeta m) (Meta\<lparr>sender := sid, recver := rid\<rparr>) =
    Inr (m\<lparr>sender := sid, recver := rid, control := wire_control (control m)\<rparr>)"
proof -
  have "rmap_list (enum_of all_data_types) (map (enum_num all_data_types) ts) = Inr ts" for ts
    by (induction ts) (simp_all add: enum_round_trip)
  moreover have "control (Meta\<lparr>sender := sid, recver := rid\<rparr>) = Control" by (simp add: Meta_def)
  ultimately show ?thesis
    using tree_round_trip [OF assms] unpack_pack_control [of Control "control m"]
    by (simp add: UnpackMeta_def PackMeta_def pb_int_def pb_bool_def pb_string_def Meta_def
        del: kEmpty_simps)
qed

section \<open>Round trip of the identity\<close>

lemma of_char_digit:
  assumes "d < 10"
  shows "(of_char (char_of (48 + d :: nat) :: char) :: int) = 48 + int d"
proof -
  have "(of_char (char_of (48 + d :: nat) :: char) :: int) = of_nat (of_char (char_of (48 + d :: nat) :: char) :: nat)"
    by (rule of_nat_of_char [symmetric])
  also have "\<dots> = of_nat ((48 + d) mod 256)" unfolding of_char_of ..
  finally show ?thesis using assms by simp
qed

lemma node_id_step:
  assumes "d < 10" "0 \<le> i" "i * 10 + int d + 48 \<le> INT_MAX"
  shows "node_id_loop (char_of (48 + d :: nat) # cs) i = node_id_loop cs (i * 10 + int d)"
proof -
  note c = of_char_digit [OF assms(1)]
  have "i * 10 + (48 + int d) - 48 = i * 10 + int d" by simp
  moreover have "48 \<le> 48 + int d \<and> 48 + int d \<le> 57" using assms(1) by auto
  moreover have "cint_in_range (i * 10) \<and> cint_in_range (i * 10 + (48 + int d))"
    using assms by (auto simp: cint_in_range_def)
  ultimately show ?thesis unfolding node_id_loop.simps(2) Let_def c by presburger
qed

lemma node_id_loop_digits:
  assumes "0 \<le> i" "i * 10 ^ length (digits n) + int n + 48 \<le> INT_MAX"
  shows "node_id_loop (digits n @ cs) i = node_id_loop cs (i * 10 ^ length (digits n) + int n)"
  using assms
proof (induction n arbitrary: cs rule: digits.induct)
  case (1 n)
  show ?case
  proof (cases "n < 10")
    case True
    with 1(2,3) node_id_step [of n i cs] show ?thesis by (simp add: digits.simps [of n])
  next
    case False
    let ?q = "n div 10" and ?d = "n mod 10"
    let ?k = "10 ^ length (digits ?q) :: int"
    have len: "length (digits n) = Suc (length (digits ?q))" using False by (simp add: digits.simps [of n])
    have n: "int n = int ?q * 10 + int ?d" by (metis div_mult_mod_eq of_nat_add of_nat_mult of_nat_numeral)
    have b: "(i * ?k + int ?q) * 10 + int ?d + 48 \<le> INT_MAX"
      using 1(3) n by (simp add: len algebra_simps)
    have nn: "0 \<le> i * ?k + int ?q" using 1(2) by simp
    have "a + 48 \<le> INT_MAX" if "a * 10 + int ?d + 48 \<le> INT_MAX" "0 \<le> a" for a
      using that by auto
    from this [OF b nn] have "i * ?k + int ?q + 48 \<le> INT_MAX" .
    from 1(1) [OF False 1(2) this] have "node_id_loop (digits n @ cs) i
        = node_id_loop (char_of (48 + ?d) # cs) (i * ?k + int ?q)"
      using False by (simp add: digits.simps [of n])
    also have "\<dots> = node_id_loop cs ((i * ?k + int ?q) * 10 + int ?d)"
      using b nn by (intro node_id_step) auto
    finally show ?thesis using n by (simp add: len algebra_simps)
  qed
qed

lemma digits_not_Nil [simp]: "digits n \<noteq> []"
  by (simp add: digits.simps [of n])

lemma GetNodeID_identity:
  assumes "0 \<le> i" "i + 48 \<le> INT_MAX"
  shows "GetNodeID (identity i) = Inr i"
proof -
  have "node_id_loop (digits (nat i) @ []) 0 = node_id_loop [] (int (nat i))"
    using assms node_id_loop_digits [of 0 "nat i" "[]"] by simp
  with assms show ?thesis by (simp add: GetNodeID_def identity_def)
qed

section \<open>A message arrives as it was sent\<close>

lemma data_frames_map [simp]: "data_frames (map Data_frame bs) = Inr bs"
  by (induction bs) simp_all

lemma RecvMsg_SendMsg:
  assumes "prs (ser (PackMeta (meta m))) = Some (PackMeta (meta m))"
    and "\<forall>t \<in> set (tree (meta m)). \<bar>t\<bar> < 2 ^ 24"
    and "0 \<le> sid" "sid + 48 \<le> INT_MAX"
    and "SendMsg ser senders m = Inr (Some fs)"
  shows "RecvMsg prs rid (identity sid) fs =
    Inr (upd_meta (\<lambda>a. a\<lparr>sender := sid, recver := rid, control := wire_control (control a)\<rparr>) m)"
proof -
  have "fs = Meta_frame (ser (PackMeta (meta m))) # map Data_frame (data m)"
    using assms(5) by (auto simp: SendMsg_def rcheck_Inr_iff split: if_splits)
  then show ?thesis
    using assms(1) UnpackMeta_PackMeta [OF assms(2), where sid = sid and rid = rid] GetNodeID_identity [OF assms(3,4)]
    by (simp add: RecvMsg_def upd_meta_def)
qed

end
