(* ===== verification/NS_Control.thy ===== *)
theory NS_Control
  imports NS_Transfer NS_Release NS_Wire
begin

text \<open>
  The control messages of a van (\<open>src/van.cc\<close>): registration of nodes and assignment of ids,
  heartbeats, barriers, the exchange of interface addresses, route updates of the scheduler and
  their release, and the dispatch of a received message. \<open>zmq_connect\<close> is asynchronous and taken
  to accept every address that passes the checks before it.
\<close>

section \<open>Connections\<close>

definition addr_str :: "node \<Rightarrow> string" where
  "addr_str n = n_hostname n @ '':'' @ int_str (n_port n)"

text \<open>\<open>Connect\<close> and \<open>Connect_Eth\<close>: a new socket replaces an old one to the same node.\<close>

definition Connect :: "node \<Rightarrow> nstate \<Rightarrow> nstate res" where
  "Connect n s =
     rcheck (n_id n \<noteq> kEmpty) ''node.id != kEmpty''
     (rcheck (n_port n \<noteq> kEmpty) ''node.port != kEmpty''
     (rcheck (n_hostname n \<noteq> []) ''node.hostname.size()''
       (Inr (upd_vn (\<lambda>v. v\<lparr>vsenders := (if n_id n \<in> set (vsenders v) then vsenders v else n_id n # vsenders v)\<rparr>) s))))"

definition next_timestamp :: "nstate \<Rightarrow> int \<times> nstate" where
  "next_timestamp s = (vtimestamp s, s\<lparr>vtimestamp := cint_wrap (vtimestamp s + 1)\<rparr>)"

text \<open>Sending a message with the next timestamp.\<close>

definition send_stamped :: "message \<Rightarrow> nstate \<Rightarrow> nstate res" where
  "send_stamped msg s =
     (let (t, s) = next_timestamp s in send_only (upd_meta (\<lambda>m. m\<lparr>timestamp := t\<rparr>) msg) s)"

section \<open>Registration\<close>

text \<open>
  The order of \<open>std::sort\<close>: \<open>compare | (a.port < b.port)\<close> is positive when the host names compare
  greater, or equal with a smaller port. Nodes of equal host and port stay in order.
\<close>

fun str_greater :: "string \<Rightarrow> string \<Rightarrow> bool" where
  "str_greater [] ys = False"
| "str_greater (x # xs) [] = True"
| "str_greater (x # xs) (y # ys) =
     (if x = y then str_greater xs ys else (of_char x :: nat) > of_char y)"

definition node_before :: "node \<Rightarrow> node \<Rightarrow> bool" where
  "node_before a b \<longleftrightarrow> str_greater (n_hostname a) (n_hostname b) \<or>
     (n_hostname a = n_hostname b \<and> n_port a < n_port b)"

fun insert_node :: "node \<Rightarrow> node list \<Rightarrow> node list" where
  "insert_node n [] = [n]"
| "insert_node n (x # xs) = (if node_before x n then x # insert_node n xs else n # x # xs)"

definition sort_nodes :: "node list \<Rightarrow> node list" where
  "sort_nodes ns = foldr insert_node ns []"

definition rank_id :: "nstate \<Rightarrow> node \<Rightarrow> int" where
  "rank_id s n = (if n_role n = SERVER then ServerRankToID (vnum_servers (vnt s))
                  else WorkerRankToID (vnum_workers (vnt s)))"

definition count_role :: "node \<Rightarrow> nstate \<Rightarrow> nstate" where
  "count_role n s = upd_vn (\<lambda>v. v
     \<lparr>vnum_servers := vnum_servers v + (if n_role n = SERVER then 1 else 0),
      vnum_workers := vnum_workers v + (if n_role n = WORKER then 1 else 0)\<rparr>) s"

definition assign_id :: "node \<Rightarrow> nstate \<Rightarrow> (node \<times> nstate) res" where
  "assign_id n s =
     (case connected_nodes (vnt s) (addr_str n) of
        None \<Rightarrow>
          rcheck (n_id n = kEmpty) ''node.id == Node::kEmpty''
            (let i = (if n_role n = WORKER \<or> n_role n = SERVER then n_id_backup n else rank_id s n);
                 n = n\<lparr>n_id := i\<rparr>
             in rmap (\<lambda>s. (n, count_role n (upd_vn (\<lambda>v. v\<lparr>connected_nodes := (connected_nodes v)(addr_str n \<mapsto> i)\<rparr>)
                               (s\<lparr>npo := UpdateHeartbeat (npo s) i (now_time s)\<rparr>))))
                  (Connect n s))
      | Some i \<Rightarrow>
          Inr (n\<lparr>n_id := i\<rparr>, count_role n (upd_vn (\<lambda>v. v\<lparr>shared_node_mapping :=
                 (shared_node_mapping v)(rank_id s n \<mapsto> i)\<rparr>) s)))"

fun assign_ids :: "node list \<Rightarrow> nstate \<Rightarrow> (node list \<times> nstate) res" where
  "assign_ids [] s = Inr ([], s)"
| "assign_ids (n # ns) s = rbind (assign_id n s) (\<lambda>(n', s).
     rmap (\<lambda>(ns', s). (n' # ns', s)) (assign_ids ns s))"

definition set_nodes :: "command \<Rightarrow> node list \<Rightarrow> meta \<Rightarrow> meta" where
  "set_nodes c ns m = m\<lparr>control := (control m)\<lparr>c_cmd := c, c_node := ns\<rparr>\<rparr>"

definition announce :: "meta \<Rightarrow> int \<Rightarrow> nstate \<Rightarrow> nstate res" where
  "announce nodes r s =
     (if shared_node_mapping (vnt s) r = None
      then send_stamped \<lparr>meta = nodes\<lparr>recver := r, sender := my_id s, sender_o := my_id s\<rparr>, data = []\<rparr> s
      else Inr s)"

definition ProcessAddNodeCommandAtScheduler :: "nstate \<Rightarrow> nstate res" where
  "ProcessAddNodeCommandAtScheduler s0 =
     (let s = upd_vn (\<lambda>v. v\<lparr>recovery_meta := set_cmd ADD_NODE (recovery_meta v)\<rparr>) s0;
          nodes = c_node (control (nodes_meta (vnt s)));
          recovery = c_node (control (recovery_meta (vnt s)))
      in if int (length nodes) = num_servers (npo s) + num_workers (npo s) then
           rbind (assign_ids (sort_nodes nodes) s) (\<lambda>(ns, s).
             let m = set_nodes ADD_NODE (ns @ [my_node (vnt s)]) (nodes_meta (vnt s));
                 s = upd_vn (\<lambda>v. v\<lparr>nodes_meta := m\<rparr>) s
             in rbind (GetNodeIDs (npo s) (kWorkerGroup + kServerGroup)) (\<lambda>ids.
                rmap (upd_vn (\<lambda>v. v\<lparr>vready := True\<rparr>)) (rfold (announce m) ids s)))
         else if recovery \<noteq> [] then
           rbind (GetDeadNodes (npo s) (vready (vnt s)) (cf_heartbeat_timeout (cfg s)) (now_time s)) (\<lambda>dead.
           rcheck (length recovery = 1) ''recovery_nodes->control.node.size() == 1''
           (let rn = hd recovery in
            rbind (Connect rn s) (\<lambda>s.
            let s = s\<lparr>npo := UpdateHeartbeat (npo s) (n_id rn) (now_time s)\<rparr> in
            rbind (GetNodeIDs (npo s) (kWorkerGroup + kServerGroup)) (\<lambda>ids.
            rfold (\<lambda>r s. if r \<noteq> n_id rn \<and> r \<in> set dead then Inr s
                         else send_stamped \<lparr>meta = (if r = n_id rn then nodes_meta (vnt s) else recovery_meta (vnt s))
                                              \<lparr>recver := r\<rparr>, data = []\<rparr> s) ids s))))
         else Inr s)"

text \<open>The search for the dead node a restarted node replaces; the last entry is the scheduler.\<close>

fun replace_dead :: "int list \<Rightarrow> node \<Rightarrow> node list \<Rightarrow> (node \<times> node list) option" where
  "replace_dead dead rn [] = None"
| "replace_dead dead rn [n] = None"
| "replace_dead dead rn (n # n' # ns) =
     (if n_id n \<in> set dead \<and> n_role n = n_role rn
      then let r = rn\<lparr>n_id := n_id n, n_is_recovery := True\<rparr> in Some (r, r # n' # ns)
      else map_option (\<lambda>(r, us). (r, n # us)) (replace_dead dead rn (n' # ns)))"

definition adopt_id :: "node \<Rightarrow> nstate \<Rightarrow> nstate" where
  "adopt_id n s =
     (if n_hostname (my_node (vnt s)) = n_hostname n \<and> n_port (my_node (vnt s)) = n_port n \<and>
         (env_rank s = None \<or> my_id s = kEmpty)
      then (upd_vn (\<lambda>v. v\<lparr>my_node := n\<rparr>) s)\<lparr>env_rank := Some (IDtoRank (n_id n))\<rparr> else s)"

definition register_node :: "message \<Rightarrow> int list \<Rightarrow> nstate \<Rightarrow> (message \<times> nstate) res" where
  "register_node msg dead s =
     (let ns = c_node (control (meta msg)); known = c_node (control (nodes_meta (vnt s))) in
      rcheck (is_scheduler (npo s)) ''is_scheduler_''
      (rcheck (length ns = 1) ''ctrl.node.size() == 1''
        (if int (length known) < num_servers (npo s) + num_workers (npo s) then
           Inr (msg, upd_vn (\<lambda>v. v\<lparr>nodes_meta := set_nodes (c_cmd (control (nodes_meta v))) (known @ [hd ns]) (nodes_meta v)\<rparr>) s)
         else rcheck (vready (vnt s)) ''ready_.load()''
           (if known = [] then Inl (Out_of_range ''size() - 1 of no nodes'') else case replace_dead dead (hd ns) known of
              None \<Rightarrow> Inr (msg, s)
            | Some (r, known') \<Rightarrow>
                Inr (upd_meta (\<lambda>m. m\<lparr>control := (control m)\<lparr>c_node := [r]\<rparr>\<rparr>) msg,
                     upd_vn (\<lambda>v. v\<lparr>nodes_meta := set_nodes (c_cmd (control (nodes_meta v))) known' (nodes_meta v),
                       recovery_meta := set_nodes (c_cmd (control (recovery_meta v)))
                         (c_node (control (recovery_meta v)) @ [r]) (recovery_meta v)\<rparr>) s)))))"

definition UpdateLocalID :: "message \<Rightarrow> int list \<Rightarrow> nstate \<Rightarrow> (message \<times> nstate) res" where
  "UpdateLocalID msg dead s =
     rbind (if sender_o (meta msg) = kEmpty then register_node msg dead s else Inr (msg, s)) (\<lambda>(msg, s).
       Inr (msg, fold adopt_id (c_node (control (meta msg))) s))"

definition report_eth_msg :: "nstate \<Rightarrow> message" where
  "report_eth_msg s = upd_meta (\<lambda>m. (set_nodes REPORT_ETH (tl (my_node_group (vnt s))) m)\<lparr>recver := kScheduler,
     sender := my_id s, sender_o := my_id s, iters := my_container_id (vnt s)\<rparr>) Message"

text \<open>The first node of that id with a new address is connected and the loop is left.\<close>

fun connect_peer :: "int \<Rightarrow> (node \<Rightarrow> nstate \<Rightarrow> nstate) \<Rightarrow> node list \<Rightarrow> nstate \<Rightarrow> nstate res" where
  "connect_peer i f [] s = Inr s"
| "connect_peer i f (n # ns) s =
     (if n_id n = i \<and> connected_nodes (vnt s) (addr_str n) = None
      then rmap (\<lambda>s. f n (upd_vn (\<lambda>v. v\<lparr>connected_nodes := (connected_nodes v)(addr_str n \<mapsto> n_id n)\<rparr>) s)) (Connect n s)
      else connect_peer i f ns s)"

definition add_send_queue :: "node \<Rightarrow> nstate \<Rightarrow> nstate" where
  "add_send_queue n s = upd_vs (\<lambda>v. v\<lparr>send_queue_group := send_queue_group v @ [[]],
     send_queue_map := AList.update (n_id n) (int (length (send_queue_group v))) (send_queue_map v),
     receive_flag := receive_flag v @ [True]\<rparr>) s"

definition ProcessAddNodeCommand :: "message \<Rightarrow> nstate \<Rightarrow> nstate res" where
  "ProcessAddNodeCommand msg s =
     rbind (GetDeadNodes (npo s) (vready (vnt s)) (cf_heartbeat_timeout (cfg s)) (now_time s)) (\<lambda>dead.
     rbind (UpdateLocalID msg dead s) (\<lambda>(msg, s).
     let s = upd_vn (\<lambda>v. v\<lparr>my_node_group := map (\<lambda>n. n\<lparr>n_id := n_id (my_node v)\<rparr>) (my_node_group v)\<rparr>) s;
         ns = c_node (control (meta msg))
     in if is_scheduler (npo s) then ProcessAddNodeCommandAtScheduler s
        else
          let s = upd_vn (\<lambda>v. v\<lparr>my_container_id :=
                    (case cf_container_id (cfg s) of None \<Rightarrow> my_container_id v | Some c \<Rightarrow> c)\<rparr>) s
          in rmap (upd_vn (\<lambda>v. v\<lparr>vready := True\<rparr>))
            (if is_server (npo s) then
               rbind (send_stamped (report_eth_msg s) s) (\<lambda>s. connect_peer (my_id s + 1) add_send_queue ns s)
             else
               rbind (connect_peer (my_id s) (\<lambda>_ s. s) [my_node (vnt s)] s) (\<lambda>s.
                 connect_peer (my_id s - 1) (\<lambda>_ s. s) ns s))))"

section \<open>Heartbeats and barriers\<close>

definition heartbeat_msg :: "nstate \<Rightarrow> int \<Rightarrow> message" where
  "heartbeat_msg s r = upd_meta (\<lambda>m. (set_nodes HEARTBEAT [my_node (vnt s)] m)\<lparr>recver := r\<rparr>) Message"

definition ProcessHearbeat :: "message \<Rightarrow> nstate \<Rightarrow> nstate res" where
  "ProcessHearbeat msg s =
     rfold (\<lambda>n s. let s = s\<lparr>npo := UpdateHeartbeat (npo s) (n_id n) (now_time s)\<rparr> in
         if is_scheduler (npo s) then send_stamped (heartbeat_msg s (n_id n)) s else Inr s)
       (c_node (control (meta msg))) s"

text \<open>One iteration of the heartbeat thread.\<close>

definition Heartbeat_step :: "nstate \<Rightarrow> nstate res" where
  "Heartbeat_step s = send_stamped (heartbeat_msg s kScheduler) s"

definition barrier_response :: "message \<Rightarrow> int \<Rightarrow> int \<Rightarrow> message" where
  "barrier_response msg me r = upd_meta (\<lambda>m. (set_cmd BARRIER m)\<lparr>request := False, sender_o := me,
     app_id := app_id (meta msg), customer_id := customer_id (meta msg), recver := r, dst := r\<rparr>) Message"

definition release_barrier :: "message \<Rightarrow> int \<Rightarrow> nstate \<Rightarrow> nstate res" where
  "release_barrier msg r s =
     (if shared_node_mapping (vnt s) r = None then send_stamped (barrier_response msg (my_id s) r) s else Inr s)"

definition ProcessBarrierCommand :: "message \<Rightarrow> nstate \<Rightarrow> nstate res" where
  "ProcessBarrierCommand msg s =
     (if request (meta msg) then
        let counts = (if barrier_count (vnt s) = [] then replicate 8 0 else barrier_count (vnt s));
            g = c_barrier_group (control (meta msg))
        in rbind (vec_at counts g) (\<lambda>c.
           rbind (vec_set counts g (c + 1)) (\<lambda>counts.
           rbind (GetNodeIDs (npo s) g) (\<lambda>ids.
             if c + 1 = int (length ids) then
               rbind (vec_set counts g 0) (\<lambda>counts.
                 rfold (release_barrier msg) ids (upd_vn (\<lambda>v. v\<lparr>barrier_count := counts\<rparr>) s))
             else Inr (upd_vn (\<lambda>v. v\<lparr>barrier_count := counts\<rparr>) s))))
      else case Manage (npo s) msg of
          None \<Rightarrow> Inl (Diverges ''Postoffice::Manage'')
        | Some r \<Rightarrow> rmap (\<lambda>p. s\<lparr>npo := p\<rparr>) r)"

section \<open>Interface addresses\<close>

definition links :: "nat list list" where
  "links = [[2, 3, 0, 0, 0, 0, 0, 0, 0], [3, 1, 5, 0, 0, 0, 0, 0, 0], [1, 2, 4, 0, 0, 0, 0, 0, 0],
            [3, 5, 6, 0, 0, 0, 0, 0, 0], [2, 7, 4, 0, 0, 0, 0, 0, 0], [4, 7, 8, 9, 0, 0, 0, 0, 0],
            [5, 6, 8, 0, 0, 0, 0, 0, 0], [6, 7, 9, 0, 0, 0, 0, 0, 0], [6, 8, 0, 0, 0, 0, 0, 0, 0]]"

definition sort_eth :: "int \<Rightarrow> nat \<times> node \<Rightarrow> node list list \<Rightarrow> node list list res" where
  "sort_eth c hn es =
     rbind (vec_at links (c - 1)) (\<lambda>row.
     rbind (vec_at row (int (fst hn))) (\<lambda>k.
     rbind (vec_at es (int k)) (\<lambda>bucket. vec_set es (int k) (bucket @ [snd hn]))))"

definition report_reply_msg :: "int \<Rightarrow> int \<Rightarrow> node list \<Rightarrow> message" where
  "report_reply_msg me r ns = upd_meta (\<lambda>m. (set_nodes REPORT_REPLY ns m)\<lparr>recver := r, sender := me, sender_o := me\<rparr>) Message"

definition ProcessReportEthCommand :: "message \<Rightarrow> nstate \<Rightarrow> nstate res" where
  "ProcessReportEthCommand msg s =
     (let s = upd_vn (\<lambda>v. v\<lparr>num_report_eth := num_report_eth v + 1\<rparr>) s; c = iters (meta msg) in
      rbind (if num_report_eth (vnt s) \<le> num_servers (npo s) then
               rmap (\<lambda>es. upd_vn (\<lambda>v. v\<lparr>eth_sort := es,
                   node_container_id := (node_container_id v)(sender_o (meta msg) := c)\<rparr>) s)
                 (rfold (sort_eth c) (enumerate 0 (c_node (control (meta msg)))) (eth_sort (vnt s)))
             else Inr s) (\<lambda>s.
      if num_report_eth (vnt s) = num_servers (npo s) then
        rbind (GetNodeIDs (npo s) kServerGroup) (\<lambda>ids.
          rfold (\<lambda>r s. rbind (vec_at (eth_sort (vnt s)) (node_container_id (vnt s) r)) (\<lambda>ns.
            send_stamped (report_reply_msg (my_id s) r ns) s)) ids s)
      else Inr s))"

definition connect_eth :: "node \<Rightarrow> nstate \<Rightarrow> nstate res" where
  "connect_eth n s =
     (if connected_nodes (vnt s) (addr_str n) = None
      then rmap (\<lambda>s. add_send_queue n (upd_vn (\<lambda>v. v\<lparr>neighbors := neighbors v @ [n_id n],
                  connected_nodes := (connected_nodes v)(addr_str n \<mapsto> n_id n)\<rparr>) s)) (Connect n s)
      else Inr s)"

definition start_senders :: "nstate \<Rightarrow> nstate" where
  "start_senders s = upd_vs (\<lambda>v. v\<lparr>sending_threads := sending_threads v @ map fst (send_queue_map v),
     vspeeds := vspeeds v @ replicate (length (send_queue_map v)) (replicate 6 (Fin 0))\<rparr>) s"

definition ProcessReportReplyCommand :: "message \<Rightarrow> nstate \<Rightarrow> nstate res" where
  "ProcessReportReplyCommand msg s =
     (let s = upd_vn (\<lambda>v. v\<lparr>eth_node := c_node (control (meta msg)) @ [my_node v],
                vnum_workers := num_workers (npo s), vnum_servers := num_servers (npo s)\<rparr>) s
      in rmap start_senders (rfold connect_eth (eth_node (vnt s)) s))"

section \<open>Route updates\<close>

definition route_msg :: "int \<Rightarrow> int \<Rightarrow> int \<Rightarrow> fl list \<Rightarrow> message" where
  "route_msg me r it rt = upd_meta (\<lambda>m. (set_cmd ROUTE_RELEASE m)\<lparr>recver := r, sender := me, sender_o := me,
     iters := it, route := rt\<rparr>) Message"

text \<open>\<open>rnds\<close> is the sequence of values of \<open>rand()\<close> after \<open>srand\<close>.\<close>

definition route_update :: "(nat \<Rightarrow> nat) \<Rightarrow> nstate \<Rightarrow> nstate res" where
  "route_update rnds s =
     rbind (add_route (cf_enable_random (cfg s)) (cf_enable_muti_trace (cfg s)) rnds (vtps (vrt s))) (\<lambda>tab.
     rbind (compute_performance (vtps (vrt s)) tab (cf_num_enable_server (cfg s))) (\<lambda>pf.
     let s = upd_vr (\<lambda>v. v\<lparr>sched_route := tab, vperf := pf, perf_update_flag := True\<rparr>) s in
     rbind (GetNodeIDs (npo s) kServerGroup) (\<lambda>ids.
       rfold (\<lambda>r s. rbind (vec_at (sched_route (vrt s)) (node_container_id (vnt s) r - 1)) (\<lambda>rows.
         send_stamped (route_msg (my_id s) r 0 (encode_routes (vmid_tp (vrt s)) rows)) s)) ids s)))"

definition route_update2 :: "nstate \<Rightarrow> nstate res" where
  "route_update2 s =
     rbind (PolicyDecision (vperf (vrt s)) (sched_route (vrt s))) (\<lambda>policy.
     rbind (GetNodeIDs (npo s) kServerGroup) (\<lambda>ids.
       rmap (upd_vr (\<lambda>v. v\<lparr>perf_update_flag := False\<rparr>))
         (rfold (\<lambda>kr s. rbind (vec_at policy (int (fst kr))) (\<lambda>p.
            send_only (route_msg (my_id s) (snd kr) 1 p) s)) (enumerate 0 ids) s)))"

text \<open>One round of \<open>Route_Manager\<close>: the update, and the speeds it was made for.\<close>

definition Route_Manager_round :: "(nat \<Rightarrow> nat) \<Rightarrow> nstate \<Rightarrow> (speeds_matrix \<times> nstate) res" where
  "Route_Manager_round rnds s =
     rmap (\<lambda>s. (vtps (vrt s), upd_vr (\<lambda>v. v\<lparr>init_flag := False\<rparr>) s)) (route_update rnds s)"

definition update_due :: "speeds_matrix \<Rightarrow> nstate \<Rightarrow> bool" where
  "update_due temp s \<longleftrightarrow> fl_less (cf_update_rate (cfg s)) (check_change (vtps (vrt s)) temp)"

definition release_at_scheduler :: "nstate \<Rightarrow> nstate res" where
  "release_at_scheduler s =
     (let s = upd_vr (\<lambda>v. v\<lparr>notify_count := notify_count v + 1\<rparr>) s in
      if notify_count (vrt s) = int num_nodes then
        let s = upd_vr (\<lambda>v. v\<lparr>notify_count := 0\<rparr>) s in
        rmap (upd_vr (\<lambda>v. v\<lparr>perf_update_flag := False\<rparr>))
          (if perf_update_flag (vrt s) then route_update2 s
           else rbind (GetNodeIDs (npo s) kServerGroup) (\<lambda>ids.
                  rfold (\<lambda>r s. send_only (route_msg (my_id s) r 1 []) s) ids s))
      else Inr s)"

text \<open>
  The increments of \<open>recver\<close> and \<open>dst\<close> wrap here as two's complement; the scheduler leaves \<open>dst\<close>
  empty, so the second one overflows in every run.
\<close>

definition release_at_server :: "message \<Rightarrow> nstate \<Rightarrow> nstate res" where
  "release_at_server msg s =
     (if iters (meta msg) \<noteq> 0 then
        rbind (Send (upd_meta (\<lambda>m. m\<lparr>recver := cint_wrap (recver m + 1), dst := cint_wrap (dst m + 1)\<rparr>) msg) s)
          (\<lambda>(msg, s).
        if route (meta msg) = [] then Inr s
        else rmap (\<lambda>(pf, ps, ss). upd_vr (\<lambda>v. v\<lparr>vperf := pf, vparents_temp := ps, vsons_temp := ss,
                      init_flag := False\<rparr>) s)
               (decode_policy (my_id s) (route (meta msg))))
      else rmap (\<lambda>(mid, tab). upd_vr (\<lambda>v. v\<lparr>vmid_tp := mid, route0 := tab\<rparr>) s)
             (decode_routes (route (meta msg))))"

definition release_at_worker :: "message \<Rightarrow> nstate \<Rightarrow> nstate res" where
  "release_at_worker msg s =
     (let rt = route (meta msg) in
      if rt = [] then Inr (upd_vr (\<lambda>v. v\<lparr>init_flag := True, perf_update_flag := True\<rparr>) s)
      else if length rt < num_nodes then Inl (Out_of_range ''route.begin() + num_nodes'')
      else Inr (upd_vr (\<lambda>v. v\<lparr>vperf := take num_nodes rt, init_flag := False, perf_update_flag := True\<rparr>) s))"

definition ProcessRouteReleaseCommand :: "message \<Rightarrow> nstate \<Rightarrow> nstate res" where
  "ProcessRouteReleaseCommand msg s =
     (if is_scheduler (npo s) then release_at_scheduler s
      else if is_server (npo s) then release_at_server msg s
      else release_at_worker msg s)"

section \<open>Multicast tree\<close>

text \<open>Level \<open>j\<close> of the topology: the nodes at hop \<open>j\<close> of a main route with their predecessors.\<close>

definition topo_hop :: "int list \<Rightarrow> nat \<Rightarrow> (int list \<times> int list) list \<Rightarrow> (int list \<times> int list) list" where
  "topo_hop r j topo =
     (let (ns, hs) = topo ! j in
      if i_in_trace (r ! j) ns then topo else topo[j := (ns @ [r ! j], hs @ [r ! (j - 1)])])"

definition topo_route :: "int list list \<Rightarrow> (int list \<times> int list) list \<Rightarrow> (int list \<times> int list) list" where
  "topo_route rs topo =
     (case rs of [] \<Rightarrow> topo
      | r # _ \<Rightarrow> fold (topo_hop r) [1..<length r] (topo @ replicate (length r - length topo) ([], [])))"

definition level_list :: "int list \<times> int list \<Rightarrow> int list" where
  "level_list l = concat (map (\<lambda>(n, h). [n, h]) (zip (fst l) (snd l))) @ [- 1]"

definition MulticastTreeBuild :: "nstate \<Rightarrow> int list res" where
  "MulticastTreeBuild s =
     (let topo = fold topo_route (route0 (vrt s)) [];
          tr = concat (map level_list (rev topo))
      in rbind (vec_pop_back tr) vec_pop_back)"

section \<open>Receiving\<close>

definition ProcessTerminateCommand :: "nstate \<Rightarrow> nstate" where
  "ProcessTerminateCommand s = upd_vn (\<lambda>v. v\<lparr>vready := False\<rparr>) s"

text \<open>The result says whether the receiving thread goes on.\<close>

definition dispatch :: "message \<Rightarrow> nstate \<Rightarrow> (bool \<times> nstate) res" where
  "dispatch msg s =
     (if control_empty (control (meta msg)) then rmap (Pair True) (ProcessDataMsg msg s)
      else case cmd_of msg of
        TERMINATE \<Rightarrow> Inr (False, ProcessTerminateCommand s)
      | ADD_NODE \<Rightarrow> rmap (Pair True) (ProcessAddNodeCommand msg s)
      | BARRIER \<Rightarrow> rmap (Pair True) (ProcessBarrierCommand msg s)
      | HEARTBEAT \<Rightarrow> rmap (Pair True) (ProcessHearbeat msg s)
      | SPEED_REPORT \<Rightarrow> rmap (Pair True) (ProcessSpeedReportCommand msg s)
      | RECV_REPLY \<Rightarrow> rmap (Pair True) (ProcessRecvReplyCommand msg s)
      | ROUTE_RELEASE \<Rightarrow> rmap (Pair True) (ProcessRouteReleaseCommand msg s)
      | REPLY1 \<Rightarrow> rmap (Pair True) (ProcessReply1 msg s)
      | REPLY2 \<Rightarrow> rmap (Pair True) (ProcessReply2 msg s)
      | REPORT_ETH \<Rightarrow> rmap (Pair True) (ProcessReportEthCommand msg s)
      | REPORT_REPLY \<Rightarrow> rmap (Pair True) (ProcessReportReplyCommand msg s)
      | _ \<Rightarrow> Inr (True, s))"

text \<open>
  One iteration of \<open>Receiving\<close> on a received message; \<open>lost\<close> is the outcome of the random drop,
  which is for debugging.
\<close>

definition van_receive :: "bool \<Rightarrow> message \<Rightarrow> nstate \<Rightarrow> (bool \<times> nstate) res" where
  "van_receive lost msg s =
     (let s = upd_vn (\<lambda>v. v\<lparr>recovery_meta := set_cmd ADD_NODE (recovery_meta v)\<rparr>) s in
      if vready (vnt s) \<and> lost then Inr (True, s)
      else case vresender s of
          None \<Rightarrow> dispatch msg s
        | Some rs \<Rightarrow> rbind (AddIncomming (my_id s) msg rs) (\<lambda>(dup, acks, rs).
            rbind (rfold send_only acks (s\<lparr>vresender := Some rs\<rparr>)) (\<lambda>s.
              if dup then Inr (True, s) else dispatch msg s)))"

section \<open>Sending with timestamps\<close>

lemma send_stamped_ok:
  assumes "cmd_of msg \<noteq> EMPTY" "recver (meta msg) \<in> set (vsenders (vnt s))" "recver (meta msg) \<noteq> kEmpty"
    and "vresender s = None"
  shows "send_stamped msg s = Inr (s\<lparr>vtimestamp := cint_wrap (vtimestamp s + 1),
     outbox := outbox s @ [upd_meta (\<lambda>m. m\<lparr>timestamp := vtimestamp s\<rparr>) msg]\<rparr>)"
  using assms by (simp add: send_stamped_def next_timestamp_def send_control_ok)

text \<open>
  A loop that sends one control message per listed node: it succeeds when every node has a
  socket, and its messages go to these nodes in order.
\<close>

lemma send_loop_ok:
  assumes "\<And>r t. r \<in> set ids \<Longrightarrow> cmd_of (f r) \<noteq> EMPTY \<and> recver (meta (f r)) = r \<and> r \<in> set (vsenders (vnt s)) \<and> r \<noteq> kEmpty"
    and "vresender s = None"
    and step: "\<And>r s'. vnt s' = vnt s \<Longrightarrow> vrt s' = vrt s \<Longrightarrow> r \<in> set ids \<Longrightarrow> g r s' = send_stamped (f r) s'"
  shows "\<exists>ts t. length ts = length ids \<and> rfold g ids s = Inr (s\<lparr>vtimestamp := t,
    outbox := outbox s @ map (\<lambda>(r, u). upd_meta (\<lambda>m. m\<lparr>timestamp := u\<rparr>) (f r)) (zip ids ts)\<rparr>)"
  using assms
proof (induction ids arbitrary: s)
  case Nil
  have "s = s\<lparr>vtimestamp := vtimestamp s, outbox := outbox s\<rparr>" by simp
  then show ?case by (intro exI [of _ "[]"] exI [of _ "vtimestamp s"]) simp
next
  case (Cons r ids)
  let ?s = "s\<lparr>vtimestamp := cint_wrap (vtimestamp s + 1),
     outbox := outbox s @ [upd_meta (\<lambda>m. m\<lparr>timestamp := vtimestamp s\<rparr>) (f r)]\<rparr>"
  have g: "g r s = Inr ?s"
    using Cons.prems(1) [of r] Cons.prems(2) Cons.prems(3) [of s r] by (simp add: send_stamped_ok)
  have "\<exists>ts t. length ts = length ids \<and> rfold g ids ?s = Inr (?s\<lparr>vtimestamp := t,
    outbox := outbox ?s @ map (\<lambda>(r, u). upd_meta (\<lambda>m. m\<lparr>timestamp := u\<rparr>) (f r)) (zip ids ts)\<rparr>)"
    using Cons.prems by (intro Cons.IH) auto
  then obtain ts t where "length ts = length ids" "rfold g ids ?s = Inr (?s\<lparr>vtimestamp := t,
    outbox := outbox ?s @ map (\<lambda>(r, u). upd_meta (\<lambda>m. m\<lparr>timestamp := u\<rparr>) (f r)) (zip ids ts)\<rparr>)" by blast
  with g show ?case by (intro exI [of _ "vtimestamp s # ts"] exI [of _ t]) simp
qed

section \<open>Barriers\<close>

definition barrier_request :: "message \<Rightarrow> int \<Rightarrow> bool" where
  "barrier_request m g \<longleftrightarrow> request (meta m) \<and> c_barrier_group (control (meta m)) = g"

definition barrier_at :: "nstate \<Rightarrow> int \<Rightarrow> int \<Rightarrow> bool" where
  "barrier_at s g k \<longleftrightarrow> (barrier_count (vnt s) = [] \<and> k = 0 \<and> 0 \<le> g \<and> g < 8) \<or>
     vec_at (barrier_count (vnt s)) g = Inr k"

lemma barrier_counts_up:
  assumes "barrier_request m g" "barrier_at s g k" "GetNodeIDs (npo s) g = Inr ids" "k + 1 \<noteq> int (length ids)"
  shows "\<exists>b. ProcessBarrierCommand m s = Inr (upd_vn (\<lambda>v. v\<lparr>barrier_count := b\<rparr>) s) \<and>
    vec_at b g = Inr (k + 1)"
proof -
  let ?c = "if barrier_count (vnt s) = [] then replicate 8 0 else barrier_count (vnt s)"
  have at: "vec_at ?c g = Inr k"
    using assms(2) by (auto simp: barrier_at_def vec_at_def split: if_splits)
  then have "0 \<le> g" "g < int (length ?c)" by (auto simp: vec_simps)
  with at assms show ?thesis
    by (intro exI [of _ "?c[nat g := k + 1]"])
      (auto simp: ProcessBarrierCommand_def barrier_request_def Let_def vec_set_def vec_at_def)
qed

lemma barrier_releases:
  assumes "barrier_request m g" "barrier_at s g k" "GetNodeIDs (npo s) g = Inr ids" "k + 1 = int (length ids)"
    and "\<forall>r \<in> set ids. r \<in> set (vsenders (vnt s)) \<and> r \<noteq> kEmpty" "vresender s = None"
    and "shared_node_mapping (vnt s) = Map.empty"
  shows "\<exists>s' ts. ProcessBarrierCommand m s = Inr s' \<and> barrier_at s' g 0 \<and> length ts = length ids \<and>
    outbox s' = outbox s @ map (\<lambda>(r, u). upd_meta (\<lambda>m. m\<lparr>timestamp := u\<rparr>) (barrier_response m (my_id s) r)) (zip ids ts)"
proof -
  obtain c where c: "c = (if barrier_count (vnt s) = [] then replicate 8 0 else barrier_count (vnt s))" by blast
  let ?b = "c[nat g := k + 1, nat g := 0]"
  let ?s = "upd_vn (\<lambda>v. v\<lparr>barrier_count := ?b\<rparr>) s"
  let ?out = "\<lambda>ts. map (\<lambda>(r, u). upd_meta (\<lambda>m. m\<lparr>timestamp := u\<rparr>) (barrier_response m (my_id s) r)) (zip ids ts)"
  have at: "vec_at c g = Inr k"
    using assms(2) unfolding c by (auto simp: barrier_at_def vec_at_def split: if_splits)
  then have g: "0 \<le> g" "g < int (length c)" by (auto simp: vec_simps)
  have p: "ProcessBarrierCommand m s = rfold (release_barrier m) ids ?s"
    using at g assms(1,3,4) by (simp add: ProcessBarrierCommand_def barrier_request_def Let_def vec_set_def flip: c)
  have "\<exists>ts t. length ts = length ids \<and> rfold (release_barrier m) ids ?s = Inr (?s\<lparr>vtimestamp := t,
    outbox := outbox ?s @ ?out ts\<rparr>)"
    using assms(5-7) by (intro send_loop_ok) (auto simp: barrier_response_def release_barrier_def)
  then obtain ts t where "length ts = length ids"
    "ProcessBarrierCommand m s = Inr (?s\<lparr>vtimestamp := t, outbox := outbox s @ ?out ts\<rparr>)"
    unfolding p by auto
  moreover have "barrier_at (?s\<lparr>vtimestamp := t, outbox := outbox s @ ?out ts\<rparr>) g 0"
    using g by (simp add: barrier_at_def vec_at_def)
  ultimately show ?thesis by (intro exI [of _ "?s\<lparr>vtimestamp := t, outbox := outbox s @ ?out ts\<rparr>"] exI [of _ ts]) simp
qed

section \<open>Released routes\<close>

lemma release_routes:
  assumes "is_server (npo s)" "\<not> is_scheduler (npo s)"
    and "\<forall>rs \<in> set rows. \<forall>r \<in> set rs. \<forall>n \<in> set r. n < 2 ^ 20"
  shows "ProcessRouteReleaseCommand (route_msg me r 0 (encode_routes mid rows)) s =
    Inr (upd_vr (\<lambda>v. v\<lparr>vmid_tp := mid, route0 := server_routes rows\<rparr>) s)"
  using assms decode_encode_routes [OF assms(3), of mid]
  by (simp add: ProcessRouteReleaseCommand_def release_at_server_def route_msg_def)

text \<open>
  The way through the overlay that the released routes give: \<open>tab\<close> is the table of the
  scheduler, and every server has decoded its row.
\<close>

definition routes_released :: "route_table \<Rightarrow> (int \<Rightarrow> int list list list) \<Rightarrow> bool" where
  "routes_released tab R \<longleftrightarrow> (\<forall>i < num_nodes. R (server_id i) = server_routes (tab ! i))"

lemma server_id_inj: "server_id i = server_id j \<longleftrightarrow> i = j"
  by simp

lemma journey_released:
  assumes "routes_released tab R" "square tab" "i < num_nodes" "j < num_nodes" "i \<noteq> j"
    and r: "route_at tab i j = r # rs" "simple_path num_nodes tps1 i j r"
    and msg: "route (meta msg) = []" "dst (meta msg) = server_id j \<or> dst (meta msg) = worker_id j"
  shows "\<exists>m. journey num_nodes R (server_id i) msg = Inr (map server_id r, m) \<and> same_content m msg"
proof -
  from simple_path_two [OF r(2) assms(5)] obtain h t where rt: "r = i # h # t" by metis
  have row: "tab ! i ! j = r # rs" using r(1) by (simp add: route_at_def)
  have ne: "nonempty (tab ! i ! j) = r # nonempty rs" using row rt by (simp add: nonempty_def)
  have jl: "j < length (tab ! i)" using square_row [OF assms(2,3)] assms(4) by simp
  from server_routes_lookup [OF jl] ne have
    lk: "j < length (server_routes (tab ! i))"
      "server_routes (tab ! i) ! j = map server_id r # map (map server_id) (nonempty rs)" by auto
  have d: "(dst (meta msg) - 8) sdiv 2 = int j"
    using msg(2) by (auto simp: signed_divide_int_def sgn_if)
  have at: "vec_at (R (server_id i)) ((dst (meta msg) - 8) sdiv 2) =
      Inr ((server_id i # server_id h # map server_id t) # map (map server_id) (nonempty rs))"
    using assms(1,3) lk by (simp add: d routes_released_def rt)
  have last: "last (server_id h # map server_id t) = server_id j"
    using r(2) by (simp add: simple_path_def rt last_map split: if_splits)
  have dis: "distinct r" "set r \<subseteq> {..<num_nodes}" using r(2) by (auto simp: simple_path_def)
  have lr: "last r = j" using r(2) by (simp add: simple_path_def)
  have bl: "butlast (server_id i # server_id h # map server_id t) = map server_id (butlast r)"
    by (simp add: rt map_butlast)
  have "butlast r @ [last r] = r" using rt by (intro append_butlast_last_id) simp
  with dis(1) have "distinct (butlast r @ [last r])" by metis
  with lr have notj: "x \<noteq> j" if "x \<in> set (butlast r)" for x using that by auto
  have small: "small_ids (server_id h # map server_id t)"
    using dis(2) rt by (auto simp: small_ids_def num_nodes_def)
  have len: "length (map server_id t) < num_nodes"
    using simple_path_length [OF r(2)] rt by simp
  have aim: "dst (meta msg) = last (server_id h # map server_id t) \<or>
      dst (meta msg) = last (server_id h # map server_id t) + 1"
    unfolding last using msg(2) by auto
  have far: "dst (meta msg) \<noteq> server_id x \<and> dst (meta msg) \<noteq> server_id x + 1" if "x \<in> set (butlast r)" for x
    using notj [OF that] msg(2) by presburger
  have "\<forall>x \<in> set (butlast (server_id i # server_id h # map server_id t)).
      dst (meta msg) \<noteq> x \<and> dst (meta msg) \<noteq> x + 1"
    unfolding bl using far by auto
  from journey_from_start [where R = R, OF msg(1) at small len aim this] rt show ?thesis by simp
qed

section \<open>Speed reports\<close>

lemma speed_report_sets:
  assumes "square (vtps (vrt s))" "i < num_nodes" "j < num_nodes" "\<not> fl_eq x (Fin 0)"
    and "route (meta msg) = replicate a (Fin 0) @ [x] @ replicate b (Fin 0)"
    and "last_hop (meta msg) = server_id i" "sender_o (meta msg) = server_id j"
  shows "ProcessSpeedReportCommand msg s = Inr (upd_vr (\<lambda>v. v\<lparr>change_flag := True,
    vtps := (vtps v)[i := (vtps v ! i)[j := x]]\<rparr>) s)"
proof -
  let ?f = "\<lambda>x s. if fl_eq x (Fin 0) then Inr s
          else rbind (vec_at (vtps (vrt s)) (int i)) (\<lambda>row.
               rbind (vec_set row (int j) x) (\<lambda>row.
               rmap (\<lambda>t. upd_vr (\<lambda>v. v\<lparr>vtps := t\<rparr>) s) (vec_set (vtps (vrt s)) (int i) row)))"
  have zeros: "rfold ?f (replicate n (Fin 0)) s' = Inr s'" for n s' by (induction n) auto
  have len: "length (vtps (vrt s)) = num_nodes" "length (vtps (vrt s) ! i) = num_nodes"
    using assms(1,2) square_row by (auto simp: square_def)
  have one: "?f x s = Inr (upd_vr (\<lambda>v. v\<lparr>vtps := (vtps (vrt s))[i := (vtps (vrt s) ! i)[j := x]]\<rparr>) s)"
    using assms(2-4) len by simp
  have ij: "(last_hop (meta msg) - 8) sdiv 2 = int i" "(sender_o (meta msg) - 8) sdiv 2 = int j"
    using assms(6,7) by (simp_all add: signed_divide_int_def sgn_if)
  have "rfold ?f (route (meta msg)) s = Inr (upd_vr (\<lambda>v. v\<lparr>vtps := (vtps (vrt s))[i := (vtps (vrt s) ! i)[j := x]]\<rparr>) s)"
    unfolding assms(5) by (simp only: rfold_append zeros rbind_simps append.simps rfold.simps one)
  then show ?thesis
    by (simp add: ProcessSpeedReportCommand_def ij Let_def upd_vr_def)
qed

text \<open>The report a server builds has its only entry at the link that was measured.\<close>

lemma report_route_single:
  assumes "1 \<le> k" "k < length sp - 1" "\<not> fl_eq (sp ! k ! 1) (Fin 0)"
  shows "report_route sp k = replicate (k - 1) (Fin 0) @ [fl_narrow rnd32 (sp ! k ! 0)] @
    replicate (length sp - 2 - k) (Fin 0)"
proof (rule nth_equalityI)
  show "length (report_route sp k) = length (replicate (k - 1) (Fin 0) @ [fl_narrow rnd32 (sp ! k ! 0)] @
    replicate (length sp - 2 - k) (Fin 0))"
    using assms(1,2) by (simp add: report_route_def)
  fix i assume "i < length (report_route sp k)"
  then have "i < length sp - 2" by (simp add: report_route_def)
  with assms show "report_route sp k ! i = (replicate (k - 1) (Fin 0) @ [fl_narrow rnd32 (sp ! k ! 0)] @
    replicate (length sp - 2 - k) (Fin 0)) ! i"
  proof (cases "Suc i = k")
    case True
    with assms \<open>i < length sp - 2\<close> show ?thesis by (auto simp: report_route_def nth_append)
  next
    case False
    with assms \<open>i < length sp - 2\<close> show ?thesis by (auto simp: report_route_def nth_append nth_Cons')
  qed
qed

section \<open>Received data cannot be acknowledged while resending is on\<close>

lemma recv_reply_aborts:
  assumes "vresender s = Some rs"
  shows "\<exists>e. send_only (recv_reply_msg msg me flag) s = Inl e"
  using assms
  by (auto simp: send_only_def Send_def van_SendMsg_def rcheck_def add_outgoing_def AddOutgoing_def
      recv_reply_msg_def Message_def Meta_def)

end
