(* ===== verification/NS_Slicer.thy ===== *)
theory NS_Slicer
  imports NS_Postoffice
begin

text \<open>
  Key-value lists and their partition over the servers: \<open>KVPairs\<close> and \<open>DefaultSlicer\<close>
  (\<open>include/ps/kv_app.h\<close>), \<open>SArray::segment\<close> and \<open>FindRange\<close> (\<open>include/ps/sarray.h\<close>). Values are the
  bytes of \<open>KVWorker<char>\<close>, the instance the key-value store uses. \<open>std::lower_bound\<close> is the
  binary search of the standard library.
\<close>

section \<open>Operations\<close>

type_synonym val = "8 word"

record kvpairs =
  kv_keys :: "key list"
  kv_vals :: "val list"
  kv_lens :: "int list"

definition KVPairs :: kvpairs where
  "KVPairs = \<lparr>kv_keys = [], kv_vals = [], kv_lens = []\<rparr>"

text \<open>\<open>std::lower_bound\<close> on the part of an array that starts at \<open>first\<close> and has \<open>len\<close> elements.\<close>

function lower_bound_loop :: "key list \<Rightarrow> key \<Rightarrow> nat \<Rightarrow> nat \<Rightarrow> nat" where
  "lower_bound_loop xs v first len =
     (if len = 0 then first
      else let half = len div 2; mid = first + half in
        if xs ! mid < v then lower_bound_loop xs v (mid + 1) (len - half - 1)
        else lower_bound_loop xs v first half)"
  by auto
termination by (relation "measure (\<lambda>(_, _, _, len). len)") auto

declare lower_bound_loop.simps [simp del]

definition lower_bound :: "key list \<Rightarrow> nat \<Rightarrow> key \<Rightarrow> nat" where
  "lower_bound xs first v = lower_bound_loop xs v first (length xs - first)"

definition segment :: "'a list \<Rightarrow> nat \<Rightarrow> nat \<Rightarrow> 'a list res" where
  "segment xs b e = rcheck (b \<le> e) ''end >= begin'' (rcheck (e \<le> length xs) ''end <= size()''
     (Inr (take (e - b) (drop b xs))))"

definition FindRange :: "key list \<Rightarrow> key \<Rightarrow> key \<Rightarrow> nat \<times> nat" where
  "FindRange xs lo hi = (if hi \<le> lo then (0, 0) else (lower_bound xs 0 lo, lower_bound xs 0 hi))"

text \<open>The positions: \<open>fst\<close> of the accumulator is \<open>begin\<close>, as an index, which is also \<open>pos[i]\<close>.\<close>

fun slice_positions :: "key list \<Rightarrow> krange list \<Rightarrow> key option \<Rightarrow> nat \<Rightarrow> nat list res" where
  "slice_positions ks [] prev b = Inr [b]"
| "slice_positions ks (r # rs) prev b =
     (let b = (case prev of None \<Rightarrow> lower_bound ks b (fst r) | Some _ \<Rightarrow> b) in
      rcheck (case prev of None \<Rightarrow> True | Some e \<Rightarrow> e = fst r) ''ranges[i-1].end() == ranges[i].begin()''
        (rmap ((#) b) (slice_positions ks rs (Some (snd r)) (lower_bound ks b (snd r)))))"

definition add_size :: "nat \<Rightarrow> int \<Rightarrow> nat" where
  "add_size n l = nat ((int n + l) mod 2 ^ 64)"

text \<open>The slices, with the value positions threaded through when lengths are given.\<close>

fun cut_slices :: "kvpairs \<Rightarrow> nat \<Rightarrow> nat list \<Rightarrow> nat \<Rightarrow> (bool \<times> kvpairs) list res" where
  "cut_slices send k (p # p' # ps) vb =
     (if p' = p then rmap ((#) (False, KVPairs)) (cut_slices send k (p' # ps) vb)
      else rbind (segment (kv_keys send) p p') (\<lambda>ks.
        if kv_lens send \<noteq> [] then
          rbind (segment (kv_lens send) p p') (\<lambda>ls.
          let ve = foldl add_size vb ls in
          rbind (segment (kv_vals send) vb ve) (\<lambda>vs.
          rmap ((#) (True, \<lparr>kv_keys = ks, kv_vals = vs, kv_lens = ls\<rparr>)) (cut_slices send k (p' # ps) ve)))
        else
          rbind (segment (kv_vals send) (p * k) (p' * k)) (\<lambda>vs.
          rmap ((#) (True, \<lparr>kv_keys = ks, kv_vals = vs, kv_lens = []\<rparr>)) (cut_slices send k (p' # ps) vb))))"
| "cut_slices send k _ vb = Inr []"

definition DefaultSlicer :: "kvpairs \<Rightarrow> krange list \<Rightarrow> (bool \<times> kvpairs) list res" where
  "DefaultSlicer send ranges =
     rbind (slice_positions (kv_keys send) ranges None 0) (\<lambda>pos.
     rcheck (last pos = length (kv_keys send)) ''pos[n] == send.keys.size()''
     (if kv_keys send = [] then Inr (replicate (length ranges) (False, KVPairs))
      else
        let k = length (kv_vals send) div length (kv_keys send) in
        rcheck (if kv_lens send = [] then k * length (kv_keys send) = length (kv_vals send)
                else length (kv_keys send) = length (kv_lens send)) ''sizes of keys, values and lengths''
          (cut_slices send k pos 0)))"

section \<open>Binary search\<close>

lemma lower_bound_loop_correct:
  assumes "sorted xs" "first + len \<le> length xs" "\<forall>x \<in> set (take first xs). x < v"
    and "\<forall>x \<in> set (drop (first + len) xs). \<not> x < v"
  shows "lower_bound_loop xs v first len = length (takeWhile (\<lambda>x. x < v) xs)"
  using assms
proof (induction xs v first len rule: lower_bound_loop.induct)
  case (1 xs v first len)
  show ?case
  proof (cases "len = 0")
    case True
    have "takeWhile (\<lambda>x. x < v) (take first xs @ drop first xs) = take first xs"
      using 1(5,6) True by (subst takeWhile_append2) (auto simp: takeWhile_eq_Nil_iff dest: hd_in_set)
    with True 1(4) show ?thesis by (simp add: lower_bound_loop.simps)
  next
    case False
    let ?mid = "first + len div 2"
    have mid: "?mid < length xs" using False 1(4) by linarith
    show ?thesis
    proof (cases "xs ! ?mid < v")
      case True
      have "\<forall>x \<in> set (take (?mid + 1) xs). x < v"
      proof
        fix x assume "x \<in> set (take (?mid + 1) xs)"
        then obtain i where "i < Suc ?mid" "x = xs ! i" using mid by (auto simp: in_set_conv_nth)
        with sorted_nth_mono [OF 1(3), of i ?mid] mid True show "x < v" by auto
      qed
      moreover have "?mid + 1 + (len - len div 2 - 1) = first + len" using False by linarith
      ultimately show ?thesis
        using 1(1) [OF False refl refl True 1(3)] 1(4,6) False True
        by (simp add: lower_bound_loop.simps [of xs v first len] Let_def)
    next
      case nv: False
      have "\<forall>x \<in> set (drop ?mid xs). \<not> x < v"
      proof
        fix x assume "x \<in> set (drop ?mid xs)"
        then obtain i where "?mid \<le> i" "i < length xs" "x = xs ! i"
          by (auto simp: in_set_conv_nth) (metis le_add1 less_diff_conv add.commute)
        with sorted_nth_mono [OF 1(3), of ?mid i] nv show "\<not> x < v" by auto
      qed
      then show ?thesis
        using 1(2) [OF False refl refl nv 1(3)] 1(4,5) False nv mid
        by (simp add: lower_bound_loop.simps [of xs v first len] Let_def)
    qed
  qed
qed

lemma lower_bound_correct:
  assumes "sorted xs" "first \<le> length xs" "\<forall>x \<in> set (take first xs). x < v"
  shows "lower_bound xs first v = length (takeWhile (\<lambda>x. x < v) xs)"
  using assms lower_bound_loop_correct [of xs first "length xs - first" v] by (simp add: lower_bound_def)

section \<open>The slicer partitions the list\<close>

definition below :: "key list \<Rightarrow> key \<Rightarrow> nat" where
  "below ks v = length (takeWhile (\<lambda>x. x < v) ks)"

text \<open>Contiguous ranges from \<open>lo\<close> that do not descend.\<close>

fun contiguous :: "key \<Rightarrow> krange list \<Rightarrow> bool" where
  "contiguous lo [] = True"
| "contiguous lo (r # rs) \<longleftrightarrow> fst r = lo \<and> lo \<le> snd r \<and> contiguous (snd r) rs"

lemma below_le: "below ks v \<le> length ks"
  by (simp add: below_def length_takeWhile_le)

lemma take_below: "take (below ks v) ks = takeWhile (\<lambda>x. x < v) ks"
  by (simp add: below_def flip: takeWhile_eq_take)

lemma lower_bound_below:
  assumes "sorted ks" "u \<le> v"
  shows "lower_bound ks (below ks u) v = below ks v"
proof -
  have "\<forall>x \<in> set (take (below ks u) ks). x < v"
    using assms(2) by (force simp: take_below dest: set_takeWhileD)
  from lower_bound_correct [OF assms(1) below_le this] show ?thesis by (simp only: below_def)
qed

lemma lower_bound_zero: "sorted ks \<Longrightarrow> lower_bound ks 0 v = below ks v"
  using lower_bound_correct [of ks 0 v] by (simp add: below_def)

lemma slice_positions_rest:
  assumes "sorted ks" "contiguous lo rs"
  shows "slice_positions ks rs (Some lo) (below ks lo) =
    Inr (map (below ks) (lo # map snd rs))"
  using assms(2)
proof (induction rs arbitrary: lo)
  case (Cons r rs)
  then show ?case using lower_bound_below [OF assms(1), of lo "snd r"] by simp
qed simp

lemma slice_positions_eq:
  assumes "sorted ks" "contiguous lo rs" "rs \<noteq> []"
  shows "slice_positions ks rs None 0 = Inr (map (below ks) (lo # map snd rs))"
proof -
  obtain r rs' where r: "rs = r # rs'" using assms(3) by (cases rs) auto
  with assms slice_positions_rest [OF assms(1), of "snd r" rs'] show ?thesis
    by (simp add: lower_bound_zero [OF assms(1)] lower_bound_below [OF assms(1)])
qed

text \<open>The values of the \<open>i\<close>-th key, with a uniform length or with the given lengths.\<close>

definition vals_upto :: "kvpairs \<Rightarrow> nat \<Rightarrow> nat" where
  "vals_upto send p = (if kv_lens send = [] then p * (length (kv_vals send) div length (kv_keys send))
     else nat (sum_list (take p (kv_lens send))))"

definition kv_wf :: "kvpairs \<Rightarrow> bool" where
  "kv_wf send \<longleftrightarrow> sorted (kv_keys send) \<and> length (kv_vals send) < 2 ^ 64 \<and>
     (if kv_lens send = [] then length (kv_keys send) dvd length (kv_vals send) \<and> kv_keys send \<noteq> []
      else length (kv_lens send) = length (kv_keys send) \<and> (\<forall>l \<in> set (kv_lens send). 0 \<le> l) \<and>
           sum_list (kv_lens send) = int (length (kv_vals send)))"

definition slice_of :: "kvpairs \<Rightarrow> nat \<Rightarrow> nat \<Rightarrow> bool \<times> kvpairs" where
  "slice_of send p p' =
     (if p = p' then (False, KVPairs)
      else (True, \<lparr>kv_keys = take (p' - p) (drop p (kv_keys send)),
                   kv_vals = take (vals_upto send p' - vals_upto send p) (drop (vals_upto send p) (kv_vals send)),
                   kv_lens = take (p' - p) (drop p (kv_lens send))\<rparr>))"

lemma segment_ok: "b \<le> e \<Longrightarrow> e \<le> length xs \<Longrightarrow> segment xs b e = Inr (take (e - b) (drop b xs))"
  by (simp add: segment_def)

lemma add_size_exact: "0 \<le> l \<Longrightarrow> int n + l < 2 ^ 64 \<Longrightarrow> add_size n l = n + nat l"
  by (simp add: add_size_def nat_add_distrib)

lemma foldl_add_size:
  assumes "\<forall>l \<in> set ls. 0 \<le> l" "int n + sum_list ls < 2 ^ 64"
  shows "foldl add_size n ls = n + nat (sum_list ls)"
  using assms
proof (induction ls arbitrary: n)
  case (Cons l ls)
  have s: "0 \<le> sum_list ls" using Cons.prems(1) by (intro sum_list_nonneg) auto
  then have "add_size n l = n + nat l" using Cons.prems by (intro add_size_exact) auto
  with Cons s show ?case by (simp add: nat_add_distrib)
qed simp

lemma sum_take_mono:
  fixes ls :: "int list"
  assumes "\<forall>l \<in> set ls. 0 \<le> l" "p \<le> q"
  shows "sum_list (take q ls) = sum_list (take p ls) + sum_list (take (q - p) (drop p ls))"
    and "0 \<le> sum_list (take p ls)" and "0 \<le> sum_list (take (q - p) (drop p ls))"
proof -
  have "take q ls = take p ls @ take (q - p) (drop p ls)"
    using assms(2) by (metis le_add_diff_inverse take_add)
  then show "sum_list (take q ls) = sum_list (take p ls) + sum_list (take (q - p) (drop p ls))" by simp
  show "0 \<le> sum_list (take p ls)" "0 \<le> sum_list (take (q - p) (drop p ls))"
    using assms(1) by (auto intro!: sum_list_nonneg dest: in_set_takeD in_set_dropD)
qed

lemma vals_upto_mono:
  assumes "kv_wf send" "p \<le> q"
  shows "vals_upto send p \<le> vals_upto send q"
  using assms sum_take_mono [of "kv_lens send" p q]
  by (auto simp: vals_upto_def kv_wf_def split: if_splits)

lemma vals_upto_all: "kv_wf send \<Longrightarrow> vals_upto send (length (kv_keys send)) = length (kv_vals send)"
  by (auto simp: vals_upto_def kv_wf_def split: if_splits)

lemma vals_upto_bound: "kv_wf send \<Longrightarrow> p \<le> length (kv_keys send) \<Longrightarrow> vals_upto send p \<le> length (kv_vals send)"
  using vals_upto_mono [of send p "length (kv_keys send)"] vals_upto_all [of send] by simp

lemma lens_step:
  assumes "kv_wf send" "kv_lens send \<noteq> []" "p \<le> q" "q \<le> length (kv_keys send)"
  shows "foldl add_size (vals_upto send p) (take (q - p) (drop p (kv_lens send))) = vals_upto send q"
proof -
  let ?ls = "kv_lens send"
  have nn: "\<forall>l \<in> set ?ls. 0 \<le> l" using assms by (simp add: kv_wf_def)
  note s = sum_take_mono [OF nn assms(3)]
  have q: "int (vals_upto send q) = sum_list (take q ?ls)"
    using assms(2) sum_take_mono(2) [OF nn order.refl, of q] by (simp add: vals_upto_def)
  have "int (vals_upto send p) + sum_list (take (q - p) (drop p ?ls)) = int (vals_upto send q)"
    using s assms(2) q by (simp add: vals_upto_def)
  moreover have "int (vals_upto send q) < 2 ^ 64"
    using vals_upto_bound [OF assms(1,4)] assms(1) by (simp add: kv_wf_def)
  moreover have "\<forall>l \<in> set (take (q - p) (drop p ?ls)). 0 \<le> l"
    using nn by (auto dest: in_set_takeD in_set_dropD)
  ultimately show ?thesis
    using foldl_add_size [of "take (q - p) (drop p ?ls)" "vals_upto send p"] s(3) by simp
qed

lemma cut_slices_eq:
  assumes "kv_wf send" "k = length (kv_vals send) div length (kv_keys send)"
    and "sorted ps" "\<forall>p \<in> set ps. p \<le> length (kv_keys send)"
    and "kv_lens send \<noteq> [] \<longrightarrow> ps \<noteq> [] \<longrightarrow> vb = vals_upto send (hd ps)"
  shows "cut_slices send k ps vb = Inr (map2 (slice_of send) ps (tl ps))"
  using assms(3-5)
proof (induction ps arbitrary: vb rule: induct_list012)
  case (3 p p' ps)
  have pp: "p \<le> p'" "p' \<le> length (kv_keys send)" using 3(3,4) by auto
  show ?case
  proof (cases "kv_lens send = []")
    case True
    have le: "p' * k \<le> length (kv_vals send)" "p * k \<le> p' * k"
      using vals_upto_bound [OF assms(1) pp(2)] True assms(2) pp(1) by (simp_all add: vals_upto_def)
    from 3(2) [of vb] 3(3,4) True have ih: "cut_slices send k (p' # ps) vb = Inr (map2 (slice_of send) (p' # ps) ps)"
      by simp
    from pp le ih True assms(2) show ?thesis by (auto simp: segment_ok slice_of_def [of send p p'] vals_upto_def)
  next
    case False
    have vb: "vb = vals_upto send p" using 3(5) False by simp
    have len: "p' \<le> length (kv_lens send)" using assms(1) False pp by (simp add: kv_wf_def)
    note step = lens_step [OF assms(1) False pp]
    have ih: "cut_slices send k (p' # ps) (vals_upto send p') = Inr (map2 (slice_of send) (p' # ps) ps)"
      using 3(2) [of "vals_upto send p'"] 3(3,4) by simp
    from pp vb len step ih False vals_upto_mono [OF assms(1) pp(1)] vals_upto_bound [OF assms(1) pp(2)]
    show ?thesis by (auto simp: segment_ok slice_of_def [of send p p'] Let_def)
  qed
qed simp_all

lemma zip_butlast_tl: "zip xs (tl xs) = zip (butlast xs) (tl xs)"
  by (induction xs rule: induct_list012) auto

lemma below_zero [simp]: "below ks 0 = 0"
  by (cases ks) (auto simp: below_def)

lemma vals_upto_zero: "vals_upto send 0 = 0"
  by (simp add: vals_upto_def)

lemma below_mono:
  assumes "u \<le> v"
  shows "below ks u \<le> below ks v"
proof -
  have "length (takeWhile (\<lambda>x. x < u) ks) \<le> length (takeWhile (\<lambda>x. x < v) ks)"
    using assms by (induction ks) auto
  then show ?thesis by (simp add: below_def)
qed

lemma contiguous_sorted: "contiguous lo rs \<Longrightarrow> sorted (lo # map snd rs)"
proof (induction rs arbitrary: lo)
  case (Cons r rs)
  then have "sorted (snd r # map snd rs)" "lo \<le> snd r" by auto
  then show ?case by auto
qed simp

lemma sorted_below: "contiguous lo rs \<Longrightarrow> sorted (map (below ks) (lo # map snd rs))"
  using contiguous_sorted [of lo rs] by (simp only: sorted_map) (auto intro: below_mono sorted_wrt_mono_rel)

lemma below_all: "\<forall>x \<in> set ks. x < v \<Longrightarrow> below ks v = length ks"
  by (simp add: below_def takeWhile_eq_all_conv [THEN iffD2])

lemma DefaultSlicer_slices:
  assumes "kv_wf send" "contiguous 0 rs" "rs \<noteq> []" "\<forall>x \<in> set (kv_keys send). x < snd (last rs)"
  shows "DefaultSlicer send rs =
    Inr (map (\<lambda>r. slice_of send (below (kv_keys send) (fst r)) (below (kv_keys send) (snd r))) rs)"
proof -
  let ?ks = "kv_keys send"
  let ?ps = "map (below ?ks) (0 # map snd rs)"
  have ks: "sorted ?ks" "?ks \<noteq> []" using assms(1) by (auto simp: kv_wf_def split: if_splits)
  have pos: "slice_positions ?ks rs None 0 = Inr ?ps" by (rule slice_positions_eq [OF ks(1) assms(2,3)])
  have "last ?ps = below ?ks (snd (last rs))" using assms(3) by (simp add: last_map)
  then have last: "last ?ps = length ?ks" using below_all [OF assms(4)] by simp
  have fsts: "map fst rs = butlast (lo # map snd rs)" if "contiguous lo rs" for lo
    using that by (induction rs arbitrary: lo) auto
  have "map2 (slice_of send) ?ps (tl ?ps) = map2 (slice_of send) (butlast ?ps) (tl ?ps)"
    by (simp only: zip_butlast_tl [of ?ps])
  also have "butlast ?ps = map (below ?ks) (map fst rs)"
    by (simp only: fsts [OF assms(2)] map_butlast)
  finally have map2: "map2 (slice_of send) ?ps (tl ?ps) =
      map (\<lambda>r. slice_of send (below ?ks (fst r)) (below ?ks (snd r))) rs"
    by (simp add: map_zip_map2 zip_map1 zip_map2 comp_def split_def zip_same_conv_map)
  have sizes: "if kv_lens send = [] then length (kv_vals send) div length ?ks * length ?ks = length (kv_vals send)
      else length ?ks = length (kv_lens send)"
    using assms(1) by (auto simp: kv_wf_def split: if_splits)
  have cut: "cut_slices send (length (kv_vals send) div length ?ks) ?ps 0 = Inr (map2 (slice_of send) ?ps (tl ?ps))"
    using cut_slices_eq [OF assms(1) refl sorted_below [OF assms(2)], of ?ks 0]
    by (auto simp: below_le vals_upto_zero)
  show ?thesis using pos last sizes cut map2 ks(2) by (simp add: DefaultSlicer_def del: list.map)
qed

lemma contiguous_last: "contiguous lo rs \<Longrightarrow> lo \<le> last (lo # map snd rs)"
proof (induction rs arbitrary: lo)
  case (Cons r rs)
  then have "snd r \<le> last (snd r # map snd rs)" "lo \<le> snd r" by auto
  then show ?case by (auto intro: order.trans)
qed simp

lemma take_drop_join:
  assumes "a \<le> b" "b \<le> c"
  shows "take (b - a) (drop a xs) @ take (c - b) (drop b xs) = take (c - a) (drop a xs)"
proof -
  have "take (c - a) (drop a xs) = take (b - a) (drop a xs) @ take (c - b) (drop (b - a) (drop a xs))"
    using assms take_add [of "b - a" "c - b" "drop a xs"] by simp
  with assms show ?thesis by simp
qed

lemma concat_cuts:
  assumes "contiguous lo rs" "\<And>u v. u \<le> v \<Longrightarrow> g u \<le> (g v :: nat)"
  shows "concat (map (\<lambda>r. take (g (snd r) - g (fst r)) (drop (g (fst r)) xs)) rs) =
    take (g (last (lo # map snd rs)) - g lo) (drop (g lo) xs)"
  using assms(1)
proof (induction rs arbitrary: lo)
  case (Cons r rs)
  have "g lo \<le> g (snd r)" "g (snd r) \<le> g (last (snd r # map snd rs))"
    using Cons.prems contiguous_last [of "snd r" rs] by (auto intro!: assms(2))
  from take_drop_join [OF this, of xs] Cons.IH [of "snd r"] Cons.prems show ?case by auto
qed simp

lemma slice_of_parts:
  "kv_keys (snd (slice_of send p q)) = (if p = q then [] else take (q - p) (drop p (kv_keys send)))"
  "kv_lens (snd (slice_of send p q)) = (if p = q then [] else take (q - p) (drop p (kv_lens send)))"
  "kv_vals (snd (slice_of send p q)) =
     (if p = q then [] else take (vals_upto send q - vals_upto send p) (drop (vals_upto send p) (kv_vals send)))"
  by (simp_all add: slice_of_def KVPairs_def)

lemma slice_of_uncut:
  "kv_keys (snd (slice_of send p q)) = take (q - p) (drop p (kv_keys send))"
  "kv_lens (snd (slice_of send p q)) = take (q - p) (drop p (kv_lens send))"
  "kv_vals (snd (slice_of send p q)) =
     take (vals_upto send q - vals_upto send p) (drop (vals_upto send p) (kv_vals send))"
  by (simp_all add: slice_of_parts)

lemma DefaultSlicer_joins:
  assumes "kv_wf send" "contiguous 0 rs" "rs \<noteq> []" "\<forall>x \<in> set (kv_keys send). x < snd (last rs)"
    and "DefaultSlicer send rs = Inr sl"
  shows "concat (map (kv_keys \<circ> snd) sl) = kv_keys send \<and>
    concat (map (kv_vals \<circ> snd) sl) = kv_vals send \<and> concat (map (kv_lens \<circ> snd) sl) = kv_lens send"
proof -
  let ?b = "below (kv_keys send)"
  have sl: "sl = map (\<lambda>r. slice_of send (?b (fst r)) (?b (snd r))) rs"
    using DefaultSlicer_slices [OF assms(1-4)] assms(5) by simp
  have end1: "?b (last (0 # map snd rs)) = length (kv_keys send)"
    using below_all [OF assms(4)] assms(3) by (simp add: last_map)
  have lens: "length (kv_lens send) \<le> length (kv_keys send)"
    using assms(1) by (auto simp: kv_wf_def split: if_splits)
  have mono: "vals_upto send (?b u) \<le> vals_upto send (?b v)" if "u \<le> v" for u v
    using vals_upto_mono [OF assms(1) below_mono [OF that]] .
  show ?thesis
    using concat_cuts [OF assms(2), of ?b "kv_keys send"] concat_cuts [OF assms(2), of ?b "kv_lens send"]
      concat_cuts [OF assms(2), of "\<lambda>v. vals_upto send (?b v)" "kv_vals send"] mono lens
    by (simp add: sl end1 comp_def slice_of_uncut below_mono vals_upto_zero vals_upto_all [OF assms(1)] del: last.simps)
qed

lemma slice_keys:
  assumes "sorted ks" "u \<le> v"
  shows "set (take (below ks v - below ks u) (drop (below ks u) ks)) = {x \<in> set ks. u \<le> x \<and> x < v}"
proof -
  have "take (below ks v - below ks u) (drop (below ks u) ks) = drop (below ks u) (takeWhile (\<lambda>x. x < v) ks)"
    by (simp add: take_below [symmetric] drop_take)
  also have "takeWhile (\<lambda>x. x < v) ks = filter (\<lambda>x. x < v) ks"
    using assms(1) by (induction ks) (auto intro!: filter_False [symmetric] dest: order.strict_trans1)
  also have "drop (below ks u) (filter (\<lambda>x. x < v) ks) = filter (\<lambda>x. u \<le> x) (filter (\<lambda>x. x < v) ks)"
    using assms
  proof (induction ks)
    case (Cons k ks)
    then show ?case
      by (cases "k < u") (auto simp: below_def filter_empty_conv intro!: filter_True [symmetric] filter_cong)
  qed (simp add: below_def)
  finally show ?thesis by auto
qed

end
