(* ===== verification/NS_KvApp.thy ===== *)
theory NS_KvApp
  imports NS_Slicer NS_Transfer
begin

text \<open>
  The applications on top of the van: \<open>SimpleApp\<close> (\<open>include/ps/simple_app.h\<close>), \<open>KVWorker\<close>,
  \<open>KVServer\<close> and \<open>KVServerDefaultHandle\<close> (\<open>include/ps/kv_app.h\<close>). Each operation acts on the
  application and on the node it runs on. User handles and user callbacks are not part of the
  library: a handle is a parameter, a callback is a number that the model lists when it is
  called. The arrays a worker passes by pointer or as \<open>SArray\<close> live in a store of buffers, so that
  what the completion of a request writes is visible to the caller. An array of a message is
  read at the type it was added with.
\<close>

section \<open>Simple applications\<close>

record simple_data =
  sd_head :: int
  sd_body :: string
  sd_sender :: int
  sd_timestamp :: int
  sd_customer_id :: int

type_synonym 's simple_handle = "simple_data \<Rightarrow> 's \<Rightarrow> 's res"

definition simple_request_msg :: "customer \<Rightarrow> int \<Rightarrow> string \<Rightarrow> int \<Rightarrow> message" where
  "simple_request_msg c req_head req_body ts = upd_meta (\<lambda>m. m\<lparr>head := req_head, body := req_body,
     timestamp := ts, request := True, simple_app := True, app_id := cu_app_id c,
     customer_id := cu_customer_id c\<rparr>) Message"

text \<open>The message object is reused in the loop: a call of \<open>Send\<close> may change it.\<close>

definition simple_Request ::
  "int \<Rightarrow> string \<Rightarrow> int \<Rightarrow> customer \<Rightarrow> nstate \<Rightarrow> (int \<times> customer \<times> nstate) res" where
  "simple_Request req_head req_body recv_id c s =
     rbind (NewRequest (npo s) recv_id c) (\<lambda>(ts, c).
     rbind (GetNodeIDs (npo s) recv_id) (\<lambda>ids.
     rmap (\<lambda>(msg, s). (ts, c, s))
       (rfold (\<lambda>r (msg, s). Send (upd_meta (\<lambda>m. m\<lparr>recver := r\<rparr>) msg) s) ids
          (simple_request_msg c req_head req_body ts, s))))"

definition simple_Response :: "simple_data \<Rightarrow> string \<Rightarrow> customer \<Rightarrow> nstate \<Rightarrow> nstate res" where
  "simple_Response req res_body c s =
     send_only (upd_meta (\<lambda>m. m\<lparr>head := sd_head req, body := res_body, timestamp := sd_timestamp req,
       request := False, simple_app := True, app_id := cu_app_id c, customer_id := sd_customer_id req,
       recver := sd_sender req\<rparr>) Message) s"

definition simple_data_of :: "message \<Rightarrow> simple_data" where
  "simple_data_of msg = \<lparr>sd_head = head (meta msg), sd_body = body (meta msg), sd_sender = sender_o (meta msg),
     sd_timestamp = timestamp (meta msg), sd_customer_id = customer_id (meta msg)\<rparr>"

definition simple_Process :: "'s simple_handle \<Rightarrow> 's simple_handle \<Rightarrow> message \<Rightarrow> 's \<Rightarrow> 's res" where
  "simple_Process request_handle response_handle msg s =
     (if request (meta msg) then request_handle (simple_data_of msg) s
      else response_handle (simple_data_of msg) s)"

text \<open>The handles of the empty constructor.\<close>

definition default_request_handle :: "customer \<Rightarrow> nstate simple_handle" where
  "default_request_handle c recved s = simple_Response recved '''' c s"

definition default_response_handle :: "'s simple_handle" where
  "default_response_handle recved s = Inr s"

section \<open>Arrays of a message\<close>

fun as_keys :: "blob \<Rightarrow> key list res" where
  "as_keys (Keys ks) = Inr ks"
| "as_keys _ = Inl (Undefined ''array of another type'')"

fun as_vals :: "blob \<Rightarrow> val list res" where
  "as_vals (Vals vs) = Inr vs"
| "as_vals _ = Inl (Undefined ''array of another type'')"

fun as_lens :: "blob \<Rightarrow> int list res" where
  "as_lens (Lens ls) = Inr ls"
| "as_lens _ = Inl (Undefined ''array of another type'')"

text \<open>The arrays a key-value message carries: none for an empty list of keys.\<close>

definition add_kvs :: "kvpairs \<Rightarrow> message \<Rightarrow> message res" where
  "add_kvs res msg =
     (if kv_keys res = [] then Inr msg
      else rbind (AddData msg (Keys (kv_keys res))) (\<lambda>msg.
        rbind (AddData msg (Vals (kv_vals res))) (\<lambda>msg.
          if kv_lens res = [] then Inr msg else AddData msg (Lens (kv_lens res)))))"

section \<open>Workers\<close>

text \<open>
  The two closures a worker registers, with what they capture. A pull writes to the buffers it
  was given; a push writes what a response carries back into the pushed arrays.
\<close>

datatype callback =
    Push_callback "key list" nat nat "nat option"
  | Pull_callback "key list" nat "nat option" "nat option"

record kvworker =
  kw_cust :: customer
  recv_kvs :: "int \<rightharpoonup> kvpairs list"
  callbacks :: "int \<rightharpoonup> callback"
  key_log :: int
  key_size :: "key \<rightharpoonup> int"
  vbuf :: "nat \<Rightarrow> val list"
  lbuf :: "nat \<Rightarrow> int list"
  called :: "nat list"
  perf_calls :: "fl list list"

definition KVWorker :: "postoffice \<Rightarrow> int \<Rightarrow> int \<Rightarrow> handle \<Rightarrow> (kvworker \<times> postoffice) res" where
  "KVWorker po aid cid h = rmap (\<lambda>(c, po). (\<lparr>kw_cust = c, recv_kvs = Map.empty, callbacks = Map.empty,
     key_log = - 1, key_size = Map.empty, vbuf = (\<lambda>_. []), lbuf = (\<lambda>_. []), called = [],
     perf_calls = []\<rparr>, po)) (Customer po aid cid h)"

definition AddCallback :: "int \<Rightarrow> callback \<Rightarrow> kvworker \<Rightarrow> kvworker" where
  "AddCallback ts cb w = w\<lparr>callbacks := (callbacks w)(ts \<mapsto> cb)\<rparr>"

definition call_user :: "nat option \<Rightarrow> kvworker \<Rightarrow> kvworker" where
  "call_user cb w = (case cb of None \<Rightarrow> w | Some f \<Rightarrow> w\<lparr>called := called w @ [f]\<rparr>)"

text \<open>\<open>memcpy\<close> of consecutive chunks over a buffer, which has to hold them.\<close>

definition fill :: "'a list list \<Rightarrow> 'a list \<Rightarrow> 'a list res" where
  "fill chunks b = (if length (concat chunks) \<le> length b
     then Inr (concat chunks @ drop (length (concat chunks)) b) else Inl (Out_of_range ''memcpy''))"

definition push_done :: "int \<Rightarrow> key list \<Rightarrow> nat \<Rightarrow> nat \<Rightarrow> nat option \<Rightarrow> kvworker \<Rightarrow> kvworker res" where
  "push_done ts ks av al cb w =
     rmap (call_user cb)
       (case recv_kvs w ts of
          None \<Rightarrow> Inr w
        | Some kvs \<Rightarrow>
            rcheck (length kvs = 1) ''kvs.size() == 1'' (rcheck (length ks = 1) ''keys.size() == 1''
            (rcheck (length (lbuf w al) = length ks) ''lens.size() == keys.size()''
            (rbind (vec_at (kv_keys (kvs ! 0)) 0) (\<lambda>k0. rcheck (k0 = ks ! 0) ''kv.keys[0] == key''
            (rbind (vec_at (kv_lens (kvs ! 0)) 0) (\<lambda>l0. rcheck (l0 = lbuf w al ! 0) ''kv.lens[0] == len''
            (rcheck (int (length (vbuf w av)) = lbuf w al ! 0 mod 2 ^ 64) ''vals.size() == len''
            (rcheck (int (length (kv_vals (kvs ! 0))) = lbuf w al ! 0 mod 2 ^ 64) ''kv.vals.size() == len''
            (rbind (fill (map kv_vals kvs) (vbuf w av)) (\<lambda>v.
             rmap (\<lambda>l. w\<lparr>vbuf := (vbuf w)(av := v), lbuf := (lbuf w)(al := l),
                         recv_kvs := (recv_kvs w)(ts := None)\<rparr>)
               (fill (map kv_lens kvs) (lbuf w al)))))))))))))"

text \<open>The checks of a pulled part.\<close>

definition pull_check :: "key list \<Rightarrow> bool \<Rightarrow> kvpairs \<Rightarrow> unit res" where
  "pull_check ks with_lens p =
     rcheck (kv_keys p \<noteq> []) ''!empty()''
     (rcheck (case FindRange ks (hd (kv_keys p)) (last (kv_keys p) + 1) of (b, e) \<Rightarrow>
                e - b = length (kv_keys p)) ''unmatched keys size from one server''
     (rcheck (with_lens \<longrightarrow> length (kv_lens p) = length (kv_keys p)) ''s.lens.size() == s.keys.size()'' (Inr ())))"

definition resized :: "'a \<Rightarrow> nat \<Rightarrow> string \<Rightarrow> 'a list \<Rightarrow> 'a list res" where
  "resized z n what b = (if b = [] then Inr (replicate n z) else rcheck (length b = n) what (Inr b))"

text \<open>
  The parts are sorted by their first keys. Parts of different servers have different first keys,
  so that the order among equal ones, which \<open>std::sort\<close> leaves open, does not matter.
\<close>

definition pull_done ::
  "int \<Rightarrow> key list \<Rightarrow> nat \<Rightarrow> nat option \<Rightarrow> nat option \<Rightarrow> kvworker \<Rightarrow> kvworker res" where
  "pull_done ts ks av al cb w =
     (let kvs = (case recv_kvs w ts of None \<Rightarrow> [] | Some kvs \<Rightarrow> kvs);
          total_key = sum_list (map (length \<circ> kv_keys) kvs);
          total_val = sum_list (map (length \<circ> kv_vals) kvs);
          sorted_kvs = sort_key (\<lambda>p. hd (kv_keys p)) kvs
      in
      rbind (rmap_list (pull_check ks (al \<noteq> None)) kvs) (\<lambda>_.
      rcheck (total_key = length ks) ''lost some servers?''
      (rbind (resized 0 total_val ''vals->size() == total_val'' (vbuf w av)) (\<lambda>vb.
       rbind (fill (map kv_vals sorted_kvs) vb) (\<lambda>v.
       rbind (case al of
                None \<Rightarrow> Inr (lbuf w)
              | Some a \<Rightarrow> rbind (resized 0 (length ks) ''lens->size() == keys.size()'' (lbuf w a)) (\<lambda>lb.
                  rmap (\<lambda>l. (lbuf w)(a := l)) (fill (map kv_lens sorted_kvs) lb))) (\<lambda>lb.
       Inr (call_user cb (w\<lparr>vbuf := (vbuf w)(av := v), lbuf := lb, recv_kvs := (recv_kvs w)(ts := None)\<rparr>))))))))"

fun run_closure :: "int \<Rightarrow> callback \<Rightarrow> kvworker \<Rightarrow> kvworker res" where
  "run_closure ts (Push_callback ks av al cb) w = push_done ts ks av al cb w"
| "run_closure ts (Pull_callback ks av al cb) w = pull_done ts ks av al cb w"

definition RunCallback :: "int \<Rightarrow> kvworker \<Rightarrow> kvworker res" where
  "RunCallback ts w = (case callbacks w ts of
       None \<Rightarrow> Inr w
     | Some cb \<Rightarrow> rmap (\<lambda>w. w\<lparr>callbacks := (callbacks w)(ts := None)\<rparr>) (run_closure ts cb w))"

text \<open>One server's part of a request. \<open>kvs\<close> is the whole list, whose first key the message names.\<close>

definition part_msg ::
  "int \<Rightarrow> bool \<Rightarrow> int \<Rightarrow> key list \<Rightarrow> int \<Rightarrow> nat \<Rightarrow> kvpairs \<Rightarrow> kvworker \<Rightarrow> nstate \<Rightarrow> message res" where
  "part_msg ts pushing cmd all_keys key_version i p w s =
     rbind (vec_at all_keys 0) (\<lambda>k0.
       add_kvs p (upd_meta (\<lambda>m. m\<lparr>app_id := cu_app_id (kw_cust w), customer_id := cu_customer_id (kw_cust w),
         request := True, push := pushing, head := cmd, timestamp := ts,
         tree := [if key_version \<noteq> key_log w then 0 else 1], recver := ServerRankToID (int i), version := int i,
         iters := (if my_id s = 9 then key_version - 1 else key_version), sender := my_id s, sender_o := my_id s,
         key_data := k0\<rparr>) Message))"

definition send_part ::
  "int \<Rightarrow> bool \<Rightarrow> int \<Rightarrow> key list \<Rightarrow> int \<Rightarrow> nat \<times> bool \<times> kvpairs \<Rightarrow> kvworker \<times> nstate \<Rightarrow> (kvworker \<times> nstate) res" where
  "send_part ts pushing cmd all_keys key_version ip ws =
     (case ip of (i, flag, p) \<Rightarrow> case ws of (w, s) \<Rightarrow>
        if \<not> flag then Inr (w, s)
        else rbind (part_msg ts pushing cmd all_keys key_version i p w s) (\<lambda>msg.
          let w = w\<lparr>key_log := key_version\<rparr>
          in rbind (if length (data msg) > 1
                    then rbind (vec_at (kv_keys p) 0) (\<lambda>k.
                      Inr (if kv_lens p = [] then w else w\<lparr>key_size := (key_size w)(k \<mapsto> hd (kv_lens p))\<rparr>,
                           upd_vs (\<lambda>v. v\<lparr>key_timestamp := (key_timestamp v)(k := ts)\<rparr>) s))
                    else Inr (w, s)) (\<lambda>(w, s).
               rmap (\<lambda>s. (w, s)) (send_only msg s))))"

type_synonym slicer = "kvpairs \<Rightarrow> krange list \<Rightarrow> (bool \<times> kvpairs) list res"

definition worker_Send ::
  "slicer \<Rightarrow> int \<Rightarrow> bool \<Rightarrow> int \<Rightarrow> kvpairs \<Rightarrow> int \<Rightarrow> kvworker \<Rightarrow> nstate \<Rightarrow> (kvworker \<times> nstate) res" where
  "worker_Send slicer ts pushing cmd kvs key_version w s =
     (case GetServerKeyRanges (npo s) of (ranges, po) \<Rightarrow>
      rbind (slicer kvs ranges) (\<lambda>sliced.
      let skipped = length (filter (\<lambda>x. \<not> fst x) sliced) in
      rbind (AddResponse ts (int skipped) (kw_cust w)) (\<lambda>c.
      rbind (if skipped = length sliced then RunCallback ts (w\<lparr>kw_cust := c\<rparr>) else Inr (w\<lparr>kw_cust := c\<rparr>)) (\<lambda>w.
      rfold (send_part ts pushing cmd (kv_keys kvs) key_version) (enumerate 0 sliced) (w, s\<lparr>npo := po\<rparr>)))))"

text \<open>The pushed arrays are buffers of the store; their contents go into the messages.\<close>

definition ZPush ::
  "slicer \<Rightarrow> key list \<Rightarrow> nat \<Rightarrow> nat \<Rightarrow> int \<Rightarrow> nat option \<Rightarrow> int \<Rightarrow> kvworker \<Rightarrow> nstate \<Rightarrow> (int \<times> kvworker \<times> nstate) res" where
  "ZPush slicer ks av al cmd cb key_version w s =
     rbind (NewRequest (npo s) kServerGroup (kw_cust w)) (\<lambda>(ts, c).
     rmap (\<lambda>ws. (ts, ws))
       (worker_Send slicer ts True cmd \<lparr>kv_keys = ks, kv_vals = vbuf w av, kv_lens = lbuf w al\<rparr> key_version
          (AddCallback ts (Push_callback ks av al cb) (w\<lparr>kw_cust := c\<rparr>)) s))"

definition Pull_impl ::
  "slicer \<Rightarrow> key list \<Rightarrow> nat \<Rightarrow> nat option \<Rightarrow> int \<Rightarrow> nat option \<Rightarrow> kvworker \<Rightarrow> nstate \<Rightarrow> (int \<times> kvworker \<times> nstate) res" where
  "Pull_impl slicer ks av al cmd cb w s =
     rbind (NewRequest (npo s) kServerGroup (kw_cust w)) (\<lambda>(ts, c).
     rmap (\<lambda>ws. (ts, ws))
       (worker_Send slicer ts False cmd \<lparr>kv_keys = ks, kv_vals = [], kv_lens = []\<rparr> 0
          (AddCallback ts (Pull_callback ks av al cb) (w\<lparr>kw_cust := c\<rparr>)) s))"

text \<open>The lists a message carries; a server checks their number and sizes.\<close>

definition received_kvs :: "bool \<Rightarrow> blob list \<Rightarrow> kvpairs res" where
  "received_kvs exact ds =
     (if ds = [] then Inr KVPairs
      else rcheck (length ds \<ge> 2) ''msg.data.size() >= 2''
        (rbind (as_keys (ds ! 0)) (\<lambda>ks. rbind (as_vals (ds ! 1)) (\<lambda>vs.
           if length ds > 2
           then rcheck (exact \<longrightarrow> length ds = 3) ''n == 3'' (rbind (as_lens (ds ! 2)) (\<lambda>ls.
                  rcheck (exact \<longrightarrow> length ls = length ks) ''data.lens.size() == data.keys.size()''
                    (Inr \<lparr>kv_keys = ks, kv_vals = vs, kv_lens = ls\<rparr>)))
           else Inr \<lparr>kv_keys = ks, kv_vals = vs, kv_lens = []\<rparr>))))"

definition worker_Process ::
  "(kvworker \<times> nstate) simple_handle \<Rightarrow> (kvworker \<times> nstate) simple_handle \<Rightarrow> message \<Rightarrow> kvworker \<times> nstate \<Rightarrow>
   (kvworker \<times> nstate) res" where
  "worker_Process req_h resp_h msg ws =
     (if simple_app (meta msg) then simple_Process req_h resp_h msg ws
      else case ws of (w, s) \<Rightarrow>
        rbind (if data msg = [] then Inr (timestamp (meta msg), w)
               else rbind (received_kvs False (data msg)) (\<lambda>kvs.
                 rbind (vec_at (kv_keys kvs) 0) (\<lambda>k0.
                 let ts = key_timestamp (vsd s) k0 in
                 Inr (ts, w\<lparr>recv_kvs := (recv_kvs w)(ts \<mapsto>
                        (case recv_kvs w ts of None \<Rightarrow> [] | Some l \<Rightarrow> l) @ [kvs])\<rparr>)))) (\<lambda>(ts, w).
        rbind (NumResponse (kw_cust w) ts) (\<lambda>n.
          if n = num_servers (npo s) - 1 then rmap (\<lambda>w. (w, s)) (RunCallback ts w) else Inr (w, s))))"

text \<open>\<open>TopoUpdate\<close>: the request, and what follows the loop that waits for the flag.\<close>

definition TopoUpdate_request :: "nstate \<Rightarrow> nstate res" where
  "TopoUpdate_request s = send_only (upd_meta (\<lambda>m. (set_cmd ROUTE_RELEASE m)\<lparr>sender := my_id s,
     sender_o := my_id s, recver := 1\<rparr>) Message) s"

definition TopoUpdate_finish :: "kvworker \<Rightarrow> nstate \<Rightarrow> (kvworker \<times> nstate) option" where
  "TopoUpdate_finish w s =
     (if \<not> perf_update_flag (vrt s) then None
      else let s = upd_vr (\<lambda>v. v\<lparr>perf_update_flag := False\<rparr>) s in
        if init_flag (vrt s) then Some (w, s)
        else Some (w\<lparr>perf_calls := perf_calls w @ [vperf (vrt s)]\<rparr>, upd_vr (\<lambda>v. v\<lparr>init_flag := True\<rparr>) s))"

section \<open>Servers\<close>

text \<open>\<open>tree\<close> of a \<open>KVMeta\<close> stays uninitialised when the message has no tree.\<close>

record kvmeta =
  km_cmd :: int
  km_push :: bool
  km_sender :: int
  km_timestamp :: int
  km_customer_id :: int
  km_version :: int
  km_num_merge :: int
  km_tree :: "int option"

record kvserver =
  ks_cust :: customer
  ks_parents :: "int list"
  ks_sons :: "int list list"
  ks_iters :: int

type_synonym 'a req_handle = "kvmeta \<Rightarrow> kvpairs \<Rightarrow> kvserver \<times> nstate \<times> 'a \<Rightarrow> (kvserver \<times> nstate \<times> 'a) res"

definition KVServer :: "postoffice \<Rightarrow> int \<Rightarrow> handle \<Rightarrow> (kvserver \<times> postoffice) res" where
  "KVServer po aid h = rmap (\<lambda>(c, po). (\<lparr>ks_cust = c, ks_parents = [], ks_sons = [], ks_iters = 0\<rparr>, po))
     (Customer po aid aid h)"

definition server_RelationUpdate :: "kvserver \<Rightarrow> nstate \<Rightarrow> kvserver \<times> nstate" where
  "server_RelationUpdate srv s =
     (if init_flag (vrt s) then (srv, s)
      else (srv\<lparr>ks_parents := vparents (vrt s), ks_sons := vsons (vrt s)\<rparr>, upd_vr (\<lambda>v. v\<lparr>init_flag := True\<rparr>) s))"

definition kvmeta_of :: "message \<Rightarrow> kvmeta" where
  "kvmeta_of msg = \<lparr>km_cmd = head (meta msg), km_push = push (meta msg), km_sender = sender_o (meta msg),
     km_timestamp = timestamp (meta msg), km_customer_id = customer_id (meta msg), km_version = version (meta msg),
     km_num_merge = iters (meta msg),
     km_tree = (case tree (meta msg) of [] \<Rightarrow> None | t # _ \<Rightarrow> Some t)\<rparr>"

definition server_Process ::
  "'a req_handle \<Rightarrow> (kvserver \<times> nstate \<times> 'a) simple_handle \<Rightarrow> (kvserver \<times> nstate \<times> 'a) simple_handle \<Rightarrow>
   message \<Rightarrow> kvserver \<times> nstate \<times> 'a \<Rightarrow> (kvserver \<times> nstate \<times> 'a) res" where
  "server_Process h req_h resp_h msg sa =
     (case sa of (srv, s, a) \<Rightarrow>
      let (srv, s) = (if iters (meta msg) \<noteq> ks_iters srv \<and> \<not> init_flag (vrt s)
                      then server_RelationUpdate (srv\<lparr>ks_iters := iters (meta msg)\<rparr>) (RelationUpdate s)
                      else (srv, s))
      in if simple_app (meta msg) then simple_Process req_h resp_h msg (srv, s, a)
         else rbind (received_kvs True (data msg)) (\<lambda>kvs. h (kvmeta_of msg) kvs (srv, s, a)))"

definition back_timestamp :: "kvmeta \<Rightarrow> int" where
  "back_timestamp req = (if km_sender req = 9 then km_timestamp req - 1 else km_timestamp req)"

definition server_Push :: "kvmeta \<Rightarrow> kvpairs \<Rightarrow> kvserver \<Rightarrow> nstate \<Rightarrow> nstate res" where
  "server_Push req res srv s =
     rbind (vec_at (ks_parents srv) (km_version req)) (\<lambda>parent.
     case km_tree req of
       None \<Rightarrow> Inl (Undefined ''uninitialised tree'')
     | Some t \<Rightarrow> rbind (add_kvs res (upd_meta (\<lambda>m. m\<lparr>app_id := cu_app_id (ks_cust srv),
           customer_id := km_customer_id req, request := True, push := km_push req, head := km_cmd req,
           timestamp := back_timestamp req, recver := parent, iters := km_num_merge req, version := km_version req,
           sender := my_id s, sender_o := my_id s, tree := [t]\<rparr>) Message)) (\<lambda>msg. van_Push msg s))"

definition server_Response :: "kvmeta \<Rightarrow> kvpairs \<Rightarrow> kvserver \<Rightarrow> nstate \<Rightarrow> nstate res" where
  "server_Response req res srv s =
     rbind (add_kvs res (upd_meta (\<lambda>m. m\<lparr>app_id := cu_app_id (ks_cust srv), customer_id := km_customer_id req,
       request := False, push := km_push req, head := km_cmd req, timestamp := km_timestamp req,
       recver := km_sender req, sender := my_id s, sender_o := my_id s\<rparr>) Message)) (\<lambda>msg. van_Push msg s)"

definition ResponseAll :: "kvmeta \<Rightarrow> kvpairs \<Rightarrow> kvserver \<Rightarrow> nstate \<Rightarrow> nstate res" where
  "ResponseAll req res srv s =
     rbind (vec_at (ks_sons srv) ((my_id s - 8) sdiv 2)) (\<lambda>ss.
       rfold (\<lambda>son s.
         rbind (vec_at (kv_keys res) 0) (\<lambda>k0.
         rbind (add_kvs res (upd_meta (\<lambda>m. m\<lparr>app_id := cu_app_id (ks_cust srv), customer_id := km_customer_id req,
           request := False, push := km_push req, head := km_cmd req, timestamp := back_timestamp req,
           recver := son, sender := my_id s, sender_o := my_id s, key_data := k0, tree := [- 1]\<rparr>) Message))
           (\<lambda>msg. van_Push msg s))) ss s)"

section \<open>The example handle\<close>

fun default_handle_loop :: "bool \<Rightarrow> (key \<times> val) list \<Rightarrow> (key \<rightharpoonup> val) \<Rightarrow> val list \<times> (key \<rightharpoonup> val)" where
  "default_handle_loop pushing [] store = ([], store)"
| "default_handle_loop pushing ((k, v) # kvs) store =
     (let old = (case store k of None \<Rightarrow> 0 | Some x \<Rightarrow> x);
          (vs, store') = default_handle_loop pushing kvs (store(k \<mapsto> if pushing then old + v else old))
      in (old # vs, store'))"

definition KVServerDefaultHandle :: "(key \<rightharpoonup> val) req_handle" where
  "KVServerDefaultHandle req dat sa =
     (case sa of (srv, s, store) \<Rightarrow>
      rcheck (km_push req \<longrightarrow> length (kv_keys dat) = length (kv_vals dat)) ''n == req_data.vals.size()''
      (let (olds, store') = default_handle_loop (km_push req)
             (zip (kv_keys dat) (if km_push req then kv_vals dat else replicate (length (kv_keys dat)) 0)) store;
           res = (if km_push req then KVPairs else \<lparr>kv_keys = kv_keys dat, kv_vals = olds, kv_lens = []\<rparr>)
       in rmap (\<lambda>s. (srv, s, store')) (server_Response req res srv s)))"

section \<open>Arrays round trip\<close>

definition arrays :: "kvpairs \<Rightarrow> blob list" where
  "arrays p = (if kv_keys p = [] then []
     else [Keys (kv_keys p), Vals (kv_vals p)] @ (if kv_lens p = [] then [] else [Lens (kv_lens p)]))"

lemma add_kvs_arrays:
  assumes "data msg = []" "data_types (meta msg) = []"
  shows "add_kvs p msg = Inr \<lparr>meta = (meta msg)\<lparr>data_types := map GetDataType (arrays p)\<rparr>, data = arrays p\<rparr>"
  using assms by (cases msg) (auto simp: add_kvs_def arrays_def AddData_def)

lemma received_arrays:
  assumes "kv_keys p \<noteq> []" "exact \<longrightarrow> kv_lens p \<noteq> [] \<longrightarrow> length (kv_lens p) = length (kv_keys p)"
  shows "received_kvs exact (arrays p) = Inr p"
  using assms by (cases p) (auto simp: received_kvs_def arrays_def)

section \<open>A request reaches every server that has keys\<close>

definition sendable :: "nstate \<Rightarrow> bool" where
  "sendable s \<longleftrightarrow> is_worker (npo s) \<and> vresender s = None \<and> my_id s - 1 \<in> set (vsenders (vnt s)) \<and> my_id s - 1 \<noteq> kEmpty"

definition part_of :: "int \<Rightarrow> bool \<Rightarrow> nat \<times> bool \<times> kvpairs \<Rightarrow> message \<Rightarrow> bool" where
  "part_of ts pushing x msg \<longleftrightarrow> dst (meta msg) = ServerRankToID (int (fst x)) \<and> data msg = arrays (snd (snd x)) \<and>
     timestamp (meta msg) = ts \<and> push (meta msg) = pushing \<and> request (meta msg) \<and> cmd_of msg = REPLY1 \<and>
     version (meta msg) = int (fst x)"

lemma send_part_sent:
  assumes "sendable s" "fst (snd x)" "kv_keys (snd (snd x)) \<noteq> []" "all_keys \<noteq> []"
  shows "\<exists>w' s' m. send_part ts pushing cmd all_keys v x (w, s) = Inr (w', s') \<and> sendable s' \<and>
    outbox s' = outbox s @ [m] \<and> part_of ts pushing x m \<and> kw_cust w' = kw_cust w"
proof -
  obtain i p where x: "x = (i, True, p)" using assms(2) by (cases x) auto
  obtain k0 ks where ks: "all_keys = k0 # ks" using assms(4) by (cases all_keys) auto
  have len: "length (arrays p) > 1" using assms(3) x by (simp add: arrays_def)
  show ?thesis
    using assms(1,3) len unfolding x ks
    by (auto simp: send_part_def part_msg_def add_kvs_arrays Message_def Meta_def Control_def upd_meta_def
        vec_at_def Let_def send_only_def Send_def Add_trace_def set_cmd_def sendable_def van_SendMsg_def
        add_outgoing_def part_of_def ServerRankToID_def hd_conv_nth)
qed

end
