(* ===== verification/MX_Ndarray.thy ===== *)
theory MX_Ndarray
  imports NS_Message "HOL-Library.AList"
begin

text \<open>
  Arrays (\<open>NDArray\<close>, \<open>src/ndarray/ndarray.cc\<close>) as the key-value store uses them: element type,
  shape and, for a dense array, the bytes of its memory, which a new array leaves uninitialised, for a
  row-sparse array its rows with their indices. Copies between the two storage types are not modelled. A variable that may hold no array
  (\<open>is_none()\<close>) is an option. The arithmetic on the elements and the conversions between element
  types are those of the tensor library the sources call, so they are parameters. The
  operations are executed by the engine in program order on each array, hence here at once; all
  arrays are on the CPU.
\<close>

section \<open>Element types\<close>

type_synonym bytes = "8 word list"

definition kFloat32 :: int where "kFloat32 = 0"
definition kFloat64 :: int where "kFloat64 = 1"
definition kFloat16 :: int where "kFloat16 = 2"

text \<open>The sizes of the element types, in the order of their numbers.\<close>

definition type_sizes :: "nat list" where
  "type_sizes = [4, 8, 2, 1, 4, 1, 8, 1, 2, 2, 4, 8, 2]"

definition mshadow_sizeof :: "int \<Rightarrow> nat res" where
  "mshadow_sizeof t = (if 0 \<le> t \<and> nat t < length type_sizes then Inr (type_sizes ! nat t)
     else Inl (Check_failed ''Unknown type enum''))"

definition real_type :: "int \<Rightarrow> bool" where
  "real_type t \<longleftrightarrow> t = kFloat32 \<or> t = kFloat64 \<or> t = kFloat16"

record ndops =
  op_plus :: "int \<Rightarrow> bytes \<Rightarrow> bytes \<Rightarrow> bytes"
  op_cast :: "int \<Rightarrow> int \<Rightarrow> bytes \<Rightarrow> bytes"

section \<open>Arrays\<close>

record ndarray =
  nd_dtype :: int
  nd_shape :: "int list"
  nd_data :: "bytes option"
  nd_rows :: "(int \<times> bytes) list option"   \<comment> \<open>present for row-sparse storage\<close>

type_synonym nda = "ndarray option"

definition shape_size :: "int list \<Rightarrow> int" where
  "shape_size sh = prod_list sh"

definition nd_alloc :: "int list \<Rightarrow> int \<Rightarrow> ndarray" where
  "nd_alloc sh t = \<lparr>nd_dtype = t, nd_shape = sh, nd_data = None, nd_rows = None\<rparr>"

definition nd_alloc_rsp :: "int list \<Rightarrow> int \<Rightarrow> ndarray" where
  "nd_alloc_rsp sh t = \<lparr>nd_dtype = t, nd_shape = sh, nd_data = None, nd_rows = Some []\<rparr>"

text \<open>An array over received bytes: a flat array of whole elements.\<close>

definition nd_received :: "int \<Rightarrow> bytes \<Rightarrow> int \<Rightarrow> ndarray res" where
  "nd_received t bs len =
     rbind (mshadow_sizeof t) (\<lambda>sz. rcheck (real_type t) ''This operation only support floating point types''
       (let n = len mod 2 ^ 64 div int sz in
        Inr \<lparr>nd_dtype = t, nd_shape = [n], nd_data = Some (take (nat n * sz) bs), nd_rows = None\<rparr>))"

definition cast_bytes :: "ndops \<Rightarrow> int \<Rightarrow> int \<Rightarrow> bytes \<Rightarrow> bytes" where
  "cast_bytes ops t t' bs = (if t = t' then bs else op_cast ops t t' bs)"

definition CopyFromTo :: "ndops \<Rightarrow> nda \<Rightarrow> nda \<Rightarrow> nda res" where
  "CopyFromTo ops from to1 = (case (from, to1) of
       (Some a, Some b) \<Rightarrow>
         rcheck (nd_shape a = nd_shape b) ''operands shape mismatch''
         (rcheck (\<forall>d \<in> set (nd_shape a). 0 \<le> d) ''source operands have undefined shape''
           (if shape_size (nd_shape a) = 0 then Inr (Some b)
            else case (nd_rows a, nd_rows b) of
              (None, None) \<Rightarrow>
                Inr (Some (b\<lparr>nd_data := map_option (cast_bytes ops (nd_dtype a) (nd_dtype b)) (nd_data a)\<rparr>))
            | (Some rs, Some _) \<Rightarrow>
                Inr (Some (b\<lparr>nd_rows := Some (map (\<lambda>(i, r). (i, cast_bytes ops (nd_dtype a) (nd_dtype b) r)) rs)\<rparr>))
            | _ \<Rightarrow> Inl (Undefined ''copy between storage types'')))
     | _ \<Rightarrow> Inl (Undefined ''copy of no array''))"

text \<open>\<open>operator+=\<close>.\<close>

definition nd_iadd :: "ndops \<Rightarrow> nda \<Rightarrow> nda \<Rightarrow> nda res" where
  "nd_iadd ops x0 y0 = (case (x0, y0) of
       (Some a, Some b) \<Rightarrow>
         rcheck (nd_shape a = nd_shape b) ''target shape mismatch''
           (Inr (Some (a\<lparr>nd_data := (case (nd_data a, nd_data b) of
                (Some x, Some y) \<Rightarrow> Some (op_plus ops (nd_dtype a) x y) | _ \<Rightarrow> None)\<rparr>)))
     | _ \<Rightarrow> Inl (Undefined ''addition of no array''))"

text \<open>
  The sum of row-sparse arrays with ascending indices (\<open>RspRspOp\<close> of
  \<open>src/operator/tensor/elemwise_binary_op-inl.h\<close>): common rows are added, the others are added to a
  row of zeros.
\<close>

definition zero_row :: "bytes \<Rightarrow> bytes" where
  "zero_row r = replicate (length r) 0"

fun rsp_plus :: "ndops \<Rightarrow> int \<Rightarrow> (int \<times> bytes) list \<Rightarrow> (int \<times> bytes) list \<Rightarrow> (int \<times> bytes) list" where
  "rsp_plus ops t [] rs = map (\<lambda>(i, r). (i, op_plus ops t (zero_row r) r)) rs"
| "rsp_plus ops t ls [] = map (\<lambda>(i, r). (i, op_plus ops t r (zero_row r))) ls"
| "rsp_plus ops t ((i, l) # ls) ((j, r) # rs) =
     (if i = j then (i, op_plus ops t l r) # rsp_plus ops t ls rs
      else if i < j then (i, op_plus ops t l (zero_row l)) # rsp_plus ops t ls ((j, r) # rs)
      else (j, op_plus ops t (zero_row r) r) # rsp_plus ops t ((i, l) # ls) rs)"

text \<open>The bytes of an array, as they are put into a message: as many as its shape says.\<close>

definition nd_bytes :: "nda \<Rightarrow> bytes res" where
  "nd_bytes a = (case a of
       None \<Rightarrow> Inl (Undefined ''no array'')
     | Some x \<Rightarrow> (case nd_rows x of
         None \<Rightarrow> (case nd_data x of Some b \<Rightarrow> Inr b | None \<Rightarrow> Inl (Undefined ''uninitialised memory''))
       | Some rs \<Rightarrow> rbind (mshadow_sizeof (nd_dtype x)) (\<lambda>sz.
           let n = nat (shape_size (nd_shape x)) * sz; bs = concat (map snd rs) in
           if n \<le> length bs then Inr (take n bs) else Inl (Out_of_range ''array data''))))"

text \<open>Consecutive rows of \<open>unit\<close> bytes.\<close>

fun chunks :: "nat \<Rightarrow> nat \<Rightarrow> bytes \<Rightarrow> bytes list" where
  "chunks unit1 0 bs = []"
| "chunks unit1 (Suc n) bs = take unit1 bs # chunks unit1 n (drop unit1 bs)"

lemma CopyFromTo_same:
  assumes "nd_shape a = nd_shape b" "nd_dtype a = nd_dtype b" "\<forall>d \<in> set (nd_shape a). 0 \<le> d"
    and "shape_size (nd_shape a) \<noteq> 0" "nd_rows a = None" "nd_rows b = None"
  shows "CopyFromTo ops (Some a) (Some b) = Inr (Some a)"
proof -
  have "map_option (cast_bytes ops (nd_dtype b) (nd_dtype b)) x = x" for x
    by (cases x) (simp_all add: cast_bytes_def)
  with assms show ?thesis by (simp add: CopyFromTo_def)
qed

lemma nd_iadd_data:
  assumes "nd_shape a = nd_shape b" "nd_data a = Some x" "nd_data b = Some y"
  shows "nd_iadd ops (Some a) (Some b) = Inr (Some (a\<lparr>nd_data := Some (op_plus ops (nd_dtype a) x y)\<rparr>))"
  using assms by (simp add: nd_iadd_def)

lemma nd_bytes_dense: "nd_rows a = None \<Longrightarrow> nd_data a = Some b \<Longrightarrow> nd_bytes (Some a) = Inr b"
  by (simp add: nd_bytes_def)

text \<open>The rows of a sum are the rows of the summands.\<close>

lemma rsp_plus_rows:
  "fst ` set (rsp_plus ops t ls rs) = fst ` set ls \<union> fst ` set rs"
  by (induction ops t ls rs rule: rsp_plus.induct) (auto simp: image_image split_def)

end
