(* ===== verification/MX_Compress.thy ===== *)
theory MX_Compress
  imports NS_Wire
begin

unbundle bit_operations_syntax

text \<open>
  Two-bit gradient compression (\<open>src/kvstore/gradient_compression.cc\<close>, \<open>.h\<close> and \<open>-inl.h\<close>) and
  the string splitting of \<open>src/kvstore/kvstore_local.h\<close>. A compressed array is the list of its
  bytes, four for each block of sixteen values; gradients and residuals are binary32 values. The
  kernels of the blocks touch disjoint parts of the arrays, so that the order in which they run
  does not matter. \<open>std::to_string\<close>, \<open>std::stoi\<close> and \<open>std::stof\<close> are modelled for the decimal
  notation \<open>to_string\<close> produces, with exponents; hexadecimal notation is not accepted.
\<close>

section \<open>Strings\<close>

text \<open>\<open>std::getline\<close> in a loop: a last empty piece is not reported.\<close>

fun split_from :: "string \<Rightarrow> char \<Rightarrow> string \<Rightarrow> string list" where
  "split_from [] delim item = (if item = [] then [] else [item])"
| "split_from (c # cs) delim item =
     (if c = delim then item # split_from cs delim [] else split_from cs delim (item @ [c]))"

definition split :: "string \<Rightarrow> char \<Rightarrow> string list" where
  "split s delim = split_from s delim []"

definition is_digit :: "char \<Rightarrow> bool" where
  "is_digit c \<longleftrightarrow> 48 \<le> (of_char c :: nat) \<and> (of_char c :: nat) \<le> 57"

definition digits_val :: "string \<Rightarrow> nat" where
  "digits_val ds = foldl (\<lambda>a c. a * 10 + (of_char c - 48)) 0 ds"

definition is_space :: "char \<Rightarrow> bool" where
  "is_space c \<longleftrightarrow> c = CHR '' '' \<or> (9 \<le> (of_char c :: nat) \<and> (of_char c :: nat) \<le> 13)"

text \<open>The optional sign, and the rest.\<close>

definition strip_sign :: "string \<Rightarrow> bool \<times> string" where
  "strip_sign s = (case dropWhile is_space s of
       [] \<Rightarrow> (False, [])
     | c # cs \<Rightarrow> if c = CHR ''-'' then (True, cs) else if c = CHR ''+'' then (False, cs) else (False, c # cs))"

definition stoi :: "string \<Rightarrow> int res" where
  "stoi s = (case strip_sign s of (neg, r) \<Rightarrow>
     let ds = takeWhile is_digit r; v = (if neg then - int (digits_val ds) else int (digits_val ds)) in
     if ds = [] then Inl (Check_failed ''stoi: invalid argument'')
     else if cint_in_range v then Inr v else Inl (Out_of_range ''stoi''))"

definition exponent_of :: "string \<Rightarrow> int" where
  "exponent_of s = (case s of
       [] \<Rightarrow> 0
     | c # cs \<Rightarrow> if c = CHR ''e'' \<or> c = CHR ''E'' then
         (case strip_sign cs of (neg, r) \<Rightarrow>
            let v = int (digits_val (takeWhile is_digit r)) in if neg then - v else v)
       else 0)"

definition stof :: "string \<Rightarrow> fl res" where
  "stof s = (case strip_sign s of (neg, r) \<Rightarrow>
     let ip = takeWhile is_digit r; r1 = dropWhile is_digit r;
         fp = (case r1 of c # cs \<Rightarrow> if c = CHR ''.'' then takeWhile is_digit cs else [] | [] \<Rightarrow> []);
         r2 = (case r1 of c # cs \<Rightarrow> if c = CHR ''.'' then dropWhile is_digit cs else r1 | [] \<Rightarrow> []);
         e = exponent_of r2 - int (length fp);
         x = of_nat (digits_val (ip @ fp)) * (if 0 \<le> e then 10 ^ nat e else 1 / 10 ^ nat (- e));
         v = (if neg then - x else x)
     in if r = ''inf'' then Inr (Inf neg) else if r = ''nan'' then Inr NaN
        else if ip = [] \<and> fp = [] then Inl (Check_failed ''stof: invalid argument'')
        else case rnd32 v of Inf _ \<Rightarrow> Inl (Out_of_range ''stof'') | y \<Rightarrow> Inr y)"

text \<open>\<open>std::to_string(float)\<close>: six decimals, correctly rounded.\<close>

fun pad_digits :: "nat \<Rightarrow> nat \<Rightarrow> string" where
  "pad_digits 0 m = []"
| "pad_digits (Suc k) m = pad_digits k (m div 10) @ [char_of (48 + m mod 10)]"

definition micros :: "rat \<Rightarrow> nat" where
  "micros a = nat (round_half_even (\<bar>a\<bar> * 10 ^ 6))"

fun fl_to_string :: "fl \<Rightarrow> string" where
  "fl_to_string (Fin a) = (if a < 0 then ''-'' else []) @ digits (micros a div 10 ^ 6) @ ''.'' @ pad_digits 6 (micros a)"
| "fl_to_string (Inf s) = (if s then ''-inf'' else ''inf'')"
| "fl_to_string NaN = ''nan''"

section \<open>Parameters\<close>

datatype compression_type = kNone | kTwoBit

record gcomp =
  gc_type :: compression_type
  gc_threshold :: fl

definition GradientCompression :: gcomp where
  "GradientCompression = \<lparr>gc_type = kNone, gc_threshold = Fin 0\<rparr>"

definition SetTwoBitCompression :: "fl \<Rightarrow> gcomp \<Rightarrow> gcomp" where
  "SetTwoBitCompression t g = g\<lparr>gc_type := kTwoBit, gc_threshold := t\<rparr>"

text \<open>The arguments are the fields of the parameter structure, read from the keyword arguments.\<close>

definition SetParams :: "string \<Rightarrow> fl \<Rightarrow> gcomp \<Rightarrow> gcomp res" where
  "SetParams ty threshold g =
     rcheck (fl_less (Fin 0) threshold) ''threshold must be greater than 0''
       (if ty = ''2bit'' then Inr (SetTwoBitCompression threshold g)
        else Inl (Check_failed ''Unknown type for gradient compression''))"

fun type_number :: "compression_type \<Rightarrow> nat" where
  "type_number kNone = 0"
| "type_number kTwoBit = 1"

definition get_type_str :: "gcomp \<Rightarrow> string" where
  "get_type_str g = digits (type_number (gc_type g))"

definition EncodeParams :: "gcomp \<Rightarrow> string" where
  "EncodeParams g = get_type_str g @ (if gc_type g = kTwoBit then '','' @ fl_to_string (gc_threshold g) else [])"

text \<open>An enumeration value that has no name is not a value of the type here.\<close>

definition DecodeParams :: "string \<Rightarrow> gcomp \<Rightarrow> gcomp res" where
  "DecodeParams s g =
     (let elems = split s (CHR '','') in
      rbind (vec_at elems 0) (\<lambda>e0. rbind (stoi e0) (\<lambda>n.
      rbind (if n = 0 then Inr kNone else if n = 1 then Inr kTwoBit else Inl (Undefined ''CompressionType'')) (\<lambda>ty.
        if length elems > 1 \<and> elems ! 1 \<noteq> []
        then rmap (\<lambda>t. g\<lparr>gc_type := ty, gc_threshold := t\<rparr>) (stof (elems ! 1))
        else Inr (g\<lparr>gc_type := ty\<rparr>)))))"

definition GetCompressionFactor :: "gcomp \<Rightarrow> int res" where
  "GetCompressionFactor g = (if gc_type g = kTwoBit then Inr 16 else Inl (Check_failed ''Unsupported compression type''))"

definition GetCompressedSize :: "gcomp \<Rightarrow> int \<Rightarrow> int res" where
  "GetCompressedSize g original_size = rbind (GetCompressionFactor g) (\<lambda>bits.
     Inr (if original_size smod bits = 0 then original_size sdiv bits else original_size sdiv bits + 1))"

section \<open>Kernels\<close>

type_synonym byte = "8 word"

definition posbits :: "byte list" where
  "posbits = [0xc0, 0x30, 0x0c, 0x03]"

definition negbits :: "byte list" where
  "negbits = [0x80, 0x20, 0x08, 0x02]"

definition fl_ge :: "fl \<Rightarrow> fl \<Rightarrow> bool" where
  "fl_ge x y \<longleftrightarrow> fl_less y x \<or> fl_eq x y"

text \<open>One value of a block: the state is the block's bytes and the residual array.\<close>

definition quantize_step :: "fl \<Rightarrow> fl \<Rightarrow> fl list \<Rightarrow> nat \<Rightarrow> nat \<Rightarrow> byte list \<times> fl list \<Rightarrow> byte list \<times> fl list" where
  "quantize_step neg_threshold pos_threshold grad start i st =
     (case st of (blk, residual) \<Rightarrow>
      let curr = drop_bit 2 (i - start); r = f32_add (residual ! i) (grad ! i) in
      if fl_ge r pos_threshold
      then (blk[curr := blk ! curr OR posbits ! (i AND 3)], residual[i := f32_sub r pos_threshold])
      else if fl_ge neg_threshold r
      then (blk[curr := blk ! curr OR negbits ! (i AND 3)], residual[i := f32_sub r neg_threshold])
      else (blk, residual[i := r]))"

definition quantize_2bit :: "nat \<Rightarrow> nat \<Rightarrow> fl list \<Rightarrow> fl \<Rightarrow> fl \<Rightarrow> fl list \<Rightarrow> byte list \<times> fl list" where
  "quantize_2bit out_block_id original_size grad neg_threshold pos_threshold residual =
     (let start = push_bit 4 out_block_id;
          end1 = (if start + 16 \<le> original_size then start + 16 else original_size)
      in fold (quantize_step neg_threshold pos_threshold grad start) [start..<end1] ([0, 0, 0, 0], residual))"

definition quantize_block :: "fl list \<Rightarrow> fl \<Rightarrow> nat \<Rightarrow> byte list \<times> fl list \<Rightarrow> byte list \<times> fl list" where
  "quantize_block grad threshold b st =
     (case st of (out, residual) \<Rightarrow>
      case quantize_2bit b (length grad) grad (f32_mul (Fin (- 1)) threshold) threshold residual of
        (blk, residual') \<Rightarrow> (out @ blk, residual'))"

text \<open>The launch over all blocks of a compressed array of \<open>n\<close> floats.\<close>

definition Quantize2Bit :: "nat \<Rightarrow> fl list \<Rightarrow> fl list \<Rightarrow> fl \<Rightarrow> byte list \<times> fl list" where
  "Quantize2Bit n grad residual threshold = fold (quantize_block grad threshold) [0..<n] ([], residual)"

definition dequantize_2bit :: "nat \<Rightarrow> byte list \<Rightarrow> fl \<Rightarrow> fl \<Rightarrow> fl" where
  "dequantize_2bit i inp neg_threshold pos_threshold =
     (let ch = inp ! (4 * drop_bit 4 i + drop_bit 2 (i AND 15)); col = i AND 3;
          mask = posbits ! col; negmask = negbits ! col; masked = ch AND mask
      in if masked = mask then pos_threshold else if masked = negmask then neg_threshold else Fin 0)"

definition Dequantize2Bit :: "nat \<Rightarrow> byte list \<Rightarrow> fl \<Rightarrow> fl list" where
  "Dequantize2Bit n inp threshold =
     map (\<lambda>i. dequantize_2bit i inp (f32_mul (Fin (- 1)) threshold) threshold) [0..<n]"

text \<open>The operations, on arrays of the CPU with shapes that are not empty.\<close>

definition Quantize :: "gcomp \<Rightarrow> fl list \<Rightarrow> fl list \<Rightarrow> nat \<Rightarrow> (byte list \<times> fl list) res" where
  "Quantize g from residual to_size =
     (if gc_type g = kTwoBit then Inr (Quantize2Bit to_size from residual (gc_threshold g))
      else Inl (Check_failed ''Unsupported quantization''))"

definition Dequantize :: "gcomp \<Rightarrow> byte list \<Rightarrow> nat \<Rightarrow> fl list res" where
  "Dequantize g from to_size =
     (if gc_type g = kTwoBit then Inr (Dequantize2Bit to_size from (gc_threshold g))
      else Inl (Check_failed ''Unsupported dequantization''))"

section \<open>What a value is coded as\<close>

definition sent_of :: "fl \<Rightarrow> fl \<Rightarrow> fl" where
  "sent_of threshold r = (if fl_ge r threshold then threshold
     else if fl_ge (f32_mul (Fin (- 1)) threshold) r then f32_mul (Fin (- 1)) threshold else Fin 0)"

definition kept_of :: "fl \<Rightarrow> fl \<Rightarrow> fl" where
  "kept_of threshold r = (if fl_ge r threshold then f32_sub r threshold
     else if fl_ge (f32_mul (Fin (- 1)) threshold) r then f32_sub r (f32_mul (Fin (- 1)) threshold) else r)"

definition code_of :: "fl \<Rightarrow> fl \<Rightarrow> fl \<Rightarrow> nat \<Rightarrow> byte" where
  "code_of neg pos r c = (if fl_ge r pos then posbits ! c else if fl_ge neg r then negbits ! c else 0)"

lemma idx_simps:
  "drop_bit 2 (n :: nat) = n div 4" "drop_bit 4 (n :: nat) = n div 16" "push_bit 4 (n :: nat) = 16 * n"
  "(n :: nat) AND 3 = n mod 4" "(n :: nat) AND 15 = n mod 16"
  using take_bit_eq_mask [of 2 n] take_bit_eq_mask [of 4 n]
  by (simp_all add: drop_bit_eq_div push_bit_eq_mult take_bit_eq_mod mask_eq_exp_minus_1)

lemma masks_disjoint:
  assumes "c < 4" "d < (4 :: nat)" "c \<noteq> d"
  shows "posbits ! c AND posbits ! d = 0" "negbits ! c AND posbits ! d = 0"
proof -
  have "c \<in> {0, 1, 2, 3}" "d \<in> {0, 1, 2, 3}" using assms by auto
  with assms(3) show "posbits ! c AND posbits ! d = 0" "negbits ! c AND posbits ! d = 0"
    by (auto simp: posbits_def negbits_def)
qed

lemma masks_own:
  assumes "c < (4 :: nat)"
  shows "negbits ! c AND posbits ! c = negbits ! c" "posbits ! c \<noteq> 0" "negbits ! c \<noteq> 0" "posbits ! c \<noteq> negbits ! c"
proof -
  have "c \<in> {0, 1, 2, 3}" using assms by auto
  then show "negbits ! c AND posbits ! c = negbits ! c" "posbits ! c \<noteq> 0" "negbits ! c \<noteq> 0" "posbits ! c \<noteq> negbits ! c"
    by (auto simp: posbits_def negbits_def)
qed

lemma code_of_mask:
  assumes "c < 4" "d < 4"
  shows "code_of neg pos r c AND posbits ! d = (if c = d then code_of neg pos r c else 0)"
  using assms masks_disjoint [OF assms] masks_own [OF assms(1)] by (auto simp: code_of_def)

lemma quantize_step_code:
  assumes "i - start < 16" "length blk = 4"
  shows "quantize_step neg pos grad start i (blk, residual) =
    (let r = f32_add (residual ! i) (grad ! i); b = (i - start) div 4 in
     (blk[b := blk ! b OR code_of neg pos r (i mod 4)],
      residual[i := (if fl_ge r pos then f32_sub r pos else if fl_ge neg r then f32_sub r neg else r)]))"
  using assms by (auto simp: quantize_step_def idx_simps code_of_def Let_def)

definition kept_by :: "fl \<Rightarrow> fl \<Rightarrow> fl \<Rightarrow> fl" where
  "kept_by neg pos r = (if fl_ge r pos then f32_sub r pos else if fl_ge neg r then f32_sub r neg else r)"

text \<open>After the values below \<open>k\<close>, the block holds their codes and the residuals what they keep.\<close>

definition block_inv :: "fl \<Rightarrow> fl \<Rightarrow> fl list \<Rightarrow> fl list \<Rightarrow> nat \<Rightarrow> nat \<Rightarrow> byte list \<times> fl list \<Rightarrow> bool" where
  "block_inv neg pos grad res start k st \<longleftrightarrow> length (fst st) = 4 \<and> length (snd st) = length res \<and>
     (\<forall>q < 16. fst st ! (q div 4) AND posbits ! (q mod 4) =
        (if start + q < k then code_of neg pos (f32_add (res ! (start + q)) (grad ! (start + q))) (q mod 4) else 0)) \<and>
     (\<forall>j < length res. snd st ! j = (if start \<le> j \<and> j < k then kept_by neg pos (f32_add (res ! j) (grad ! j)) else res ! j))"

lemma or_mask: "(b OR (m :: byte)) AND p = (b AND p) OR (m AND p)"
  by (rule bit.conj_disj_distrib2)

lemma code_after_or:
  fixes blk :: "byte list"
  assumes "q < 16" "p < 16" "length blk = 4" "c < 4" "c = p mod 4"
  shows "blk[p div 4 := blk ! (p div 4) OR code_of neg pos r c] ! (q div 4) AND posbits ! (q mod 4) =
    (blk ! (q div 4) AND posbits ! (q mod 4)) OR (if q = p then code_of neg pos r c else 0)"
proof (cases "q div 4 = p div 4")
  case True
  have "q = p \<longleftrightarrow> q mod 4 = p mod 4" using True by (metis div_mult_mod_eq)
  moreover have "p div 4 < length blk" using assms by simp
  ultimately show ?thesis
    using True assms code_of_mask [of c "q mod 4" neg pos r] by (simp add: or_mask)
next
  case False
  then show ?thesis using assms by auto
qed

lemma block_inv_step:
  assumes "block_inv neg pos grad res start k st" "start = 16 * b" "start \<le> k" "k < start + 16" "k < length res"
  shows "block_inv neg pos grad res start (Suc k) (quantize_step neg pos grad start k st)"
proof -
  obtain blk r where st: "st = (blk, r)" by (cases st)
  let ?p = "k - start" and ?v = "f32_add (res ! k) (grad ! k)"
  have len: "length blk = 4" "length r = length res" using assms(1) by (simp_all add: block_inv_def st)
  have p: "?p < 16" using assms(3,4) by linarith
  have rj: "\<forall>j < length res. r ! j = (if start \<le> j \<and> j < k then kept_by neg pos (f32_add (res ! j) (grad ! j)) else res ! j)"
    using assms(1) by (simp add: block_inv_def st)
  have rk: "r ! k = res ! k" using rj assms(5) by simp
  have "k = ?p + 4 * (4 * b)" using assms(2,3) by linarith
  then have km: "k mod 4 = ?p mod 4" by (metis mod_mult_self2)
  have step: "quantize_step neg pos grad start k st =
      (blk[?p div 4 := blk ! (?p div 4) OR code_of neg pos ?v (?p mod 4)], r[k := kept_by neg pos ?v])"
    unfolding st quantize_step_code [OF p len(1)] by (simp add: rk km kept_by_def Let_def)
  have codes: "blk[?p div 4 := blk ! (?p div 4) OR code_of neg pos ?v (?p mod 4)] ! (q div 4) AND posbits ! (q mod 4) =
      (if start + q < Suc k then code_of neg pos (f32_add (res ! (start + q)) (grad ! (start + q))) (q mod 4) else 0)"
    if q: "q < 16" for q
  proof -
    have old: "blk ! (q div 4) AND posbits ! (q mod 4) =
        (if start + q < k then code_of neg pos (f32_add (res ! (start + q)) (grad ! (start + q))) (q mod 4) else 0)"
      using assms(1) q by (auto simp: block_inv_def st)
    have eq: "q = ?p \<longleftrightarrow> start + q = k" using assms(3) by auto
    show ?thesis
      unfolding code_after_or [OF q p len(1), of "?p mod 4", OF mod_less_divisor refl, simplified] old
      using eq by auto
  qed
  have kept: "\<forall>j < length res. r[k := kept_by neg pos ?v] ! j =
      (if start \<le> j \<and> j < Suc k then kept_by neg pos (f32_add (res ! j) (grad ! j)) else res ! j)"
    using rj assms(3,5) len(2) by (auto simp: nth_list_update)
  show ?thesis
    unfolding step block_inv_def using codes kept len by (simp del: nth_list_update)
qed

lemma quantize_2bit_inv:
  assumes "start = 16 * b" "k \<le> start + 16" "k \<le> length res"
  shows "block_inv neg pos grad res start k (fold (quantize_step neg pos grad start) [start..<k] ([0, 0, 0, 0], res))"
  using assms(2,3)
proof (induction k)
  case 0
  have "([0, 0, 0, 0] :: byte list) ! (q div 4) = 0" if "q < 16" for q :: nat
  proof -
    have "q div 4 \<in> {0, 1, 2, 3}" using that by auto
    then show ?thesis by auto
  qed
  then show ?case by (auto simp: block_inv_def)
next
  case (Suc k)
  show ?case
  proof (cases "start \<le> k")
    case True
    with Suc block_inv_step [OF _ assms(1) True, of neg pos grad res] show ?thesis by simp
  next
    case False
    with Suc show ?thesis by (auto simp: block_inv_def)
  qed
qed

text \<open>Across the blocks: everything below \<open>16 * n\<close> is coded.\<close>

definition coded_inv :: "fl \<Rightarrow> fl list \<Rightarrow> fl list \<Rightarrow> nat \<Rightarrow> byte list \<times> fl list \<Rightarrow> bool" where
  "coded_inv threshold grad res n st \<longleftrightarrow> length (fst st) = 4 * n \<and> length (snd st) = length res \<and>
     (\<forall>j < length res. j < 16 * n \<longrightarrow>
        fst st ! (j div 4) AND posbits ! (j mod 4) =
          code_of (f32_mul (Fin (- 1)) threshold) threshold (f32_add (res ! j) (grad ! j)) (j mod 4)) \<and>
     (\<forall>j < length res. snd st ! j = (if j < 16 * n
        then kept_by (f32_mul (Fin (- 1)) threshold) threshold (f32_add (res ! j) (grad ! j)) else res ! j))"


lemma coded_inv_step:
  assumes "coded_inv threshold grad res n st" "length grad = length res"
  shows "coded_inv threshold grad res (Suc n) (quantize_block grad threshold n st)"
proof -
  let ?neg = "f32_mul (Fin (- 1)) threshold"
  obtain out r where st: "st = (out, r)" by (cases st)
  have len: "length out = 4 * n" "length r = length res" using assms(1) by (simp_all add: coded_inv_def st)
  let ?e = "min (16 * n + 16) (length grad)"
  obtain blk r' where q: "quantize_2bit n (length grad) grad ?neg threshold r = (blk, r')" by fastforce
  then have q': "fold (quantize_step ?neg threshold grad (16 * n)) [16 * n..<?e] ([0, 0, 0, 0], r) = (blk, r')"
    by (simp add: quantize_2bit_def idx_simps min_def Let_def)
  have "block_inv ?neg threshold grad r (16 * n) ?e (blk, r')"
    using quantize_2bit_inv [of "16 * n" n ?e r ?neg threshold grad] q' assms(2) len(2) by simp
  then have blk: "length blk = 4" "length r' = length res"
    and code: "\<And>p. p < 16 \<Longrightarrow> 16 * n + p < length res \<Longrightarrow> blk ! (p div 4) AND posbits ! (p mod 4) =
        code_of ?neg threshold (f32_add (r ! (16 * n + p)) (grad ! (16 * n + p))) (p mod 4)"
    and kept: "\<And>j. j < length res \<Longrightarrow> r' ! j = (if 16 * n \<le> j \<and> j < ?e
        then kept_by ?neg threshold (f32_add (r ! j) (grad ! j)) else r ! j)"
    using len(2) assms(2) by (auto simp: block_inv_def)
  have rj: "r ! j = (if j < 16 * n then kept_by ?neg threshold (f32_add (res ! j) (grad ! j)) else res ! j)"
    if "j < length res" for j using assms(1) that by (auto simp: coded_inv_def st)
  have coded: "(out @ blk) ! (j div 4) AND posbits ! (j mod 4) =
      code_of ?neg threshold (f32_add (res ! j) (grad ! j)) (j mod 4)" if j: "j < length res" "j < 16 * Suc n" for j
  proof (cases "j < 16 * n")
    case True
    then have "j div 4 < length out" using len(1) by linarith
    with True j assms(1) show ?thesis by (auto simp: coded_inv_def st nth_append)
  next
    case False
    define p where "p = j - 16 * n"
    have p: "p < 16" "j = 16 * n + p" using False j by (auto simp: p_def)
    have "j div 4 = 4 * n + p div 4" "j mod 4 = p mod 4"
      using p(2) div_mult_self4 [of 4 "4 * n" p] by (simp_all add: mod_mult_self4 [of 4 "4 * n" p, simplified])
    with code [OF p(1)] p(2) j(1) rj [OF j(1)] len(1) show ?thesis by (simp add: nth_append)
  qed
  have "r' ! j = (if j < 16 * Suc n then kept_by ?neg threshold (f32_add (res ! j) (grad ! j)) else res ! j)"
    if "j < length res" for j using kept [OF that] rj [OF that] assms(2) that by auto
  with coded blk len show ?thesis
    by (auto simp: coded_inv_def quantize_block_def st q)
qed

lemma Quantize2Bit_inv:
  assumes "length grad = length res"
  shows "coded_inv threshold grad res n (Quantize2Bit n grad res threshold)"
proof (induction n)
  case 0
  then show ?case by (simp add: coded_inv_def Quantize2Bit_def)
next
  case (Suc n)
  from coded_inv_step [OF this assms] show ?case by (simp add: Quantize2Bit_def)
qed

lemma dequantize_code:
  assumes "inp ! (j div 4) AND posbits ! (j mod 4) = code_of neg pos r (j mod 4)"
  shows "dequantize_2bit j inp neg pos = (if fl_ge r pos then pos else if fl_ge neg r then neg else Fin 0)"
proof -
  have "4 * (j div 16) + j mod 16 div 4 = j div 4" by presburger
  moreover have "j mod 4 < 4" by simp
  ultimately show ?thesis
    using assms masks_own [of "j mod 4"] by (auto simp: dequantize_2bit_def idx_simps code_of_def Let_def)
qed

lemma quantize_round_trip:
  assumes "length grad = length res" "length res \<le> 16 * n"
    and "Quantize2Bit n grad res threshold = (out, res')"
  shows "Dequantize2Bit (length res) out threshold = map2 (\<lambda>r g. sent_of threshold (f32_add r g)) res grad \<and>
    res' = map2 (\<lambda>r g. kept_of threshold (f32_add r g)) res grad \<and> length out = 4 * n"
proof -
  have inv: "coded_inv threshold grad res n (out, res')" using Quantize2Bit_inv [OF assms(1)] assms(3) by metis
  have at: "dequantize_2bit j out (f32_mul (Fin (- 1)) threshold) threshold = sent_of threshold (f32_add (res ! j) (grad ! j))"
    if "j < length res" for j
    using inv that assms(2) dequantize_code [of out j "f32_mul (Fin (- 1)) threshold" threshold]
    by (simp add: coded_inv_def sent_of_def)
  have "Dequantize2Bit (length res) out threshold = map2 (\<lambda>r g. sent_of threshold (f32_add r g)) res grad"
    using assms(1) by (intro nth_equalityI) (simp_all add: Dequantize2Bit_def at)
  moreover have "res' = map2 (\<lambda>r g. kept_of threshold (f32_add r g)) res grad"
    using inv assms(1,2) by (intro nth_equalityI) (auto simp: coded_inv_def kept_of_def kept_by_def)
  ultimately show ?thesis using inv by (simp add: coded_inv_def)
qed

section \<open>Parameters round trip\<close>

lemma digit_char_code: "k < 10 \<Longrightarrow> (of_char (char_of (48 + k) :: char) :: nat) = 48 + k"
  by (simp add: of_char_of)

lemma is_digit_char [simp]: "k < 10 \<Longrightarrow> is_digit (char_of (48 + k :: nat))"
  by (simp add: is_digit_def digit_char_code)

lemma digits_val_snoc [simp]: "digits_val (ds @ [c]) = digits_val ds * 10 + (of_char c - 48)"
  by (simp add: digits_val_def)

lemma digits_val_digits [simp]: "digits_val (digits n) = n"
proof (induction n rule: digits.induct)
  case (1 n)
  show ?case
  proof (cases "n < 10")
    case True
    then show ?thesis by (simp add: digits.simps [of n] digits_val_def digit_char_code)
  next
    case False
    with 1 show ?thesis by (simp add: digits.simps [of n] digit_char_code)
  qed
qed

lemma digits_are_digits: "c \<in> set (digits n) \<Longrightarrow> is_digit c"
proof (induction n rule: digits.induct)
  case (1 n)
  then show ?case by (cases "n < 10") (auto simp: digits.simps [of n])
qed

lemma pad_are_digits: "c \<in> set (pad_digits k m) \<Longrightarrow> is_digit c"
  by (induction k m rule: pad_digits.induct) auto

lemma length_pad_digits [simp]: "length (pad_digits k m) = k"
  by (induction k m rule: pad_digits.induct) auto

lemma digits_val_append_pad:
  "digits_val (ds @ pad_digits k m) = digits_val ds * 10 ^ k + m mod 10 ^ k"
proof (induction k m arbitrary: ds rule: pad_digits.induct)
  case (2 k m)
  have "digits_val (ds @ pad_digits (Suc k) m) = digits_val (ds @ pad_digits k (m div 10)) * 10 + m mod 10"
    using digits_val_snoc [of "ds @ pad_digits k (m div 10)"] by (simp add: digit_char_code)
  also have "\<dots> = digits_val ds * 10 ^ Suc k + (10 * (m div 10 mod 10 ^ k) + m mod 10)"
    by (simp add: 2 algebra_simps)
  also have "10 * (m div 10 mod 10 ^ k) + m mod 10 = m mod 10 ^ Suc k"
    by (simp add: mod_mult2_eq)
  finally show ?case .
qed simp

lemma sign_not_digit [simp]: "\<not> is_digit (CHR ''.'')" "\<not> is_digit (CHR '','')" "\<not> is_digit (CHR ''-'')" "\<not> is_digit (CHR ''+'')"
  by (simp_all add: is_digit_def)

lemma is_digit_not_space: "is_digit c \<Longrightarrow> \<not> is_space c"
  by (auto simp: is_digit_def is_space_def)

lemma sign_not_space: "\<not> is_space (CHR ''-'')"
  by (simp add: is_space_def)

lemma strip_sign_digits:
  assumes "is_digit c"
  shows "strip_sign (c # cs) = (False, c # cs)" "strip_sign (CHR ''-'' # c # cs) = (True, c # cs)"
proof -
  have "c \<noteq> CHR ''-''" "c \<noteq> CHR ''+''" using assms by auto
  then show "strip_sign (c # cs) = (False, c # cs)" "strip_sign (CHR ''-'' # c # cs) = (True, c # cs)"
    using is_digit_not_space [OF assms] by (auto simp: strip_sign_def sign_not_space)
qed

definition micro_value :: "rat \<Rightarrow> rat" where
  "micro_value a = (if a < 0 then - of_nat (micros a) / 10 ^ 6 else of_nat (micros a) / 10 ^ 6)"

lemma takeWhile_digits:
  "(\<And>c. c \<in> set ds \<Longrightarrow> is_digit c) \<Longrightarrow> \<not> is_digit d \<Longrightarrow>
   takeWhile is_digit (ds @ d # cs) = ds \<and> dropWhile is_digit (ds @ d # cs) = d # cs"
  by (induction ds) auto

lemma stof_to_string:
  assumes "rnd32 (micro_value a) = Fin b"
  shows "stof (fl_to_string (Fin a)) = Inr (Fin b)"
proof -
  define ip fp where "ip = digits (micros a div 10 ^ 6)" and "fp = pad_digits 6 (micros a)"
  obtain c cs where c: "ip = c # cs" using digits_not_Nil by (metis ip_def neq_Nil_conv)
  have dc: "is_digit c" using c digits_are_digits [of c "micros a div 10 ^ 6"] by (simp add: ip_def)
  have strip: "strip_sign (fl_to_string (Fin a)) = (a < 0, ip @ CHR ''.'' # fp)"
    using strip_sign_digits [OF dc, of "cs @ CHR ''.'' # fp"] c by (simp add: ip_def fp_def)
  have ip: "takeWhile is_digit (ip @ CHR ''.'' # fp) = ip" "dropWhile is_digit (ip @ CHR ''.'' # fp) = CHR ''.'' # fp"
    using takeWhile_digits [of ip "CHR ''.''" fp] digits_are_digits by (auto simp: ip_def)
  have fp: "takeWhile is_digit fp = fp" "dropWhile is_digit fp = []" "length fp = 6"
    using pad_are_digits by (auto simp: fp_def takeWhile_eq_all_conv)
  have val: "digits_val (ip @ fp) = micros a"
    using digits_val_append_pad [of ip 6 "micros a"] by (simp add: ip_def fp_def)
  have no: "ip @ CHR ''.'' # fp \<noteq> ''inf''" "ip @ CHR ''.'' # fp \<noteq> ''nan''" "ip \<noteq> []"
    using dc c by (auto simp: is_digit_def)
  show ?thesis
    using no assms
    by (cases "a < 0")
      (simp_all add: stof_def strip ip fp val exponent_of_def micro_value_def Let_def del: fl_to_string.simps)
qed

lemma split_two:
  assumes "\<And>c. c \<in> set a \<Longrightarrow> c \<noteq> d" "\<And>c. c \<in> set b \<Longrightarrow> c \<noteq> d" "b \<noteq> []"
  shows "split (a @ d # b) d = [a, b]"
proof -
  have one: "split_from b d x = (if x @ b = [] then [] else [x @ b])" if "\<And>c. c \<in> set b \<Longrightarrow> c \<noteq> d" for x b
    using that by (induction b arbitrary: x) auto
  have "split_from (a @ d # b) d x = (x @ a) # split_from b d []" for x
    using assms(1) by (induction a arbitrary: x) auto
  with one [OF assms(2)] assms(3) show ?thesis by (simp add: split_def)
qed

lemma to_string_no_comma: "c \<in> set (fl_to_string (Fin a)) \<Longrightarrow> c \<noteq> CHR '',''"
  using digits_are_digits [of c "micros a div 10 ^ 6"] pad_are_digits [of c 6 "micros a"]
  by (auto split: if_splits)

lemma DecodeParams_Encode:
  assumes "gc_type g = kTwoBit" "gc_threshold g = Fin a" "rnd32 (micro_value a) = Fin b"
  shows "DecodeParams (EncodeParams g) g' = Inr \<lparr>gc_type = kTwoBit, gc_threshold = Fin b\<rparr>"
proof -
  have one: "digits 1 = ''1''" by (simp add: digits.simps char_of_def bit_0)
  have "fl_to_string (Fin a) \<noteq> []" by simp
  then have sp: "split (EncodeParams g) (CHR '','') = [''1'', fl_to_string (Fin a)]"
    using split_two [of "''1''" "CHR '',''" "fl_to_string (Fin a)"] to_string_no_comma [of _ a] assms(1,2) one
    by (simp add: EncodeParams_def get_type_str_def)
  have "stoi ''1'' = Inr 1"
    by (simp add: stoi_def strip_sign_def is_space_def is_digit_def digits_val_def cint_in_range_def INT_MAX_def)
  with sp stof_to_string [OF assms(3)] show ?thesis
    by (simp add: DecodeParams_def vec_at_def)
qed

end
