(* ===== verification/MX_Server.thy ===== *)
theory MX_Server
  imports MX_Ndarray MX_Compress NS_KvApp
begin

text \<open>
  The server side of the distributed key-value store (\<open>src/kvstore/kvstore_dist_server.h\<close>):
  command numbers, the executor, the command handle and the handles of dense and of compressed
  pushes and pulls. The handles run inside \<open>server_Process\<close> of the parameter server, on the
  server object, its node and the store. \<open>Executor::Exec\<close> waits for the function it
  hands over, so that a handle's calls of the executor happen in place; the executor's own loop is
  modelled separately.
\<close>

section \<open>Commands\<close>

datatype request_type = kDefaultPushPull | kRowSparsePushPull | kCompressedPushPull

fun request_number :: "request_type \<Rightarrow> int" where
  "request_number kDefaultPushPull = 0"
| "request_number kRowSparsePushPull = 1"
| "request_number kCompressedPushPull = 2"

definition GetCommandType :: "request_type \<Rightarrow> int \<Rightarrow> int" where
  "GetCommandType r d = (let m = request_number r in ((m + d) * (m + d + 1)) sdiv 2 + d)"

text \<open>
  The root of an integer below \<open>2 ^ 34\<close> is rounded correctly to a double, so that the floor is that of
  the exact root.
\<close>

definition isqrt :: "nat \<Rightarrow> nat" where
  "isqrt n = length (takeWhile (\<lambda>r. r * r \<le> n) [1..<Suc n])"

record data_handle_type =
  requestType :: int
  dtype :: int

definition DepairDataHandleType :: "int \<Rightarrow> data_handle_type res" where
  "DepairDataHandleType cmd =
     (if cmd < 0 \<or> \<not> cint_in_range (8 * cmd + 1) then Inl (Undefined ''sqrt of a negative number'')
      else let w = (int (isqrt (nat (8 * cmd + 1))) - 1) div 2;
               t = (w * w + w) sdiv 2; y = cmd - t; x = w - y
           in rcheck (x \<ge> 0) ''x >= 0'' (rcheck (y \<ge> 0) ''y >= 0'' (Inr \<lparr>requestType = x, dtype = y\<rparr>)))"

section \<open>The executor\<close>

text \<open>
  A block is a function of the state, or the empty function that stops the thread. One iteration of
  the loop of \<open>Start\<close>, which waits while the queue is empty; \<open>finished\<close> holds the blocks whose
  promise is set, in that order.
\<close>

record 's executor =
  ex_queue :: "(nat \<times> ('s \<Rightarrow> 's) option) list"
  ex_finished :: "nat list"
  ex_running :: bool

definition Exec :: "nat \<Rightarrow> ('s \<Rightarrow> 's) option \<Rightarrow> 's executor \<Rightarrow> 's executor" where
  "Exec i f e = e\<lparr>ex_queue := ex_queue e @ [(i, f)]\<rparr>"

definition exec_Stop :: "nat \<Rightarrow> 's executor \<Rightarrow> 's executor" where
  "exec_Stop i e = Exec i None e"

fun Start_step :: "'s executor \<times> 's \<Rightarrow> 's executor \<times> 's" where
  "Start_step (e, s) =
     (if \<not> ex_running e then (e, s)
      else case ex_queue e of
        [] \<Rightarrow> (e, s)
      | (i, Some f) # q \<Rightarrow> (e\<lparr>ex_queue := q, ex_finished := ex_finished e @ [i]\<rparr>, f s)
      | (i, None) # q \<Rightarrow> (e\<lparr>ex_queue := q, ex_finished := ex_finished e @ [i], ex_running := False\<rparr>, s))"

section \<open>State\<close>

record updbuf =
  ub_request :: "kvmeta list"
  ub_merged :: nda
  ub_temp :: nda

text \<open>
  The updater is a function of the truncated key, the update and the stored array; the controller is
  seen through the calls it gets. Keys are 64-bit in the stores and \<open>int\<close> in the update buffers.
\<close>

record dstore =
  sync_mode :: bool
  has_controller :: bool
  controlled :: "(int \<times> string) list"
  updater :: "(int \<Rightarrow> nda \<Rightarrow> nda \<Rightarrow> nda res) option"
  store :: "(key \<times> ndarray) list"
  store_realt :: "(key \<times> ndarray) list"
  update_buf :: "int \<Rightarrow> updbuf"
  stopping :: bool
  multi_precision :: bool
  push_init_flag :: int
  key_flag :: key
  ds_gc :: gcomp
  profiled :: "(int \<times> string) list"

definition UpdateBuf :: updbuf where
  "UpdateBuf = \<lparr>ub_request = [], ub_merged = None, ub_temp = None\<rparr>"

text \<open>\<open>multi_precision_\<close> and \<open>key_flag\<close> are not initialised by the constructor: they are arguments.\<close>

definition KVStoreDistServer :: "bool \<Rightarrow> key \<Rightarrow> dstore" where
  "KVStoreDistServer mp kf = \<lparr>sync_mode = False, has_controller = False, controlled = [], updater = None,
     store = [], store_realt = [], update_buf = (\<lambda>_. UpdateBuf), stopping = False, multi_precision = mp,
     push_init_flag = 0, key_flag = kf, ds_gc = GradientCompression, profiled = []\<rparr>"

definition key_int :: "key \<Rightarrow> int" where
  "key_int k = sint (ucast k :: 32 word)"

definition has_multi_precision_copy :: "data_handle_type \<Rightarrow> dstore \<Rightarrow> bool" where
  "has_multi_precision_copy ty d \<longleftrightarrow> multi_precision d \<and> dtype ty \<noteq> kFloat32"

text \<open>The store a request of a type works on.\<close>

definition stored_at :: "data_handle_type \<Rightarrow> key \<Rightarrow> dstore \<Rightarrow> nda" where
  "stored_at ty k d = map_of (if has_multi_precision_copy ty d then store_realt d else store d) k"

definition set_store :: "key \<Rightarrow> nda \<Rightarrow> dstore \<Rightarrow> dstore" where
  "set_store k a d = (case a of None \<Rightarrow> d | Some x \<Rightarrow> d\<lparr>store := AList.update k x (store d)\<rparr>)"

definition set_realt :: "key \<Rightarrow> nda \<Rightarrow> dstore \<Rightarrow> dstore" where
  "set_realt k a d = (case a of None \<Rightarrow> d | Some x \<Rightarrow> d\<lparr>store_realt := AList.update k x (store_realt d)\<rparr>)"

definition set_stored :: "data_handle_type \<Rightarrow> key \<Rightarrow> nda \<Rightarrow> dstore \<Rightarrow> dstore" where
  "set_stored ty k a d = (if has_multi_precision_copy ty d then set_realt k a d else set_store k a d)"

definition upd_buf :: "int \<Rightarrow> (updbuf \<Rightarrow> updbuf) \<Rightarrow> dstore \<Rightarrow> dstore" where
  "upd_buf k f d = d\<lparr>update_buf := (update_buf d)(k := f (update_buf d k))\<rparr>"

section \<open>Commands from the workers\<close>

definition realt_copy :: "ndops \<Rightarrow> key \<times> ndarray \<Rightarrow> dstore \<Rightarrow> dstore res" where
  "realt_copy ops entry d =
     (case entry of (k64, stored) \<Rightarrow>
      let k = key_int k64 in
      if nd_dtype stored = kFloat32 then Inr d
      else
        let d = upd_buf k (\<lambda>u. u\<lparr>ub_merged := map_option (\<lambda>m. nd_alloc (nd_shape m) kFloat32) (ub_merged u)\<rparr>) d in
        rcheck (ub_request (update_buf d k) = []) ''Multiprecision mode can not be set while pushes are underway.''
          (rmap (\<lambda>a. set_realt (word_of_int k) a d)
             (CopyFromTo ops (Some stored) (Some (nd_alloc (nd_shape stored) kFloat32)))))"

definition CreateMultiPrecisionCopies :: "ndops \<Rightarrow> dstore \<Rightarrow> dstore res" where
  "CreateMultiPrecisionCopies ops d = rfold (realt_copy ops) (store d) d"

text \<open>The keys and values of a profiler configuration, with the file name made unique by the rank.\<close>

definition profiler_param :: "int \<Rightarrow> string \<Rightarrow> (string \<times> string) res" where
  "profiler_param rank elem =
     (let parts = split elem (CHR '':'') in
      rcheck (length parts = 2) ''Improper profiler config passed from worker''
      (rcheck (parts ! 0 \<noteq> []) ''ProfilerConfig parameter is empty''
      (rcheck (parts ! 1 \<noteq> []) ''ProfilerConfig value is empty for parameter''
        (Inr (parts ! 0, if parts ! 0 = ''filename'' then ''rank'' @ int_str rank @ ''_'' @ parts ! 1 else parts ! 1)))))"

definition SetProfilerConfig :: "int \<Rightarrow> string \<Rightarrow> (string \<times> string) list res" where
  "SetProfilerConfig rank params = rmap_list (profiler_param rank) (split params (CHR '',''))"

text \<open>
  The commands of the profiler, with the string they get: the configuration without its last
  character, or the number in the first one. A \<open>body\<close> that is empty has no last character.
\<close>

definition ProcessServerProfilerCommands :: "int \<Rightarrow> string \<Rightarrow> int \<Rightarrow> dstore \<Rightarrow> dstore res" where
  "ProcessServerProfilerCommands ty bd rank d =
     (if ty = 0 then rmap (\<lambda>ps. d\<lparr>profiled := profiled d @ map (\<lambda>p. (0, fst p @ '':'' @ snd p)) ps\<rparr>)
        (SetProfilerConfig rank (butlast bd))
      else if ty \<in> {1, 2, 3} then Inr (d\<lparr>profiled := profiled d @ [(ty, [hd bd])]\<rparr>)
      else Inr d)"

type_synonym sstate = "kvserver \<times> nstate \<times> dstore"

definition MyRank :: "nstate \<Rightarrow> int" where
  "MyRank s = IDtoRank (my_id s)"

definition CommandHandle :: "ndops \<Rightarrow> sstate simple_handle" where
  "CommandHandle ops recved sa =
     (case sa of (srv, s, d) \<Rightarrow>
      let h = sd_head recved in
      rbind (if h = 2 then Inr (d\<lparr>stopping := True\<rparr>)
             else if h = 3 then Inr (d\<lparr>sync_mode := True\<rparr>)
             else if h = 4 then rmap (\<lambda>g. d\<lparr>ds_gc := g\<rparr>) (DecodeParams (sd_body recved) (ds_gc d))
             else if h = 5 then
               (if sd_body recved = [] then Inl (Undefined ''back() of an empty string'')
                else ProcessServerProfilerCommands (int (of_char (last (sd_body recved))) - 48) (sd_body recved) (MyRank s) d)
             else if h = 1 then
               (if multi_precision d then Inr d else CreateMultiPrecisionCopies ops (d\<lparr>multi_precision := True\<rparr>))
             else if h = 0 then
               rcheck (has_controller d) ''controller_'' (Inr (d\<lparr>controlled := controlled d @ [(h, sd_body recved)]\<rparr>))
             else Inr d) (\<lambda>d.
      rmap (\<lambda>s. (srv, s, d)) (simple_Response recved [] (ks_cust srv) s)))"

section \<open>Applying updates\<close>

text \<open>The list with one key that a response carries.\<close>

definition one_kv :: "key \<Rightarrow> nda \<Rightarrow> kvpairs res" where
  "one_kv k a = rmap (\<lambda>bs. \<lparr>kv_keys = [k], kv_vals = bs, kv_lens = [int (length bs)]\<rparr>) (nd_bytes a)"

definition run_updater :: "ndops \<Rightarrow> data_handle_type \<Rightarrow> key \<Rightarrow> dstore \<Rightarrow> dstore res" where
  "run_updater ops ty k d =
     (let u = update_buf d (key_int k) in
      case updater d of
        Some f \<Rightarrow> rmap (\<lambda>a. set_stored ty k a d)
          (f (key_int k) (if sync_mode d then ub_merged u else ub_temp u) (stored_at ty k d))
      | None \<Rightarrow> rcheck (sync_mode d) ''Updater needs to be set for async mode''
          (rmap (\<lambda>a. set_stored ty k a d) (CopyFromTo ops (ub_merged u) (stored_at ty k d))))"

text \<open>Only the first request is answered: the loop over the requests leaves after one.\<close>

definition ApplyUpdates :: "ndops \<Rightarrow> data_handle_type \<Rightarrow> key \<Rightarrow> sstate \<Rightarrow> sstate res" where
  "ApplyUpdates ops ty k sa =
     (case sa of (srv, s, d) \<Rightarrow>
      if \<not> sync_mode d \<or> int (length (ub_request (update_buf d (key_int k)))) = num_workers (npo s) then
        rbind (run_updater ops ty k d) (\<lambda>d.
        rbind (if has_multi_precision_copy ty d
               then rmap (\<lambda>a. set_store k a d) (CopyFromTo ops (stored_at ty k d) (map_of (store d) k)) else Inr d) (\<lambda>d.
        rbind (case ub_request (update_buf d (key_int k)) of
                 [] \<Rightarrow> Inr s
               | req # _ \<Rightarrow> rbind (one_kv k (stored_at ty k d)) (\<lambda>res. ResponseAll req res srv s)) (\<lambda>s.
        Inr (srv, s, upd_buf (key_int k) (\<lambda>u. u\<lparr>ub_request := []\<rparr>) d))))
      else Inr (srv, s, d))"

section \<open>Dense requests\<close>

definition DefaultStorageResponse :: "key \<Rightarrow> kvmeta \<Rightarrow> kvpairs \<Rightarrow> sstate \<Rightarrow> sstate res" where
  "DefaultStorageResponse k req dat sa =
     (case sa of (srv, s, d) \<Rightarrow>
      rcheck (map_of (store d) k \<noteq> None) ''init key first''
      (rbind (nd_bytes (map_of (store d) k)) (\<lambda>bs.
       rmap (\<lambda>s. (srv, s, d))
         (server_Response req \<lparr>kv_keys = kv_keys dat, kv_vals = bs, kv_lens = [int (length bs)]\<rparr> srv s))))"

text \<open>The first push of a key: its value is stored and sent back.\<close>

definition init_stored :: "ndops \<Rightarrow> data_handle_type \<Rightarrow> key \<Rightarrow> kvmeta \<Rightarrow> ndarray \<Rightarrow> sstate \<Rightarrow> sstate res" where
  "init_stored ops ty k req recved sa =
     (case sa of (srv, s, d) \<Rightarrow>
      let mp = has_multi_precision_copy ty d in
      rbind (CopyFromTo ops (Some recved) (Some (nd_alloc (nd_shape recved) (if mp then kFloat32 else dtype ty)))) (\<lambda>a.
      let d = set_stored ty k a d in
      rbind (one_kv k a) (\<lambda>res.
      rbind (server_Response req res srv s) (\<lambda>s.
      rmap (\<lambda>d. (srv, s, d))
        (if mp then rmap (\<lambda>b. set_store k b d) (CopyFromTo ops a (Some (nd_alloc (nd_shape recved) (dtype ty)))) else Inr d)))))"

text \<open>What a further push does to the buffers: a first one of a round replaces, a later one adds.\<close>

definition merge_push :: "ndops \<Rightarrow> data_handle_type \<Rightarrow> key \<Rightarrow> ndarray \<Rightarrow> dstore \<Rightarrow> dstore res" where
  "merge_push ops ty k recved d =
     (let ik = key_int k; mp = has_multi_precision_copy ty d; fresh = ub_request (update_buf d ik) = [];
          sh = nd_shape recved;
          d = (if sync_mode d \<and> fresh
               then upd_buf ik (\<lambda>u. u\<lparr>ub_merged := Some (nd_alloc sh (if mp then kFloat32 else dtype ty))\<rparr>)
                      (set_stored ty k (Some (nd_alloc sh (if mp then kFloat32 else dtype ty))) d) else d);
          d = (if mp \<and> ub_temp (update_buf d ik) = None
               then upd_buf ik (\<lambda>u. u\<lparr>ub_temp := Some (nd_alloc sh kFloat32)\<rparr>) d else d);
          u = update_buf d ik
      in if fresh then
           if sync_mode d then rmap (\<lambda>a. upd_buf ik (\<lambda>u. u\<lparr>ub_merged := a\<rparr>) d) (CopyFromTo ops (Some recved) (ub_merged u))
           else if mp then rmap (\<lambda>a. upd_buf ik (\<lambda>u. u\<lparr>ub_temp := a\<rparr>) d) (CopyFromTo ops (Some recved) (ub_temp u))
           else Inr (upd_buf ik (\<lambda>u. u\<lparr>ub_temp := Some recved\<rparr>) d)
         else rcheck (sync_mode d) ''sync_mode_''
           (if mp then rbind (CopyFromTo ops (Some recved) (ub_temp u)) (\<lambda>tmp.
              rmap (\<lambda>a. upd_buf ik (\<lambda>u. u\<lparr>ub_temp := tmp, ub_merged := a\<rparr>) d) (nd_iadd ops (ub_merged u) tmp))
            else rmap (\<lambda>a. upd_buf ik (\<lambda>u. u\<lparr>ub_merged := a\<rparr>) d) (nd_iadd ops (ub_merged u) (Some recved))))"

text \<open>An inner node of the aggregation tree: the sum goes to the parent when all children have pushed.\<close>

definition deliver_up :: "ndops \<Rightarrow> key \<Rightarrow> kvmeta \<Rightarrow> sstate \<Rightarrow> sstate res" where
  "deliver_up ops k req sa =
     (case sa of (srv, s, d) \<Rightarrow>
      rbind (CopyFromTo ops (ub_merged (update_buf d (key_int k))) (map_of (store d) k)) (\<lambda>a.
      let d = set_store k a d in
      rbind (one_kv k a) (\<lambda>res. rbind (server_Push req res srv s) (\<lambda>s.
      Inr (srv, s, upd_buf (key_int k) (\<lambda>u. u\<lparr>ub_request := []\<rparr>) d)))))"

text \<open>The loop that fills the request list up to the number of workers.\<close>

definition pad_requests :: "int \<Rightarrow> kvmeta \<Rightarrow> kvmeta list \<Rightarrow> kvmeta list" where
  "pad_requests n req rs = rs @ replicate (nat n - length rs) req"

definition push_update :: "ndops \<Rightarrow> data_handle_type \<Rightarrow> key \<Rightarrow> kvmeta \<Rightarrow> ndarray \<Rightarrow> sstate \<Rightarrow> sstate res" where
  "push_update ops ty k req recved sa =
     (case sa of (srv, s, d) \<Rightarrow>
      let ik = key_int k in
      rbind (merge_push ops ty k recved d) (\<lambda>d.
      let d = upd_buf ik (\<lambda>u. u\<lparr>ub_request := ub_request u @ [req]\<rparr>) d in
      rbind (vec_at (ks_sons srv) (km_version req)) (\<lambda>ss.
      let full = (length (ub_request (update_buf d ik)) = length ss) in
      if km_version req \<noteq> MyRank s
      then if full then deliver_up ops k req (srv, s, d) else ApplyUpdates ops ty k (srv, s, d)
      else ApplyUpdates ops ty k (srv, s,
             if full then upd_buf ik (\<lambda>u. u\<lparr>ub_request := pad_requests (num_workers (npo s)) req (ub_request u)\<rparr>) d else d))))"

definition note_init :: "key \<Rightarrow> dstore \<Rightarrow> dstore" where
  "note_init k d =
     (let d = (if push_init_flag d = 0 then d\<lparr>key_flag := k\<rparr> else d)
      in if key_flag d = k \<and> push_init_flag d < 2 then d\<lparr>push_init_flag := push_init_flag d + 1\<rparr> else d)"

definition DataHandleDefault :: "ndops \<Rightarrow> data_handle_type \<Rightarrow> kvmeta \<Rightarrow> kvpairs \<Rightarrow> sstate \<Rightarrow> sstate res" where
  "DataHandleDefault ops ty req dat sa =
     (case sa of (srv, s, d) \<Rightarrow>
      rcheck (length (kv_keys dat) = 1) ''req_data.keys.size() == 1''
      (let k = kv_keys dat ! 0 in
       if km_push req then
         rcheck (length (kv_lens dat) = 1) ''req_data.lens.size() == 1''
         (rcheck (int (length (kv_vals dat)) = kv_lens dat ! 0 mod 2 ^ 64) ''req_data.vals.size() == req_data.lens[0]''
         (let d = note_init k d in
          rbind (nd_received (dtype ty) (kv_vals dat) (kv_lens dat ! 0)) (\<lambda>recved.
            if stored_at ty k d = None \<and> km_num_merge req = 0
            then init_stored ops ty k req recved (srv, s, d)
            else push_update ops ty k req recved (srv, s, d))))
       else DefaultStorageResponse k req dat (srv, s, d)))"

section \<open>Compressed requests\<close>

definition DecodeKey :: "key \<Rightarrow> nstate \<Rightarrow> int res" where
  "DecodeKey k s = rmap (\<lambda>r. key_int (k - fst r)) (vec_at (fst (GetServerKeyRanges (npo s))) (MyRank s))"

text \<open>
  \<open>float_bytes\<close> is the memory of a list of floats, as the tensor library keeps it. The handle only takes
  requests for single precision.
\<close>

definition dequantized :: "(fl list \<Rightarrow> bytes) \<Rightarrow> gcomp \<Rightarrow> bytes \<Rightarrow> int \<Rightarrow> ndarray res" where
  "dequantized float_bytes g bs n =
     rmap (\<lambda>fs. \<lparr>nd_dtype = kFloat32, nd_shape = [n], nd_data = Some (float_bytes fs), nd_rows = None\<rparr>)
       (Dequantize g bs (nat n))"

text \<open>The merged values of a synchronous push: the first one of a round is written over the buffer.\<close>

definition merge_compressed :: "ndops \<Rightarrow> (fl list \<Rightarrow> bytes) \<Rightarrow> gcomp \<Rightarrow> bytes \<Rightarrow> int \<Rightarrow> updbuf \<Rightarrow> nda res" where
  "merge_compressed ops float_bytes g bs n u =
     (let merged = (case ub_merged u of None \<Rightarrow> nd_alloc [n] kFloat32 | Some m \<Rightarrow> m) in
      if ub_request u = []
      then rmap (\<lambda>a. Some (merged\<lparr>nd_data := nd_data a\<rparr>)) (dequantized float_bytes g bs (shape_size (nd_shape merged)))
      else rbind (dequantized float_bytes g bs n) (\<lambda>a. nd_iadd ops (Some merged) (Some a)))"

definition compressed_push ::
  "ndops \<Rightarrow> (fl list \<Rightarrow> bytes) \<Rightarrow> data_handle_type \<Rightarrow> int \<Rightarrow> kvmeta \<Rightarrow> bytes \<Rightarrow> int \<Rightarrow> sstate \<Rightarrow> sstate res" where
  "compressed_push ops float_bytes ty ik req bs n sa =
     (case sa of (srv, s, d) \<Rightarrow>
      let k = word_of_int ik in
      if map_of (store d) k = None then
        rbind (dequantized float_bytes (ds_gc d) bs n) (\<lambda>a.
        rmap (\<lambda>s. (srv, s, set_store k (Some a) d)) (server_Response req KVPairs srv s))
      else if sync_mode d then
        rbind (merge_compressed ops float_bytes (ds_gc d) bs n (update_buf d ik)) (\<lambda>a.
        ApplyUpdates ops ty k (srv, s, upd_buf ik (\<lambda>u. u\<lparr>ub_merged := a, ub_request := ub_request u @ [req]\<rparr>) d))
      else
        rbind (dequantized float_bytes (ds_gc d) bs n) (\<lambda>b.
        rbind (case updater d of
                 None \<Rightarrow> Inl (Check_failed ''updater_'')
               | Some f \<Rightarrow> f ik (Some b) (map_of (store d) k)) (\<lambda>a.
        rmap (\<lambda>s. (srv, s, set_store k a d)) (server_Response req KVPairs srv s))))"

definition DataHandleCompressed ::
  "ndops \<Rightarrow> (fl list \<Rightarrow> bytes) \<Rightarrow> data_handle_type \<Rightarrow> kvmeta \<Rightarrow> kvpairs \<Rightarrow> sstate \<Rightarrow> sstate res" where
  "DataHandleCompressed ops float_bytes ty req dat sa =
     (case sa of (srv, s, d) \<Rightarrow>
      rcheck (dtype ty = kFloat32) ''Gradient compression is currently supported for fp32 only''
      (if km_push req then
         rcheck (length (kv_keys dat) = 2) ''req_data.keys.size() == 2''
         (rcheck (length (kv_lens dat) = 2) ''req_data.lens.size() == 2''
         (rcheck (int (length (kv_vals dat)) = kv_lens dat ! 1 mod 2 ^ 64) ''req_data.vals.size() == req_data.lens[1]''
         (rbind (DecodeKey (kv_keys dat ! 0) s) (\<lambda>n. rbind (DecodeKey (kv_keys dat ! 1) s) (\<lambda>ik.
          compressed_push ops float_bytes ty ik req (kv_vals dat) n (srv, s, d))))))
       else
         rcheck (length (kv_keys dat) = 1) ''req_data.keys.size() == 1''
         (rcheck (length (kv_lens dat) = 0) ''req_data.lens.size() == 0''
         (rbind (DecodeKey (kv_keys dat ! 0) s) (\<lambda>ik. DefaultStorageResponse (word_of_int ik) req dat (srv, s, d))))))"

section \<open>Row-sparse requests\<close>

definition DecodeRowIds :: "key list \<Rightarrow> int \<Rightarrow> nstate \<Rightarrow> int list res" where
  "DecodeRowIds ks master_key s = rmap_list (\<lambda>k. rmap (\<lambda>i. i - master_key) (DecodeKey k s)) ks"

definition AccumulateRowSparseGrads :: "ndops \<Rightarrow> data_handle_type \<Rightarrow> ndarray \<Rightarrow> int \<Rightarrow> dstore \<Rightarrow> dstore res" where
  "AccumulateRowSparseGrads ops ty recved ik d =
     (let mp = has_multi_precision_copy ty d; u = update_buf d ik in
      rbind (if mp then CopyFromTo ops (Some recved) (ub_temp u) else Inr (ub_temp u)) (\<lambda>tmp.
      let to_merge = (if mp then tmp else Some recved); t = (if mp then kFloat32 else dtype ty) in
      case (to_merge, ub_merged u) of
        (Some a, Some m) \<Rightarrow> (case (nd_rows a, nd_rows m) of
            (Some ls, Some rs) \<Rightarrow>
              let out = (nd_alloc_rsp (nd_shape m) t)\<lparr>nd_rows := Some (rsp_plus ops t ls rs)\<rparr> in
              rmap (\<lambda>c. upd_buf ik (\<lambda>u. u\<lparr>ub_temp := tmp, ub_merged := c\<rparr>) d) (CopyFromTo ops (Some out) (Some m))
          | _ \<Rightarrow> Inl (Undefined ''sum of other storage types''))
      | _ \<Rightarrow> Inl (Undefined ''sum of no array'')))"

definition unit_length :: "ndarray \<Rightarrow> int" where
  "unit_length a = prod_list (tl (nd_shape a))"

text \<open>One row of the response; the rows of the stored array lie in its memory in their order.\<close>

definition pull_row :: "ndarray \<Rightarrow> int \<Rightarrow> int \<Rightarrow> nstate \<Rightarrow> key \<Rightarrow> bytes res" where
  "pull_row stored unit1 master_key s k =
     rbind (DecodeKey k s) (\<lambda>i.
     let b = (i - master_key) * unit1;
         mem = (case nd_rows stored of Some rs \<Rightarrow> concat (map snd rs) | None \<Rightarrow> (case nd_data stored of Some x \<Rightarrow> x | None \<Rightarrow> []))
     in if 0 \<le> b \<and> b + unit1 \<le> int (length mem) then Inr (take (nat unit1) (drop (nat b) mem))
        else Inl (Out_of_range ''row'')) "

definition RowSparsePullResponse :: "data_handle_type \<Rightarrow> int \<Rightarrow> kvmeta \<Rightarrow> kvpairs \<Rightarrow> sstate \<Rightarrow> sstate res" where
  "RowSparsePullResponse ty master_key req dat sa =
     (case sa of (srv, s, d) \<Rightarrow>
      if length (kv_keys dat) = 1 then
        rmap (\<lambda>s. (srv, s, d))
          (server_Response req \<lparr>kv_keys = kv_keys dat, kv_vals = [], kv_lens = map (\<lambda>_. 0) (kv_keys dat)\<rparr> srv s)
      else case map_of (store d) (word_of_int master_key) of
        None \<Rightarrow> Inl (Check_failed ''init key first'')
      | Some stored \<Rightarrow>
          rbind (mshadow_sizeof (dtype ty)) (\<lambda>num_bytes.
          rbind (rmap_list (pull_row stored (unit_length stored * int num_bytes) master_key s) (tl (kv_keys dat))) (\<lambda>rows.
          rmap (\<lambda>s. (srv, s, d))
            (server_Response req \<lparr>kv_keys = kv_keys dat, kv_vals = concat rows,
               kv_lens = 0 # map (\<lambda>_. unit_length stored) (tl (kv_keys dat))\<rparr> srv s))))"

definition InitRowSparseStored :: "ndops \<Rightarrow> data_handle_type \<Rightarrow> int \<Rightarrow> kvmeta \<Rightarrow> kvpairs \<Rightarrow> sstate \<Rightarrow> sstate res" where
  "InitRowSparseStored ops ty master_key req dat sa =
     (case sa of (srv, s, d) \<Rightarrow>
      let num_rows = length (kv_keys dat) - 1; mp = has_multi_precision_copy ty d; k = word_of_int master_key in
      rbind (mshadow_sizeof (dtype ty)) (\<lambda>num_bytes.
      rbind (vec_at (kv_lens dat) 1) (\<lambda>l1.
      let unit_len = l1 sdiv int num_bytes in
      rcheck (unit_len > 0) ''unit_len > 0''
      (rcheck (int (length (kv_vals dat)) = int num_rows * unit_len * int num_bytes) ''req_data.vals.size()''
      (rcheck (real_type (dtype ty)) ''This operation only support floating point types''
      (let t = (if mp then kFloat32 else dtype ty);
           rows = chunks (nat unit_len * num_bytes) num_rows (kv_vals dat);
           stored = (nd_alloc_rsp [int num_rows, unit_len] t)
             \<lparr>nd_rows := Some (zip (map int [0..<num_rows]) (map (cast_bytes ops (dtype ty) t) rows))\<rparr>;
           d = set_stored ty k (Some stored) d
       in rbind (if mp then rmap (\<lambda>a. set_store k a d)
                   (CopyFromTo ops (Some stored) (Some (nd_alloc_rsp [int num_rows, unit_len] (dtype ty)))) else Inr d) (\<lambda>d.
          rmap (\<lambda>s. (srv, s, d)) (server_Response req KVPairs srv s))))))))"

text \<open>The buffers a row-sparse push needs.\<close>

definition rsp_buffers :: "data_handle_type \<Rightarrow> int \<Rightarrow> ndarray \<Rightarrow> dstore \<Rightarrow> dstore" where
  "rsp_buffers ty ik stored d =
     (let mp = has_multi_precision_copy ty d; sh = nd_shape stored;
          d = (if sync_mode d \<and> ub_merged (update_buf d ik) = None
               then upd_buf ik (\<lambda>u. u\<lparr>ub_merged := Some (nd_alloc_rsp sh (if mp then kFloat32 else dtype ty))\<rparr>) d else d)
      in if mp \<and> ub_temp (update_buf d ik) = None
         then upd_buf ik (\<lambda>u. u\<lparr>ub_temp := Some (nd_alloc_rsp sh kFloat32)\<rparr>) d else d)"

definition merge_rsp :: "ndops \<Rightarrow> data_handle_type \<Rightarrow> int \<Rightarrow> ndarray \<Rightarrow> dstore \<Rightarrow> dstore res" where
  "merge_rsp ops ty ik recved d =
     (let u = update_buf d ik in
      if ub_request u = [] then
        if sync_mode d then rmap (\<lambda>a. upd_buf ik (\<lambda>u. u\<lparr>ub_merged := a\<rparr>) d) (CopyFromTo ops (Some recved) (ub_merged u))
        else if has_multi_precision_copy ty d
        then rmap (\<lambda>a. upd_buf ik (\<lambda>u. u\<lparr>ub_temp := a\<rparr>) d) (CopyFromTo ops (Some recved) (ub_temp u))
        else Inr (upd_buf ik (\<lambda>u. u\<lparr>ub_temp := Some recved\<rparr>) d)
      else rcheck (sync_mode d) ''sync_mode_'' (AccumulateRowSparseGrads ops ty recved ik d))"

definition rsp_received :: "data_handle_type \<Rightarrow> ndarray \<Rightarrow> int \<Rightarrow> kvpairs \<Rightarrow> nstate \<Rightarrow> ndarray res" where
  "rsp_received ty stored master_key dat s =
     rbind (mshadow_sizeof (dtype ty)) (\<lambda>num_bytes.
     rbind (vec_at (kv_lens dat) 1) (\<lambda>l1.
     let unit_len = l1 mod 2 ^ 64 div int num_bytes in
     rcheck (unit_len > 0) ''unit_len > 0''
     (rbind (DecodeRowIds (tl (kv_keys dat)) master_key s) (\<lambda>ids.
      rcheck (real_type (dtype ty)) ''This operation only support floating point types''
        (Inr ((nd_alloc_rsp (nd_shape stored) (dtype ty))
           \<lparr>nd_rows := Some (zip ids (chunks (nat unit_len * num_bytes) (length ids) (kv_vals dat)))\<rparr>))))))"

definition DataHandleRowSparse :: "ndops \<Rightarrow> data_handle_type \<Rightarrow> kvmeta \<Rightarrow> kvpairs \<Rightarrow> sstate \<Rightarrow> sstate res" where
  "DataHandleRowSparse ops ty req dat sa =
     (case sa of (srv, s, d) \<Rightarrow>
      rbind (vec_at (kv_keys dat) 0) (\<lambda>k0. rbind (DecodeKey k0 s) (\<lambda>master_key.
      if \<not> km_push req then RowSparsePullResponse ty master_key req dat (srv, s, d)
      else
        rcheck (length (kv_lens dat) > 0) ''req_data.lens cannot be empty''
        (rcheck (kv_lens dat ! 0 = 0) ''req_data.lens[0] == 0''
        (case map_of (store d) (word_of_int master_key) of
           None \<Rightarrow> rcheck (length (kv_keys dat) > 1) ''init with empty data is not supported''
             (InitRowSparseStored ops ty master_key req dat (srv, s, d))
         | Some stored \<Rightarrow>
             let d = rsp_buffers ty master_key stored d;
                 add_request = upd_buf master_key (\<lambda>u. u\<lparr>ub_request := ub_request u @ [req]\<rparr>)
             in if length (kv_keys dat) = 1 then
                  if sync_mode d then
                    let d = (if ub_request (update_buf d master_key) = []
                             then upd_buf master_key (\<lambda>u. u\<lparr>ub_merged := Some (nd_alloc_rsp (nd_shape stored)
                                    (if has_multi_precision_copy ty d then kFloat32 else dtype ty))\<rparr>) d else d)
                    in ApplyUpdates ops ty (word_of_int master_key) (srv, s, add_request d)
                  else rmap (\<lambda>s. (srv, s, d)) (server_Response req KVPairs srv s)
                else
                  rbind (rsp_received ty stored master_key dat s) (\<lambda>recved.
                  rbind (merge_rsp ops ty master_key recved d) (\<lambda>d.
                  ApplyUpdates ops ty (word_of_int master_key) (srv, s, add_request d)))))))) "

section \<open>Dispatch\<close>

definition DataHandleEx :: "ndops \<Rightarrow> (fl list \<Rightarrow> bytes) \<Rightarrow> dstore req_handle" where
  "DataHandleEx ops float_bytes req dat sa =
     rbind (DepairDataHandleType (km_cmd req)) (\<lambda>ty.
       if requestType ty = 1 then DataHandleRowSparse ops ty req dat sa
       else if requestType ty = 2 then DataHandleCompressed ops float_bytes ty req dat sa
       else if requestType ty = 0 then DataHandleDefault ops ty req dat sa
       else Inr sa)"

section \<open>Command numbers round trip\<close>

lemma isqrt_eq:
  assumes "s * s \<le> n" "n < (s + 1) * (s + 1)"
  shows "isqrt n = s"
proof -
  have sn: "s \<le> n" using assms(1) by (cases s) auto
  have split: "[1..<Suc n] = [1..<Suc s] @ [Suc s..<Suc n]"
    using sn upt_add_eq_append [of 1 "Suc s" "n - s"] by simp
  have low: "r * r \<le> n" if "r \<in> set [1..<Suc s]" for r
  proof -
    have "r * r \<le> s * s" using that by (intro mult_mono) auto
    with assms(1) show ?thesis by simp
  qed
  have "takeWhile (\<lambda>r. r * r \<le> n) [Suc s..<Suc n] = []"
    using assms(2) by (cases "s < n") (auto simp: upt_conv_Cons simp del: upt_Suc)
  then have "takeWhile (\<lambda>r. r * r \<le> n) [1..<Suc n] = [1..<Suc s]"
    unfolding split using low takeWhile_append2 [of "[1..<Suc s]" "\<lambda>r. r * r \<le> n"] by simp
  then show ?thesis by (simp add: isqrt_def)
qed

lemma triangle_even: "(w * w + w) sdiv 2 * 2 = (w * w + w :: int)" if "0 \<le> w"
proof -
  have "even (w * w + w)" by simp
  moreover have "(w * w + w) sdiv 2 = (w * w + w) div 2"
    using that by (cases "w = 0") (simp_all add: signed_divide_int_def sgn_if add_pos_pos)
  ultimately show ?thesis by simp
qed

lemma Depair_GetCommandType:
  assumes "0 \<le> d" "d \<le> 10000"
  shows "DepairDataHandleType (GetCommandType r d) = Inr \<lparr>requestType = request_number r, dtype = d\<rparr>"
proof -
  define m where "m = request_number r"
  define w where "w = m + d"
  have m: "0 \<le> m" "m \<le> 2" by (cases r; simp add: m_def)+
  have w: "0 \<le> w" "d \<le> w" "w \<le> 10002" using m assms by (auto simp: w_def)
  define t where "t = (w * w + w) sdiv 2"
  have t2: "t * 2 = w * w + w" using triangle_even [OF w(1)] by (simp add: t_def)
  have cmd: "GetCommandType r d = t + d"
    by (simp add: GetCommandType_def Let_def t_def w_def flip: m_def) (simp add: algebra_simps)
  have ww: "w * w \<le> 10002 * 10002" using w by (intro mult_mono) auto
  have x: "8 * (t + d) + 1 = 4 * (w * w + w) + 8 * d + 1" using t2 by simp
  let ?n = "nat (8 * (t + d) + 1)"
  have lo: "(2 * w + 1) * (2 * w + 1) \<le> 8 * (t + d) + 1" using x assms(1) by (simp add: algebra_simps)
  have hi: "8 * (t + d) + 1 < (2 * w + 3) * (2 * w + 3)" using x w(2) by (simp add: algebra_simps)
  define s where "s = isqrt ?n"
  have "s = nat (2 * w + 1) \<or> s = nat (2 * w + 2)"
  proof (cases "8 * (t + d) + 1 < (2 * w + 2) * (2 * w + 2)")
    case True
    have "isqrt ?n = nat (2 * w + 1)"
    proof (rule isqrt_eq)
      show "nat (2 * w + 1) * nat (2 * w + 1) \<le> ?n" using lo w(1) by (simp add: nat_mult_distrib [symmetric])
      show "?n < (nat (2 * w + 1) + 1) * (nat (2 * w + 1) + 1)"
        using True w(1)
        by (simp add: nat_add_distrib [symmetric] nat_mult_distrib [symmetric] add.commute flip: nat_1)
    qed
    then show ?thesis by (simp add: s_def)
  next
    case False
    have "isqrt ?n = nat (2 * w + 2)"
    proof (rule isqrt_eq)
      show "nat (2 * w + 2) * nat (2 * w + 2) \<le> ?n" using False w(1) by (simp add: nat_mult_distrib [symmetric])
      show "?n < (nat (2 * w + 2) + 1) * (nat (2 * w + 2) + 1)"
        using hi w(1)
        by (simp add: nat_add_distrib [symmetric] nat_mult_distrib [symmetric] add.commute flip: nat_1)
    qed
    then show ?thesis by (simp add: s_def)
  qed
  then have "(int s - 1) div 2 = w" using w(1) by auto
  moreover have t0: "0 \<le> t" using t2 w(1) zero_le_square [of w] by linarith
  moreover have "8 * (t + d) + 1 \<le> INT_MAX" using t2 w ww assms by (simp add: INT_MAX_def)
  ultimately show ?thesis
    using assms(1) m by (auto simp: DepairDataHandleType_def cmd cint_in_range_def Let_def s_def t_def w_def m_def INT_MAX_def)
qed

section \<open>The executor runs its blocks in order\<close>

lemma Start_runs:
  assumes "ex_running e" "ex_queue e = map (\<lambda>(i, f). (i, Some f)) bs @ (j, None) # q"
  shows "(Start_step ^^ (length bs + 1)) (e, s) =
    (e\<lparr>ex_queue := q, ex_finished := ex_finished e @ map fst bs @ [j], ex_running := False\<rparr>, fold snd bs s)"
  using assms
proof (induction bs arbitrary: e s)
  case Nil
  then show ?case by simp
next
  case (Cons b bs)
  obtain i f where b: "b = (i, f)" by (cases b)
  let ?e = "e\<lparr>ex_queue := map (\<lambda>(i, f). (i, Some f)) bs @ (j, None) # q, ex_finished := ex_finished e @ [i]\<rparr>"
  have "Start_step (e, s) = (?e, f s)" using Cons.prems by (simp add: b)
  then have "(Start_step ^^ (length (b # bs) + 1)) (e, s) = (Start_step ^^ (length bs + 1)) (?e, f s)"
    by (simp add: funpow_swap1)
  with Cons.IH [of ?e "f s"] Cons.prems(1) show ?case by (simp add: b)
qed

section \<open>Aggregation\<close>

text \<open>A dense single-precision push of one key, and the array of \<open>n\<close> floats a server makes of it.\<close>

definition one_push :: "key \<Rightarrow> bytes \<Rightarrow> kvpairs" where
  "one_push k v = \<lparr>kv_keys = [k], kv_vals = v, kv_lens = [int (length v)]\<rparr>"

definition float_array :: "int \<Rightarrow> bytes \<Rightarrow> ndarray" where
  "float_array n v = \<lparr>nd_dtype = kFloat32, nd_shape = [n], nd_data = Some v, nd_rows = None\<rparr>"

definition float_type :: data_handle_type where
  "float_type = \<lparr>requestType = 0, dtype = kFloat32\<rparr>"

text \<open>A synchronous server without an updater that has collected the requests \<open>rs\<close> for a key.\<close>

definition collected :: "key \<Rightarrow> int \<Rightarrow> kvmeta list \<Rightarrow> bytes \<Rightarrow> dstore \<Rightarrow> bool" where
  "collected k n rs acc d \<longleftrightarrow> sync_mode d \<and> \<not> multi_precision d \<and> updater d = None \<and>
     ub_request (update_buf d (key_int k)) = rs \<and>
     (rs \<noteq> [] \<longrightarrow> ub_merged (update_buf d (key_int k)) = Some (float_array n acc) \<and>
        map_of (store d) k = Some (nd_alloc [n] kFloat32))"

definition add_push :: "ndops \<Rightarrow> kvmeta list \<Rightarrow> bytes \<Rightarrow> bytes \<Rightarrow> bytes" where
  "add_push ops rs acc v = (if rs = [] then v else op_plus ops kFloat32 acc v)"

lemma no_mp [simp]: "\<not> has_multi_precision_copy float_type d"
  by (simp add: has_multi_precision_copy_def float_type_def)

lemma float_type_simps [simp]: "dtype float_type = kFloat32" "requestType float_type = 0"
  by (simp_all add: float_type_def)

lemma upd_buf_simps [simp]:
  "sync_mode (upd_buf k f d) = sync_mode d" "multi_precision (upd_buf k f d) = multi_precision d"
  "updater (upd_buf k f d) = updater d" "store (upd_buf k f d) = store d" "store_realt (upd_buf k f d) = store_realt d"
  "update_buf (upd_buf k f d) = (update_buf d)(k := f (update_buf d k))"
  by (simp_all add: upd_buf_def)

lemma set_store_simps [simp]:
  "sync_mode (set_store k a d) = sync_mode d" "multi_precision (set_store k a d) = multi_precision d"
  "updater (set_store k a d) = updater d" "update_buf (set_store k a d) = update_buf d"
  "map_of (store (set_store k (Some x) d)) = (map_of (store d))(k \<mapsto> x)"
  by (simp_all add: set_store_def update_conv' split: option.splits)

lemma note_init_simps [simp]:
  "sync_mode (note_init k d) = sync_mode d" "multi_precision (note_init k d) = multi_precision d"
  "updater (note_init k d) = updater d" "update_buf (note_init k d) = update_buf d"
  "store (note_init k d) = store d" "store_realt (note_init k d) = store_realt d"
  by (simp_all add: note_init_def Let_def)

lemma collected_note_init [simp]: "collected k n rs acc (note_init k' d) = collected k n rs acc d"
  by (simp add: collected_def)

lemma nd_received_floats:
  assumes "int (length v) = 4 * n" "0 \<le> n" "n < 2 ^ 61"
  shows "nd_received kFloat32 v (int (length v)) = Inr (float_array n v)"
proof -
  have "int (length v) mod 2 ^ 64 = int (length v)" using assms by simp
  moreover have "nat n * 4 = length v" using assms by linarith
  ultimately show ?thesis
    using assms(1) by (simp add: nd_received_def mshadow_sizeof_def type_sizes_def kFloat32_def real_type_def float_array_def)
qed

lemma copy_floats:
  "0 < n \<Longrightarrow> CopyFromTo ops (Some (float_array n v)) (Some (nd_alloc [n] kFloat32)) = Inr (Some (float_array n v))"
  by (rule CopyFromTo_same) (simp_all add: float_array_def nd_alloc_def shape_size_def)

lemma merge_push_collects:
  assumes "collected k n rs acc d" "0 < n"
  shows "\<exists>d'. merge_push ops float_type k (float_array n v) d = Inr d' \<and>
    collected k n (rs @ [req]) (add_push ops rs acc v)
      (upd_buf (key_int k) (\<lambda>u. u\<lparr>ub_request := ub_request u @ [req]\<rparr>) d')"
proof (cases "rs = []")
  case True
  have sh: "nd_shape (float_array n v) = [n]" by (simp add: float_array_def)
  from True assms show ?thesis
    by (auto simp: merge_push_def collected_def Let_def copy_floats sh set_stored_def add_push_def)
next
  case False
  have "nd_iadd ops (Some (float_array n acc)) (Some (float_array n v)) = Inr (Some (float_array n (op_plus ops kFloat32 acc v)))"
    by (simp add: nd_iadd_def float_array_def)
  with False assms show ?thesis
    by (auto simp: merge_push_def collected_def Let_def add_push_def)
qed

text \<open>A push that does not complete the round changes the buffers only.\<close>

definition tree_push :: "int \<Rightarrow> kvmeta \<Rightarrow> bool" where
  "tree_push v req \<longleftrightarrow> km_push req \<and> km_num_merge req \<noteq> 0 \<and> km_version req = v"

lemma DataHandleDefault_update:
  assumes "tree_push v req" "int (length x) = 4 * n" "0 < n" "n < 2 ^ 61"
  shows "DataHandleDefault ops float_type req (one_push k x) (srv, s, d) =
    push_update ops float_type k req (float_array n x) (srv, s, note_init k d)"
  using assms nd_received_floats [of x n]
  by (simp add: DataHandleDefault_def one_push_def tree_push_def Let_def)

lemma push_collects:
  assumes "tree_push v req" "int (length x) = 4 * n" "0 < n" "n < 2 ^ 61" "collected k n rs acc d"
    and "vec_at (ks_sons srv) v = Inr ss" "Suc (length rs) < length ss" "int (length ss) \<le> num_workers (npo s)"
  shows "\<exists>d'. DataHandleDefault ops float_type req (one_push k x) (srv, s, d) = Inr (srv, s, d') \<and>
    collected k n (rs @ [req]) (add_push ops rs acc x) d'"
proof -
  obtain d' where m: "merge_push ops float_type k (float_array n x) (note_init k d) = Inr d'"
    and c: "collected k n (rs @ [req]) (add_push ops rs acc x)
        (upd_buf (key_int k) (\<lambda>u. u\<lparr>ub_request := ub_request u @ [req]\<rparr>) d')"
    using merge_push_collects [of k n rs acc "note_init k d" ops x req] assms(3,5) by auto
  let ?d = "upd_buf (key_int k) (\<lambda>u. u\<lparr>ub_request := ub_request u @ [req]\<rparr>) d'"
  have len: "length (ub_request (update_buf ?d (key_int k))) = Suc (length rs)" "sync_mode ?d"
    using c by (simp_all add: collected_def)
  have "ApplyUpdates ops float_type k (srv, s, ?d) = Inr (srv, s, ?d)"
    using len assms(7,8) by (simp add: ApplyUpdates_def)
  then show ?thesis
    using DataHandleDefault_update [OF assms(1-4)] m c len assms(1,6,7)
    by (auto simp: push_update_def tree_push_def Let_def)
qed

lemma one_kv_floats: "one_kv k (Some (float_array n v)) = Inr (one_push k v)"
  by (simp add: one_kv_def float_array_def nd_bytes_def one_push_def)

text \<open>What a completed round leaves: the sum in the store and no request.\<close>

definition round_done :: "key \<Rightarrow> int \<Rightarrow> bytes \<Rightarrow> dstore \<Rightarrow> bool" where
  "round_done k n acc d \<longleftrightarrow> collected k n [] acc d \<and> map_of (store d) k = Some (float_array n acc)"

lemma deliver_up_done:
  assumes "collected k n rs acc d" "rs \<noteq> []" "0 < n"
  shows "\<exists>d'. deliver_up ops k req (srv, s, d) =
      rmap (\<lambda>s'. (srv, s', d')) (server_Push req (one_push k acc) srv s) \<and> round_done k n acc d'"
proof -
  let ?d = "upd_buf (key_int k) (\<lambda>u. u\<lparr>ub_request := []\<rparr>) (set_store k (Some (float_array n acc)) d)"
  have "deliver_up ops k req (srv, s, d) =
      rbind (server_Push req (one_push k acc) srv s) (\<lambda>s'. Inr (srv, s', ?d))"
    using assms by (simp add: deliver_up_def collected_def copy_floats one_kv_floats Let_def)
  moreover have "round_done k n acc ?d" using assms(1) by (simp add: round_done_def collected_def)
  ultimately show ?thesis by (cases "server_Push req (one_push k acc) srv s") auto
qed

lemma ApplyUpdates_done:
  assumes "collected k n rs acc d" "rs = r # rs'" "0 < n" "int (length rs) = num_workers (npo s)"
  shows "\<exists>d'. ApplyUpdates ops float_type k (srv, s, d) =
      rmap (\<lambda>s'. (srv, s', d')) (ResponseAll r (one_push k acc) srv s) \<and> round_done k n acc d'"
proof -
  let ?d = "upd_buf (key_int k) (\<lambda>u. u\<lparr>ub_request := []\<rparr>) (set_store k (Some (float_array n acc)) d)"
  have "run_updater ops float_type k d = Inr (set_store k (Some (float_array n acc)) d)"
    using assms by (simp add: run_updater_def collected_def copy_floats stored_at_def set_stored_def Let_def)
  then have "ApplyUpdates ops float_type k (srv, s, d) =
      rbind (ResponseAll r (one_push k acc) srv s) (\<lambda>s'. Inr (srv, s', ?d))"
    using assms by (simp add: ApplyUpdates_def collected_def stored_at_def one_kv_floats)
  moreover have "round_done k n acc ?d" using assms(1) by (simp add: round_done_def collected_def)
  ultimately show ?thesis by (cases "ResponseAll r (one_push k acc) srv s") auto
qed

lemma push_completes:
  assumes "tree_push v req" "int (length x) = 4 * n" "0 < n" "n < 2 ^ 61" "collected k n rs acc d"
    and "vec_at (ks_sons srv) v = Inr ss" "Suc (length rs) = length ss" "int (length ss) \<le> num_workers (npo s)"
  shows "\<exists>d'. DataHandleDefault ops float_type req (one_push k x) (srv, s, d) =
      rmap (\<lambda>s'. (srv, s', d'))
        (if v = MyRank s then ResponseAll (hd (rs @ [req])) (one_push k (add_push ops rs acc x)) srv s
         else server_Push req (one_push k (add_push ops rs acc x)) srv s) \<and>
    round_done k n (add_push ops rs acc x) d'"
proof -
  let ?acc = "add_push ops rs acc x"
  obtain d' where m: "merge_push ops float_type k (float_array n x) (note_init k d) = Inr d'"
    and c: "collected k n (rs @ [req]) ?acc
        (upd_buf (key_int k) (\<lambda>u. u\<lparr>ub_request := ub_request u @ [req]\<rparr>) d')"
    using merge_push_collects [of k n rs acc "note_init k d" ops x req] assms(3,5) by auto
  let ?d = "upd_buf (key_int k) (\<lambda>u. u\<lparr>ub_request := ub_request u @ [req]\<rparr>) d'"
  have reqs: "ub_request (update_buf ?d (key_int k)) = rs @ [req]" using c by (simp add: collected_def)
  then have len: "length (ub_request (update_buf ?d (key_int k))) = length ss" using assms(7) by simp
  note handle = DataHandleDefault_update [OF assms(1-4), of ops k srv s d]
  show ?thesis
  proof (cases "v = MyRank s")
    case False
    with handle m len assms(1,6) have "DataHandleDefault ops float_type req (one_push k x) (srv, s, d) =
        deliver_up ops k req (srv, s, ?d)"
      by (simp add: push_update_def tree_push_def Let_def)
    with False deliver_up_done [OF c _ assms(3), of ops req srv s] show ?thesis by auto
  next
    case True
    let ?pad = "pad_requests (num_workers (npo s)) req (rs @ [req])"
    let ?d2 = "upd_buf (key_int k) (\<lambda>u. u\<lparr>ub_request := pad_requests (num_workers (npo s)) req (ub_request u)\<rparr>) ?d"
    have "collected k n ?pad ?acc ?d2" using c by (simp add: collected_def pad_requests_def)
    moreover obtain r rs' where r: "rs @ [req] = r # rs'" by (cases rs) auto
    then have "?pad = r # (rs' @ replicate (nat (num_workers (npo s)) - length (rs @ [req])) req)"
      by (simp add: pad_requests_def)
    moreover have "int (length ?pad) = num_workers (npo s)" using assms(7,8) by (simp add: pad_requests_def)
    ultimately obtain d2 where "ApplyUpdates ops float_type k (srv, s, ?d2) =
        rmap (\<lambda>s'. (srv, s', d2)) (ResponseAll r (one_push k ?acc) srv s)" "round_done k n ?acc d2"
      using ApplyUpdates_done [of k n ?pad ?acc ?d2 r] assms(3) by blast
    moreover have "DataHandleDefault ops float_type req (one_push k x) (srv, s, d) =
        ApplyUpdates ops float_type k (srv, s, ?d2)"
      using True handle m len assms(1,6) by (simp add: push_update_def tree_push_def Let_def)
    ultimately show ?thesis using True r by auto
  qed
qed

text \<open>A round: the pushes of the children of a node, in any order.\<close>

definition handle_pushes :: "ndops \<Rightarrow> key \<Rightarrow> (kvmeta \<times> bytes) list \<Rightarrow> sstate \<Rightarrow> sstate res" where
  "handle_pushes ops k ps sa = rfold (\<lambda>p. DataHandleDefault ops float_type (fst p) (one_push k (snd p))) ps sa"

fun pushed_sum :: "ndops \<Rightarrow> bytes list \<Rightarrow> bytes" where
  "pushed_sum ops [] = []"
| "pushed_sum ops (x # xs) = foldl (op_plus ops kFloat32) x xs"

lemma pushed_sum_snoc: "pushed_sum ops (xs @ [x]) = (if xs = [] then x else op_plus ops kFloat32 (pushed_sum ops xs) x)"
  by (cases xs) auto

definition good_pushes :: "int \<Rightarrow> int \<Rightarrow> (kvmeta \<times> bytes) list \<Rightarrow> bool" where
  "good_pushes v n ps \<longleftrightarrow> (\<forall>p \<in> set ps. tree_push v (fst p) \<and> int (length (snd p)) = 4 * n) \<and> 0 < n \<and> n < 2 ^ 61"

lemma handle_pushes_collect:
  assumes "good_pushes v n ps" "collected k n [] acc d" "vec_at (ks_sons srv) v = Inr ss"
    and "length ps < length ss" "int (length ss) \<le> num_workers (npo s)"
  shows "\<exists>d'. handle_pushes ops k ps (srv, s, d) = Inr (srv, s, d') \<and>
    collected k n (map fst ps) (if ps = [] then acc else pushed_sum ops (map snd ps)) d'"
  using assms(1,4)
proof (induction ps rule: rev_induct)
  case Nil
  with assms(2) show ?case by (auto simp: handle_pushes_def)
next
  case (snoc p ps)
  then obtain d1 where d1: "handle_pushes ops k ps (srv, s, d) = Inr (srv, s, d1)"
    "collected k n (map fst ps) (if ps = [] then acc else pushed_sum ops (map snd ps)) d1"
    by (auto simp: good_pushes_def)
  have g: "tree_push v (fst p)" "int (length (snd p)) = 4 * n" "0 < n" "n < 2 ^ 61"
    using snoc.prems(1) by (auto simp: good_pushes_def)
  have l: "Suc (length (map fst ps)) < length ss" using snoc.prems(2) by simp
  from push_collects [OF g d1(2) assms(3) l assms(5), of ops]
  show ?case
    using d1(1) by (auto simp: handle_pushes_def rfold_append add_push_def pushed_sum_snoc split: if_splits)
qed

lemma rbind_rfold_Nil: "rbind r (rfold f []) = r"
  by (cases r) auto

lemma handle_pushes_round:
  assumes "good_pushes v n ps" "collected k n [] acc d" "vec_at (ks_sons srv) v = Inr ss"
    and "ps \<noteq> []" "length ps = length ss" "int (length ss) \<le> num_workers (npo s)"
  shows "\<exists>d'. handle_pushes ops k ps (srv, s, d) =
      rmap (\<lambda>s'. (srv, s', d'))
        (if v = MyRank s then ResponseAll (fst (hd ps)) (one_push k (pushed_sum ops (map snd ps))) srv s
         else server_Push (fst (last ps)) (one_push k (pushed_sum ops (map snd ps))) srv s) \<and>
    round_done k n (pushed_sum ops (map snd ps)) d'"
proof -
  obtain qs p where ps: "ps = qs @ [p]" using assms(4) by (metis rev_exhaust)
  have gq: "good_pushes v n qs" and g: "tree_push v (fst p)" "int (length (snd p)) = 4 * n" "0 < n" "n < 2 ^ 61"
    using assms(1) by (auto simp: good_pushes_def ps)
  obtain d1 where d1: "handle_pushes ops k qs (srv, s, d) = Inr (srv, s, d1)"
    "collected k n (map fst qs) (if qs = [] then acc else pushed_sum ops (map snd qs)) d1"
    using handle_pushes_collect [OF gq assms(2,3) _ assms(6), of ops] assms(5) ps by auto
  have acc: "add_push ops (map fst qs) (if qs = [] then acc else pushed_sum ops (map snd qs)) (snd p) =
      pushed_sum ops (map snd ps)"
    by (simp add: add_push_def ps pushed_sum_snoc)
  have h: "hd (map fst qs @ [fst p]) = fst (hd ps)" by (cases qs) (simp_all add: ps)
  have "Suc (length (map fst qs)) = length ss" using assms(5) ps by simp
  from push_completes [OF g d1(2) assms(3) this assms(6), of ops, unfolded acc h] d1(1)
  show ?thesis by (auto simp: handle_pushes_def ps rfold_append rbind_rfold_Nil)
qed

section \<open>What goes wrong with 64-bit keys and with an updater\<close>

lemma map_of_set_realt: "map_of (store_realt (set_realt k (Some x) d)) = (map_of (store_realt d))(k \<mapsto> x)"
  by (simp add: set_realt_def update_conv')

lemma realt_copy_other:
  assumes "realt_copy ops (k', a) d = Inr d'" "word_of_int (key_int k') \<noteq> k"
  shows "map_of (store_realt d') k = map_of (store_realt d) k"
  using assms
  by (auto simp: realt_copy_def Let_def rcheck_Inr_iff rmap_Inr_iff set_realt_def update_conv'
      split: if_splits option.splits)

text \<open>The copies are stored under the key truncated to 32 bits and extended again.\<close>

lemma CreateMultiPrecisionCopies_misses:
  assumes "CreateMultiPrecisionCopies ops d = Inr d'" "\<forall>k' \<in> fst ` set (store d). word_of_int (key_int k') \<noteq> k"
  shows "map_of (store_realt d') k = map_of (store_realt d) k"
proof -
  have "map_of (store_realt d') k = map_of (store_realt e) k"
    if "rfold (realt_copy ops) es e = Inr d'" "\<forall>k' \<in> fst ` set es. word_of_int (key_int k') \<noteq> k" for es e
    using that
  proof (induction es arbitrary: e)
    case (Cons x es)
    then obtain e1 where e1: "realt_copy ops x e = Inr e1" "rfold (realt_copy ops) es e1 = Inr d'"
      by (auto simp: rbind_Inr_iff)
    from realt_copy_other [of ops "fst x" "snd x" e e1 k] Cons.IH [OF e1(2)] e1(1) Cons.prems(2) show ?case by simp
  qed simp
  with assms show ?thesis by (simp add: CreateMultiPrecisionCopies_def)
qed

text \<open>In synchronous mode the first push of a round replaces the stored value by uninitialised memory.\<close>

lemma merge_push_discards_stored:
  assumes "merge_push ops float_type k recved d = Inr d'" "sync_mode d" "ub_request (update_buf d (key_int k)) = []"
  shows "stored_at float_type k d' = Some (nd_alloc (nd_shape recved) kFloat32)"
  using assms
  by (auto simp: merge_push_def Let_def rmap_Inr_iff stored_at_def set_stored_def)

end
