(* ===== verification/MX_Reduce.thy ===== *)
theory MX_Reduce
  imports NS_Prelude
begin

text \<open>
  The summation kernels on the CPU: the dense reduction of \<open>CommCPU\<close> in groups of four arrays and
  parallel chunks, the serial and the parallel sum of row-sparse arrays
  (\<open>src/kvstore/comm.h\<close>, \<open>src/ndarray/ndarray_function.cc\<close>), the selection of rows
  (\<open>src/operator/tensor/sparse_retain-inl.h\<close>) and the sorting of row ids
  (\<open>src/kvstore/kvstore_utils.cc\<close>). The element type and its addition are arguments: floating
  point addition is not associative, so the theorems keep the order of the additions. A row-sparse
  array is the list of its rows with their indices; a position in it is the list from there on.
\<close>

section \<open>Dense sums\<close>

text \<open>The loop over the other arrays, four at a time.\<close>

fun reduce_rest :: "('e \<Rightarrow> 'e \<Rightarrow> 'e) \<Rightarrow> 'e list \<Rightarrow> 'e list list \<Rightarrow> 'e list" where
  "reduce_rest pl x [] = x"
| "reduce_rest pl x [a] = map2 pl x a"
| "reduce_rest pl x [a, b] = map2 pl x (map2 pl a b)"
| "reduce_rest pl x [a, b, c] = map2 pl x (map2 pl (map2 pl a b) c)"
| "reduce_rest pl x (a # b # c # d # rest) =
     reduce_rest pl (map2 pl x (map2 pl (map2 pl (map2 pl a b) c) d)) rest"

text \<open>The first array after \<open>size\<close> elements from \<open>offset\<close> on were summed into it.\<close>

definition ReduceSumCPU :: "('e \<Rightarrow> 'e \<Rightarrow> 'e) \<Rightarrow> 'e list list \<Rightarrow> nat \<Rightarrow> nat \<Rightarrow> 'e list \<Rightarrow> 'e list" where
  "ReduceSumCPU pl others offset sz x =
     take offset x @ reduce_rest pl (take sz (drop offset x)) (map (take sz \<circ> drop offset) others) @
     drop (offset + sz) x"

text \<open>One task of the parallel loop.\<close>

definition reduce_task :: "('e \<Rightarrow> 'e \<Rightarrow> 'e) \<Rightarrow> 'e list list \<Rightarrow> nat \<Rightarrow> nat \<Rightarrow> nat \<Rightarrow> nat \<Rightarrow> 'e list \<Rightarrow> 'e list res" where
  "reduce_task pl others step ntask tot j x =
     (let b = min (j * step) tot; e = min ((j + 1) * step) tot in
      rcheck (j = ntask - 1 \<longrightarrow> e = tot) ''end == tot''
        (Inr (ReduceSumCPU pl others b (e - b) x)))"

text \<open>\<open>order\<close> is the order in which the threads execute the tasks.\<close>

definition ReduceSumCPUImpl ::
  "('e \<Rightarrow> 'e \<Rightarrow> 'e) \<Rightarrow> nat \<Rightarrow> int \<Rightarrow> (nat \<Rightarrow> nat list) \<Rightarrow> 'e list list \<Rightarrow> nat \<Rightarrow> 'e list \<Rightarrow> 'e list res" where
  "ReduceSumCPUImpl pl bound nthread order others tot x =
     (let step = min bound 4096; ntask = (tot + step - 1) div step in
      if step = 0 then Inl (Undefined ''division by zero'')
      else if tot < bound \<or> nthread \<le> 1 then Inr (ReduceSumCPU pl others 0 tot x)
      else rfold (reduce_task pl others step ntask tot) (order ntask) x)"

section \<open>Row-sparse sums\<close>

type_synonym 'v rows = "(int \<times> 'v) list"

text \<open>\<open>std::unique\<close> keeps the first of each run of equal elements.\<close>

fun std_unique :: "'a list \<Rightarrow> 'a list" where
  "std_unique (x # y # zs) = (if x = y then std_unique (x # zs) else x # std_unique (y # zs))"
| "std_unique xs = xs"

definition GetUniqueRspRowIdx :: "'v rows list \<Rightarrow> int list" where
  "GetUniqueRspRowIdx nds = std_unique (sort (concat (map (map fst) nds)))"

definition UniqueImpl :: "int list \<Rightarrow> int list" where
  "UniqueImpl ids = std_unique (sort ids)"

text \<open>
  \<open>ReduceSumCPUExSerial\<close>: for one index the loop over the inputs, which adds the inputs
  whose position has that index and moves these positions on; no value is None.
\<close>

fun serial_row :: "('v \<Rightarrow> 'v \<Rightarrow> 'v) \<Rightarrow> int \<Rightarrow> 'v rows list \<Rightarrow> 'v option \<Rightarrow> 'v option \<times> 'v rows list" where
  "serial_row pl i [] acc = (acc, [])"
| "serial_row pl i ([] # rs) acc = (case serial_row pl i rs acc of (a, rs') \<Rightarrow> (a, [] # rs'))"
| "serial_row pl i (((j, v) # r) # rs) acc =
     (if i = j
      then case serial_row pl i rs (Some (case acc of None \<Rightarrow> v | Some a \<Rightarrow> pl a v)) of (a, rs') \<Rightarrow> (a, r # rs')
      else case serial_row pl i rs acc of (a, rs') \<Rightarrow> (a, ((j, v) # r) # rs'))"

fun serial_rows :: "('v \<Rightarrow> 'v \<Rightarrow> 'v) \<Rightarrow> int list \<Rightarrow> 'v rows list \<Rightarrow> (int \<times> 'v option) list" where
  "serial_rows pl [] offsets = []"
| "serial_rows pl (i # is) offsets =
     (case serial_row pl i offsets None of (v, offsets') \<Rightarrow> (i, v) # serial_rows pl is offsets')"

definition ReduceSumCPUExSerial :: "('v \<Rightarrow> 'v \<Rightarrow> 'v) \<Rightarrow> 'v rows list \<Rightarrow> (int \<times> 'v option) list" where
  "ReduceSumCPUExSerial pl nds = serial_rows pl (GetUniqueRspRowIdx nds) nds"

text \<open>
  \<open>ElementwiseSumRspImpl\<close>: every thread adds all inputs to its block of the output rows.
  \<open>std::lower_bound\<close> on ascending indices is \<open>dropWhile\<close>.
\<close>

fun merge_rows :: "('v \<Rightarrow> 'v \<Rightarrow> 'v) \<Rightarrow> 'v rows \<Rightarrow> 'v rows \<Rightarrow> 'v rows" where
  "merge_rows pl [] nd = []"
| "merge_rows pl out [] = out"
| "merge_rows pl ((i, a) # out) ((j, v) # nd) =
     (if i = j then (i, pl a v) # merge_rows pl out nd
      else if i < j then (i, a) # merge_rows pl out ((j, v) # nd)
      else merge_rows pl ((i, a) # out) nd)"

definition add_to_block :: "('v \<Rightarrow> 'v \<Rightarrow> 'v) \<Rightarrow> 'v rows \<Rightarrow> 'v rows \<Rightarrow> 'v rows" where
  "add_to_block pl nd block =
     (let p = dropWhile (\<lambda>x. fst x < fst (hd block)) nd in
      if p = [] \<or> fst (hd p) > fst (last block) then block else merge_rows pl block p)"

definition sum_block :: "('v \<Rightarrow> 'v \<Rightarrow> 'v) \<Rightarrow> 'v \<Rightarrow> 'v rows list \<Rightarrow> int list \<Rightarrow> nat \<Rightarrow> nat \<Rightarrow> 'v rows" where
  "sum_block pl zero nds uniq threads t =
     (let nnr = length uniq; len = (nnr + threads - 1) div threads; b = t * len; e = min (b + len) nnr in
      if b < nnr then fold (add_to_block pl) nds (map (\<lambda>i. (i, zero)) (take (e - b) (drop b uniq))) else [])"

definition ElementwiseSumRspImpl :: "('v \<Rightarrow> 'v \<Rightarrow> 'v) \<Rightarrow> 'v \<Rightarrow> 'v rows list \<Rightarrow> int list \<Rightarrow> nat \<Rightarrow> 'v rows" where
  "ElementwiseSumRspImpl pl zero nds uniq threads =
     concat (map (sum_block pl zero nds uniq threads) [0..<threads])"

definition ElementwiseSumRsp :: "('v \<Rightarrow> 'v \<Rightarrow> 'v) \<Rightarrow> 'v \<Rightarrow> nat \<Rightarrow> 'v rows list \<Rightarrow> 'v rows" where
  "ElementwiseSumRsp pl zero threads nds = ElementwiseSumRspImpl pl zero nds (GetUniqueRspRowIdx nds) threads"

section \<open>Selecting rows\<close>

text \<open>The binary search of the kernel; \<open>-1\<close> when the index is absent.\<close>

function retain_search :: "int list \<Rightarrow> int \<Rightarrow> int \<Rightarrow> int \<Rightarrow> int" where
  "retain_search idx irow left right =
     (if left \<le> right then
        let m = left + (right - left) div 2; x = idx ! nat m in
        if x = irow then m
        else if x < irow then retain_search idx irow (m + 1) right
        else retain_search idx irow left (m - 1)
      else - 1)"
  by auto
termination
  by (relation "measure (\<lambda>(_, _, left, right). nat (right - left + 1))") auto

declare retain_search.simps [simp del]

definition SparseRetainRspThreadKernel :: "'v \<Rightarrow> 'v rows \<Rightarrow> int \<Rightarrow> int \<times> 'v" where
  "SparseRetainRspThreadKernel zero rows irow =
     (let j = retain_search (map fst rows) irow 0 (int (length rows) - 1) in
      (irow, if j \<ge> 0 then snd (rows ! nat j) else zero))"

text \<open>The kernel for an input in which every row is present takes the row at the index itself.\<close>

definition retain_dense_row :: "'v rows \<Rightarrow> int \<Rightarrow> (int \<times> 'v) res" where
  "retain_dense_row rows irow = rmap (\<lambda>r. (irow, snd r)) (vec_at rows irow)"

definition SparseRetainOpForwardRspImpl :: "'v \<Rightarrow> int \<Rightarrow> 'v rows \<Rightarrow> int list \<Rightarrow> 'v rows res" where
  "SparseRetainOpForwardRspImpl zero num_rows rows idx =
     (if rows = [] \<or> idx = [] \<or> num_rows = 0 then Inr []
      else if int (length rows) = num_rows then rmap_list (retain_dense_row rows) idx
      else Inr (map (SparseRetainRspThreadKernel zero rows) idx))"

section \<open>The dense sum is elementwise\<close>

fun elem_rest :: "('e \<Rightarrow> 'e \<Rightarrow> 'e) \<Rightarrow> 'e \<Rightarrow> 'e list \<Rightarrow> 'e" where
  "elem_rest pl x [] = x"
| "elem_rest pl x [a] = pl x a"
| "elem_rest pl x [a, b] = pl x (pl a b)"
| "elem_rest pl x [a, b, c] = pl x (pl (pl a b) c)"
| "elem_rest pl x (a # b # c # d # rest) = elem_rest pl (pl x (pl (pl (pl a b) c) d)) rest"

text \<open>With an associative addition it is the sum from left to right.\<close>

lemma elem_rest_foldl:
  assumes "\<And>x y z. pl (pl x y) z = pl x (pl y z)"
  shows "elem_rest pl x xs = foldl pl x xs"
  using assms by (induction pl x xs rule: elem_rest.induct) simp_all

lemma reduce_rest_nth:
  assumes "length x = n" "\<forall>a \<in> set xs. length a = n"
  shows "length (reduce_rest pl x xs) = n \<and>
    (\<forall>k < n. reduce_rest pl x xs ! k = elem_rest pl (x ! k) (map (\<lambda>a. a ! k) xs))"
  using assms by (induction pl x xs rule: reduce_rest.induct) simp_all

lemma ReduceSumCPU_nth:
  assumes "length x = n" "\<forall>a \<in> set others. length a = n" "b + s \<le> n"
  shows "length (ReduceSumCPU pl others b s x) = n \<and>
    (\<forall>k < n. ReduceSumCPU pl others b s x ! k =
       (if b \<le> k \<and> k < b + s then elem_rest pl (x ! k) (map (\<lambda>a. a ! k) others) else x ! k))"
proof -
  let ?xs = "map (take s \<circ> drop b) others" and ?x = "take s (drop b x)"
  have ln: "length ?x = s" "\<forall>a \<in> set ?xs. length a = s" using assms by auto
  note r = reduce_rest_nth [OF ln, of pl]
  have elems: "map (\<lambda>a. a ! (k - b)) ?xs = map (\<lambda>a. a ! k) others" if "b \<le> k" "k < b + s" for k
    using that assms by auto
  show ?thesis
  proof (intro conjI allI impI)
    show "length (ReduceSumCPU pl others b s x) = n"
      using r assms by (simp add: ReduceSumCPU_def)
    fix k assume k: "k < n"
    consider "k < b" | "b \<le> k" "k < b + s" | "b + s \<le> k" by linarith
    then show "ReduceSumCPU pl others b s x ! k =
       (if b \<le> k \<and> k < b + s then elem_rest pl (x ! k) (map (\<lambda>a. a ! k) others) else x ! k)"
    proof cases
      case 2
      then have kb: "k - b < s" by linarith
      from 2 have "ReduceSumCPU pl others b s x ! k = reduce_rest pl ?x ?xs ! (k - b)"
        using r assms k kb by (simp add: ReduceSumCPU_def nth_append)
      also have "\<dots> = elem_rest pl (?x ! (k - b)) (map (\<lambda>a. a ! (k - b)) ?xs)"
        using conjunct2 [OF r] kb by blast
      also have "?x ! (k - b) = x ! k" using 2 kb assms by simp
      finally show ?thesis using 2 by (simp only: elems [OF 2] if_P simp_thms)
    next
      case 3
      then have "\<not> k - b < s" by linarith
      with 3 r assms k show ?thesis by (simp add: ReduceSumCPU_def nth_append)
    qed (use r assms k in \<open>simp add: ReduceSumCPU_def nth_append\<close>)
  qed
qed

lemma div_eq_range: "0 < (s :: nat) \<Longrightarrow> k div s = j \<longleftrightarrow> j * s \<le> k \<and> k < (j + 1) * s"
  by (auto simp: div_nat_eqI dividend_less_times_div div_times_less_eq_dividend mult.commute
      intro!: div_nat_eqI)

definition reduced_in :: "('e \<Rightarrow> 'e \<Rightarrow> 'e) \<Rightarrow> 'e list list \<Rightarrow> nat \<Rightarrow> nat set \<Rightarrow> 'e list \<Rightarrow> 'e list \<Rightarrow> bool" where
  "reduced_in pl others step J x y \<longleftrightarrow> length y = length x \<and>
     (\<forall>k < length x. y ! k = (if k div step \<in> J then elem_rest pl (x ! k) (map (\<lambda>a. a ! k) others) else x ! k))"

lemma reduce_task_step:
  assumes x: "length x = n" "\<forall>a \<in> set others. length a = n" and st: "0 < step"
    and inv: "reduced_in pl others step J x y" and j: "j \<notin> J" "j < ntask" and nt: "ntask = (n + step - 1) div step"
  shows "\<exists>y'. reduce_task pl others step ntask n j y = Inr y' \<and> reduced_in pl others step (insert j J) x y'"
proof -
  let ?b = "min (j * step) n" and ?e = "min ((j + 1) * step) n"
  have le: "?b \<le> ?e" by auto
  then have be: "?b + (?e - ?b) = ?e" "?b + (?e - ?b) \<le> n" by auto
  have last: "n \<le> (j + 1) * step" if "j = ntask - 1"
  proof -
    have "j + 1 = (n + step - 1) div step" using that j nt by simp
    then have "n + step - 1 < (j + 1 + 1) * step" using iffD1 [OF div_eq_range [OF st, of "n + step - 1" "j + 1"]] by metis
    then have "n + step - 1 < (j + 1) * step + step" by simp
    then show ?thesis using st by linarith
  qed
  have ly: "length y = n" using inv x by (simp add: reduced_in_def)
  note r = ReduceSumCPU_nth [OF ly x(2) be(2), of pl]
  let ?y = "ReduceSumCPU pl others ?b (?e - ?b) y"
  have "reduced_in pl others step (insert j J) x ?y"
    unfolding reduced_in_def
  proof (intro conjI allI impI)
    show "length ?y = length x" using r x by simp
    fix k assume k: "k < length x"
    have kn: "k < n" using k x by simp
    have "?b \<le> k \<and> k < ?b + (?e - ?b) \<longleftrightarrow> j * step \<le> k \<and> k < (j + 1) * step"
      unfolding be(1) using kn by (simp add: min_le_iff_disj)
    then have "?y ! k = (if j * step \<le> k \<and> k < (j + 1) * step then elem_rest pl (y ! k) (map (\<lambda>a. a ! k) others) else y ! k)"
      using r kn by presburger
    then have y': "?y ! k = (if k div step = j then elem_rest pl (y ! k) (map (\<lambda>a. a ! k) others) else y ! k)"
      by (simp only: div_eq_range [OF st])
    from inv k have "y ! k = (if k div step \<in> J then elem_rest pl (x ! k) (map (\<lambda>a. a ! k) others) else x ! k)"
      by (simp add: reduced_in_def)
    with y' j show "?y ! k = (if k div step \<in> insert j J then elem_rest pl (x ! k) (map (\<lambda>a. a ! k) others) else x ! k)"
      by auto
  qed
  with last show ?thesis by (auto simp: reduce_task_def Let_def rcheck_def)
qed

text \<open>
  Whatever the order of the parallel tasks, every element is summed once, in the same order of
  additions as in the sequential loop.
\<close>

lemma ReduceSumCPUImpl_elementwise:
  assumes x: "length x = n" "\<forall>a \<in> set others. length a = n" and bound: "0 < bound"
    and order: "\<And>m. mset (order m) = mset [0..<m]"
  shows "ReduceSumCPUImpl pl bound nthread order others n x =
    Inr (map (\<lambda>k. elem_rest pl (x ! k) (map (\<lambda>a. a ! k) others)) [0..<n])"
proof -
  define step where "step = min bound 4096"
  define ntask where "ntask = (n + step - 1) div step"
  have st: "0 < step" using bound by (simp add: step_def)
  have whole: "ReduceSumCPU pl others 0 n x = map (\<lambda>k. elem_rest pl (x ! k) (map (\<lambda>a. a ! k) others)) [0..<n]"
    using ReduceSumCPU_nth [OF x, of 0 n pl] by (auto intro!: nth_equalityI)
  have run: "\<exists>y'. rfold (reduce_task pl others step ntask n) js y = Inr y' \<and> reduced_in pl others step (J \<union> set js) x y'"
    if "reduced_in pl others step J x y" "distinct js" "set js \<inter> J = {}" "\<forall>j \<in> set js. j < ntask" for js J y
    using that
  proof (induction js arbitrary: J y)
    case (Cons j js)
    from reduce_task_step [OF x st Cons.prems(1), of j ntask] Cons.prems obtain y1 where
      y1: "reduce_task pl others step ntask n j y = Inr y1" "reduced_in pl others step (insert j J) x y1"
      by (auto simp: ntask_def)
    from Cons.IH [OF y1(2)] Cons.prems y1(1) show ?case by auto
  qed simp
  have "set (order ntask) = {0..<ntask}" "distinct (order ntask)"
    using order [of ntask] by (metis set_mset_mset set_upt, metis distinct_upt mset_eq_imp_distinct_iff)
  moreover have "reduced_in pl others step {} x x" by (simp add: reduced_in_def)
  ultimately obtain y where y: "rfold (reduce_task pl others step ntask n) (order ntask) x = Inr y"
    "reduced_in pl others step {0..<ntask} x y" using run [of "{}" x "order ntask"] by auto
  have "k div step < ntask" if "k < n" for k
  proof -
    have "(k + step) div step \<le> ntask" using that unfolding ntask_def by (intro div_le_mono) simp
    moreover have "(k + step) div step = k div step + 1" using st by (simp add: div_add_self2)
    ultimately show ?thesis by simp
  qed
  with y(2) x(1) have "y = map (\<lambda>k. elem_rest pl (x ! k) (map (\<lambda>a. a ! k) others)) [0..<n]"
    by (auto simp: reduced_in_def intro!: nth_equalityI)
  with y(1) whole st show ?thesis
    unfolding ReduceSumCPUImpl_def Let_def step_def [symmetric] ntask_def [symmetric] by simp
qed
section \<open>Row-sparse sums\<close>

lemma std_unique_sorted:
  "sorted xs \<Longrightarrow> set (std_unique xs) = set xs \<and> sorted_wrt (<) (std_unique (xs :: ('a :: linorder) list))"
proof (induction xs rule: std_unique.induct)
  case (1 x y zs)
  then show ?case
  proof (cases "x = y")
    case False
    with 1 have "x < y" by (simp add: order_less_le)
    with 1 False show ?thesis by fastforce
  qed auto
qed auto

lemma std_unique_sort: "std_unique (sort xs) = sorted_list_of_set (set (xs :: ('a :: linorder) list))"
proof -
  have "set (std_unique (sort xs)) = set xs" "sorted_wrt (<) (std_unique (sort xs))"
    using std_unique_sorted [of "sort xs"] by auto
  then show ?thesis
    by (metis List.finite_set sorted_list_of_set.idem_if_sorted_distinct strict_sorted_iff)
qed

lemma UniqueImpl_eq: "UniqueImpl ids = sorted_list_of_set (set ids)"
  by (simp add: UniqueImpl_def std_unique_sort)

abbreviation ascending :: "'v rows \<Rightarrow> bool" where
  "ascending nd \<equiv> sorted_wrt (<) (map fst nd)"

definition all_rows :: "'v rows list \<Rightarrow> int set" where
  "all_rows nds = (\<Union>nd \<in> set nds. fst ` set nd)"

lemma GetUniqueRspRowIdx_eq: "GetUniqueRspRowIdx nds = sorted_list_of_set (all_rows nds)"
  by (simp add: GetUniqueRspRowIdx_def std_unique_sort all_rows_def)

text \<open>The values that the inputs have for an index, in the order of the inputs.\<close>

definition rows_at :: "int \<Rightarrow> 'v rows list \<Rightarrow> 'v list" where
  "rows_at i nds = List.map_filter (\<lambda>nd. map_of nd i) nds"

fun sum_first :: "('v \<Rightarrow> 'v \<Rightarrow> 'v) \<Rightarrow> 'v option \<Rightarrow> 'v list \<Rightarrow> 'v option" where
  "sum_first pl acc [] = acc"
| "sum_first pl acc (v # vs) = sum_first pl (Some (case acc of None \<Rightarrow> v | Some a \<Rightarrow> pl a v)) vs"

lemma sum_first_Some: "sum_first pl (Some a) vs = Some (foldl pl a vs)"
  by (induction vs arbitrary: a) auto

lemma sum_first_None: "vs \<noteq> [] \<Longrightarrow> sum_first pl None vs = Some (foldl pl (hd vs) (tl vs))"
  by (cases vs) (auto simp: sum_first_Some)

lemma map_of_ascending_head: "ascending ((j, v) # r) \<Longrightarrow> i < j \<Longrightarrow> map_of ((j, v) # r) i = None"
  by (force simp: map_of_eq_None_iff)

definition from_row :: "int \<Rightarrow> 'v rows \<Rightarrow> 'v rows" where
  "from_row i nd = dropWhile (\<lambda>x. fst x < i) nd"

lemma from_row_simps [simp]:
  "from_row i [] = []"
  "from_row i (x # nd) = (if fst x < i then from_row i nd else x # nd)"
  by (simp_all add: from_row_def)

lemma from_row_head: "from_row i nd = x # r \<Longrightarrow> i \<le> fst x"
  by (induction nd) (auto split: if_splits)

lemma from_row_map_of: "ascending nd \<Longrightarrow> i \<le> j \<Longrightarrow> map_of (from_row i nd) j = map_of nd j"
  by (induction nd) auto

lemma ascending_from_row: "ascending nd \<Longrightarrow> ascending (from_row i nd)"
  by (induction nd) auto

text \<open>One index: positions at the first row not below the index move past it.\<close>

lemma serial_row_step:
  assumes "\<forall>nd \<in> set nds. ascending nd"
  shows "serial_row pl i (map (from_row i) nds) acc = (sum_first pl acc (rows_at i nds), map (from_row (i + 1)) nds)"
  using assms
proof (induction nds arbitrary: acc)
  case Nil
  then show ?case by (simp add: rows_at_def map_filter_simps)
next
  case (Cons nd nds)
  have asc: "ascending nd" using Cons.prems by simp
  have next_row: "from_row (i + 1) nd = (case from_row i nd of [] \<Rightarrow> [] | x # r \<Rightarrow> if fst x = i then r else x # r)"
    using asc
  proof (induction nd)
    case (Cons x nd)
    show ?case
    proof (cases "fst x < i")
      case False
      have "from_row (i + 1) nd = nd" if "fst x = i" using Cons.prems that by (cases nd) auto
      with False show ?thesis by auto
    qed (use Cons in auto)
  qed simp
  have val: "map_of nd i = (case from_row i nd of [] \<Rightarrow> None | x # r \<Rightarrow> if fst x = i then Some (snd x) else None)"
  proof (cases "from_row i nd")
    case (Cons x r)
    obtain j v where x: "x = (j, v)" by (cases x)
    have "i \<le> j" using from_row_head [OF Cons] x by simp
    with from_row_map_of [OF asc order_refl, of i] map_of_ascending_head [of j v r i] ascending_from_row [OF asc, of i]
    show ?thesis using Cons x by auto
  next
    case Nil
    from from_row_map_of [OF asc order_refl, of i] show ?thesis unfolding Nil by simp
  qed
  show ?case
    using Cons.IH Cons.prems
    by (cases "from_row i nd") (auto simp: rows_at_def map_filter_simps next_row val split: option.splits)
qed

lemma from_row_skip:
  assumes "\<forall>x \<in> set nd. \<not> (a \<le> fst x \<and> fst x < b)" "a \<le> b"
  shows "from_row a nd = from_row b nd"
  using assms by (induction nd) auto

lemma serial_rows_eq:
  assumes "\<forall>nd \<in> set nds. ascending nd" "sorted_wrt (<) is" "\<forall>x \<in> all_rows nds. lo \<le> x \<longrightarrow> x \<in> set is" "\<forall>i \<in> set is. lo \<le> i"
  shows "serial_rows pl is (map (from_row lo) nds) = map (\<lambda>i. (i, sum_first pl None (rows_at i nds))) is"
  using assms
proof (induction "is" arbitrary: lo)
  case (Cons i "is")
  have skip: "map (from_row lo) nds = map (from_row i) nds"
  proof (intro map_cong refl from_row_skip ballI notI)
    fix nd x assume "nd \<in> set nds" "x \<in> set nd" and x: "lo \<le> fst x \<and> fst x < i"
    then have "fst x \<in> all_rows nds" by (auto simp: all_rows_def)
    with x Cons.prems(3) have "fst x \<in> set (i # is)" by blast
    with x Cons.prems(2) show False by auto
  qed (use Cons.prems in simp)
  have later: "\<forall>x \<in> all_rows nds. i + 1 \<le> x \<longrightarrow> x \<in> set is" using Cons.prems(3,4) by force
  have above: "\<forall>x \<in> set is. i + 1 \<le> x" using Cons.prems(2) by force
  have "sorted_wrt (<) is" using Cons.prems(2) by simp
  note ih = Cons.IH [OF Cons.prems(1) this later above]
  show ?case
    by (simp only: skip serial_rows.simps serial_row_step [OF Cons.prems(1)] prod.case ih list.map)
qed simp

lemma from_row_all: "\<forall>x \<in> set nd. lo \<le> fst x \<Longrightarrow> from_row lo nd = nd"
  by (cases nd) auto

text \<open>
  For inputs with ascending indices the serial sum has every row of the inputs once, in ascending
  order, and its value is the sum of the inputs' rows from left to right.
\<close>

lemma ReduceSumCPUExSerial_sum:
  assumes "\<forall>nd \<in> set nds. ascending nd"
  shows "ReduceSumCPUExSerial pl nds =
    map (\<lambda>i. (i, Some (foldl pl (hd (rows_at i nds)) (tl (rows_at i nds))))) (sorted_list_of_set (all_rows nds))"
proof -
  have fin: "finite (all_rows nds)" by (simp add: all_rows_def)
  define lo where "lo = (if all_rows nds = {} then 0 else Min (all_rows nds))"
  have lo: "\<forall>x \<in> all_rows nds. lo \<le> x" using fin by (auto simp: lo_def)
  then have "map (from_row lo) nds = nds" by (intro map_idI from_row_all) (auto simp: all_rows_def)
  then have "ReduceSumCPUExSerial pl nds =
      map (\<lambda>i. (i, sum_first pl None (rows_at i nds))) (sorted_list_of_set (all_rows nds))"
    using serial_rows_eq [OF assms, of "sorted_list_of_set (all_rows nds)" lo pl] lo fin
    by (simp add: ReduceSumCPUExSerial_def GetUniqueRspRowIdx_eq)
  moreover have "rows_at i nds \<noteq> []" if "i \<in> all_rows nds" for i
    using that by (force simp: rows_at_def all_rows_def map_filter_def filter_empty_conv map_of_eq_None_iff)
  ultimately show ?thesis using fin by (simp add: sum_first_None)
qed
definition add_row :: "('v \<Rightarrow> 'v \<Rightarrow> 'v) \<Rightarrow> 'v rows \<Rightarrow> int \<times> 'v \<Rightarrow> int \<times> 'v" where
  "add_row pl nd x = (fst x, case map_of nd (fst x) of None \<Rightarrow> snd x | Some v \<Rightarrow> pl (snd x) v)"

lemma add_row_absent: "map_of nd (fst x) = None \<Longrightarrow> add_row pl nd x = x"
  by (simp add: add_row_def)

lemma map_add_row_absent: "\<forall>x \<in> set xs. map_of nd (fst x) = None \<Longrightarrow> map (add_row pl nd) xs = xs"
  by (rule map_idI) (simp add: add_row_absent)

lemma merge_rows_eq:
  assumes "ascending out" "ascending nd"
  shows "merge_rows pl out nd = map (add_row pl nd) out"
  using assms
proof (induction pl out nd rule: merge_rows.induct)
  case (2 pl x xs)
  show ?case unfolding merge_rows.simps by (rule map_add_row_absent [symmetric]) simp
next
  case (3 pl i a out j v nd)
  consider "i = j" | "i < j" | "j < i" by linarith
  then show ?case
  proof cases
    case 1
    have "map (add_row pl ((j, v) # nd)) out = map (add_row pl nd) out"
      using 3 1 by (intro map_cong refl) (auto simp: add_row_def)
    with 3 1 show ?thesis by (simp add: add_row_def)
  next
    case 2
    then have "map_of ((j, v) # nd) i = None" using 3 by (intro map_of_ascending_head) auto
    with 3 2 show ?thesis by (simp add: add_row_absent)
  next
    case 3
    have "map (add_row pl ((j, v) # nd)) ((i, a) # out) = map (add_row pl nd) ((i, a) # out)"
      using 3 "3.prems" by (intro map_cong refl) (auto simp: add_row_def)
    with 3 "3.IH" "3.prems" show ?thesis by simp
  qed
qed simp

lemma ascending_last: "ascending b \<Longrightarrow> x \<in> set b \<Longrightarrow> fst (hd b) \<le> fst x \<and> fst x \<le> fst (last b)"
proof (induction b)
  case (Cons y b)
  then show ?case by (cases "b = []") (auto simp: less_imp_le intro: order.trans)
qed simp

lemma add_to_block_eq:
  assumes "ascending block" "ascending nd" "block \<noteq> []"
  shows "add_to_block pl nd block = map (add_row pl nd) block"
proof -
  let ?p = "from_row (fst (hd block)) nd"
  have same: "map_of ?p (fst x) = map_of nd (fst x)" if "x \<in> set block" for x
    using from_row_map_of [OF assms(2)] ascending_last [OF assms(1) that] by blast
  have rows: "map (add_row pl ?p) block = map (add_row pl nd) block"
    by (intro map_cong refl) (simp add: add_row_def same)
  show ?thesis
  proof (cases "?p = [] \<or> fst (hd ?p) > fst (last block)")
    case True
    have "map_of ?p (fst x) = None" if "x \<in> set block" for x
    proof (cases ?p)
      case (Cons y r)
      obtain j v where y: "y = (j, v)" by (cases y)
      have "fst x < j" using True Cons y ascending_last [OF assms(1) that] by auto
      then show ?thesis
        using map_of_ascending_head [of j v r] ascending_from_row [OF assms(2), of "fst (hd block)"] Cons y by auto
    qed simp
    then have "map (add_row pl ?p) block = block" by (intro map_add_row_absent) blast
    with True rows show ?thesis by (simp add: add_to_block_def from_row_def [symmetric])
  next
    case False
    with rows merge_rows_eq [OF assms(1) ascending_from_row [OF assms(2)], of pl "fst (hd block)"] show ?thesis
      by (simp add: add_to_block_def from_row_def [symmetric])
  qed
qed

lemma fold_add_to_block:
  assumes "ascending block" "\<forall>nd \<in> set nds. ascending nd" "block \<noteq> []"
  shows "fold (add_to_block pl) nds block = map (\<lambda>x. (fst x, foldl pl (snd x) (rows_at (fst x) nds))) block"
  using assms
proof (induction nds arbitrary: block)
  case Nil
  then show ?case by (simp add: rows_at_def map_filter_simps)
next
  case (Cons nd nds)
  have "map fst (map (add_row pl nd) block) = map fst block" by (simp add: add_row_def)
  then have "ascending (map (add_row pl nd) block)" using Cons.prems(1) by (simp only:)
  from Cons.IH [OF this] Cons.prems show ?case
    by (auto simp: add_to_block_eq rows_at_def map_filter_simps add_row_def split: option.splits)
qed

lemma concat_blocks: "concat (map (\<lambda>t. take len (drop (t * len) xs)) [0..<m]) = take (m * len) xs"
proof (induction m)
  case (Suc m)
  have "take (Suc m * len) xs = take (m * len + len) xs" by (simp add: add.commute)
  with Suc show ?case by (simp add: take_add del: mult_Suc)
qed simp

lemma sorted_wrt_take_drop: "sorted_wrt P xs \<Longrightarrow> sorted_wrt P (take n (drop m xs))"
  by (simp add: sorted_wrt_drop sorted_wrt_take)

text \<open>
  Whatever the number of threads, the parallel sum has every row of the inputs once, in ascending
  order, with the inputs' rows added to zero from left to right.
\<close>

lemma ElementwiseSumRsp_sum:
  assumes "\<forall>nd \<in> set nds. ascending nd" "0 < threads"
  shows "ElementwiseSumRsp pl zero threads nds =
    map (\<lambda>i. (i, foldl pl zero (rows_at i nds))) (sorted_list_of_set (all_rows nds))"
proof -
  let ?u = "GetUniqueRspRowIdx nds" and ?f = "\<lambda>i. (i, foldl pl zero (rows_at i nds))"
  define n where "n = length ?u"
  define len where "len = (n + threads - 1) div threads"
  have sorted: "sorted_wrt (<) ?u" by (simp add: GetUniqueRspRowIdx_eq)
  have block: "sum_block pl zero nds ?u threads t = map ?f (take len (drop (t * len) ?u))" for t
  proof (cases "t * len < n")
    case True
    let ?b = "take len (drop (t * len) ?u)"
    have e: "take (min (t * len + len) n - t * len) (drop (t * len) ?u) = ?b"
      by (simp add: n_def min_def)
    have "len \<noteq> 0"
    proof
      assume "len = 0"
      then have "n + threads - 1 < threads" using assms(2) by (simp add: len_def div_eq_0_iff)
      then show False using True by simp
    qed
    then have "?b \<noteq> []" using True by (simp add: n_def)
    moreover have "ascending (map (\<lambda>i. (i, zero)) ?b)"
      using sorted_wrt_take_drop [OF sorted] by (simp add: comp_def)
    ultimately have "fold (add_to_block pl) nds (map (\<lambda>i. (i, zero)) ?b) = map ?f ?b"
      by (subst fold_add_to_block [OF _ assms(1)]) (auto simp: comp_def)
    with True e show ?thesis
      unfolding sum_block_def Let_def n_def [symmetric] len_def [symmetric] by simp
  next
    case False
    then show ?thesis
      unfolding sum_block_def Let_def n_def [symmetric] len_def [symmetric] by (simp add: n_def)
  qed
  have "n \<le> threads * len"
  proof -
    have "n + threads - 1 < (len + 1) * threads"
      unfolding len_def using div_eq_range [OF assms(2), of "n + threads - 1"] by blast
    then show ?thesis using assms(2) by (simp add: algebra_simps)
  qed
  then have "concat (map (\<lambda>t. take len (drop (t * len) ?u)) [0..<threads]) = ?u"
    by (simp add: concat_blocks n_def)
  moreover have "ElementwiseSumRsp pl zero threads nds = map ?f (concat (map (\<lambda>t. take len (drop (t * len) ?u)) [0..<threads]))"
    unfolding ElementwiseSumRsp_def ElementwiseSumRspImpl_def map_concat
    by (intro arg_cong [where f = concat]) (simp add: block)
  ultimately show ?thesis by (simp add: GetUniqueRspRowIdx_eq)
qed

section \<open>Selected rows\<close>

lemma retain_search_eq:
  assumes "sorted_wrt (<) idx" "0 \<le> left" "right < int (length idx)"
  shows "(retain_search idx irow left right = - 1 \<and> (\<forall>k. left \<le> k \<and> k \<le> right \<longrightarrow> idx ! nat k \<noteq> irow)) \<or>
    (left \<le> retain_search idx irow left right \<and> retain_search idx irow left right \<le> right \<and>
     idx ! nat (retain_search idx irow left right) = irow)"
  using assms
proof (induction "nat (right - left + 1)" arbitrary: left right rule: less_induct)
  case less
  note unfold = retain_search.simps [of idx irow left right]
  show ?case
  proof (cases "left \<le> right")
    case True
    define m where "m = left + (right - left) div 2"
    have m: "left \<le> m" "m \<le> right" using True by (auto simp: m_def)
    have mono: "idx ! nat a < idx ! nat b" if "left \<le> a" "a < b" "b \<le> right" for a b
      using that less.prems by (intro sorted_wrt_nth_less [OF less.prems(1)]) auto
    consider "idx ! nat m = irow" | "idx ! nat m < irow" | "irow < idx ! nat m" by linarith
    then show ?thesis
    proof cases
      case 1
      then have "retain_search idx irow left right = m" using True by (simp add: unfold Let_def m_def)
      with m 1 show ?thesis by simp
    next
      case 2
      have lower: "idx ! nat k \<noteq> irow" if "left \<le> k" "k \<le> m" for k
        using mono [of k m] that m 2 by (cases "k = m") auto
      have eq: "retain_search idx irow left right = retain_search idx irow (m + 1) right"
        using True 2 by (simp add: unfold Let_def m_def)
      have "nat (right - (m + 1) + 1) < nat (right - left + 1)" using m by simp
      note ih = less.hyps [OF this less.prems(1)]
      have "left \<le> k \<and> k \<le> right \<longrightarrow> idx ! nat k \<noteq> irow" if "\<forall>k. m + 1 \<le> k \<and> k \<le> right \<longrightarrow> idx ! nat k \<noteq> irow" for k
        using lower that by (cases "k \<le> m") auto
      with ih less.prems m show ?thesis unfolding eq by force
    next
      case 3
      have upper: "idx ! nat k \<noteq> irow" if "m \<le> k" "k \<le> right" for k
        using mono [of m k] that m 3 by (cases "k = m") auto
      have eq: "retain_search idx irow left right = retain_search idx irow left (m - 1)"
        using True 3 by (simp add: unfold Let_def m_def)
      have "nat (m - 1 - left + 1) < nat (right - left + 1)" using m by simp
      note ih = less.hyps [OF this less.prems(1)]
      have "left \<le> k \<and> k \<le> right \<longrightarrow> idx ! nat k \<noteq> irow" if "\<forall>k. left \<le> k \<and> k \<le> m - 1 \<longrightarrow> idx ! nat k \<noteq> irow" for k
        using upper that by (cases "m \<le> k") auto
      with ih less.prems m show ?thesis unfolding eq by force
    qed
  qed (simp add: unfold)
qed

lemma map_of_nth_ascending:
  assumes "ascending rows" "k < length rows"
  shows "map_of rows (fst (rows ! k)) = Some (snd (rows ! k))"
proof -
  have "distinct (map fst rows)" using assms(1) by (simp add: strict_sorted_iff)
  then show ?thesis using assms(2) by (metis map_of_is_SomeI nth_mem prod.collapse)
qed

lemma SparseRetainRspThreadKernel_eq:
  assumes "ascending rows"
  shows "SparseRetainRspThreadKernel zero rows i = (i, case map_of rows i of None \<Rightarrow> zero | Some v \<Rightarrow> v)"
proof -
  let ?j = "retain_search (map fst rows) i 0 (int (length rows) - 1)"
  have absent: "fst (rows ! k) \<noteq> i" if "\<forall>k. 0 \<le> k \<and> k \<le> int (length rows) - 1 \<longrightarrow> map fst rows ! nat k \<noteq> i" "k < length rows" for k
    using spec [OF that(1), of "int k"] that(2) by simp
  from retain_search_eq [OF assms, of 0 "int (length rows) - 1" i]
  consider "?j = - 1" "\<forall>k < length rows. fst (rows ! k) \<noteq> i"
    | "0 \<le> ?j" "nat ?j < length rows" "fst (rows ! nat ?j) = i"
    using absent by auto
  then show ?thesis
  proof cases
    case 1
    then have "map_of rows i = None" by (force simp: map_of_eq_None_iff in_set_conv_nth)
    with 1 show ?thesis by (simp add: SparseRetainRspThreadKernel_def)
  next
    case 2
    with map_of_nth_ascending [OF assms 2(2)] show ?thesis by (simp add: SparseRetainRspThreadKernel_def Let_def)
  qed
qed

lemma ascending_dense:
  assumes "ascending rows" "\<forall>x \<in> set rows. 0 \<le> fst x \<and> fst x < int (length rows)" "k < length rows"
  shows "fst (rows ! k) = int k"
proof -
  let ?xs = "map fst rows"
  have d: "distinct ?xs" "sorted ?xs" using assms(1) by (simp_all add: strict_sorted_iff)
  have "set ?xs \<subseteq> {0..<int (length rows)}" using assms(2) by auto
  moreover have "card (set ?xs) = length rows" using distinct_card [OF d(1)] by simp
  ultimately have "set ?xs = {0..<int (length rows)}" by (intro card_subset_eq) auto
  moreover have "sorted (map int [0..<length rows]) \<and> distinct (map int [0..<length rows])"
    by (simp add: distinct_map sorted_map)
  moreover have "set (map int [0..<length rows]) = {0..<int (length rows)}"
    by (simp add: image_int_atLeastLessThan)
  ultimately have "?xs = map int [0..<length rows]" using d by (metis sorted_distinct_set_unique)
  then show ?thesis using assms(3) by (metis nth_map length_map nth_upt add_0 length_upt diff_zero)
qed

text \<open>
  Selecting rows gives, in the order asked for, the row of each index or zero where the array has none.
\<close>

lemma SparseRetain_rows:
  assumes "ascending rows" "\<forall>x \<in> set rows. 0 \<le> fst x \<and> fst x < num_rows" "\<forall>i \<in> set idx. 0 \<le> i \<and> i < num_rows" "rows \<noteq> []"
  shows "SparseRetainOpForwardRspImpl zero num_rows rows idx =
    Inr (map (\<lambda>i. (i, case map_of rows i of None \<Rightarrow> zero | Some v \<Rightarrow> v)) idx)"
proof -
  have nz: "num_rows \<noteq> 0" using assms(2,4) by (cases rows) auto
  have dense: "retain_dense_row rows i = Inr (i, case map_of rows i of None \<Rightarrow> zero | Some v \<Rightarrow> v)"
    if len: "int (length rows) = num_rows" and i: "i \<in> set idx" for i
  proof -
    have k: "nat i < length rows" "0 \<le> i" using assms(3) i len by auto
    then have "fst (rows ! nat i) = i" using ascending_dense [OF assms(1), of "nat i"] assms(2) len by simp
    with map_of_nth_ascending [OF assms(1) k(1)] k show ?thesis by (simp add: retain_dense_row_def vec_at_def)
  qed
  show ?thesis
    using nz assms(4) rmap_list_total [OF dense] by (auto simp: SparseRetainOpForwardRspImpl_def SparseRetainRspThreadKernel_eq [OF assms(1)])
qed

end
