(* ===== verification/MX_Dist.thy ===== *)
theory MX_Dist
  imports MX_Server MX_Reduce
begin

text \<open>
  The worker side of the distributed key-value store (\<open>src/kvstore/kvstore_dist.h\<close>): how a value is
  cut into segments and which server each segment goes to, in the three modes (dense, compressed,
  row-sparse), the state machine that decides when the division over the servers is renewed,
  and the requests a push makes. The parameter server's key ranges are arguments. \<open>size_t\<close> values are
  natural numbers; \<open>int\<close> values that are stored are wrapped to 32 bits. A push task of
  the engine is run at once.
\<close>

section \<open>State\<close>

record pskv =
  pk_keys :: "key list"
  pk_lens :: "int list"
  pk_size :: int

definition PSKV :: pskv where
  "PSKV = \<lparr>pk_keys = [], pk_lens = [], pk_size = 0\<rparr>"

record kdist =
  ps_kv :: "int \<Rightarrow> pskv"
  compr_push :: "int \<Rightarrow> pskv"
  compr_pull :: "int \<Rightarrow> pskv"
  bigarray_bound :: nat
  enable_original :: nat
  key_temp :: "nat \<Rightarrow> key"
  server_perf :: "fl list"
  server_perf_temp :: "fl list"
  seg_update_flag :: nat
  server_log :: nat
  task_cache :: bool
  num_para :: nat
  num_para_flag :: int
  num_para_count :: "nat list"
  init_finish :: bool
  iter_count :: int

definition KVStoreDist :: "nat \<Rightarrow> nat \<Rightarrow> kdist" where
  "KVStoreDist bound original = \<lparr>ps_kv = (\<lambda>_. PSKV), compr_push = (\<lambda>_. PSKV), compr_pull = (\<lambda>_. PSKV),
     bigarray_bound = bound, enable_original = original, key_temp = (\<lambda>_. 0), server_perf = [],
     server_perf_temp = [], seg_update_flag = 3, server_log = 0, task_cache = False, num_para = 0,
     num_para_flag = 0, num_para_count = [], init_finish = False, iter_count = 0\<rparr>"

definition TaskDivisionUpdate :: "fl list \<Rightarrow> kdist \<Rightarrow> kdist" where
  "TaskDivisionUpdate perf st =
     (if seg_update_flag st \<noteq> 3 then
        if seg_update_flag st \<ge> 4 then st\<lparr>server_perf := perf\<rparr>
        else if seg_update_flag st = 2 then st\<lparr>server_perf_temp := perf, task_cache := True\<rparr>
        else st
      else st\<lparr>server_perf := perf, seg_update_flag := seg_update_flag st + 1\<rparr>)"

section \<open>Keys of servers\<close>

definition size_t :: "int \<Rightarrow> int" where
  "size_t i = i mod 2 ^ 64"

text \<open>The key at an offset into a server's range, which has to lie in the range.\<close>

definition key_at :: "krange list \<Rightarrow> int \<Rightarrow> int \<Rightarrow> key res" where
  "key_at krs i off = rbind (vec_at krs i) (\<lambda>r.
     let k = fst r + word_of_int off in rcheck (k < snd r) ''ps_key < krs[i].end()'' (Inr k))"

text \<open>The server a small array goes to.\<close>

definition picked_server :: "int \<Rightarrow> nat \<Rightarrow> int res" where
  "picked_server k n = (if cint_in_range (k * 9973) then Inr ((k * 9973) smod int n)
     else Inl (Undefined ''signed overflow''))"

definition add_segment :: "key \<Rightarrow> int \<Rightarrow> pskv \<Rightarrow> pskv" where
  "add_segment k len p = p\<lparr>pk_keys := pk_keys p @ [k], pk_lens := pk_lens p @ [cint_wrap len],
     pk_size := cint_wrap (pk_size p + len)\<rparr>"

text \<open>\<open>round\<close>: halves away from zero; \<open>static_cast<size_t>(round(n / m * i))\<close> on doubles.\<close>

definition round_away :: "rat \<Rightarrow> int" where
  "round_away x = (if x < 0 then - \<lfloor>- x + 1 / 2\<rfloor> else \<lfloor>x + 1 / 2\<rfloor>)"

definition part_bound :: "nat \<Rightarrow> nat \<Rightarrow> nat \<Rightarrow> int res" where
  "part_bound n m i = (case fl_mul rnd64 (fl_div rnd64 (rnd64 (of_nat n)) (rnd64 (of_nat m))) (rnd64 (of_nat i)) of
       Fin x \<Rightarrow> Inr (round_away x)
     | _ \<Rightarrow> Inl (Undefined ''double to size_t conversion''))"

definition part_size :: "nat \<Rightarrow> nat \<Rightarrow> nat \<Rightarrow> int res" where
  "part_size n m i = rbind (part_bound n m (i + 1)) (\<lambda>e. rbind (part_bound n m i) (\<lambda>b. Inr (e - b)))"

section \<open>Dense arrays\<close>

text \<open>The count of the parameters, taken in the first pass over all keys.\<close>

definition count_parameters :: "int \<Rightarrow> nat \<Rightarrow> nat \<Rightarrow> kdist \<Rightarrow> kdist" where
  "count_parameters k n servers st =
     (let st = (if num_para_flag st < 2 then
                  let st = (if k = 0 then
                        let st = st\<lparr>num_para_flag := num_para_flag st + 1\<rparr>
                        in if num_para_count st = [] then st\<lparr>num_para_count := replicate servers 0\<rparr> else st
                      else st)
                  in if num_para_flag st = 1 then st\<lparr>num_para := num_para st + n\<rparr> else st
                else st)
      in if num_para_flag st = 2 then st\<lparr>num_para_flag := 3\<rparr> else st)"

definition encode_single :: "int \<Rightarrow> nat \<Rightarrow> int \<Rightarrow> krange list \<Rightarrow> pskv \<Rightarrow> pskv res" where
  "encode_single k n num_bytes krs p =
     rbind (picked_server k (length krs)) (\<lambda>server. rbind (key_at krs server k) (\<lambda>ps_key.
       let total = cint_wrap (int n * num_bytes)
       in Inr (p\<lparr>pk_keys := pk_keys p @ [ps_key], pk_lens := pk_lens p @ [total], pk_size := total\<rparr>)))"

definition encode_part :: "int \<Rightarrow> nat \<Rightarrow> int \<Rightarrow> krange list \<Rightarrow> nat \<Rightarrow> pskv \<Rightarrow> pskv res" where
  "encode_part k n num_bytes krs i p =
     rbind (part_size n (length krs) i) (\<lambda>part. rbind (key_at krs (int i) k) (\<lambda>ps_key.
       let total = cint_wrap (part * num_bytes)
       in Inr (p\<lparr>pk_keys := pk_keys p @ [ps_key], pk_lens := pk_lens p @ [total],
            pk_size := cint_wrap (pk_size p + total)\<rparr>)))"

definition reset_division :: "krange list \<Rightarrow> kdist \<Rightarrow> kdist res" where
  "reset_division krs st =
     rfold (\<lambda>i st. rmap (\<lambda>c. st\<lparr>num_para_count := c, key_temp := (key_temp st)(i := fst (krs ! i))\<rparr>)
         (vec_set (num_para_count st) (int i) 0))
       [0..<length krs] (st\<lparr>server_log := 0\<rparr>)"

text \<open>The shares of the servers: their performances scaled to the number of parameters, rounded up.\<close>

definition fl_ceil :: "fl \<Rightarrow> fl" where
  "fl_ceil x = (case x of Fin a \<Rightarrow> Fin (of_int \<lceil>a\<rceil>) | _ \<Rightarrow> x)"

definition perf_total :: "nat \<Rightarrow> fl list \<Rightarrow> fl res" where
  "perf_total n perf = rfold (\<lambda>i a. rmap (f32_add a) (vec_at perf (int i))) [0..<n] (Fin 0)"

definition scale_perf :: "nat \<Rightarrow> kdist \<Rightarrow> kdist res" where
  "scale_perf n st =
     rbind (perf_total n (server_perf st)) (\<lambda>total.
     rfold (\<lambda>i st. rbind (vec_at (server_perf st) (int i)) (\<lambda>p.
         rmap (\<lambda>v. st\<lparr>server_perf := v\<rparr>)
           (vec_set (server_perf st) (int i) (fl_ceil (f32_mul (f32_div p total) (rnd32 (of_nat (num_para st))))))))
       [0..<n] st)"

text \<open>
  The loop that skips the servers whose share is used up. It only counts on, modulo the number
  of servers, so that it ends within one turn or never.
\<close>

fun skip_full :: "nat \<Rightarrow> nat \<Rightarrow> kdist \<Rightarrow> kdist res" where
  "skip_full n 0 st = Inl (Diverges ''no share is left'')"
| "skip_full n (Suc turns) st =
     rbind (vec_at (num_para_count st) (int (server_log st mod n))) (\<lambda>c.
     rbind (vec_at (server_perf st) (int (server_log st mod n))) (\<lambda>p.
       if fl_ge (rnd32 (of_nat c)) p then skip_full n turns (st\<lparr>server_log := server_log st + 1\<rparr>) else Inr st))"

definition choose_server :: "int \<Rightarrow> krange list \<Rightarrow> kdist \<Rightarrow> kdist res" where
  "choose_server k krs st =
     (if seg_update_flag st = 2 then
        rbind (if k = 0 then rbind (scale_perf (length krs) st) (reset_division krs) else Inr st)
          (skip_full (length krs) (length krs))
      else Inr st)"

text \<open>A segment of \<open>m\<close> elements goes to the current server under its next key.\<close>

definition take_key :: "krange list \<Rightarrow> nat \<Rightarrow> int \<Rightarrow> kdist \<Rightarrow> pskv \<Rightarrow> (kdist \<times> pskv) res" where
  "take_key krs m num_bytes st p =
     (let i = server_log st mod length krs; ps_key = key_temp st i;
          st = st\<lparr>key_temp := (key_temp st)(i := ps_key + 1)\<rparr> in
      rcheck (ps_key < snd (krs ! i)) ''ps_key < krs[server_log % num_servers].end()''
      (rbind (vec_at (num_para_count st) (int i)) (\<lambda>c.
       rbind (vec_set (num_para_count st) (int i) (c + m)) (\<lambda>counts.
         Inr (st\<lparr>num_para_count := counts, server_log := server_log st + 1\<rparr>,
              add_segment ps_key (int m * num_bytes) p)))))"

function segments :: "int \<Rightarrow> krange list \<Rightarrow> int \<Rightarrow> nat \<Rightarrow> kdist \<Rightarrow> pskv \<Rightarrow> (kdist \<times> pskv) res" where
  "segments k krs num_bytes s st p =
     rbind (choose_server k krs st) (\<lambda>st.
       if s > bigarray_bound st then
         if bigarray_bound st = 0 then Inl (Diverges ''segments of size zero'')
         else rbind (take_key krs (bigarray_bound st) num_bytes st p) (\<lambda>(st', p').
                segments k krs num_bytes (s - bigarray_bound st) st' p')
       else take_key krs s num_bytes st p)"
  by auto
termination by (relation "measure (\<lambda>(_, _, _, s, _, _). s)") auto

declare segments.simps [simp del]

definition EncodeDefaultKey :: "int \<Rightarrow> nat \<Rightarrow> int \<Rightarrow> krange list \<Rightarrow> kdist \<Rightarrow> (pskv \<times> kdist) res" where
  "EncodeDefaultKey k n num_bytes krs st =
     (let st = count_parameters k n (length krs) st; p = ps_kv st k; pskv_size = size_t (int n * num_bytes) in
      if pk_keys p \<noteq> [] then rcheck (size_t (pk_size p) = pskv_size) ''The value size cannot be changed'' (Inr (p, st))
      else
        rcheck (length krs > 0) ''num_servers > 0''
        (rbind (if enable_original st = 1 then
                  rmap (\<lambda>p. (st, p))
                    (if n < bigarray_bound st then encode_single k n num_bytes krs p
                     else rfold (encode_part k n num_bytes krs) [0..<length krs] (p\<lparr>pk_size := 0\<rparr>))
                else
                  rbind (if k = 0 \<and> seg_update_flag st \<noteq> 2 then reset_division krs st else Inr st) (\<lambda>st.
                  segments k krs num_bytes n st (p\<lparr>pk_size := 0\<rparr>))) (\<lambda>(st, p).
         rcheck (size_t (pk_size p) = pskv_size) ''pskv.size == pskv_size''
           (Inr (p, st\<lparr>ps_kv := (ps_kv st)(k := p)\<rparr>)))))"

section \<open>Compressed arrays\<close>

text \<open>Both descriptions are made together: what is pushed is compressed, what is pulled is not.\<close>

definition encode_compressed_single :: "int \<Rightarrow> nat \<Rightarrow> int \<Rightarrow> int \<Rightarrow> krange list \<Rightarrow> pskv \<times> pskv \<Rightarrow> (pskv \<times> pskv) res" where
  "encode_compressed_single k n compr num_bytes krs pp =
     (case pp of (pu, pl) \<Rightarrow>
      rbind (picked_server k (length krs)) (\<lambda>server. rbind (key_at krs server k) (\<lambda>ps_key.
      rbind (vec_at krs server) (\<lambda>r.
      let cs = cint_wrap (compr * num_bytes); os = cint_wrap (int n * num_bytes) in
      Inr (pu\<lparr>pk_keys := pk_keys pu @ [fst r + word_of_int (int n), ps_key], pk_lens := pk_lens pu @ [0, cs], pk_size := cs\<rparr>,
           pl\<lparr>pk_keys := pk_keys pl @ [ps_key], pk_lens := pk_lens pl @ [os], pk_size := os\<rparr>)))))"

definition encode_compressed_part ::
  "gcomp \<Rightarrow> int \<Rightarrow> nat \<Rightarrow> int \<Rightarrow> int \<Rightarrow> krange list \<Rightarrow> nat \<Rightarrow> pskv \<times> pskv \<Rightarrow> (pskv \<times> pskv) res" where
  "encode_compressed_part g k n compr num_bytes krs i pp =
     (case pp of (pu, pl) \<Rightarrow>
      rbind (if i = length krs - 1 then Inr (size_t (compr - pk_size pu), size_t (int n - pk_size pl))
             else rbind (part_size (nat compr) (length krs) i) (\<lambda>c.
               rmap (\<lambda>f. (c, c * f)) (GetCompressionFactor g))) (\<lambda>(part_compr, part_orig).
      rbind (key_at krs (int i) part_orig) (\<lambda>dummy. rbind (key_at krs (int i) k) (\<lambda>ps_key.
      Inr (pu\<lparr>pk_keys := pk_keys pu @ [dummy, ps_key], pk_lens := pk_lens pu @ [0, cint_wrap (part_compr * num_bytes)],
             pk_size := cint_wrap (pk_size pu + part_compr)\<rparr>,
           pl\<lparr>pk_keys := pk_keys pl @ [ps_key], pk_lens := pk_lens pl @ [cint_wrap (part_orig * num_bytes)],
             pk_size := cint_wrap (pk_size pl + part_orig)\<rparr>)))))"

definition encode_compressed_parts ::
  "gcomp \<Rightarrow> int \<Rightarrow> nat \<Rightarrow> int \<Rightarrow> int \<Rightarrow> krange list \<Rightarrow> pskv \<times> pskv \<Rightarrow> (pskv \<times> pskv) res" where
  "encode_compressed_parts g k n compr num_bytes krs pp =
     rbind (rfold (encode_compressed_part g k n compr num_bytes krs) [0..<length krs]
        (fst pp\<lparr>pk_size := 0\<rparr>, snd pp\<lparr>pk_size := 0\<rparr>)) (\<lambda>(pu, pl).
     rcheck (size_t (pk_size pu) = compr) ''push_pskv.size == compr_num_elem''
     (rcheck (size_t (pk_size pl) = int n) ''pull_pskv.size == original_num_elem''
     (rcheck (length (pk_lens pu) = length krs * 2) ''push_pskv.lens.size() == num_servers * 2''
       (Inr (pu\<lparr>pk_size := cint_wrap (pk_size pu * num_bytes)\<rparr>, pl\<lparr>pk_size := cint_wrap (pk_size pl * num_bytes)\<rparr>)))))"

definition EncodeCompressedKey ::
  "gcomp \<Rightarrow> int \<Rightarrow> nat \<Rightarrow> bool \<Rightarrow> int \<Rightarrow> krange list \<Rightarrow> kdist \<Rightarrow> (pskv \<times> kdist) res" where
  "EncodeCompressedKey g k n is_push num_bytes krs st =
     rcheck (length krs > 0) ''num_servers > 0''
     (rbind (GetCompressedSize g (int n)) (\<lambda>compr.
      let p = (if is_push then compr_push st k else compr_pull st k) in
      if pk_keys p \<noteq> [] then
        rcheck (size_t (pk_size p) = size_t ((if is_push then compr else int n) * num_bytes)) ''The value size can't be changed''
          (Inr (p, st))
      else
        rbind (if n < bigarray_bound st
               then encode_compressed_single k n compr num_bytes krs (compr_push st k, compr_pull st k)
               else encode_compressed_parts g k n compr num_bytes krs (compr_push st k, compr_pull st k)) (\<lambda>(pu, pl).
        Inr (if is_push then pu else pl,
             st\<lparr>compr_push := (compr_push st)(k := pu), compr_pull := (compr_pull st)(k := pl)\<rparr>))))"

section \<open>Row-sparse arrays\<close>

text \<open>The rows with indices in an interval; the indices ascend.\<close>

definition rows_between :: "int list \<Rightarrow> int \<Rightarrow> int \<Rightarrow> int list" where
  "rows_between offsets lo hi =
     drop (length (takeWhile (\<lambda>x. x < lo) offsets)) (take (length (takeWhile (\<lambda>x. x \<le> hi) offsets)) offsets)"

definition encode_row :: "int \<Rightarrow> krange list \<Rightarrow> int \<Rightarrow> int \<Rightarrow> int \<Rightarrow> int \<Rightarrow> pskv \<Rightarrow> pskv res" where
  "encode_row k krs i start_row part_bytes row p =
     rmap (\<lambda>ps_key. p\<lparr>pk_keys := pk_keys p @ [ps_key], pk_lens := pk_lens p @ [cint_wrap part_bytes],
         pk_size := cint_wrap (pk_size p + part_bytes)\<rparr>)
       (key_at krs i (k + (row - start_row)))"

definition encode_rows_at ::
  "int \<Rightarrow> krange list \<Rightarrow> int list \<Rightarrow> nat \<Rightarrow> int \<Rightarrow> nat \<Rightarrow> int \<times> pskv \<Rightarrow> (int \<times> pskv) res" where
  "encode_rows_at k krs offsets total_num_rows part_bytes i sp =
     (case sp of (start_row, p) \<Rightarrow>
      rbind (vec_at krs (int i)) (\<lambda>r.
      let p = p\<lparr>pk_keys := pk_keys p @ [fst r + word_of_int k], pk_lens := pk_lens p @ [0]\<rparr> in
      if offsets = [] then Inr (start_row, p)
      else rbind (part_size total_num_rows (length krs) i) (\<lambda>rows.
        rmap (\<lambda>p. (start_row + rows, p))
          (rfold (encode_row k krs (int i) start_row part_bytes) (rows_between offsets start_row (start_row + rows - 1)) p))))"

text \<open>\<open>offsets\<close> are the row ids; \<open>num_elem\<close> is their number times the row length.\<close>

definition EncodeRowSparseKey ::
  "int \<Rightarrow> int list \<Rightarrow> nat \<Rightarrow> nat \<Rightarrow> int \<Rightarrow> krange list \<Rightarrow> kdist \<Rightarrow> (pskv \<times> kdist) res" where
  "EncodeRowSparseKey k offsets unit_len total_num_rows num_bytes krs st =
     (let num_elem = int (length offsets * unit_len); p0 = (ps_kv st k)\<lparr>pk_keys := [], pk_lens := []\<rparr>;
          row_bytes = int unit_len * num_bytes in
      rcheck (length krs > 0) ''num_servers > 0''
      (rbind (if total_num_rows * unit_len \<ge> bigarray_bound st then
                rbind (rfold (encode_rows_at k krs (if num_elem > 0 then offsets else []) total_num_rows row_bytes)
                  [0..<length krs] (0, p0\<lparr>pk_size := 0\<rparr>)) (\<lambda>(_, p).
                rcheck (size_t (pk_size p) = size_t (num_elem * num_bytes)) ''pskv.size == num_elem * num_bytes'' (Inr p))
              else
                rbind (picked_server k (length krs)) (\<lambda>server. rbind (vec_at krs server) (\<lambda>r.
                rmap (\<lambda>p. p\<lparr>pk_size := cint_wrap (num_elem * num_bytes)\<rparr>)
                  (rfold (encode_row k krs server 0 row_bytes) offsets
                     (p0\<lparr>pk_keys := [fst r + word_of_int k], pk_lens := [0]\<rparr>))))) (\<lambda>p.
       Inr (p, st\<lparr>ps_kv := (ps_kv st)(k := p)\<rparr>))))"

section \<open>Pushing\<close>

text \<open>The requests to the parameter server: the arguments of \<open>ZPush\<close>.\<close>

record zpush =
  zp_keys :: "key list"
  zp_vals :: bytes
  zp_lens :: "int list"
  zp_cmd :: int
  zp_key :: int
  zp_version :: int

text \<open>The loop of \<open>PushDefault\<close> over the segments.\<close>

fun push_segments :: "int \<Rightarrow> int \<Rightarrow> int \<Rightarrow> bytes \<Rightarrow> nat \<Rightarrow> (key \<times> int) list \<Rightarrow> zpush list res" where
  "push_segments cmd k ver vals len [] = Inr []"
| "push_segments cmd k ver vals len ((ps_key, l) # segs) =
     rbind (segment vals len (nat (int len + l))) (\<lambda>v.
     rmap ((#) \<lparr>zp_keys = [ps_key], zp_vals = v, zp_lens = [l], zp_cmd = cmd, zp_key = k, zp_version = ver\<rparr>)
       (push_segments cmd k ver vals (nat (int len + l)) segs))"

definition PushDefault :: "int \<Rightarrow> int \<Rightarrow> bytes \<Rightarrow> pskv \<Rightarrow> kdist \<Rightarrow> zpush list res" where
  "PushDefault k ty vals p st =
     push_segments (GetCommandType kDefaultPushPull ty) k (iter_count st) vals 0 (zip (pk_keys p) (pk_lens p))"

text \<open>Compressed and row-sparse values are one request, with the default arguments of \<open>ZPush\<close>.\<close>

definition PushCompressed :: "int \<Rightarrow> bytes \<Rightarrow> pskv \<Rightarrow> zpush list" where
  "PushCompressed ty vals p = [\<lparr>zp_keys = pk_keys p, zp_vals = vals, zp_lens = pk_lens p,
     zp_cmd = GetCommandType kCompressedPushPull ty, zp_key = 0, zp_version = 0\<rparr>]"

definition PushRowSparse :: "int \<Rightarrow> bytes \<Rightarrow> pskv \<Rightarrow> zpush list" where
  "PushRowSparse ty vals p = [\<lparr>zp_keys = pk_keys p, zp_vals = vals, zp_lens = pk_lens p,
     zp_cmd = GetCommandType kRowSparsePushPull ty, zp_key = 0, zp_version = 0\<rparr>]"

text \<open>
  What \<open>Push_\<close> does to the flags for one key. \<open>topo\<close> is the performance list that \<open>TopoUpdate\<close> hands to
  \<open>TaskDivisionUpdate\<close>, if it does. The result says whether the segments of the key are to be renewed.
\<close>

definition topo_step :: "int \<Rightarrow> int \<Rightarrow> fl list option \<Rightarrow> kdist \<Rightarrow> kdist" where
  "topo_step k rank topo st =
     (if k \<noteq> 0 then st
      else if \<not> init_finish st \<and> rank = 0 then st\<lparr>init_finish := True\<rparr>
      else case topo of None \<Rightarrow> st | Some perf \<Rightarrow> TaskDivisionUpdate perf st)"

definition push_flags :: "int \<Rightarrow> int \<Rightarrow> fl list option \<Rightarrow> bool \<Rightarrow> kdist \<Rightarrow> bool \<times> kdist" where
  "push_flags k rank topo renew st =
     (let st = topo_step k rank topo st;
          st = (if seg_update_flag st \<ge> 4 then st\<lparr>seg_update_flag := 1\<rparr> else st);
          (renew, st) =
            (if k = 0 \<and> seg_update_flag st \<noteq> 3 then
               let st = (if task_cache st then st\<lparr>seg_update_flag := seg_update_flag st - 1,
                           server_perf := server_perf_temp st, task_cache := False\<rparr> else st);
                   st = st\<lparr>seg_update_flag := seg_update_flag st + 1\<rparr>
               in (seg_update_flag st < 3, st)
             else (renew, st));
          st = (if k = 0 then st\<lparr>iter_count := iter_count st + 1\<rparr> else st)
      in (renew, if renew then st\<lparr>ps_kv := (ps_kv st)(k := PSKV)\<rparr> else st))"

text \<open>
  One key of a push, after the values of its devices were merged. \<open>quantized\<close> is the compressed value
  (\<open>PushCompressed\<close> quantises it with the residual of the key).
\<close>

definition push_key ::
  "gcomp \<Rightarrow> krange list \<Rightarrow> int \<Rightarrow> bool \<Rightarrow> int \<times> ndarray \<times> bytes \<Rightarrow> fl list option \<Rightarrow> bool \<times> kdist \<Rightarrow>
   (zpush list \<times> bool \<times> kdist) res" where
  "push_key g krs rank do_merge x topo rst =
     (case x of (k, merged, quantized) \<Rightarrow>
      case push_flags k rank topo (fst rst) (snd rst) of (renew, st) \<Rightarrow>
      rbind (mshadow_sizeof (nd_dtype merged)) (\<lambda>num_bytes.
      let n = nat (shape_size (nd_shape merged)) in
      case nd_rows merged of
        Some rows \<Rightarrow>
          rcheck (gc_type g = kNone) ''Gradient compression for row sparse storage type is not supported''
          (rbind (EncodeRowSparseKey k (map fst rows) (nat (unit_length merged)) (nat (hd (nd_shape merged))) (int num_bytes) krs st)
            (\<lambda>(p, st). Inr (PushRowSparse (nd_dtype merged) (concat (map snd rows)) p, renew, st)))
      | None \<Rightarrow>
          rbind (nd_bytes (Some merged)) (\<lambda>vals.
          if gc_type g = kNone then
            rbind (EncodeDefaultKey k n (int num_bytes) krs st) (\<lambda>(p, st).
            rmap (\<lambda>zs. (zs, renew, st)) (PushDefault k (nd_dtype merged) vals p st))
          else
            rcheck (nd_dtype merged = kFloat32) ''Gradient compression is only supported for float32 type of parameters''
            (rbind (EncodeCompressedKey g k n do_merge (int num_bytes) krs st) (\<lambda>(p, st).
             if do_merge then Inr (PushCompressed (nd_dtype merged) quantized p, renew, st)
             else rmap (\<lambda>zs. (zs, renew, st)) (PushDefault k (nd_dtype merged) vals p st))))))"

text \<open>The keys are the distinct keys of the call, ascending, each with its merged value.\<close>

fun push_keys ::
  "gcomp \<Rightarrow> krange list \<Rightarrow> int \<Rightarrow> bool \<Rightarrow> ((int \<times> ndarray \<times> bytes) \<times> fl list option) list \<Rightarrow> bool \<times> kdist \<Rightarrow>
   (zpush list \<times> kdist) res" where
  "push_keys g krs rank do_merge [] rst = Inr ([], snd rst)"
| "push_keys g krs rank do_merge (x # xs) rst =
     rbind (push_key g krs rank do_merge (fst x) (snd x) rst) (\<lambda>(zs, rst).
     rmap (\<lambda>(zs', st). (zs @ zs', st)) (push_keys g krs rank do_merge xs rst))"

definition Push_dist ::
  "gcomp \<Rightarrow> krange list \<Rightarrow> int \<Rightarrow> bool \<Rightarrow> ((int \<times> ndarray \<times> bytes) \<times> fl list option) list \<Rightarrow> kdist \<Rightarrow>
   (zpush list \<times> kdist) res" where
  "Push_dist g krs rank do_merge xs st = push_keys g krs rank do_merge xs (seg_update_flag st = 2, st)"

definition CheckUnique :: "int list \<Rightarrow> unit res" where
  "CheckUnique ks = rcheck (length (std_unique ks) = length ks) ''keys are not unique'' (Inr ())"

definition get_num_dead_node :: "postoffice \<Rightarrow> int list \<Rightarrow> int \<Rightarrow> int res" where
  "get_num_dead_node po dead_nodes node_id =
     rmap (\<lambda>watch. int (length (filter (\<lambda>r. r \<in> set watch) dead_nodes))) (GetNodeIDs po node_id)"

section \<open>Segments cover the value\<close>

function seg_sizes :: "nat \<Rightarrow> nat \<Rightarrow> nat list" where
  "seg_sizes bound s = (if 0 < bound \<and> bound < s then bound # seg_sizes bound (s - bound) else [s])"
  by auto
termination by (relation "measure snd") auto

declare seg_sizes.simps [simp del]

lemma seg_sizes_sum: "sum_list (seg_sizes bound s) = s"
  by (induction bound s rule: seg_sizes.induct) (subst seg_sizes.simps, auto)

lemma seg_sizes_le: "0 < bound \<Longrightarrow> m \<in> set (seg_sizes bound s) \<Longrightarrow> m \<le> bound"
proof (induction bound s rule: seg_sizes.induct)
  case (1 bound s)
  then show ?case by (cases "bound < s") (auto simp: seg_sizes.simps [of bound s])
qed

lemma rfold_keeps:
  assumes "rfold f xs st = Inr st'" "\<And>x s s'. f x s = Inr s' \<Longrightarrow> g s' = g s"
  shows "g st' = g st"
  using assms(1)
proof (induction xs arbitrary: st)
  case (Cons x xs)
  then obtain s1 where "f x st = Inr s1" "rfold f xs s1 = Inr st'" by (auto simp: rbind_Inr_iff)
  with Cons.IH assms(2) show ?case by metis
qed simp

lemma reset_division_keeps:
  assumes "reset_division krs st = Inr st'"
  shows "bigarray_bound st' = bigarray_bound st \<and> seg_update_flag st' = seg_update_flag st \<and> server_perf st' = server_perf st"
proof -
  let ?f = "\<lambda>i st. rmap (\<lambda>c. st\<lparr>num_para_count := c, key_temp := (key_temp st)(i := fst (krs ! i))\<rparr>)
         (vec_set (num_para_count st) (int i) 0)"
  have "rfold ?f [0..<length krs] (st\<lparr>server_log := 0\<rparr>) = Inr st'" using assms by (simp add: reset_division_def)
  then have "(bigarray_bound st', seg_update_flag st', server_perf st') =
      (bigarray_bound (st\<lparr>server_log := 0\<rparr>), seg_update_flag (st\<lparr>server_log := 0\<rparr>), server_perf (st\<lparr>server_log := 0\<rparr>))"
    by (rule rfold_keeps [where g = "\<lambda>s. (bigarray_bound s, seg_update_flag s, server_perf s)"]) (auto simp: rmap_Inr_iff)
  then show ?thesis by simp
qed

lemma scale_perf_keeps:
  assumes "scale_perf n st = Inr st'"
  shows "bigarray_bound st' = bigarray_bound st \<and> seg_update_flag st' = seg_update_flag st \<and> key_temp st' = key_temp st"
proof -
  from assms obtain total where "rfold (\<lambda>i st. rbind (vec_at (server_perf st) (int i)) (\<lambda>p.
         rmap (\<lambda>v. st\<lparr>server_perf := v\<rparr>)
           (vec_set (server_perf st) (int i) (fl_ceil (f32_mul (f32_div p total) (rnd32 (of_nat (num_para st))))))))
       [0..<n] st = Inr st'"
    by (auto simp: scale_perf_def rbind_Inr_iff)
  then have "(bigarray_bound st', seg_update_flag st', key_temp st') = (bigarray_bound st, seg_update_flag st, key_temp st)"
    by (rule rfold_keeps [where g = "\<lambda>s. (bigarray_bound s, seg_update_flag s, key_temp s)"])
      (auto simp: rmap_Inr_iff rbind_Inr_iff)
  then show ?thesis by simp
qed

lemma skip_full_keeps:
  "skip_full n turns st = Inr st' \<Longrightarrow> \<exists>l. st' = st\<lparr>server_log := l\<rparr> \<and> server_log st \<le> l"
proof (induction turns arbitrary: st)
  case (Suc turns)
  then consider "st' = st" | "skip_full n turns (st\<lparr>server_log := server_log st + 1\<rparr>) = Inr st'"
    by (auto simp: rbind_Inr_iff split: if_splits)
  then show ?case
  proof cases
    case 1
    then have "st' = st\<lparr>server_log := server_log st\<rparr>" by simp
    then show ?thesis by blast
  next
    case 2
    from Suc.IH [OF this] obtain l where "st' = st\<lparr>server_log := l\<rparr>" "server_log st + 1 \<le> l" by auto
    then show ?thesis by (auto intro: exI [of _ l])
  qed
qed simp

lemma choose_server_bound:
  "choose_server k krs st = Inr st' \<Longrightarrow> bigarray_bound st' = bigarray_bound st \<and> seg_update_flag st' = seg_update_flag st"
  by (auto simp: choose_server_def rbind_Inr_iff split: if_splits
      dest!: skip_full_keeps scale_perf_keeps reset_division_keeps)

lemma take_key_Inr:
  assumes "take_key krs m nb st p = Inr (st', p')"
  shows "\<exists>counts. st' = st\<lparr>key_temp := (key_temp st)(server_log st mod length krs := key_temp st (server_log st mod length krs) + 1),
      num_para_count := counts, server_log := server_log st + 1\<rparr> \<and>
    p' = add_segment (key_temp st (server_log st mod length krs)) (int m * nb) p \<and>
    key_temp st (server_log st mod length krs) < snd (krs ! (server_log st mod length krs))"
  using assms by (auto simp: take_key_def Let_def rcheck_Inr_iff rbind_Inr_iff)

lemma segments_lens:
  assumes "segments k krs nb s st p = Inr (st', p')"
  shows "pk_lens p' = pk_lens p @ map (\<lambda>m. cint_wrap (int m * nb)) (seg_sizes (bigarray_bound st) s) \<and>
    length (pk_keys p') = length (pk_keys p) + length (seg_sizes (bigarray_bound st) s)"
  using assms
proof (induction k krs nb s st p arbitrary: st' p' rule: segments.induct)
  case (1 k krs nb s st p)
  from 1(2) obtain st1 where st1: "choose_server k krs st = Inr st1"
    by (auto simp: segments.simps [of k] rbind_Inr_iff)
  note b = choose_server_bound [OF st1, THEN conjunct1]
  show ?case
  proof (cases "s > bigarray_bound st1")
    case True
    with 1(2) st1 obtain st2 p2 where t: "take_key krs (bigarray_bound st1) nb st1 p = Inr (st2, p2)"
      and r: "segments k krs nb (s - bigarray_bound st1) st2 p2 = Inr (st', p')" and nz: "bigarray_bound st1 \<noteq> 0"
      by (auto simp: segments.simps [of k krs nb s] rbind_Inr_iff split: if_splits)
    note tk = take_key_Inr [OF t]
    have b2: "bigarray_bound st2 = bigarray_bound st" using tk b by auto
    from 1(1) [OF st1 True nz t refl r] tk b2 b True nz show ?thesis
      by (auto simp: add_segment_def seg_sizes.simps [of "bigarray_bound st" s])
  next
    case False
    with 1(2) st1 have t: "take_key krs s nb st1 p = Inr (st', p')"
      by (simp add: segments.simps [of k krs nb s])
    from take_key_Inr [OF t] False b show ?thesis
      by (auto simp: add_segment_def seg_sizes.simps [of "bigarray_bound st" s])
  qed
qed

section \<open>Segments get different keys\<close>

lemma contiguous_nth:
  assumes "contiguous lo rs" "i < j" "j < length rs"
  shows "snd (rs ! i) \<le> fst (rs ! j)"
  using assms
proof (induction rs arbitrary: lo i j)
  case (Cons r rs)
  have le: "snd r \<le> fst (rs ! m)" if "m < length rs" "contiguous (snd r) rs" for m
    using that
  proof (induction rs arbitrary: r m)
    case (Cons r' rs')
    show ?case
    proof (cases m)
      case 0
      with Cons.prems show ?thesis by simp
    next
      case (Suc m')
      with Cons.IH [of m' r'] Cons.prems show ?thesis by (auto intro: order.trans)
    qed
  qed simp
  show ?case
  proof (cases i)
    case 0
    with Cons.prems le [of "j - 1"] show ?thesis by (cases j) auto
  next
    case (Suc i')
    with Cons.prems Cons.IH [of "snd r" i' "j - 1"] show ?thesis by (cases j) auto
  qed
qed simp

text \<open>The keys handed out so far lie below the next key of their server.\<close>

definition alloc_inv :: "krange list \<Rightarrow> kdist \<Rightarrow> key set \<Rightarrow> bool" where
  "alloc_inv krs st K \<longleftrightarrow>
     (\<forall>i < length krs. fst (krs ! i) \<le> key_temp st i \<and> key_temp st i \<le> snd (krs ! i)) \<and>
     (\<forall>x \<in> K. \<exists>i < length krs. fst (krs ! i) \<le> x \<and> x < key_temp st i)"

lemma word_less_Suc: "(x :: key) < y \<Longrightarrow> x < x + 1 \<and> x + 1 \<le> y"
  using inc_less_eq_triv_imp [of x] word_order.extremum [of y] by (auto simp: inc_le not_le [symmetric])

lemma choose_server_key_temp:
  assumes "choose_server k krs st = Inr st'" "k \<noteq> 0 \<or> seg_update_flag st \<noteq> 2"
  shows "key_temp st' = key_temp st"
  using assms by (auto simp: choose_server_def rbind_Inr_iff split: if_splits dest!: skip_full_keeps)

lemma alloc_inv_key_temp: "key_temp st' = key_temp st \<Longrightarrow> alloc_inv krs st' K = alloc_inv krs st K"
  by (simp add: alloc_inv_def)

lemma alloc_inv_step:
  assumes inv: "alloc_inv krs st K" and krs: "contiguous lo krs" and i: "i < length krs"
    and lt: "key_temp st i < snd (krs ! i)"
    and st': "key_temp st' = (key_temp st)(i := key_temp st i + 1)"
  shows "key_temp st i \<notin> K \<and> alloc_inv krs st' (insert (key_temp st i) K)"
proof
  note inc = word_less_Suc [OF lt]
  have "key_temp st i \<noteq> x" if "x \<in> K" for x
  proof -
    from inv that obtain j where j: "j < length krs" "fst (krs ! j) \<le> x" "x < key_temp st j"
      by (auto simp: alloc_inv_def)
    have kj: "key_temp st j \<le> snd (krs ! j)" and ki: "fst (krs ! i) \<le> key_temp st i"
      using inv j(1) i by (auto simp: alloc_inv_def)
    consider "j = i" | "j < i" | "i < j" by linarith
    then show ?thesis
    proof cases
      case 1
      with j show ?thesis by auto
    next
      case 2
      have "x < key_temp st i"
        using order.trans [OF order.trans [OF kj contiguous_nth [OF krs 2 i]] ki] j(3) by (rule order.strict_trans2 [rotated])
      then show ?thesis by simp
    next
      case 3
      have "key_temp st i < x"
        using lt order.trans [OF contiguous_nth [OF krs 3 j(1)] j(2)] by (rule order.strict_trans2)
      then show ?thesis by simp
    qed
  qed
  then show "key_temp st i \<notin> K" by blast
  show "alloc_inv krs st' (insert (key_temp st i) K)"
    unfolding alloc_inv_def
  proof (intro conjI allI impI ballI)
    fix j assume "j < length krs"
    with inv have le: "fst (krs ! j) \<le> key_temp st j" "key_temp st j \<le> snd (krs ! j)" by (auto simp: alloc_inv_def)
    show "fst (krs ! j) \<le> key_temp st' j"
      using le(1) inc by (cases "j = i") (simp_all add: st' order.strict_trans1 less_imp_le)
    show "key_temp st' j \<le> snd (krs ! j)"
      using le(2) inc by (cases "j = i") (simp_all add: st')
  next
    fix x assume "x \<in> insert (key_temp st i) K"
    then consider "x = key_temp st i" | j where "j < length krs" "fst (krs ! j) \<le> x" "x < key_temp st j"
      using inv by (auto simp: alloc_inv_def)
    then show "\<exists>j < length krs. fst (krs ! j) \<le> x \<and> x < key_temp st' j"
    proof cases
      case 1
      with inv i inc show ?thesis by (auto simp: alloc_inv_def st' intro!: exI [of _ i])
    next
      case 2
      with inc show ?thesis by (auto simp: st' intro!: exI [of _ j])
    qed
  qed
qed

definition fresh_keys :: "krange list \<Rightarrow> kdist \<Rightarrow> key set \<Rightarrow> key list \<Rightarrow> key list \<Rightarrow> bool" where
  "fresh_keys krs st K old now \<longleftrightarrow>
     (\<exists>new. now = old @ new \<and> distinct new \<and> set new \<inter> K = {} \<and> alloc_inv krs st (K \<union> set new))"

lemma take_key_alloc:
  assumes "take_key krs m nb st p = Inr (st', p')" "alloc_inv krs st K" "contiguous lo krs" "krs \<noteq> []"
  shows "\<exists>x. pk_keys p' = pk_keys p @ [x] \<and> x \<notin> K \<and> alloc_inv krs st' (insert x K)"
proof -
  let ?i = "server_log st mod length krs"
  have i: "?i < length krs" using assms(4) by simp
  from take_key_Inr [OF assms(1)] have kt: "key_temp st' = (key_temp st)(?i := key_temp st ?i + 1)"
    and p': "pk_keys p' = pk_keys p @ [key_temp st ?i]" and lt: "key_temp st ?i < snd (krs ! ?i)"
    by (auto simp: add_segment_def)
  from alloc_inv_step [OF assms(2,3) i lt kt] show ?thesis by (simp add: p')
qed

lemma segments_alloc:
  assumes "segments k krs nb s st p = Inr (st', p')" "alloc_inv krs st K" "contiguous lo krs" "krs \<noteq> []"
    "k \<noteq> 0 \<or> seg_update_flag st \<noteq> 2"
  shows "fresh_keys krs st' K (pk_keys p) (pk_keys p')"
  using assms
proof (induction k krs nb s st p arbitrary: st' p' K rule: segments.induct)
  case (1 k krs nb s st p)
  from 1(2) obtain st1 where st1: "choose_server k krs st = Inr st1"
    by (auto simp: segments.simps [of k] rbind_Inr_iff)
  note b = choose_server_bound [OF st1] and kt = choose_server_key_temp [OF st1 1(6)]
  have inv1: "alloc_inv krs st1 K" using 1(3) by (simp add: alloc_inv_key_temp [OF kt])
  show ?case
  proof (cases "s > bigarray_bound st1")
    case True
    with 1(2) st1 obtain st2 p2 where t: "take_key krs (bigarray_bound st1) nb st1 p = Inr (st2, p2)"
      and r: "segments k krs nb (s - bigarray_bound st1) st2 p2 = Inr (st', p')" and nz: "bigarray_bound st1 \<noteq> 0"
      by (auto simp: segments.simps [of k krs nb s] rbind_Inr_iff split: if_splits)
    from take_key_alloc [OF t inv1 1(4,5)] obtain x where x: "pk_keys p2 = pk_keys p @ [x]" "x \<notin> K"
      "alloc_inv krs st2 (insert x K)" by blast
    have "seg_update_flag st2 = seg_update_flag st" using take_key_Inr [OF t] b by auto
    then have f: "k \<noteq> 0 \<or> seg_update_flag st2 \<noteq> 2" using 1(6) by simp
    from 1(1) [OF st1 True nz t refl r x(3) 1(4,5) f] obtain new where
      "pk_keys p' = pk_keys p @ x # new" "distinct (x # new)" "set (x # new) \<inter> K = {}"
      "alloc_inv krs st' (K \<union> set (x # new))"
      using x by (auto simp: fresh_keys_def)
    then show ?thesis unfolding fresh_keys_def by blast
  next
    case False
    with 1(2) st1 have t: "take_key krs s nb st1 p = Inr (st', p')"
      by (simp add: segments.simps [of k krs nb s])
    from take_key_alloc [OF t inv1 1(4,5)] obtain x where "pk_keys p' = pk_keys p @ [x]" "x \<notin> K"
      "alloc_inv krs st' (insert x K)" by blast
    then show ?thesis unfolding fresh_keys_def by (intro exI [of _ "[x]"]) simp
  qed
qed

lemma contiguous_le: "contiguous lo krs \<Longrightarrow> i < length krs \<Longrightarrow> fst (krs ! i) \<le> snd (krs ! i)"
  by (induction krs arbitrary: lo i) (auto simp: nth_Cons split: nat.split)

lemma reset_division_key_temp:
  assumes "reset_division krs st = Inr st'" "i < length krs"
  shows "key_temp st' i = fst (krs ! i)"
proof -
  let ?f = "\<lambda>i st. rmap (\<lambda>c. st\<lparr>num_para_count := c, key_temp := (key_temp st)(i := fst (krs ! i))\<rparr>)
         (vec_set (num_para_count st) (int i) 0)"
  have "rfold ?f xs st0 = Inr st1 \<Longrightarrow> i \<in> set xs \<or> key_temp st0 i = fst (krs ! i) \<Longrightarrow> key_temp st1 i = fst (krs ! i)"
    for xs st0 st1
    by (induction xs arbitrary: st0) (fastforce simp: rbind_Inr_iff rmap_Inr_iff)+
  from this [of "[0..<length krs]" "st\<lparr>server_log := 0\<rparr>" st'] assms show ?thesis
    by (simp add: reset_division_def)
qed

lemma reset_division_alloc:
  assumes "reset_division krs st = Inr st'" "contiguous lo krs"
  shows "alloc_inv krs st' {}"
  using assms by (auto simp: alloc_inv_def reset_division_key_temp contiguous_le)

section \<open>The requests of a push carry the value\<close>

lemma push_segments_cover:
  assumes "length ks = length ls" "\<forall>l \<in> set ls. 0 \<le> l" "int n + sum_list ls = int (length vals)"
  shows "\<exists>zs. push_segments cmd k ver vals n (zip ks ls) = Inr zs \<and> concat (map zp_vals zs) = drop n vals \<and>
    map zp_keys zs = map (\<lambda>x. [x]) ks \<and> map zp_lens zs = map (\<lambda>x. [x]) ls \<and>
    map (int \<circ> length \<circ> zp_vals) zs = ls"
  using assms
proof (induction ks ls arbitrary: n rule: list_induct2)
  case (Cons k1 ks l ls)
  have nonneg: "0 \<le> sum_list ls" using Cons.prems by (intro sum_list_nonneg) auto
  define e where "e = nat (int n + l)"
  have e: "int e = int n + l" "n \<le> e" "e \<le> length vals" using Cons.prems nonneg by (auto simp: e_def)
  from Cons.IH [of e] Cons.prems e obtain zs where zs: "push_segments cmd k ver vals e (zip ks ls) = Inr zs"
    "concat (map zp_vals zs) = drop e vals" "map zp_keys zs = map (\<lambda>x. [x]) ks" "map zp_lens zs = map (\<lambda>x. [x]) ls"
    "map (int \<circ> length \<circ> zp_vals) zs = ls" by auto
  have v: "take (e - n) (drop n vals) @ drop e vals = drop n vals"
    using e(2) append_take_drop_id [of "e - n" "drop n vals"] by simp
  have len: "int (length (take (e - n) (drop n vals))) = l" using e by simp
  let ?z = "\<lparr>zp_keys = [k1], zp_vals = take (e - n) (drop n vals), zp_lens = [l], zp_cmd = cmd, zp_key = k, zp_version = ver\<rparr>"
  have r: "push_segments cmd k ver vals n (zip (k1 # ks) (l # ls)) = Inr (?z # zs)"
    by (simp add: segment_ok [OF e(2,3)] e_def [symmetric] zs(1))
  show ?case by (rule exI [of _ "?z # zs"]) (simp only: r zs(2-4) zs(5) [unfolded comp_def] v len list.map concat.simps zpush.simps comp_def simp_thms)
qed simp

lemma sum_list_scale: "sum_list (map (\<lambda>m. int m * nb) ms) = int (sum_list ms) * nb"
  by (induction ms) (simp_all add: algebra_simps)


lemma cint_wrap_id: "- (2 ^ 31) \<le> x \<Longrightarrow> x < 2 ^ 31 \<Longrightarrow> cint_wrap x = x"
  by (simp add: cint_wrap_def)

text \<open>
  A dense value whose size in bytes fits an \<open>int\<close>, encoded under the server division: the keys of its segments are new,
  no segment is longer than the bound and the segments' lengths add up to the value.
\<close>

lemma EncodeDefaultKey_division:
  assumes enc: "EncodeDefaultKey k n nb krs st = Inr (p, st')"
    and fresh: "ps_kv st k = PSKV" and orig: "enable_original st \<noteq> 1"
    and krs: "contiguous lo krs" and bound: "0 < bigarray_bound st"
    and nb: "0 < nb" "int n * nb < 2 ^ 31"
    and inv: "k \<noteq> 0 \<Longrightarrow> alloc_inv krs st K" and k0: "k = 0 \<Longrightarrow> seg_update_flag st \<noteq> 2 \<and> K = {}"
  shows "distinct (pk_keys p) \<and> set (pk_keys p) \<inter> K = {} \<and> alloc_inv krs st' (K \<union> set (pk_keys p)) \<and>
    pk_lens p = map (\<lambda>m. int m * nb) (seg_sizes (bigarray_bound st) n) \<and> length (pk_keys p) = length (pk_lens p) \<and>
    sum_list (pk_lens p) = int n * nb \<and> ps_kv st' k = p"
proof -
  let ?st = "count_parameters k n (length krs) st"
  have keep: "ps_kv ?st = ps_kv st" "enable_original ?st = enable_original st" "key_temp ?st = key_temp st"
    "seg_update_flag ?st = seg_update_flag st" "bigarray_bound ?st = bigarray_bound st"
    by (simp_all add: count_parameters_def Let_def)
  let ?reset = "if k = 0 \<and> seg_update_flag ?st \<noteq> 2 then reset_division krs ?st else Inr ?st"
  from enc fresh orig obtain st0 st1 where r: "?reset = Inr st0"
    and seg: "segments k krs nb n st0 (PSKV\<lparr>pk_size := 0\<rparr>) = Inr (st1, p)" and ne: "krs \<noteq> []"
    and st': "st' = st1\<lparr>ps_kv := (ps_kv st1)(k := p)\<rparr>"
    by (auto simp: EncodeDefaultKey_def Let_def keep rcheck_Inr_iff rbind_Inr_iff PSKV_def)
  have a0: "alloc_inv krs st0 K"
  proof (cases "k = 0")
    case True
    with k0 have c: "k = 0 \<and> seg_update_flag ?st \<noteq> 2" unfolding keep by simp
    from r have "reset_division krs ?st = Inr st0" unfolding if_P [OF c] .
    from reset_division_alloc [OF this krs] True k0 show ?thesis by simp
  next
    case False
    with r inv alloc_inv_key_temp [OF keep(3), of krs K] show ?thesis by auto
  qed
  have f0: "k \<noteq> 0 \<or> seg_update_flag st0 \<noteq> 2" and b0: "bigarray_bound st0 = bigarray_bound st"
    using r k0 reset_division_keeps [of krs ?st st0] by (auto simp: keep split: if_splits)
  from segments_alloc [OF seg a0 krs ne f0] have fr: "distinct (pk_keys p)" "set (pk_keys p) \<inter> K = {}"
    "alloc_inv krs st1 (K \<union> set (pk_keys p))" by (auto simp: fresh_keys_def PSKV_def)
  have small: "cint_wrap (int m * nb) = int m * nb" if "m \<in> set (seg_sizes (bigarray_bound st) n)" for m
  proof -
    have "m \<le> n" using that member_le_sum_list [of m "seg_sizes (bigarray_bound st) n"] by (simp add: seg_sizes_sum)
    then have le: "int m * nb \<le> int n * nb" using nb(1) by (intro mult_right_mono) auto
    have "0 \<le> int m * nb" using nb(1) by simp
    with order.strict_trans1 [OF le nb(2)] show ?thesis by (intro cint_wrap_id) linarith+
  qed
  from segments_lens [OF seg] have ls: "pk_lens p = map (\<lambda>m. int m * nb) (seg_sizes (bigarray_bound st) n)"
    "length (pk_keys p) = length (pk_lens p)"
    by (auto simp: b0 PSKV_def small cong: map_cong)
  moreover have "alloc_inv krs st' (K \<union> set (pk_keys p))" using fr(3) by (simp add: st' alloc_inv_def)
  ultimately show ?thesis using fr by (simp add: sum_list_scale seg_sizes_sum st')
qed

text \<open>
  The push of such a value is one request per segment; put together in order they are the value.
\<close>

lemma PushDefault_division:
  assumes "EncodeDefaultKey k n nb krs st = Inr (p, st')"
    "ps_kv st k = PSKV" "enable_original st \<noteq> 1" "contiguous lo krs" "0 < bigarray_bound st"
    "0 < nb" "int n * nb < 2 ^ 31" "int (length vals) = int n * nb"
    "k \<noteq> 0 \<Longrightarrow> alloc_inv krs st K" "k = 0 \<Longrightarrow> seg_update_flag st \<noteq> 2 \<and> K = {}"
  shows "\<exists>zs. PushDefault k ty vals p st'' = Inr zs \<and> concat (map zp_vals zs) = vals \<and>
    map zp_keys zs = map (\<lambda>x. [x]) (pk_keys p) \<and> (\<forall>z \<in> set zs. int (length (zp_vals z)) \<le> int (bigarray_bound st) * nb)"
proof -
  note e = EncodeDefaultKey_division [OF assms(1-7,9,10)]
  have ls: "pk_lens p = map (\<lambda>m. int m * nb) (seg_sizes (bigarray_bound st) n)"
    and len: "length (pk_keys p) = length (pk_lens p)" and sum: "sum_list (pk_lens p) = int n * nb"
    using e by blast+
  have nonneg: "\<forall>l \<in> set (pk_lens p). 0 \<le> l" using ls assms(6) by auto
  have "int 0 + sum_list (pk_lens p) = int (length vals)" using sum assms(8) by simp
  from push_segments_cover [OF len nonneg this, of "GetCommandType kDefaultPushPull ty" k "iter_count st''"] obtain zs where
    zs: "PushDefault k ty vals p st'' = Inr zs" "concat (map zp_vals zs) = vals"
      "map zp_keys zs = map (\<lambda>x. [x]) (pk_keys p)" "map (int \<circ> length \<circ> zp_vals) zs = pk_lens p"
    by (auto simp: PushDefault_def)
  have "int (length (zp_vals z)) \<le> int (bigarray_bound st) * nb" if z: "z \<in> set zs" for z
  proof -
    have "int (length (zp_vals z)) \<in> set (pk_lens p)" using z zs(4) by (auto simp flip: zs(4))
    then obtain m where m: "m \<in> set (seg_sizes (bigarray_bound st) n)" "int (length (zp_vals z)) = int m * nb"
      using ls by auto
    from seg_sizes_le [OF assms(5) m(1)] assms(6) show ?thesis by (simp add: m(2))
  qed
  with zs show ?thesis by auto
qed

section \<open>Key 0 during a renewal\<close>

text \<open>
  In the renewing pass the division is reset at every turn of the loop for key 0, so that all
  segments of key 0 get the first key of the chosen server: the keys are not distinct.
\<close>

definition renewing :: kdist where
  "renewing = (KVStoreDist 2 0)\<lparr>seg_update_flag := 2, num_para := 10, num_para_flag := 3, num_para_count := [0, 0],
     server_perf := [Fin 1, Fin 1]\<rparr>"

lemma EncodeDefaultKey_repeats_keys:
  "rmap (\<lambda>(p, _). (pk_keys p, pk_lens p)) (EncodeDefaultKey 0 4 4 [(0, 100), (100, 200)] renewing) = Inr ([0, 0], [8, 8])"
  by code_simp

lemma CheckUnique_misses: "CheckUnique [1, 2, 1] = Inr ()"
  by (simp add: CheckUnique_def)

section \<open>The search for a server with share left\<close>

definition share_left :: "kdist \<Rightarrow> nat \<Rightarrow> bool" where
  "share_left st i \<longleftrightarrow> \<not> fl_ge (rnd32 (of_nat (num_para_count st ! i))) (server_perf st ! i)"

lemma skip_full_search:
  assumes "n \<le> length (num_para_count st)" "n \<le> length (server_perf st)" "0 < n"
  shows "skip_full n turns st =
    (case List.find (share_left st) (map (\<lambda>i. (server_log st + i) mod n) [0..<turns]) of
       None \<Rightarrow> Inl (Diverges ''no share is left'')
     | Some _ \<Rightarrow> Inr (st\<lparr>server_log := server_log st +
         length (takeWhile (\<lambda>i. \<not> share_left st ((server_log st + i) mod n)) [0..<turns])\<rparr>))"
  using assms
proof (induction turns arbitrary: st)
  case (Suc turns)
  have i: "server_log st mod n < n" using Suc.prems by simp
  have v: "vec_at (num_para_count st) (int (server_log st mod n)) = Inr (num_para_count st ! (server_log st mod n))"
    "vec_at (server_perf st) (int (server_log st mod n)) = Inr (server_perf st ! (server_log st mod n))"
    using less_le_trans [OF i Suc.prems(1)] less_le_trans [OF i Suc.prems(2)] by (simp_all add: vec_at_def)
  have sh: "[0..<Suc turns] = 0 # map Suc [0..<turns]" by (simp add: map_Suc_upt upt_conv_Cons del: upt_Suc)
  let ?st = "st\<lparr>server_log := server_log st + 1\<rparr>"
  have "share_left ?st = share_left st" by (rule ext) (simp add: share_left_def)
  with Suc.IH [of ?st] Suc.prems show ?case
    by (auto simp: v sh share_left_def [of st "server_log st mod n"] takeWhile_map comp_def simp del: upt_Suc split: option.split)
qed simp

text \<open>
  Within one turn over the servers the search ends at a server that has share left, or no server has
  and the code's loop does not end.
\<close>

lemma mod_shift: "0 < n \<Longrightarrow> i < n \<Longrightarrow> \<exists>j < n. ((a :: nat) + j) mod n = i"
proof -
  assume n: "0 < n" and i: "i < n"
  have "(a + (i + (n - a mod n)) mod n) mod n = (a mod n + (i + (n - a mod n))) mod n"
    by (simp only: mod_add_right_eq mod_add_left_eq)
  also have "a mod n + (i + (n - a mod n)) = i + n" using mod_less_divisor [OF n, of a] by simp
  finally show ?thesis using n i by (intro exI [of _ "(i + (n - a mod n)) mod n"]) simp
qed

lemma skip_full_ends:
  assumes "n \<le> length (num_para_count st)" "n \<le> length (server_perf st)" "0 < n"
  shows "if \<exists>i < n. share_left st i
    then \<exists>l. skip_full n n st = Inr (st\<lparr>server_log := l\<rparr>) \<and> server_log st \<le> l \<and> l < server_log st + n \<and> share_left st (l mod n)
    else skip_full n n st = Inl (Diverges ''no share is left'')"
proof (cases "\<exists>i < n. share_left st i")
  case True
  then obtain i where i: "i < n" "share_left st i" by blast
  from mod_shift [OF assms(3) i(1), of "server_log st"] obtain j where j: "j < n" "(server_log st + j) mod n = i" by blast
  let ?P = "\<lambda>i. \<not> share_left st ((server_log st + i) mod n)"
  let ?m = "length (takeWhile ?P [0..<n])"
  have m: "?m < n"
  proof (rule ccontr)
    assume "\<not> ?m < n"
    then have "length (takeWhile ?P [0..<n]) = length [0..<n]" using length_takeWhile_le [of ?P "[0..<n]"] by simp
    then have "takeWhile ?P [0..<n] = [0..<n]" by (metis takeWhile_eq_take take_all order_refl)
    then have "?P j" using j(1) by (metis takeWhile_eq_all_conv atLeastLessThan_iff set_upt zero_le)
    with j i show False by simp
  qed
  then have "share_left st ((server_log st + ?m) mod n)"
    using nth_length_takeWhile [of ?P "[0..<n]"] by simp
  moreover have "List.find (share_left st) (map (\<lambda>i. (server_log st + i) mod n) [0..<n]) \<noteq> None"
    using i j by (auto simp: find_None_iff)
  ultimately show ?thesis using m True
    by (auto simp: skip_full_search [OF assms] split: option.split)
next
  case False
  then have "List.find (share_left st) (map (\<lambda>i. (server_log st + i) mod n) [0..<n]) = None"
    using assms(3) by (auto simp: find_None_iff)
  with False show ?thesis by (simp add: skip_full_search [OF assms])
qed

end
