(* ===== verification/MX_Comm.thy ===== *)
theory MX_Comm
  imports MX_Ndarray MX_Reduce MX_Compress
begin

text \<open>
  Communication between the devices of one machine (\<open>src/kvstore/comm.h\<close>): \<open>CommCPU\<close>
  completely, \<open>CommDevice\<close> with its reduction, its compressed reduction, its broadcast and the
  distribution of the merge buffers over the devices. An \<open>NDArray\<close> is a handle, and the store
  keeps handles, so arrays live in a heap and a handle is an address: two handles with the same address
  share their contents. The engine executes the operations on an array in
  program order, hence here at once. \<open>order\<close> is the order of the parallel tasks, \<open>threads\<close> the number of threads.
\<close>

section \<open>The heap of arrays\<close>

type_synonym addr = nat
type_synonym heap = "ndarray list"

definition array_at :: "heap \<Rightarrow> addr \<Rightarrow> ndarray res" where
  "array_at h a = (if a < length h then Inr (h ! a) else Inl (Undefined ''no array''))"

definition new_array :: "ndarray \<Rightarrow> heap \<Rightarrow> addr \<times> heap" where
  "new_array x h = (length h, h @ [x])"

text \<open>A copy of an array onto itself is skipped.\<close>

definition copy_array :: "ndops \<Rightarrow> addr \<Rightarrow> addr \<Rightarrow> heap \<Rightarrow> heap res" where
  "copy_array ops a b h =
     (if a = b then Inr h
      else rbind (array_at h a) (\<lambda>x. rbind (array_at h b) (\<lambda>y.
        rbind (CopyFromTo ops (Some x) (Some y)) (\<lambda>z.
          case z of Some w \<Rightarrow> Inr (h[b := w]) | None \<Rightarrow> Inl (Undefined ''no array'')))))"

definition is_sparse :: "ndarray \<Rightarrow> bool" where
  "is_sparse x \<longleftrightarrow> nd_rows x \<noteq> None"

text \<open>A new array of the same type and shape, and \<open>NDArray::Copy\<close>.\<close>

definition like :: "ndarray \<Rightarrow> ndarray" where
  "like x = (if is_sparse x then nd_alloc_rsp (nd_shape x) (nd_dtype x) else nd_alloc (nd_shape x) (nd_dtype x))"

definition Copy_array :: "ndops \<Rightarrow> addr \<Rightarrow> heap \<Rightarrow> (addr \<times> heap) res" where
  "Copy_array ops a h =
     rbind (array_at h a) (\<lambda>x. case new_array (like x) h of (b, h) \<Rightarrow> rmap (\<lambda>h. (b, h)) (copy_array ops a b h))"

section \<open>CommCPU\<close>

record cbuf =
  cb_merged :: "addr option"
  cb_sparse :: "addr option"
  cb_copy :: "addr list"

record commcpu =
  merge_buf :: "int \<Rightarrow> cbuf"
  cc_bigarray_bound :: nat
  nthread_reduction :: int
  is_serial_push :: bool

definition CommCPU :: "nat \<Rightarrow> int \<Rightarrow> bool \<Rightarrow> commcpu" where
  "CommCPU bound nthread serial = \<lparr>merge_buf = (\<lambda>_. \<lparr>cb_merged = None, cb_sparse = None, cb_copy = []\<rparr>),
     cc_bigarray_bound = bound, nthread_reduction = nthread, is_serial_push = serial\<rparr>"

type_synonym cstate = "commcpu \<times> heap"

definition set_buf :: "int \<Rightarrow> cbuf \<Rightarrow> commcpu \<Rightarrow> commcpu" where
  "set_buf k b c = c\<lparr>merge_buf := (merge_buf c)(k := b)\<rparr>"

definition comm_Init :: "int \<Rightarrow> int list \<Rightarrow> int \<Rightarrow> cstate \<Rightarrow> cstate" where
  "comm_Init k shape ty st =
     (case st of (c, h) \<Rightarrow> case new_array (nd_alloc shape ty) h of (a, h) \<Rightarrow>
       (set_buf k ((merge_buf c k)\<lparr>cb_merged := Some a\<rparr>) c, h))"

definition merged_buf :: "bool \<Rightarrow> int \<Rightarrow> cstate \<Rightarrow> (addr \<times> cstate) res" where
  "merged_buf sparse k st =
     (case st of (c, h) \<Rightarrow> let b = merge_buf c k in
      if \<not> sparse then (case cb_merged b of Some a \<Rightarrow> Inr (a, c, h) | None \<Rightarrow> Inl (Undefined ''no merge buffer''))
      else case cb_sparse b of
        Some a \<Rightarrow> Inr (a, c, h)
      | None \<Rightarrow> (case cb_merged b of
          None \<Rightarrow> Inl (Check_failed ''!merged.is_none()'')
        | Some m \<Rightarrow> rbind (array_at h m) (\<lambda>x.
            case new_array (nd_alloc_rsp (nd_shape x) (nd_dtype x)) h of (a, h) \<Rightarrow>
              Inr (a, set_buf k (b\<lparr>cb_sparse := Some a\<rparr>) c, h))))"

text \<open>The buffers that the sources are copied to, allocated at the first reduction of a key.\<close>

fun new_arrays :: "nat \<Rightarrow> ndarray \<Rightarrow> heap \<Rightarrow> addr list \<times> heap" where
  "new_arrays 0 x h = ([], h)"
| "new_arrays (Suc n) x h = (case new_array x h of (a, h) \<Rightarrow> case new_arrays n x h of (as, h) \<Rightarrow> (a # as, h))"

definition copy_buffers :: "int \<Rightarrow> nat \<Rightarrow> ndarray \<Rightarrow> cstate \<Rightarrow> (addr list \<times> cstate) res" where
  "copy_buffers k n x st =
     (case st of (c, h) \<Rightarrow>
      case (if cb_copy (merge_buf c k) = []
            then case new_arrays n x h of (as, h) \<Rightarrow> (as, set_buf k ((merge_buf c k)\<lparr>cb_copy := as\<rparr>) c, h)
            else (cb_copy (merge_buf c k), c, h)) of (as, c, h) \<Rightarrow>
      rbind (vec_at as 0) (\<lambda>a. rbind (array_at h a) (\<lambda>y.
        rcheck (is_sparse x = is_sparse y) ''Storage type mismatch detected'' (Inr (as, c, h)))))"

fun copy_all :: "ndops \<Rightarrow> addr list \<Rightarrow> addr list \<Rightarrow> heap \<Rightarrow> heap res" where
  "copy_all ops [] bs h = Inr h"
| "copy_all ops (a # as) [] h = Inl (Out_of_range ''copy_buf'')"
| "copy_all ops (a # as) (b # bs) h = rbind (copy_array ops a b h) (copy_all ops as bs)"

text \<open>The elements of a dense array, which has to have the given type and contents.\<close>

definition elements :: "int \<Rightarrow> heap \<Rightarrow> addr \<Rightarrow> bytes list res" where
  "elements ty h a =
     rbind (array_at h a) (\<lambda>x. rbind (mshadow_sizeof ty) (\<lambda>sz.
       rcheck (nd_dtype x = ty) ''TBlob.get_with_shape: data type do not match specified type''
         (case nd_data x of
            None \<Rightarrow> Inl (Undefined ''uninitialised memory'')
          | Some bs \<Rightarrow> Inr (chunks sz (nat (shape_size (nd_shape x))) bs))))"

definition ReduceSumCPU_arrays :: "ndops \<Rightarrow> (nat \<Rightarrow> nat list) \<Rightarrow> commcpu \<Rightarrow> addr \<Rightarrow> addr list \<Rightarrow> heap \<Rightarrow> heap res" where
  "ReduceSumCPU_arrays ops order c m others h =
     rbind (array_at h m) (\<lambda>x. let ty = nd_dtype x in
     rbind (elements ty h m) (\<lambda>e. rbind (rmap_list (elements ty h) others) (\<lambda>es.
     rmap (\<lambda>sum. h[m := x\<lparr>nd_data := Some (concat sum)\<rparr>])
       (ReduceSumCPUImpl (op_plus ops ty) (cc_bigarray_bound c) (nthread_reduction c) order es
          (nat (shape_size (nd_shape x))) e))))"

definition sparse_rows :: "heap \<Rightarrow> addr \<Rightarrow> bytes rows res" where
  "sparse_rows h a = rbind (array_at h a) (\<lambda>x.
     case nd_rows x of Some rs \<Rightarrow> Inr rs | None \<Rightarrow> Inl (Fatal ''ElementwiseSum has not been implemented''))"

definition zero_of :: "ndarray \<Rightarrow> bytes res" where
  "zero_of x = rmap (\<lambda>sz. replicate (nat (shape_size (tl (nd_shape x))) * sz) 0) (mshadow_sizeof (nd_dtype x))"

definition serial_result :: "(int \<times> 'v option) list \<Rightarrow> 'v rows res" where
  "serial_result rs = rmap_list (\<lambda>(i, v). case v of Some x \<Rightarrow> Inr (i, x) | None \<Rightarrow> Inl (Undefined ''uninitialised row'')) rs"

definition ReduceSparse :: "ndops \<Rightarrow> nat \<Rightarrow> bool \<Rightarrow> addr \<Rightarrow> addr list \<Rightarrow> heap \<Rightarrow> heap res" where
  "ReduceSparse ops threads serial out ins h =
     rbind (array_at h out) (\<lambda>x. rbind (rmap_list (sparse_rows h) ins) (\<lambda>nds. rbind (zero_of x) (\<lambda>zero.
     rmap (\<lambda>rs. h[out := x\<lparr>nd_rows := Some rs\<rparr>])
       (if serial then serial_result (ReduceSumCPUExSerial (op_plus ops (nd_dtype x)) nds)
        else Inr (ElementwiseSumRsp (op_plus ops (nd_dtype x)) zero threads nds)))))"

definition comm_Reduce ::
  "ndops \<Rightarrow> (nat \<Rightarrow> nat list) \<Rightarrow> nat \<Rightarrow> int \<Rightarrow> addr list \<Rightarrow> cstate \<Rightarrow> (addr \<times> cstate) res" where
  "comm_Reduce ops order threads k src st =
     rbind (vec_at src 0) (\<lambda>a. rbind (array_at (snd st) a) (\<lambda>x.
     if length src = 1 \<and> \<not> is_sparse x then Inr (a, st)
     else rbind (merged_buf (is_sparse x) k st) (\<lambda>(m, c, h).
       if length src = 1 then rmap (\<lambda>h. (m, c, h)) (copy_array ops a m h)
       else if \<not> is_sparse x then
         rbind (copy_array ops a m h) (\<lambda>h.
         rbind (copy_buffers k (length src - 1) (nd_alloc (nd_shape x) (nd_dtype x)) (c, h)) (\<lambda>(bufs, c, h).
         rbind (copy_all ops (tl src) bufs h) (\<lambda>h.
         rmap (\<lambda>h. (m, c, h)) (ReduceSumCPU_arrays ops order c m (take (length src - 1) bufs) h))))
       else
         rbind (copy_buffers k (length src) (nd_alloc_rsp (nd_shape x) (nd_dtype x)) (c, h)) (\<lambda>(bufs, c, h).
         rbind (copy_all ops src bufs h) (\<lambda>h.
         rmap (\<lambda>h. (m, c, h)) (ReduceSparse ops threads (is_serial_push c) m (take (length src) bufs) h))))))"

definition comm_Broadcast :: "ndops \<Rightarrow> addr \<Rightarrow> addr list \<Rightarrow> heap \<Rightarrow> heap res" where
  "comm_Broadcast ops src dsts h = rfold (\<lambda>d. copy_array ops src d) dsts h"

text \<open>The row ids are sorted and unique; a destination that is the source itself is written through a temporary array.\<close>

definition retain_to :: "ndops \<Rightarrow> addr \<Rightarrow> addr \<times> int list \<Rightarrow> heap \<Rightarrow> heap res" where
  "retain_to ops src d h =
     (case d of (out, ids) \<Rightarrow>
      rbind (array_at h src) (\<lambda>x. rbind (array_at h out) (\<lambda>y.
      rcheck (is_sparse y) ''BroadcastRowSparse expects row_sparse dst NDArray''
      (case (if out \<noteq> src then (out, h) else new_array (nd_alloc_rsp (nd_shape x) (nd_dtype x)) h) of (t, h) \<Rightarrow>
       rbind (sparse_rows h src) (\<lambda>rs. rbind (zero_of x) (\<lambda>zero. rbind (array_at h t) (\<lambda>w.
       rbind (SparseRetainOpForwardRspImpl zero (hd (nd_shape x)) rs ids) (\<lambda>rs'.
         copy_array ops t out (h[t := w\<lparr>nd_rows := Some rs'\<rparr>])))))))))"

definition BroadcastRowSparse :: "ndops \<Rightarrow> addr \<Rightarrow> (addr \<times> int list) list \<Rightarrow> heap \<Rightarrow> heap res" where
  "BroadcastRowSparse ops src dsts h =
     rbind (array_at h src) (\<lambda>x. rcheck (is_sparse x) ''BroadcastRowSparse expects row-sparse src NDArray''
       (rfold (retain_to ops src) dsts h))"

section \<open>The interface\<close>

text \<open>The virtual functions of \<open>Comm\<close>, over the state of an implementation and the heap.\<close>

record 'c vcomm =
  cm_Init :: "int \<Rightarrow> int list \<Rightarrow> int \<Rightarrow> 'c \<times> heap \<Rightarrow> 'c \<times> heap"
  cm_Reduce :: "int \<Rightarrow> addr list \<Rightarrow> 'c \<times> heap \<Rightarrow> (addr \<times> 'c \<times> heap) res"
  cm_Broadcast :: "int \<Rightarrow> addr \<Rightarrow> addr list \<Rightarrow> 'c \<times> heap \<Rightarrow> ('c \<times> heap) res"
  cm_BroadcastRowSparse :: "int \<Rightarrow> addr \<Rightarrow> (addr \<times> int list) list \<Rightarrow> 'c \<times> heap \<Rightarrow> ('c \<times> heap) res"

definition cpu_comm :: "ndops \<Rightarrow> (nat \<Rightarrow> nat list) \<Rightarrow> nat \<Rightarrow> commcpu vcomm" where
  "cpu_comm ops order threads =
     \<lparr>cm_Init = comm_Init, cm_Reduce = comm_Reduce ops order threads,
      cm_Broadcast = (\<lambda>k src dsts (c, h). rmap (\<lambda>h. (c, h)) (comm_Broadcast ops src dsts h)),
      cm_BroadcastRowSparse = (\<lambda>k src dsts (c, h). rmap (\<lambda>h. (c, h)) (BroadcastRowSparse ops src dsts h))\<rparr>"

section \<open>CommDevice\<close>

text \<open>
  The distribution of the merge buffers: the keys with their sizes, largest first, go to a device with the least
  load. \<open>devs\<close> are the devices in the order in which the map is traversed, so that the last one with the least load is taken.
\<close>

definition least_loaded :: "(int \<times> nat) list \<Rightarrow> int res" where
  "least_loaded loads =
     (case fold (\<lambda>(d, s) best. case best of None \<Rightarrow> if s \<le> 2 ^ 64 - 1 then Some (d, s) else None
           | Some (d', s') \<Rightarrow> if s \<le> s' then Some (d, s) else best) loads None of
        Some (d, _) \<Rightarrow> Inr d | None \<Rightarrow> Inl (Undefined ''no device''))"

definition add_load :: "int \<Rightarrow> nat \<Rightarrow> (int \<times> nat) list \<Rightarrow> (int \<times> nat) list" where
  "add_load d n loads = map (\<lambda>(d', s). (d', if d' = d then s + n else s)) loads"

definition place_key :: "int \<times> nat \<Rightarrow> (int \<times> nat) list \<times> (int \<rightharpoonup> int) \<Rightarrow> ((int \<times> nat) list \<times> (int \<rightharpoonup> int)) res" where
  "place_key ks st =
     (case ks of (k, n) \<Rightarrow> case st of (loads, buf) \<Rightarrow>
      rmap (\<lambda>d. (add_load d n loads, if buf k = None then buf(k \<mapsto> d) else buf)) (least_loaded loads))"

text \<open>\<open>keys\<close> is the list of keys with their sizes as \<open>std::sort\<close> leaves it, largest first.\<close>

definition InitMergeBuffer :: "int list \<Rightarrow> (int \<times> nat) list \<Rightarrow> (int \<rightharpoonup> int) \<Rightarrow> ((int \<times> nat) list \<times> (int \<rightharpoonup> int)) res" where
  "InitMergeBuffer devs keys buf = rfold place_key keys (map (\<lambda>d. (d, 0)) (remdups devs), buf)"

text \<open>\<open>ElementwiseSum\<close> on dense arrays; its callers give at least one array.\<close>

fun ElementwiseSum :: "('e \<Rightarrow> 'e \<Rightarrow> 'e) \<Rightarrow> 'e list list \<Rightarrow> 'e list" where
  "ElementwiseSum pl [a, b] = map2 pl a b"
| "ElementwiseSum pl [a, b, c] = map2 pl (map2 pl a b) c"
| "ElementwiseSum pl [a, b, c, d] = map2 pl (map2 pl (map2 pl a b) c) d"
| "ElementwiseSum pl xs = foldl (map2 pl) (hd xs) (tl xs)"

text \<open>One device's gradient through its residual: what is received, and the new residual.\<close>

definition send_compressed :: "gcomp \<Rightarrow> fl list \<times> fl list \<Rightarrow> (fl list \<times> fl list) res" where
  "send_compressed g x =
     (case x of (grad, res) \<Rightarrow>
      rbind (GetCompressedSize g (int (length res))) (\<lambda>small.
      rbind (Quantize g grad res (nat small)) (\<lambda>(compressed, res').
      rmap (\<lambda>v. (v, res')) (Dequantize g compressed (length res)))))"

definition ReduceCompressed :: "gcomp \<Rightarrow> fl list list \<Rightarrow> fl list list \<Rightarrow> (fl list \<times> fl list list) res" where
  "ReduceCompressed g grads residuals =
     rmap (\<lambda>rs. (ElementwiseSum f32_add (map fst rs), map snd rs)) (rmap_list (send_compressed g) (zip grads residuals))"

text \<open>Before the first reduction a value goes to one device and from there to the others.\<close>

definition device_Broadcast :: "ndops \<Rightarrow> bool \<Rightarrow> int \<Rightarrow> addr \<Rightarrow> addr \<Rightarrow> addr list \<Rightarrow> heap \<Rightarrow> heap res" where
  "device_Broadcast ops inited k src merged dsts h =
     (if \<not> inited then
        if dsts = [] then Inl (Undefined ''division by zero'')
        else let dev = nat (k mod 2 ^ 64 mod int (length dsts)); d = dsts ! dev in
          rbind (copy_array ops src d h) (\<lambda>h.
          rfold (\<lambda>i h. if i \<noteq> dev then copy_array ops d (dsts ! i) h else Inr h) [0..<length dsts] h)
      else rbind (copy_array ops src merged h) (\<lambda>h. rfold (\<lambda>d. copy_array ops merged d) dsts h))"

section \<open>Copies\<close>

definition good_shape :: "int list \<Rightarrow> bool" where
  "good_shape sh \<longleftrightarrow> (\<forall>d \<in> set sh. 0 \<le> d) \<and> shape_size sh \<noteq> 0"

definition dense_at :: "int \<Rightarrow> int list \<Rightarrow> heap \<Rightarrow> addr \<Rightarrow> bool" where
  "dense_at ty sh h a \<longleftrightarrow> a < length h \<and> nd_dtype (h ! a) = ty \<and> nd_shape (h ! a) = sh \<and> nd_rows (h ! a) = None"

definition holds :: "heap \<Rightarrow> addr \<Rightarrow> int \<Rightarrow> int list \<Rightarrow> bytes \<Rightarrow> bool" where
  "holds h a ty sh bs \<longleftrightarrow> dense_at ty sh h a \<and> nd_data (h ! a) = Some bs"

lemma copy_array_dense:
  assumes "dense_at ty sh h a" "dense_at ty sh h b" "a \<noteq> b" "good_shape sh"
  shows "copy_array ops a b h = Inr (h[b := h ! a])"
  using assms CopyFromTo_same [of "h ! a" "h ! b" ops]
  by (simp add: copy_array_def array_at_def dense_at_def good_shape_def)

lemma dense_at_update:
  "dense_at ty sh h a \<Longrightarrow> dense_at ty sh h b \<Longrightarrow> dense_at ty sh (h[b := h ! a]) x \<longleftrightarrow> dense_at ty sh h x"
  by (cases "x = b") (auto simp: dense_at_def)

lemma dense_at_cong: "h' ! a = h ! a \<Longrightarrow> length h \<le> length h' \<Longrightarrow> dense_at ty sh h a \<Longrightarrow> dense_at ty sh h' a"
  by (simp add: dense_at_def)

lemma holds_cong: "h' ! a = h ! a \<Longrightarrow> length h \<le> length h' \<Longrightarrow> holds h a ty sh bs \<Longrightarrow> holds h' a ty sh bs"
  by (simp add: holds_def dense_at_cong)

lemma holds_copied: "holds h a ty sh bs \<Longrightarrow> h' ! b = h ! a \<Longrightarrow> b < length h' \<Longrightarrow> holds h' b ty sh bs"
  by (simp add: holds_def dense_at_def)

text \<open>A broadcast writes the value to every destination and to nothing else.\<close>

lemma comm_Broadcast_dense:
  assumes "dense_at ty sh h a" "\<forall>d \<in> set dsts. dense_at ty sh h d" "a \<notin> set dsts" "good_shape sh"
  shows "\<exists>h'. comm_Broadcast ops a dsts h = Inr h' \<and> length h' = length h \<and>
    (\<forall>x. h' ! x = (if x \<in> set dsts then h ! a else h ! x))"
  using assms
proof (induction dsts arbitrary: h)
  case Nil
  then show ?case by (simp add: comm_Broadcast_def)
next
  case (Cons d dsts)
  let ?h = "h[d := h ! a]"
  have d: "dense_at ty sh h d" "a \<noteq> d" "d < length h" using Cons.prems by (auto simp: dense_at_def)
  have "dense_at ty sh ?h a" "\<forall>x \<in> set dsts. dense_at ty sh ?h x"
    using Cons.prems by (auto simp: dense_at_update)
  from Cons.IH [OF this] Cons.prems obtain h' where h': "comm_Broadcast ops a dsts ?h = Inr h'" "length h' = length ?h"
    "\<forall>x. h' ! x = (if x \<in> set dsts then ?h ! a else ?h ! x)" by auto
  then show ?case
    using copy_array_dense [OF Cons.prems(1) d(1,2) Cons.prems(4)] d
    by (auto simp: comm_Broadcast_def nth_list_update intro!: exI [of _ h'])
qed

lemma new_arrays_eq: "new_arrays n x h = ([length h..<length h + n], h @ replicate n x)"
proof (induction n arbitrary: h)
  case (Suc n)
  then show ?case by (simp add: new_array_def upt_conv_Cons replicate_append_same)
qed simp

lemma copy_all_dense:
  assumes "length as \<le> length bs" "\<forall>a \<in> set as. dense_at ty sh h a" "\<forall>b \<in> set bs. dense_at ty sh h b"
    "distinct bs" "set as \<inter> set bs = {}" "good_shape sh"
  shows "\<exists>h'. copy_all ops as bs h = Inr h' \<and> length h' = length h \<and>
    (\<forall>i < length as. h' ! (bs ! i) = h ! (as ! i)) \<and> (\<forall>x. x \<notin> set bs \<longrightarrow> h' ! x = h ! x) \<and>
    (\<forall>x. dense_at ty sh h' x = dense_at ty sh h x)"
  using assms
proof (induction ops as bs h rule: copy_all.induct)
  case (3 ops a as b bs h)
  let ?h = "h[b := h ! a]"
  have ab: "dense_at ty sh h a" "dense_at ty sh h b" "a \<noteq> b" "b < length h" using 3 by (auto simp: dense_at_def)
  have "\<forall>x \<in> set as. dense_at ty sh ?h x" "\<forall>x \<in> set bs. dense_at ty sh ?h x"
    using 3 ab by (auto simp: dense_at_update)
  moreover have c: "copy_array ops a b h = Inr ?h" using copy_array_dense [OF ab(1-3) \<open>good_shape sh\<close>] .
  ultimately obtain h' where h': "copy_all ops as bs ?h = Inr h'" "length h' = length ?h"
    "\<forall>i < length as. h' ! (bs ! i) = ?h ! (as ! i)" "\<forall>x. x \<notin> set bs \<longrightarrow> h' ! x = ?h ! x"
    "\<forall>x. dense_at ty sh h' x = dense_at ty sh ?h x"
    using "3.IH" [OF c] 3 by auto
  have "h' ! ((b # bs) ! i) = h ! ((a # as) ! i)" if "i < length (a # as)" for i
  proof (cases i)
    case 0
    with h'(4) 3 ab show ?thesis by simp
  next
    case (Suc j)
    have "as ! j \<noteq> b" using that Suc 3 by (auto dest: nth_mem)
    with h'(3) that Suc show ?thesis by simp
  qed
  with h' c 3 show ?case by (auto simp: dense_at_update [OF ab(1,2)] intro!: exI [of _ h'])
qed auto
section \<open>The reduction of CommCPU\<close>

definition element_size :: "int \<Rightarrow> nat" where
  "element_size ty = (case mshadow_sizeof ty of Inr n \<Rightarrow> n | Inl _ \<Rightarrow> 0)"

text \<open>The sum over the devices: element by element, the other devices in groups of four.\<close>

definition cpu_total :: "ndops \<Rightarrow> int \<Rightarrow> int list \<Rightarrow> bytes list \<Rightarrow> bytes" where
  "cpu_total ops ty sh bss =
     (let n = nat (shape_size sh); es = map (chunks (element_size ty) n) bss in
      concat (map (\<lambda>j. elem_rest (op_plus ops ty) (hd es ! j) (map (\<lambda>e. e ! j) (tl es))) [0..<n]))"

definition cpu_area :: "int \<Rightarrow> cstate \<Rightarrow> addr set" where
  "cpu_area k st = (case merge_buf (fst st) k of b \<Rightarrow> set_option (cb_merged b) \<union> set_option (cb_sparse b) \<union> set (cb_copy b))"

text \<open>The buffers of the keys are pairwise apart and apart from the arrays \<open>U\<close> of the clients.\<close>

definition cpu_key_ready :: "int \<Rightarrow> int list \<Rightarrow> nat \<Rightarrow> cbuf \<Rightarrow> heap \<Rightarrow> bool" where
  "cpu_key_ready ty sh n b h \<longleftrightarrow> good_shape sh \<and> is_ok (mshadow_sizeof ty) \<and>
     (\<exists>m. cb_merged b = Some m \<and> dense_at ty sh h m \<and> m \<notin> set (cb_copy b)) \<and>
     distinct (cb_copy b) \<and> (\<forall>a \<in> set (cb_copy b). dense_at ty sh h a) \<and> (cb_copy b = [] \<or> n \<le> length (cb_copy b) + 1)"

definition cpu_ready :: "(int \<rightharpoonup> int \<times> int list) \<Rightarrow> nat \<Rightarrow> addr set \<Rightarrow> cstate \<Rightarrow> bool" where
  "cpu_ready K n U st \<longleftrightarrow> 0 < cc_bigarray_bound (fst st) \<and> U \<subseteq> {..<length (snd st)} \<and>
     (\<forall>k. cpu_area k st \<subseteq> {..<length (snd st)} - U \<and> (\<forall>k'. k' \<noteq> k \<longrightarrow> cpu_area k' st \<inter> cpu_area k st = {})) \<and>
     (\<forall>k ty sh. K k = Some (ty, sh) \<longrightarrow> cpu_key_ready ty sh n (merge_buf (fst st) k) (snd st))"

lemma chunks_length [simp]: "length (chunks u n bs) = n"
  by (induction u n bs rule: chunks.induct) auto

lemma elements_holds:
  assumes "holds h a ty sh bs" "is_ok (mshadow_sizeof ty)"
  shows "elements ty h a = Inr (chunks (element_size ty) (nat (shape_size sh)) bs)"
  using assms by (auto simp: elements_def holds_def dense_at_def array_at_def element_size_def is_ok_iff)

lemma ReduceSumCPU_arrays_holds:
  assumes m: "holds h m ty sh bs" and os: "list_all2 (\<lambda>a. holds h a ty sh) others bss"
    and sz: "is_ok (mshadow_sizeof ty)" and bound: "0 < cc_bigarray_bound c"
    and order: "\<And>m. mset (order m) = mset [0..<m]"
  shows "ReduceSumCPU_arrays ops order c m others h = Inr (h[m := (h ! m)\<lparr>nd_data := Some (cpu_total ops ty sh (bs # bss))\<rparr>])"
proof -
  define n where "n = nat (shape_size sh)"
  define es where "es = map (chunks (element_size ty) n) bss"
  have em: "elements ty h m = Inr (chunks (element_size ty) n bs)" using elements_holds [OF m sz] by (simp add: n_def)
  have eo: "rmap_list (elements ty h) others = Inr es"
    using os elements_holds [OF _ sz]
    by (auto simp: rmap_list_Inr_iff es_def list_all2_conv_all_nth n_def)
  have x: "array_at h m = Inr (h ! m)" "nd_dtype (h ! m) = ty" "nd_shape (h ! m) = sh"
    using m by (auto simp: holds_def dense_at_def array_at_def)
  have es: "\<forall>a \<in> set es. length a = n" by (auto simp: es_def)
  have "ReduceSumCPUImpl (op_plus ops ty) (cc_bigarray_bound c) (nthread_reduction c) order es n (chunks (element_size ty) n bs) =
      Inr (map (\<lambda>j. elem_rest (op_plus ops ty) (chunks (element_size ty) n bs ! j) (map (\<lambda>a. a ! j) es)) [0..<n])"
    by (rule ReduceSumCPUImpl_elementwise [OF _ es bound order]) simp
  then show ?thesis
    by (simp add: ReduceSumCPU_arrays_def x em eo n_def [symmetric] cpu_total_def Let_def es_def)
qed

lemma copy_buffers_dense:
  assumes rd: "cpu_key_ready ty sh n (merge_buf c k) h" and n: "2 \<le> n"
  shows "\<exists>bs h'. copy_buffers k (n - 1) (nd_alloc sh ty) (c, h) = Inr (bs, set_buf k ((merge_buf c k)\<lparr>cb_copy := bs\<rparr>) c, h') \<and>
    distinct bs \<and> (\<forall>b \<in> set bs. dense_at ty sh h' b) \<and> n - 1 \<le> length bs \<and> length h \<le> length h' \<and>
    (\<forall>x < length h. h' ! x = h ! x) \<and> set bs \<subseteq> set (cb_copy (merge_buf c k)) \<union> {length h..<length h'}"
proof (cases "cb_copy (merge_buf c k) = []")
  case True
  let ?bs = "[length h..<length h + (n - 1)]" and ?h = "h @ replicate (n - 1) (nd_alloc sh ty)"
  have len: "length h < length ?h" using n by simp
  have "?h ! length h = nd_alloc sh ty" using n by (simp add: nth_append)
  then have "copy_buffers k (n - 1) (nd_alloc sh ty) (c, h) = Inr (?bs, set_buf k ((merge_buf c k)\<lparr>cb_copy := ?bs\<rparr>) c, ?h)"
    using True n by (simp add: copy_buffers_def new_arrays_eq array_at_def len vec_at_def upt_conv_Cons)
  moreover have "\<forall>b \<in> set ?bs. dense_at ty sh ?h b"
    by (auto simp: dense_at_def nth_append nd_alloc_def)
  ultimately show ?thesis by (intro exI conjI) (auto simp: nth_append)
next
  case False
  let ?bs = "cb_copy (merge_buf c k)"
  have d: "distinct ?bs" "\<forall>b \<in> set ?bs. dense_at ty sh h b" "n - 1 \<le> length ?bs"
    using rd False by (auto simp: cpu_key_ready_def)
  have "dense_at ty sh h (?bs ! 0)" using d False by simp
  then have "copy_buffers k (n - 1) (nd_alloc sh ty) (c, h) = Inr (?bs, c, h)"
    using False by (simp add: copy_buffers_def vec_at_def dense_at_def array_at_def is_sparse_def nd_alloc_def)
  moreover have "set_buf k ((merge_buf c k)\<lparr>cb_copy := ?bs\<rparr>) c = c" by (simp add: set_buf_def)
  ultimately show ?thesis using d by (intro exI [of _ ?bs] exI [of _ h]) auto
qed

text \<open>The copies before the sum: the first source into the merge buffer, the others into the copy buffers.\<close>

lemma gather_dense:
  assumes kr: "cpu_key_ready ty sh n (merge_buf c k) h" and m: "cb_merged (merge_buf c k) = Some m"
    and n: "2 \<le> n" "length as = n - 1" and U: "U \<subseteq> {..<length h}" "cpu_area k (c, h) \<inter> U = {}"
    and v: "insert a (set as) \<subseteq> U" "holds h a ty sh v" "list_all2 (\<lambda>a. holds h a ty sh) as vs"
  shows "\<exists>h1 bs h2 h3. copy_array ops a m h = Inr h1 \<and>
    copy_buffers k (n - 1) (nd_alloc sh ty) (c, h1) = Inr (bs, set_buf k ((merge_buf c k)\<lparr>cb_copy := bs\<rparr>) c, h2) \<and>
    copy_all ops as bs h2 = Inr h3 \<and> holds h3 m ty sh v \<and> list_all2 (\<lambda>a. holds h3 a ty sh) (take (n - 1) bs) vs \<and>
    distinct bs \<and> m \<notin> set bs \<and> n - 1 \<le> length bs \<and> (\<forall>b \<in> set bs. dense_at ty sh h3 b) \<and>
    set bs \<subseteq> set (cb_copy (merge_buf c k)) \<union> {length h..<length h3} \<and> length h \<le> length h3 \<and>
    (\<forall>x < length h. x \<noteq> m \<longrightarrow> x \<notin> set bs \<longrightarrow> h3 ! x = h ! x)"
proof -
  define b where "b = merge_buf c k"
  have mb: "dense_at ty sh h m" "m \<notin> set (cb_copy b)" "good_shape sh"
    using kr m by (auto simp: cpu_key_ready_def b_def)
  have apart: "m \<notin> U" "set (cb_copy b) \<inter> U = {}" using U m by (auto simp: cpu_area_def b_def)
  have am: "dense_at ty sh h a" "a \<noteq> m" using v apart by (auto simp: holds_def)
  define h1 where "h1 = h[m := h ! a]"
  have h1: "length h1 = length h" "dense_at ty sh h1 x = dense_at ty sh h x" for x
    using dense_at_update [OF am(1) mb(1)] by (simp_all add: h1_def)
  have kr1: "cpu_key_ready ty sh n (merge_buf c k) h1" using kr by (simp add: cpu_key_ready_def h1)
  from copy_buffers_dense [OF kr1 n(1)] obtain bs h2 where
    cb: "copy_buffers k (n - 1) (nd_alloc sh ty) (c, h1) = Inr (bs, set_buf k (b\<lparr>cb_copy := bs\<rparr>) c, h2)"
    and bs: "distinct bs" "\<forall>b \<in> set bs. dense_at ty sh h2 b" "n - 1 \<le> length bs"
      "set bs \<subseteq> set (cb_copy b) \<union> {length h..<length h2}"
    and h2: "length h \<le> length h2" "\<And>x. x < length h \<Longrightarrow> h2 ! x = h1 ! x"
    by (auto simp: b_def h1)
  have mlen: "m < length h" and mbs: "m \<notin> set bs" using bs(4) mb by (auto simp: dense_at_def)
  have as_apart: "x < length h" "x \<noteq> m" "x \<notin> set bs" if "x \<in> set as" for x
  proof -
    have "x \<in> U" using that v(1) by auto
    then show "x < length h" "x \<noteq> m" using U(1) apart(1) by auto
    then have "x \<notin> {length h..<length h2}" by simp
    moreover have "x \<notin> set (cb_copy b)" using \<open>x \<in> U\<close> apart(2) by blast
    ultimately show "x \<notin> set bs" using bs(4) by blast
  qed
  have src: "h2 ! x = h ! x" if "x \<in> set as" for x
    using as_apart(2) [OF that] h2(2) [OF as_apart(1) [OF that]] by (simp add: h1_def)
  have dense_as: "\<forall>x \<in> set as. dense_at ty sh h2 x"
  proof
    fix x assume x: "x \<in> set as"
    then obtain i where "i < length as" "x = as ! i" by (auto simp: in_set_conv_nth)
    with v(3) have "dense_at ty sh h x" by (simp add: list_all2_conv_all_nth holds_def)
    with src [OF x] h2(1) show "dense_at ty sh h2 x" by (rule dense_at_cong)
  qed
  have "length as \<le> length bs" "set as \<inter> set bs = {}" using as_apart(3) bs(3) n(2) by auto
  from copy_all_dense [OF this(1) dense_as bs(2,1) this(2) mb(3), of ops] obtain h3 where
    ca: "copy_all ops as bs h2 = Inr h3" and h3: "length h3 = length h2" "\<And>i. i < length as \<Longrightarrow> h3 ! (bs ! i) = h2 ! (as ! i)"
      "\<And>x. x \<notin> set bs \<Longrightarrow> h3 ! x = h2 ! x" "\<And>x. dense_at ty sh h3 x = dense_at ty sh h2 x" by blast
  have "holds h3 m ty sh v"
    using h3 mbs h2 mlen by (intro holds_copied [OF v(2)]) (simp_all add: h1_def)
  moreover have "list_all2 (\<lambda>a. holds h3 a ty sh) (take (n - 1) bs) vs"
    unfolding list_all2_conv_all_nth
  proof (intro conjI allI impI)
    show "length (take (n - 1) bs) = length vs" using v(3) bs(3) n(2) by (simp add: list_all2_lengthD)
    fix i assume i: "i < length (take (n - 1) bs)"
    then have "h3 ! (bs ! i) = h ! (as ! i)" using h3(2) src n(2) by simp
    moreover have "holds h (as ! i) ty sh (vs ! i)" using v(3) i n(2) by (simp add: list_all2_conv_all_nth)
    moreover have "bs ! i < length h3" using bs(2) i h3(1) by (simp add: dense_at_def)
    ultimately show "holds h3 (take (n - 1) bs ! i) ty sh (vs ! i)" using i by (simp add: holds_copied)
  qed
  moreover have "h3 ! x = h ! x" if "x < length h" "x \<noteq> m" "x \<notin> set bs" for x
    using h3(3) h2(2) that by (simp add: h1_def)
  moreover have "copy_array ops a m h = Inr h1" using copy_array_dense [OF am(1) mb(1) am(2) mb(3)] by (simp add: h1_def)
  moreover have "set bs \<subseteq> set (cb_copy b) \<union> {length h..<length h3}" using bs(4) h3(1) by simp
  ultimately show ?thesis
    using cb ca bs(1-3) mbs h3(1,4) h2(1) unfolding b_def
    by (intro exI [of _ h1] exI [of _ bs] exI [of _ h2] exI [of _ h3]) simp
qed

lemma comm_Reduce_dense:
  assumes rd: "cpu_ready K n U (c, h)" and k: "K k = Some (ty, sh)" and n: "2 \<le> n" "length src = n"
    and src: "set src \<subseteq> U" "list_all2 (\<lambda>a. holds h a ty sh) src bss"
    and order: "\<And>m. mset (order m) = mset [0..<m]"
  shows "\<exists>m bs h'. comm_Reduce ops order threads k src (c, h) = Inr (m, set_buf k ((merge_buf c k)\<lparr>cb_copy := bs\<rparr>) c, h') \<and>
    cb_merged (merge_buf c k) = Some m \<and> holds h' m ty sh (cpu_total ops ty sh bss) \<and>
    distinct bs \<and> m \<notin> set bs \<and> n - 1 \<le> length bs \<and> (\<forall>b \<in> set bs. dense_at ty sh h' b) \<and>
    set bs \<subseteq> set (cb_copy (merge_buf c k)) \<union> {length h..<length h'} \<and>
    length h \<le> length h' \<and> (\<forall>x < length h. x \<noteq> m \<longrightarrow> x \<notin> set bs \<longrightarrow> h' ! x = h ! x)"
proof -
  have kr: "cpu_key_ready ty sh n (merge_buf c k) h" and bound: "0 < cc_bigarray_bound c"
    and U: "U \<subseteq> {..<length h}" "cpu_area k (c, h) \<inter> U = {}"
    using rd k by (auto simp: cpu_ready_def)
  then obtain m where m: "cb_merged (merge_buf c k) = Some m" and ok: "is_ok (mshadow_sizeof ty)"
    by (auto simp: cpu_key_ready_def)
  obtain a as where s: "src = a # as" "length as = n - 1" using n by (cases src) auto
  obtain v vs where bss: "bss = v # vs" "holds h a ty sh v" "list_all2 (\<lambda>a. holds h a ty sh) as vs"
    using src(2) s by (cases bss) auto
  have "insert a (set as) \<subseteq> U" using src(1) s by simp
  from gather_dense [OF kr m n(1) s(2) U this bss(2,3), of ops] obtain h1 bs h2 h3 where
    g: "copy_array ops a m h = Inr h1"
      "copy_buffers k (n - 1) (nd_alloc sh ty) (c, h1) = Inr (bs, set_buf k ((merge_buf c k)\<lparr>cb_copy := bs\<rparr>) c, h2)"
      "copy_all ops as bs h2 = Inr h3" "holds h3 m ty sh v" "list_all2 (\<lambda>a. holds h3 a ty sh) (take (n - 1) bs) vs"
    and r: "distinct bs" "m \<notin> set bs" "n - 1 \<le> length bs" "\<forall>b \<in> set bs. dense_at ty sh h3 b"
      "set bs \<subseteq> set (cb_copy (merge_buf c k)) \<union> {length h..<length h3}" "length h \<le> length h3"
      "\<forall>x < length h. x \<noteq> m \<longrightarrow> x \<notin> set bs \<longrightarrow> h3 ! x = h ! x" by blast
  let ?c = "set_buf k ((merge_buf c k)\<lparr>cb_copy := bs\<rparr>) c"
  let ?h = "h3[m := (h3 ! m)\<lparr>nd_data := Some (cpu_total ops ty sh bss)\<rparr>]"
  have red: "ReduceSumCPU_arrays ops order ?c m (take (n - 1) bs) h3 = Inr ?h"
    unfolding bss(1) by (rule ReduceSumCPU_arrays_holds [OF g(4,5) ok _ order]) (simp add: set_buf_def bound)
  have x: "array_at h a = Inr (h ! a)" "\<not> is_sparse (h ! a)" "nd_alloc (nd_shape (h ! a)) (nd_dtype (h ! a)) = nd_alloc sh ty"
    using bss(2) by (auto simp: holds_def dense_at_def array_at_def is_sparse_def)
  have "comm_Reduce ops order threads k src (c, h) = Inr (m, ?c, ?h)"
    using s n m g(1-3) red by (simp add: comm_Reduce_def x vec_at_def merged_buf_def)
  moreover have "holds ?h m ty sh (cpu_total ops ty sh bss)" using g(4) by (auto simp: holds_def dense_at_def)
  moreover have "\<forall>b \<in> set bs. dense_at ty sh ?h b" 
  proof
    fix b assume "b \<in> set bs"
    then have "b \<noteq> m" "dense_at ty sh h3 b" using r(2,4) by auto
    then show "dense_at ty sh ?h b" by (simp add: dense_at_def)
  qed
  moreover have "?h ! x = h ! x" if "x < length h" "x \<noteq> m" "x \<notin> set bs" for x
    using r(7) that by simp
  ultimately show ?thesis using m r(1-3,5,6)
    by (intro exI [of _ m] exI [of _ bs] exI [of _ ?h]) simp
qed

text \<open>A reduction keeps the buffers apart, so that the next one works too.\<close>

lemma cpu_ready_reduced:
  assumes rd: "cpu_ready K n U (c, h)" and k: "K k = Some (ty, sh)" and m: "cb_merged (merge_buf c k) = Some m"
    and bs: "distinct bs" "m \<notin> set bs" "n - 1 \<le> length bs" "\<forall>b \<in> set bs. dense_at ty sh h' b"
      "set bs \<subseteq> set (cb_copy (merge_buf c k)) \<union> {length h..<length h'}"
    and h': "length h \<le> length h'" "\<forall>x < length h. x \<notin> cpu_area k (c, h) \<longrightarrow> h' ! x = h ! x" "dense_at ty sh h' m"
  defines "c' \<equiv> set_buf k ((merge_buf c k)\<lparr>cb_copy := bs\<rparr>) c"
  shows "cpu_ready K n U (c', h') \<and> (\<forall>k'. k' \<noteq> k \<longrightarrow> cpu_area k' (c', h') = cpu_area k' (c, h)) \<and>
    cpu_area k (c', h') \<subseteq> cpu_area k (c, h) \<union> {length h..<length h'}"
proof -
  have other: "merge_buf c' k' = merge_buf c k'" if "k' \<noteq> k" for k' using that by (simp add: c'_def set_buf_def)
  have own: "merge_buf c' k = (merge_buf c k)\<lparr>cb_copy := bs\<rparr>" by (simp add: c'_def set_buf_def)
  have area: "cpu_area k' (c', h') = cpu_area k' (c, h)" if "k' \<noteq> k" for k' using other [OF that] by (simp add: cpu_area_def)
  have areak: "cpu_area k (c', h') \<subseteq> cpu_area k (c, h) \<union> {length h..<length h'}" using bs(5) by (auto simp: cpu_area_def own)
  have old: "cpu_area j (c, h) \<subseteq> {..<length h} - U" "\<And>j'. j' \<noteq> j \<Longrightarrow> cpu_area j' (c, h) \<inter> cpu_area j (c, h) = {}" for j
    using rd by (auto simp: cpu_ready_def)
  have U: "U \<subseteq> {..<length h}" using rd by (simp add: cpu_ready_def)
  have new: "cpu_area j (c', h') \<subseteq> {..<length h'} - U" for j
  proof (cases "j = k")
    case True
    have "cpu_area k (c, h) \<union> {length h..<length h'} \<subseteq> {..<length h'} - U" using old(1) [of k] U h'(1) by force
    with areak True show ?thesis by blast
  next
    case False
    with old(1) [of j] area [of j] h'(1) show ?thesis by fastforce
  qed
  have apart_k: "cpu_area k (c', h') \<inter> cpu_area j (c', h') = {}" if "j \<noteq> k" for j
  proof -
    have "{length h..<length h'} \<inter> cpu_area j (c, h) = {}" using old(1) [of j] by force
    with areak old(2) [of k j] area [OF that] that show ?thesis by blast
  qed
  have apart: "cpu_area j' (c', h') \<inter> cpu_area j (c', h') = {}" if "j' \<noteq> j" for j j'
    using that apart_k [of j] apart_k [of j'] old(2) [of j' j] area [of j] area [of j']
    by (cases "j = k"; cases "j' = k") (simp_all add: Int_commute)
  have ready: "cpu_key_ready ty' sh' n (merge_buf c' j) h'" if "K j = Some (ty', sh')" for j ty' sh'
  proof (cases "j = k")
    case True
    with that k rd m bs h'(3) show ?thesis by (auto simp: cpu_ready_def cpu_key_ready_def own)
  next
    case False
    have kr: "cpu_key_ready ty' sh' n (merge_buf c j) h" using rd that by (auto simp: cpu_ready_def)
    have "dense_at ty' sh' h' x" if "dense_at ty' sh' h x" "x \<in> cpu_area j (c, h)" for x
      using that h' old(2) [OF False] by (intro dense_at_cong [OF _ h'(1) that(1)]) (auto simp: dense_at_def)
    with kr show ?thesis unfolding other [OF False] cpu_key_ready_def by (auto simp: cpu_area_def)
  qed
  have "cpu_ready K n U (c', h')" using rd U h'(1) new apart ready by (auto simp: cpu_ready_def c'_def set_buf_def)
  with area areak show ?thesis by blast
qed

section \<open>CommDevice\<close>

text \<open>The sum on a device adds from left to right, whatever the number of arrays.\<close>

lemma ElementwiseSum_foldl: "xs \<noteq> [] \<Longrightarrow> ElementwiseSum pl xs = foldl (map2 pl) (hd xs) (tl xs)"
  by (induction pl xs rule: ElementwiseSum.induct) auto

definition best_of :: "(int \<times> nat) list \<Rightarrow> (int \<times> nat) option \<Rightarrow> (int \<times> nat) option" where
  "best_of loads best = fold (\<lambda>(d, s) best. case best of None \<Rightarrow> if s \<le> 2 ^ 64 - 1 then Some (d, s) else None
           | Some (d', s') \<Rightarrow> if s \<le> s' then Some (d, s) else best) loads best"

lemma best_of_Some:
  "\<exists>e t. best_of loads (Some (d, s)) = Some (e, t) \<and> (e, t) \<in> insert (d, s) (set loads) \<and> (\<forall>x \<in> insert (d, s) (set loads). t \<le> snd x)"
proof (induction loads arbitrary: d s)
  case Nil
  then show ?case by (simp add: best_of_def)
next
  case (Cons x loads)
  obtain d1 s1 where x: "x = (d1, s1)" by (cases x)
  define d2 s2 where "d2 = (if s1 \<le> s then d1 else d)" and "s2 = (if s1 \<le> s then s1 else s)"
  have "best_of (x # loads) (Some (d, s)) = best_of loads (Some (d2, s2))"
    by (simp add: best_of_def x d2_def s2_def)
  with Cons [of d2 s2] show ?case by (fastforce simp: x d2_def s2_def split: if_splits)
qed

lemma least_loaded_min:
  assumes "loads \<noteq> []" "\<forall>x \<in> set loads. snd x \<le> 2 ^ 64 - 1"
  shows "\<exists>d s. least_loaded loads = Inr d \<and> (d, s) \<in> set loads \<and> (\<forall>x \<in> set loads. s \<le> snd x)"
proof -
  obtain d s rest where l: "loads = (d, s) # rest" using assms(1) by (cases loads) auto
  have "best_of loads None = best_of rest (Some (d, s))" using assms(2) by (simp add: best_of_def l)
  with best_of_Some [of rest d s] show ?thesis
    unfolding least_loaded_def best_of_def [symmetric] l by fastforce
qed

definition balanced :: "nat \<Rightarrow> (int \<times> nat) list \<Rightarrow> bool" where
  "balanced m loads \<longleftrightarrow> distinct (map fst loads) \<and> (\<forall>x \<in> set loads. \<forall>y \<in> set loads. snd x \<le> snd y + m)"

lemma add_load_balanced:
  assumes "balanced m loads" "(d, s) \<in> set loads" "\<forall>x \<in> set loads. s \<le> snd x" "n \<le> m"
  shows "balanced m (add_load d n loads)"
proof -
  have dist: "distinct (map fst loads)" using assms(1) by (simp add: balanced_def)
  have "map fst (add_load d n loads) = map fst loads" by (simp add: add_load_def case_prod_beta comp_def)
  moreover have "snd x \<le> snd y + m" if xy: "x \<in> set (add_load d n loads)" "y \<in> set (add_load d n loads)" for x y
  proof -
    from xy obtain dx sx dy sy where o: "(dx, sx) \<in> set loads" "(dy, sy) \<in> set loads"
      and v: "snd x = (if dx = d then sx + n else sx)" "sy \<le> snd y"
      by (auto simp: add_load_def)
    have "dx = d \<Longrightarrow> sx = s" using o(1) assms(2) dist eq_key_imp_eq_value by metis
    moreover have "s \<le> sy" "sx \<le> sy + m" using o assms(1,3) by (force simp: balanced_def)+
    ultimately show ?thesis using v assms(4) by (auto split: if_splits)
  qed
  ultimately show ?thesis using dist by (simp add: balanced_def)
qed

lemma add_load_sum: "(d, s) \<in> set loads \<Longrightarrow> distinct (map fst loads) \<Longrightarrow> sum_list (map snd (add_load d n loads)) = sum_list (map snd loads) + n"
proof (induction loads)
  case (Cons x loads)
  have same: "add_load d n loads = loads" if "d \<notin> fst ` set loads"
    using that unfolding add_load_def by (intro map_idI) force
  show ?case
  proof (cases "fst x = d")
    case True
    then have "d \<notin> fst ` set loads" using Cons.prems by auto
    with True same show ?thesis by (cases x) (simp add: add_load_def)
  next
    case False
    with Cons show ?thesis by (cases x) (auto simp: add_load_def)
  qed
qed simp

text \<open>
  The merge buffers are spread evenly: the loads of two devices differ by at most the
  largest array, and together they are the sizes of all keys.
\<close>

lemma InitMergeBuffer_balanced:
  assumes "devs \<noteq> []" "\<forall>x \<in> set keys. snd x \<le> m" "sum_list (map snd keys) \<le> 2 ^ 64 - 1"
  shows "\<exists>loads buf'. InitMergeBuffer devs keys buf = Inr (loads, buf') \<and> map fst loads = remdups devs \<and>
    (\<forall>x \<in> set loads. \<forall>y \<in> set loads. snd x \<le> snd y + m) \<and> sum_list (map snd loads) = sum_list (map snd keys) \<and>
    (\<forall>k \<in> fst ` set keys. buf' k \<noteq> None)"
proof -
  have run: "\<exists>loads' buf'. rfold place_key ks (loads, b) = Inr (loads', buf') \<and> map fst loads' = map fst loads \<and> balanced m loads' \<and>
      sum_list (map snd loads') = sum_list (map snd loads) + sum_list (map snd ks) \<and>
      (\<forall>k. k \<in> fst ` set ks \<or> b k \<noteq> None \<longrightarrow> buf' k \<noteq> None)"
    if "loads \<noteq> []" "balanced m loads" "\<forall>x \<in> set ks. snd x \<le> m"
      "sum_list (map snd loads) + sum_list (map snd ks) \<le> 2 ^ 64 - 1" for ks loads b
    using that
  proof (induction ks arbitrary: loads b)
    case (Cons x ks)
    obtain k n where x: "x = (k, n)" by (cases x)
    have "\<forall>y \<in> set loads. snd y \<le> 2 ^ 64 - 1"
    proof
      fix y assume "y \<in> set loads"
      then have "snd y \<le> sum_list (map snd loads)" by (intro member_le_sum_list) auto
      with Cons.prems(4) show "snd y \<le> 2 ^ 64 - 1" by linarith
    qed
    from least_loaded_min [OF Cons.prems(1) this] obtain d s where
      d: "least_loaded loads = Inr d" "(d, s) \<in> set loads" "\<forall>y \<in> set loads. s \<le> snd y" by blast
    let ?l = "add_load d n loads" and ?b = "if b k = None then b(k \<mapsto> d) else b"
    have fst: "map fst ?l = map fst loads" by (simp add: add_load_def case_prod_beta comp_def)
    have bal: "balanced m ?l" using add_load_balanced [OF Cons.prems(2) d(2,3)] Cons.prems(3) x by simp
    have sum: "sum_list (map snd ?l) = sum_list (map snd loads) + n"
      using add_load_sum [OF d(2)] Cons.prems(2) by (simp add: balanced_def)
    have ne: "?l \<noteq> []" using Cons.prems(1) by (simp add: add_load_def)
    have "sum_list (map snd ?l) + sum_list (map snd ks) \<le> 2 ^ 64 - 1" using Cons.prems(4) sum x by simp
    from Cons.IH [OF ne bal _ this, of ?b] Cons.prems(3) obtain loads' buf' where
      r: "rfold place_key ks (?l, ?b) = Inr (loads', buf')" "map fst loads' = map fst loads" "balanced m loads'"
        "sum_list (map snd loads') = sum_list (map snd loads) + n + sum_list (map snd ks)"
        "\<forall>k. k \<in> fst ` set ks \<or> ?b k \<noteq> None \<longrightarrow> buf' k \<noteq> None" by (auto simp: fst sum)
    have "buf' j \<noteq> None" if "j \<in> fst ` set (x # ks) \<or> b j \<noteq> None" for j
      using that spec [OF r(5), of j] x by (cases "j = k") (auto split: if_splits)
    moreover have "rfold place_key (x # ks) (loads, b) = Inr (loads', buf')" using r(1) d(1) by (simp add: place_key_def x)
    ultimately show ?case using r(2-4) by (auto simp: x)
  qed simp
  let ?loads = "map (\<lambda>d. (d, 0 :: nat)) (remdups devs)"
  have "balanced m ?loads" by (auto simp: balanced_def comp_def)
  moreover have "sum_list (map snd ?loads) = 0" by (simp add: comp_def)
  ultimately have "\<exists>loads' buf'. rfold place_key keys (?loads, buf) = Inr (loads', buf') \<and> map fst loads' = map fst ?loads \<and> balanced m loads' \<and>
      sum_list (map snd loads') = sum_list (map snd ?loads) + sum_list (map snd keys) \<and>
      (\<forall>k. k \<in> fst ` set keys \<or> buf k \<noteq> None \<longrightarrow> buf' k \<noteq> None)"
    using assms by (intro run) (auto simp: comp_def)
  then show ?thesis by (auto simp: InitMergeBuffer_def balanced_def comp_def)
qed

text \<open>
  The compressed reduction sums what the devices send, one threshold up or down or nothing for each
  element, and keeps the rest in the residuals.
\<close>

lemma GetCompressedSize_covers:
  assumes "gc_type g = kTwoBit"
  shows "\<exists>m. GetCompressedSize g (int n) = Inr (int m) \<and> n \<le> 16 * m"
proof -
  have d: "int n sdiv 16 = int (n div 16)" by (cases "n = 0") (simp_all add: signed_divide_int_def zdiv_int [of n 16, simplified])
  have r: "int n smod 16 = int (n mod 16)"
    using zmod_int [of n 16] minus_div_mult_eq_mod [of "int n" 16] zdiv_int [of n 16]
    by (cases "n = 0") (simp_all add: signed_modulo_int_def)
  let ?m = "if n mod 16 = 0 then n div 16 else n div 16 + 1"
  have "GetCompressedSize g (int n) = Inr (int ?m)"
    using assms unfolding GetCompressedSize_def GetCompressionFactor_def by (simp add: d r del: of_nat_mod)
  moreover have "n \<le> 16 * ?m" by (simp, presburger)
  ultimately show ?thesis by blast
qed

lemma send_compressed_eq:
  assumes "gc_type g = kTwoBit" "length grad = length res"
  shows "send_compressed g (grad, res) =
    Inr (map2 (\<lambda>r d. sent_of (gc_threshold g) (f32_add r d)) res grad, map2 (\<lambda>r d. kept_of (gc_threshold g) (f32_add r d)) res grad)"
proof -
  from GetCompressedSize_covers [OF assms(1), of "length res"] obtain m where
    m: "GetCompressedSize g (int (length res)) = Inr (int m)" "length res \<le> 16 * m" by blast
  obtain out res' where q: "Quantize2Bit m grad res (gc_threshold g) = (out, res')" by (cases "Quantize2Bit m grad res (gc_threshold g)")
  from quantize_round_trip [OF assms(2) m(2) q] m(1) q assms(1) show ?thesis
    by (simp add: send_compressed_def Quantize_def Dequantize_def)
qed

lemma ReduceCompressed_sum:
  assumes "gc_type g = kTwoBit" "length grads = length residuals" "grads \<noteq> []"
    "\<forall>i < length grads. length (grads ! i) = length (residuals ! i)"
  shows "ReduceCompressed g grads residuals =
    (let sent = map2 (map2 (\<lambda>r d. sent_of (gc_threshold g) (f32_add r d))) residuals grads in
     Inr (foldl (map2 f32_add) (hd sent) (tl sent), map2 (map2 (\<lambda>r d. kept_of (gc_threshold g) (f32_add r d))) residuals grads))"
proof -
  let ?s = "\<lambda>r d. sent_of (gc_threshold g) (f32_add r d)" and ?k = "\<lambda>r d. kept_of (gc_threshold g) (f32_add r d)"
  have "rmap_list (send_compressed g) (zip grads residuals) = Inr (map (\<lambda>(gr, r). (map2 ?s r gr, map2 ?k r gr)) (zip grads residuals))"
    using assms by (intro rmap_list_total) (auto simp: send_compressed_eq set_zip)
  moreover have "map fst (map (\<lambda>(gr, r). (map2 ?s r gr, map2 ?k r gr)) (zip grads residuals)) = map2 (map2 ?s) residuals grads"
    "map snd (map (\<lambda>(gr, r). (map2 ?s r gr, map2 ?k r gr)) (zip grads residuals)) = map2 (map2 ?k) residuals grads"
    using assms(2) by (auto intro!: nth_equalityI)
  moreover have "map2 (map2 ?s) residuals grads \<noteq> []" using assms by (cases grads; cases residuals) auto
  ultimately show ?thesis by (simp add: ReduceCompressed_def ElementwiseSum_foldl Let_def del: map_map)
qed

section \<open>What the interface promises\<close>

text \<open>
  \<open>K\<close> gives type and shape of the initialised keys, \<open>n\<close> the number of devices, \<open>U\<close> the arrays of the clients.
  A reduction writes the sum to an array of its own and leaves everything outside the buffers of the key alone; a broadcast
  writes the destinations only.
\<close>

locale device_comm =
  fixes cm :: "'c vcomm"
    and ready :: "(int \<rightharpoonup> int \<times> int list) \<Rightarrow> nat \<Rightarrow> addr set \<Rightarrow> 'c \<times> heap \<Rightarrow> bool"
    and area :: "int \<Rightarrow> 'c \<times> heap \<Rightarrow> addr set"
    and total_of :: "int \<Rightarrow> int list \<Rightarrow> bytes list \<Rightarrow> bytes"
  assumes ready_shape: "ready K n U s \<Longrightarrow> K k = Some (ty, sh) \<Longrightarrow> good_shape sh"
    and ready_apart: "ready K n U s \<Longrightarrow> U \<subseteq> {..<length (snd s)} \<and> area k s \<subseteq> {..<length (snd s)} - U \<and>
        (k' \<noteq> k \<longrightarrow> area k' s \<inter> area k s = {})"
    and reduce: "ready K n U s \<Longrightarrow> K k = Some (ty, sh) \<Longrightarrow> 2 \<le> n \<Longrightarrow> length src = n \<Longrightarrow> set src \<subseteq> U \<Longrightarrow>
        list_all2 (\<lambda>a. holds (snd s) a ty sh) src bss \<Longrightarrow>
        \<exists>m s'. cm_Reduce cm k src s = Inr (m, s') \<and> m \<in> area k s' \<and> holds (snd s') m ty sh (total_of ty sh bss) \<and>
          ready K n U s' \<and> length (snd s) \<le> length (snd s') \<and> (\<forall>k'. k' \<noteq> k \<longrightarrow> area k' s' = area k' s) \<and>
          area k s' \<subseteq> area k s \<union> {length (snd s)..<length (snd s')} \<and>
          (\<forall>x < length (snd s). is_sparse (snd s' ! x) = is_sparse (snd s ! x) \<and> (x \<notin> area k s \<longrightarrow> snd s' ! x = snd s ! x))"
    and broadcast: "ready K n U s \<Longrightarrow> set dsts \<subseteq> U \<Longrightarrow> a \<notin> U \<Longrightarrow> holds (snd s) a ty sh bs \<Longrightarrow> good_shape sh \<Longrightarrow>
        \<forall>d \<in> set dsts. dense_at ty sh (snd s) d \<Longrightarrow>
        \<exists>s'. cm_Broadcast cm k a dsts s = Inr s' \<and> ready K n U s' \<and> (\<forall>k. area k s' = area k s) \<and>
          length (snd s') = length (snd s) \<and> (\<forall>x. snd s' ! x = (if x \<in> set dsts then snd s ! a else snd s ! x))"

text \<open>The tasks of a parallel loop are all executed once, in any order.\<close>

locale task_order =
  fixes order :: "nat \<Rightarrow> nat list"
  assumes order: "mset (order m) = mset [0..<m]"

lemma cpu_ready_cong:
  assumes "cpu_ready K n U (c, h)" "length h' = length h" "\<forall>x. x \<notin> U \<longrightarrow> h' ! x = h ! x"
  shows "cpu_ready K n U (c, h')"
proof -
  have area: "cpu_area k (c, h') = cpu_area k (c, h)" for k by (simp add: cpu_area_def)
  have ar: "cpu_area k (c, h) \<inter> U = {}" for k using assms(1) by (auto simp: cpu_ready_def)
  have kr: "cpu_key_ready ty sh n (merge_buf c k) h'" if "K k = Some (ty, sh)" for k ty sh
  proof -
    have old: "cpu_key_ready ty sh n (merge_buf c k) h" using assms(1) that by (auto simp: cpu_ready_def)
    have "dense_at ty sh h' x" if "dense_at ty sh h x" "x \<in> cpu_area k (c, h)" for x
      using that ar [of k] assms(2,3) by (intro dense_at_cong [OF _ _ that(1)]) auto
    with old show ?thesis unfolding cpu_key_ready_def by (auto simp: cpu_area_def)
  qed
  from assms kr area show ?thesis unfolding cpu_ready_def by auto
qed

sublocale task_order \<subseteq> cpu: device_comm "cpu_comm ops order threads" cpu_ready cpu_area "cpu_total ops"
proof
  fix K n U k ty sh and s :: cstate
  assume "cpu_ready K n U s" "K k = Some (ty, sh)"
  then show "good_shape sh" by (auto simp: cpu_ready_def cpu_key_ready_def)
next
  fix K n U k k' and s :: cstate
  assume "cpu_ready K n U s"
  then show "U \<subseteq> {..<length (snd s)} \<and> cpu_area k s \<subseteq> {..<length (snd s)} - U \<and> (k' \<noteq> k \<longrightarrow> cpu_area k' s \<inter> cpu_area k s = {})"
    by (simp add: cpu_ready_def)
next
  fix K n U k ty sh src bss and s :: cstate
  assume a: "cpu_ready K n U s" "K k = Some (ty, sh)" "2 \<le> n" "length src = n" "set src \<subseteq> U" "list_all2 (\<lambda>a. holds (snd s) a ty sh) src bss"
  obtain c h where s: "s = (c, h)" by (cases s)
  from comm_Reduce_dense [OF a [unfolded s snd_conv] order, of ops threads] obtain m bs h' where
    r: "comm_Reduce ops order threads k src s = Inr (m, set_buf k ((merge_buf c k)\<lparr>cb_copy := bs\<rparr>) c, h')"
      "cb_merged (merge_buf c k) = Some m" "holds h' m ty sh (cpu_total ops ty sh bss)"
      "distinct bs" "m \<notin> set bs" "n - 1 \<le> length bs" "\<forall>b \<in> set bs. dense_at ty sh h' b"
      "set bs \<subseteq> set (cb_copy (merge_buf c k)) \<union> {length h..<length h'}"
      "length h \<le> length h'" "\<forall>x < length h. x \<noteq> m \<longrightarrow> x \<notin> set bs \<longrightarrow> h' ! x = h ! x"
    unfolding s by blast
  have dm: "dense_at ty sh h' m" using r(3) by (simp add: holds_def)
  have kr: "cpu_key_ready ty sh n (merge_buf c k) h" using a(1,2) by (auto simp: s cpu_ready_def)
  have same: "h' ! x = h ! x" if "x < length h" "x \<notin> cpu_area k (c, h)" for x
    using that r(2,8,10) by (auto simp: cpu_area_def)
  have kind: "is_sparse (h' ! x) = is_sparse (h ! x)" if x: "x < length h" for x
  proof (cases "x = m \<or> x \<in> set bs")
    case True
    then have "dense_at ty sh h' x" "dense_at ty sh h x" using x dm r(2,7,8) kr by (auto simp: cpu_key_ready_def)
    then show ?thesis by (simp add: dense_at_def is_sparse_def)
  qed (use x r(10) in auto)
  note rr = cpu_ready_reduced [OF a(1) [unfolded s] a(2) r(2,4-9) _ dm]
  let ?s = "(set_buf k ((merge_buf c k)\<lparr>cb_copy := bs\<rparr>) c, h')"
  have "m \<in> cpu_area k ?s" using r(2) by (simp add: cpu_area_def set_buf_def)
  with rr r same kind show "\<exists>m s'. cm_Reduce (cpu_comm ops order threads) k src s = Inr (m, s') \<and> m \<in> cpu_area k s' \<and>
      holds (snd s') m ty sh (cpu_total ops ty sh bss) \<and> cpu_ready K n U s' \<and> length (snd s) \<le> length (snd s') \<and>
      (\<forall>k'. k' \<noteq> k \<longrightarrow> cpu_area k' s' = cpu_area k' s) \<and>
      cpu_area k s' \<subseteq> cpu_area k s \<union> {length (snd s)..<length (snd s')} \<and> (\<forall>x < length (snd s). is_sparse (snd s' ! x) = is_sparse (snd s ! x) \<and> (x \<notin> cpu_area k s \<longrightarrow> snd s' ! x = snd s ! x))"
    by (intro exI [of _ m] exI [of _ ?s]) (simp add: cpu_comm_def s)
next
  fix K n U dsts a ty sh bs k and s :: cstate
  assume a: "cpu_ready K n U s" "set dsts \<subseteq> U" "a \<notin> U" "holds (snd s) a ty sh bs" "good_shape sh"
    "\<forall>d \<in> set dsts. dense_at ty sh (snd s) d"
  obtain c h where s: "s = (c, h)" by (cases s)
  have "dense_at ty sh h a" "a \<notin> set dsts" using a by (auto simp: holds_def s)
  from comm_Broadcast_dense [OF this(1) _ this(2) a(5), of ops] a(6) obtain h' where
    h': "comm_Broadcast ops a dsts h = Inr h'" "length h' = length h" "\<forall>x. h' ! x = (if x \<in> set dsts then h ! a else h ! x)"
    by (auto simp: s)
  have "cpu_ready K n U (c, h')"
  proof (rule cpu_ready_cong)
    show "cpu_ready K n U (c, h)" using a(1) s by simp
    show "\<forall>x. x \<notin> U \<longrightarrow> h' ! x = h ! x" using h'(3) a(2) by (metis subsetD)
  qed (rule h'(2))
  with h' show "\<exists>s'. cm_Broadcast (cpu_comm ops order threads) k a dsts s = Inr s' \<and> cpu_ready K n U s' \<and>
      (\<forall>k. cpu_area k s' = cpu_area k s) \<and> length (snd s') = length (snd s) \<and>
      (\<forall>x. snd s' ! x = (if x \<in> set dsts then snd s ! a else snd s ! x))"
    by (intro exI [of _ "(c, h')"]) (simp add: cpu_comm_def s cpu_area_def)
qed

interpretation sequential: task_order "\<lambda>m. [0..<m]"
  by unfold_locales simp

end
