(* ===== verification/MX_Local.thy ===== *)
theory MX_Local
  imports MX_Comm
begin

text \<open>
  The key-value store of one machine (\<open>src/kvstore/kvstore_local.h\<close>), which is also the base class of the
  distributed store: key types, string keys, grouping of the values by key, initialisation, push and pull.
  The reducer and broadcaster is called through its interface, a record of operations (the virtual functions of
  \<open>Comm\<close>) over a state and the heap of arrays. \<open>srt\<close> is \<open>std::sort\<close> on pairs compared by their first
  component, which leaves the order of equal keys open.
\<close>

section \<open>State\<close>

datatype key_type = kUndefinedKey | kStringKey | kIntKey

type_synonym updater = "addr \<Rightarrow> addr \<Rightarrow> heap \<Rightarrow> heap res"

record klocal =
  local_store :: "int \<rightharpoonup> addr"
  str_key_dict :: "string \<rightharpoonup> int"
  reverse_str_key_dict :: "int \<rightharpoonup> string"
  next_str_key :: int
  warnings_printed :: "int set"
  kv_key_type :: key_type
  kv_updater :: "(int \<Rightarrow> updater) option"
  kv_str_updater :: "(string \<Rightarrow> updater) option"

definition KVStoreLocal :: klocal where
  "KVStoreLocal = \<lparr>local_store = Map.empty, str_key_dict = Map.empty, reverse_str_key_dict = Map.empty,
     next_str_key = 0, warnings_printed = {}, kv_key_type = kUndefinedKey, kv_updater = None, kv_str_updater = None\<rparr>"

section \<open>Keys\<close>

definition SetKeyType :: "key_type \<Rightarrow> klocal \<Rightarrow> klocal res" where
  "SetKeyType t st =
     (let st = (if kv_key_type st = kUndefinedKey then st\<lparr>kv_key_type := t\<rparr> else st) in
      rcheck (kv_key_type st = t) ''Mixed key types are not allowed'' (Inr st))"

text \<open>The loop of \<open>Init\<close> and \<open>Broadcast\<close> that gives new string keys their integers.\<close>

fun add_str_keys :: "string list \<Rightarrow> klocal \<Rightarrow> (int list \<times> klocal) res" where
  "add_str_keys [] st = Inr ([], st)"
| "add_str_keys (s # ss) st =
     rcheck (str_key_dict st s = None) ''duplicate init of key''
     (rbind (cint_inc (next_str_key st)) (\<lambda>nxt.
      let k = next_str_key st in
      rmap (\<lambda>(ks, st). (k # ks, st))
        (add_str_keys ss (st\<lparr>next_str_key := nxt, str_key_dict := (str_key_dict st)(s \<mapsto> k),
           reverse_str_key_dict := (reverse_str_key_dict st)(k \<mapsto> s)\<rparr>))))"

definition LookupKeys :: "string list \<Rightarrow> klocal \<Rightarrow> int list res" where
  "LookupKeys ss st = rmap_list (\<lambda>s. case str_key_dict st s of Some k \<Rightarrow> Inr k
     | None \<Rightarrow> Inl (Check_failed ''key doesn't exist. Did you init?'')) ss"

section \<open>Grouping\<close>

text \<open>
  The loop over the sorted indices: the groups so far in reverse, the last group's values in order.
  The validity check may fail and may change the state.
\<close>

fun group_loop ::
  "(int \<Rightarrow> 'v \<Rightarrow> 's \<Rightarrow> (bool \<times> 's) res) \<Rightarrow> 'v list \<Rightarrow> (int \<times> nat) list \<Rightarrow> int \<Rightarrow> (int \<times> 'v list) list \<Rightarrow> 's \<Rightarrow>
   ((int \<times> 'v list) list \<times> 's) res" where
  "group_loop valid vals [] pre gs s = Inr (gs, s)"
| "group_loop valid vals ((k, i) # idx) pre gs s =
     rbind (vec_at vals (int i)) (\<lambda>v. rbind (valid k v s) (\<lambda>(ok, s).
       if \<not> ok then group_loop valid vals idx pre gs s
       else if k \<noteq> pre then group_loop valid vals idx k (gs @ [(k, [v])]) s
       else group_loop valid vals idx pre (butlast gs @ [(fst (last gs), snd (last gs) @ [v])]) s))"

definition GroupKVPairs ::
  "((int \<times> nat) list \<Rightarrow> (int \<times> nat) list) \<Rightarrow> (int \<Rightarrow> 'v \<Rightarrow> 's \<Rightarrow> (bool \<times> 's) res) \<Rightarrow> int list \<Rightarrow> 'v list \<Rightarrow> 's \<Rightarrow>
   ((int \<times> 'v list) list \<times> 's) res" where
  "GroupKVPairs srt valid ks vals s =
     rcheck (length ks = length vals) ''keys.size() == values.size()''
     (let idx = srt (zip ks [0..<length ks]) in
      if idx = [] then Inl (Undefined ''idx[0]'')
      else if \<not> cint_in_range (fst (hd idx) - 1) then Inl (Undefined ''signed overflow'')
      else group_loop valid vals idx (fst (hd idx) - 1) [] s)"

text \<open>Arrays are dense or row-sparse here, so the check for pushes accepts all of them.\<close>

definition valid_push :: "bool \<Rightarrow> int \<Rightarrow> addr \<Rightarrow> unit \<Rightarrow> (bool \<times> unit) res" where
  "valid_push ignore_sparse k a s = rcheck (\<not> ignore_sparse) ''Cannot ignore sparse arrays for push'' (Inr (True, s))"

definition valid_pull :: "heap \<Rightarrow> bool \<Rightarrow> int \<Rightarrow> addr \<Rightarrow> int set \<Rightarrow> (bool \<times> int set) res" where
  "valid_pull h ignore_sparse k a warned =
     rmap (\<lambda>x. if \<not> is_sparse x \<or> \<not> ignore_sparse then (True, warned) else (False, insert k warned)) (array_at h a)"

definition valid_pull_rsp :: "heap \<Rightarrow> bool \<Rightarrow> int \<Rightarrow> addr \<times> int list \<Rightarrow> unit \<Rightarrow> (bool \<times> unit) res" where
  "valid_pull_rsp h ignore_sparse k v s =
     rcheck (\<not> ignore_sparse) ''Cannot ignore sparse arrays in row_sparse_pull''
     (rbind (array_at h (fst v)) (\<lambda>x. rcheck (is_sparse x) ''Expected row_sparse storage type'' (Inr (True, s))))"

definition GroupKVPairsPush :: "((int \<times> nat) list \<Rightarrow> (int \<times> nat) list) \<Rightarrow> int list \<Rightarrow> addr list \<Rightarrow> (int \<times> addr list) list res" where
  "GroupKVPairsPush srt ks vals = rmap fst (GroupKVPairs srt (valid_push False) ks vals ())"

definition GroupKVPairsPull ::
  "((int \<times> nat) list \<Rightarrow> (int \<times> nat) list) \<Rightarrow> heap \<Rightarrow> bool \<Rightarrow> int list \<Rightarrow> addr list \<Rightarrow> klocal \<Rightarrow>
   ((int \<times> addr list) list \<times> klocal) res" where
  "GroupKVPairsPull srt h ignore_sparse ks vals st =
     rmap (\<lambda>(gs, w). (gs, st\<lparr>warnings_printed := w\<rparr>))
       (GroupKVPairs srt (valid_pull h ignore_sparse) ks vals (warnings_printed st))"

definition GroupKVPairsPullRsp ::
  "((int \<times> nat) list \<Rightarrow> (int \<times> nat) list) \<Rightarrow> heap \<Rightarrow> int list \<Rightarrow> (addr \<times> int list) list \<Rightarrow> (int \<times> (addr \<times> int list) list) list res" where
  "GroupKVPairsPullRsp srt h ks vals = rmap fst (GroupKVPairs srt (valid_pull_rsp h False) ks vals ())"

section \<open>Operations\<close>

type_synonym 'c lstate = "klocal \<times> 'c \<times> heap"

definition init_key :: "ndops \<Rightarrow> 'c vcomm \<Rightarrow> int \<times> addr \<Rightarrow> 'c lstate \<Rightarrow> 'c lstate res" where
  "init_key ops cm x s =
     (case x of (k, v) \<Rightarrow> case s of (st, c, h) \<Rightarrow>
      rcheck (local_store st k = None) ''duplicate init of key''
      (rbind (Copy_array ops v h) (\<lambda>(a, h). rbind (array_at h v) (\<lambda>y.
        Inr (st\<lparr>local_store := (local_store st)(k \<mapsto> a)\<rparr>, cm_Init cm k (nd_shape y) (nd_dtype y) (c, h))))))"

definition InitImpl :: "ndops \<Rightarrow> 'c vcomm \<Rightarrow> int list \<Rightarrow> addr list \<Rightarrow> 'c lstate \<Rightarrow> 'c lstate res" where
  "InitImpl ops cm ks vals s =
     (if length vals < length ks then Inl (Out_of_range ''values[i]'') else rfold (init_key ops cm) (zip ks vals) s)"

text \<open>
  A push replaces the stored handle by the handle of the merged array, or calls the updater on the stored array.
  A key that was never initialised has no storage type and no context.
\<close>

definition push_group :: "ndops \<Rightarrow> 'c vcomm \<Rightarrow> int \<times> addr list \<Rightarrow> 'c lstate \<Rightarrow> 'c lstate res" where
  "push_group ops cm g s =
     (case g of (k, src) \<Rightarrow> case s of (st, c, h) \<Rightarrow>
      rbind (cm_Reduce cm k src (c, h)) (\<lambda>(m, c, h).
      case kv_updater st of
        Some upd \<Rightarrow> (case local_store st k of
            None \<Rightarrow> Inl (Check_failed ''key has not been inited'')
          | Some a \<Rightarrow> rmap (\<lambda>h. (st, c, h))
              (case (if kv_key_type st = kStringKey then kv_str_updater st else None) of
                 Some u \<Rightarrow> u (case reverse_str_key_dict st k of Some s \<Rightarrow> s | None \<Rightarrow> []) m a h
               | None \<Rightarrow> upd k m a h))
      | None \<Rightarrow>
          rbind (array_at h m) (\<lambda>x.
          rbind (case local_store st k of None \<Rightarrow> Inl (Check_failed ''!is_none()'') | Some a \<Rightarrow> rmap is_sparse (array_at h a)) (\<lambda>sp.
          if is_sparse x \<noteq> sp then
            rmap (\<lambda>(b, h). (st\<lparr>local_store := (local_store st)(k \<mapsto> b)\<rparr>, c, h)) (Copy_array ops m h)
          else Inr (st\<lparr>local_store := (local_store st)(k \<mapsto> m)\<rparr>, c, h)))))"

definition PushImpl ::
  "ndops \<Rightarrow> ((int \<times> nat) list \<Rightarrow> (int \<times> nat) list) \<Rightarrow> 'c vcomm \<Rightarrow> int list \<Rightarrow> addr list \<Rightarrow> 'c lstate \<Rightarrow> 'c lstate res" where
  "PushImpl ops srt cm ks vals s =
     rbind (GroupKVPairsPush srt ks vals) (\<lambda>gs. rfold (push_group ops cm) gs s)"

definition pull_group :: "'c vcomm \<Rightarrow> int \<times> addr list \<Rightarrow> 'c lstate \<Rightarrow> 'c lstate res" where
  "pull_group cm g s =
     (case g of (k, dsts) \<Rightarrow> case s of (st, ch) \<Rightarrow>
      case local_store st k of
        None \<Rightarrow> Inl (Check_failed ''key has not been inited'')
      | Some a \<Rightarrow> rmap (\<lambda>ch. (st, ch)) (cm_Broadcast cm k a dsts ch))"

definition PullImpl ::
  "((int \<times> nat) list \<Rightarrow> (int \<times> nat) list) \<Rightarrow> 'c vcomm \<Rightarrow> bool \<Rightarrow> int list \<Rightarrow> addr list \<Rightarrow> 'c lstate \<Rightarrow> 'c lstate res" where
  "PullImpl srt cm ignore_sparse ks vals s =
     (case s of (st, c, h) \<Rightarrow>
      rbind (GroupKVPairsPull srt h ignore_sparse ks vals st) (\<lambda>(gs, st). rfold (pull_group cm) gs (st, c, h)))"

text \<open>The row ids asked for are sorted and made unique first.\<close>

definition pull_rows :: "'c vcomm \<Rightarrow> int \<times> (addr \<times> int list) list \<Rightarrow> 'c lstate \<Rightarrow> 'c lstate res" where
  "pull_rows cm g s =
     (case g of (k, dsts) \<Rightarrow> case s of (st, c, h) \<Rightarrow>
      case local_store st k of
        None \<Rightarrow> Inl (Check_failed ''key has not been inited'')
      | Some a \<Rightarrow> rbind (array_at h a) (\<lambda>x.
          rcheck (is_sparse x) ''PullRowSparse expects row_sparse src NDArray''
          (rmap (\<lambda>ch. (st, ch)) (cm_BroadcastRowSparse cm k a (map (\<lambda>(d, ids). (d, UniqueImpl ids)) dsts) (c, h)))))"

definition PullRowSparseImpl ::
  "((int \<times> nat) list \<Rightarrow> (int \<times> nat) list) \<Rightarrow> 'c vcomm \<Rightarrow> int list \<Rightarrow> (addr \<times> int list) list \<Rightarrow> 'c lstate \<Rightarrow> 'c lstate res" where
  "PullRowSparseImpl srt cm ks vals s =
     (case s of (st, c, h) \<Rightarrow> rbind (GroupKVPairsPullRsp srt h ks vals) (\<lambda>gs. rfold (pull_rows cm) gs s))"

definition BroadcastImpl ::
  "ndops \<Rightarrow> ((int \<times> nat) list \<Rightarrow> (int \<times> nat) list) \<Rightarrow> 'c vcomm \<Rightarrow> int list \<Rightarrow> int list \<Rightarrow> addr list \<Rightarrow> addr list \<Rightarrow> 'c lstate \<Rightarrow> 'c lstate res" where
  "BroadcastImpl ops srt cm vkeys okeys vals outs s =
     rbind (InitImpl ops cm vkeys vals s) (PullImpl srt cm True okeys outs)"

definition PushPullImpl ::
  "ndops \<Rightarrow> ((int \<times> nat) list \<Rightarrow> (int \<times> nat) list) \<Rightarrow> 'c vcomm \<Rightarrow> int list \<Rightarrow> int list \<Rightarrow> addr list \<Rightarrow> addr list \<Rightarrow> 'c lstate \<Rightarrow> 'c lstate res" where
  "PushPullImpl ops srt cm vkeys okeys vals outs s =
     rbind (PushImpl ops srt cm vkeys vals s) (PullImpl srt cm True okeys outs)"

text \<open>The public operations: the key type is checked first, string keys are translated.\<close>

definition with_int_keys :: "('c lstate \<Rightarrow> 'c lstate res) \<Rightarrow> 'c lstate \<Rightarrow> 'c lstate res" where
  "with_int_keys f s = (case s of (st, ch) \<Rightarrow> rbind (SetKeyType kIntKey st) (\<lambda>st. f (st, ch)))"

definition with_new_keys :: "string list \<Rightarrow> (int list \<Rightarrow> 'c lstate \<Rightarrow> 'c lstate res) \<Rightarrow> 'c lstate \<Rightarrow> 'c lstate res" where
  "with_new_keys ss f s =
     (case s of (st, ch) \<Rightarrow> rbind (SetKeyType kStringKey st) (\<lambda>st.
        rbind (add_str_keys ss st) (\<lambda>(ks, st). f ks (st, ch))))"

definition with_str_keys :: "string list \<Rightarrow> (int list \<Rightarrow> 'c lstate \<Rightarrow> 'c lstate res) \<Rightarrow> 'c lstate \<Rightarrow> 'c lstate res" where
  "with_str_keys ss f s =
     (case s of (st, ch) \<Rightarrow> rbind (SetKeyType kStringKey st) (\<lambda>st. rbind (LookupKeys ss st) (\<lambda>ks. f ks (st, ch))))"

definition local_Init where
  "local_Init ops cm ks vals = with_int_keys (InitImpl ops cm ks vals)"

definition local_Init_str where
  "local_Init_str ops cm ss vals = with_new_keys ss (\<lambda>ks. InitImpl ops cm ks vals)"

definition local_Push where
  "local_Push ops srt cm ks vals = with_int_keys (PushImpl ops srt cm ks vals)"

definition local_Push_str where
  "local_Push_str ops srt cm ss vals = with_str_keys ss (\<lambda>ks. PushImpl ops srt cm ks vals)"

definition local_Pull where
  "local_Pull srt cm ignore_sparse ks vals = with_int_keys (PullImpl srt cm ignore_sparse ks vals)"

definition local_Pull_str where
  "local_Pull_str srt cm ignore_sparse ss vals = with_str_keys ss (\<lambda>ks. PullImpl srt cm ignore_sparse ks vals)"

definition local_Broadcast where
  "local_Broadcast ops srt cm vkeys okeys vals outs = with_int_keys (BroadcastImpl ops srt cm vkeys okeys vals outs)"

definition local_Broadcast_str where
  "local_Broadcast_str ops srt cm vss oss vals outs =
     with_new_keys vss (\<lambda>vkeys. with_str_keys oss (\<lambda>okeys. BroadcastImpl ops srt cm vkeys okeys vals outs))"

definition local_PushPull where
  "local_PushPull ops srt cm vkeys okeys vals outs = with_int_keys (PushPullImpl ops srt cm vkeys okeys vals outs)"

definition local_PushPull_str where
  "local_PushPull_str ops srt cm vss oss vals outs =
     with_str_keys vss (\<lambda>vkeys. with_str_keys oss (\<lambda>okeys. PushPullImpl ops srt cm vkeys okeys vals outs))"

definition local_PullRowSparse where
  "local_PullRowSparse srt cm ks vals = with_int_keys (PullRowSparseImpl srt cm ks vals)"

definition local_PullRowSparse_str where
  "local_PullRowSparse_str srt cm ss vals = with_str_keys ss (\<lambda>ks. PullRowSparseImpl srt cm ks vals)"

end
