(* ===== verification/MX_Pull.thy ===== *)
theory MX_Pull
  imports MX_Dist MX_Local
begin

text \<open>
  The operations of the distributed store at a worker (\<open>src/kvstore/kvstore_dist.h\<close>) over the arrays of its devices: initialisation,
  push and pull, dense and row-sparse. What the servers answer is a parameter; a task of the engine is run at once, after the
  tasks on the same array before it. Arrays are on the CPU, so the buffer of a key shares the merged array.
\<close>

section \<open>State\<close>

text \<open>
  The distributed store at a worker: the state of the division, the base class, the buffer of each key (\<open>comm_buf_\<close>), the
  communicator and the heap of arrays.
\<close>

record 'c dworker =
  dw_div :: kdist
  dw_local :: klocal
  dw_buf :: "int \<rightharpoonup> addr"
  dw_comm :: 'c
  dw_heap :: heap

text \<open>
  A pull request: the arguments of \<open>ZPull\<close>, with the range of the buffer that its values go to.
\<close>

record zpull =
  zl_keys :: "key list"
  zl_from :: nat
  zl_to :: nat
  zl_lens :: "int list"
  zl_cmd :: int

section \<open>Pushing and initialising\<close>

text \<open>
  One key of a push: its values are merged, or the first is taken; the buffer of the key is the merged array.
  \<open>quant\<close> is the compressed value of an array, \<open>topo\<close> the performance list of \<open>TopoUpdate\<close>.
\<close>

definition push_group_dist ::
  "'c vcomm \<Rightarrow> gcomp \<Rightarrow> krange list \<Rightarrow> int \<Rightarrow> bool \<Rightarrow> (int \<Rightarrow> ndarray \<Rightarrow> bytes) \<Rightarrow> fl list option \<Rightarrow>
   int \<times> addr list \<Rightarrow> zpush list \<times> bool \<times> 'c dworker \<Rightarrow> (zpush list \<times> bool \<times> 'c dworker) res" where
  "push_group_dist cm g krs rank do_merge quant topo kv s =
     (case kv of (k, vals) \<Rightarrow> case s of (zs, renew, d) \<Rightarrow>
      rbind (if do_merge then cm_Reduce cm k vals (dw_comm d, dw_heap d)
             else rmap (\<lambda>a. (a, dw_comm d, dw_heap d)) (vec_at vals 0)) (\<lambda>(m, c, h).
      rbind (array_at h m) (\<lambda>x.
      rmap (\<lambda>(zs', renew, st). (zs @ zs', renew, d\<lparr>dw_div := st, dw_buf := (dw_buf d)(k \<mapsto> m), dw_comm := c, dw_heap := h\<rparr>))
        (push_key g krs rank do_merge (k, x, quant k x) topo (renew, dw_div d)))))"

definition Push_all ::
  "((int \<times> nat) list \<Rightarrow> (int \<times> nat) list) \<Rightarrow> 'c vcomm \<Rightarrow> gcomp \<Rightarrow> krange list \<Rightarrow> int \<Rightarrow> bool \<Rightarrow> (int \<Rightarrow> ndarray \<Rightarrow> bytes) \<Rightarrow>
   fl list option \<Rightarrow> int list \<Rightarrow> addr list \<Rightarrow> 'c dworker \<Rightarrow> (zpush list \<times> 'c dworker) res" where
  "Push_all srt cm g krs rank do_merge quant topo ks vals d =
     rbind (GroupKVPairsPush srt ks vals) (\<lambda>gs.
     rmap (\<lambda>(zs, _, d). (zs, d))
       (rfold (push_group_dist cm g krs rank do_merge quant topo) gs ([], seg_update_flag (dw_div d) = 2, d)))"

text \<open>
  Initialisation: worker 0 pushes the first values as they are. The result says whether the barrier of the workers follows.
\<close>

definition init_comm :: "'c vcomm \<Rightarrow> int \<times> addr \<Rightarrow> 'c dworker \<Rightarrow> 'c dworker res" where
  "init_comm cm kv d =
     rmap (\<lambda>x. case cm_Init cm (fst kv) (nd_shape x) (nd_dtype x) (dw_comm d, dw_heap d) of (c, h) \<Rightarrow> d\<lparr>dw_comm := c, dw_heap := h\<rparr>)
       (array_at (dw_heap d) (snd kv))"

definition InitImpl_dist ::
  "((int \<times> nat) list \<Rightarrow> (int \<times> nat) list) \<Rightarrow> 'c vcomm \<Rightarrow> gcomp \<Rightarrow> krange list \<Rightarrow> int \<Rightarrow> int \<Rightarrow> bool \<Rightarrow> (int \<Rightarrow> ndarray \<Rightarrow> bytes) \<Rightarrow>
   fl list option \<Rightarrow> int list \<Rightarrow> addr list \<Rightarrow> 'c dworker \<Rightarrow> (zpush list \<times> bool \<times> 'c dworker) res" where
  "InitImpl_dist srt cm g krs rank cid is_recovery quant topo ks vals d =
     rbind (CheckUnique ks) (\<lambda>_.
     if length vals < length ks then Inl (Out_of_range ''values[i]'')
     else rbind (rfold (init_comm cm) (zip ks vals) d) (\<lambda>d.
       rmap (\<lambda>(zs, d). (zs, \<not> is_recovery, d))
         (if rank = 0 \<and> cid = 0 then Push_all srt cm g krs rank False quant topo ks vals d else Inr ([], d))))"

section \<open>Pulling dense arrays\<close>

text \<open>The loop over the segments: each has a range of the buffer of its own.\<close>

fun pull_segments :: "int \<Rightarrow> nat \<Rightarrow> nat \<Rightarrow> (key \<times> int) list \<Rightarrow> zpull list res" where
  "pull_segments cmd tot len [] = Inr []"
| "pull_segments cmd tot len ((ps_key, l) # segs) =
     (let e = nat (int len + l) in
      rcheck (len \<le> e) ''end >= begin'' (rcheck (e \<le> tot) ''end <= size()''
        (rmap ((#) \<lparr>zl_keys = [ps_key], zl_from = len, zl_to = e, zl_lens = [l], zl_cmd = cmd\<rparr>) (pull_segments cmd tot e segs))))"

text \<open>
  The buffer when all requests are answered; \<open>fetch\<close> is what the servers answer to a request, \<open>mem\<close> what the new memory held.
\<close>

definition pull_fill :: "(zpull \<Rightarrow> bytes) \<Rightarrow> zpull list \<Rightarrow> bytes \<Rightarrow> bytes" where
  "pull_fill fetch zs mem = fold (\<lambda>z b. take (zl_from z) b @ fetch z @ drop (zl_to z) b) zs mem"

text \<open>The closure \<open>pull_from_servers\<close>: the requests and the bytes of the buffer when they are answered.\<close>

definition pull_from_servers ::
  "gcomp \<Rightarrow> krange list \<Rightarrow> (zpull \<Rightarrow> bytes) \<Rightarrow> (nat \<Rightarrow> bytes) \<Rightarrow> int \<Rightarrow> ndarray \<Rightarrow> kdist \<Rightarrow> (zpull list \<times> bytes \<times> kdist) res" where
  "pull_from_servers g krs fetch mem k x st =
     rbind (mshadow_sizeof (nd_dtype x)) (\<lambda>num_bytes.
     let n = nat (shape_size (nd_shape x)) in
     rbind (if gc_type g = kTwoBit then EncodeCompressedKey g k n False (int num_bytes) krs st
            else EncodeDefaultKey k n (int num_bytes) krs st) (\<lambda>(p, st).
     rmap (\<lambda>zs. (zs, pull_fill fetch zs (mem (n * num_bytes)), st))
       (pull_segments (GetCommandType (if gc_type g \<noteq> kNone then kCompressedPushPull else kDefaultPushPull) (nd_dtype x))
         (n * num_bytes) 0 (zip (pk_keys p) (pk_lens p)))))"

text \<open>
  One key of a pull. A key that has a buffer is not pulled from the servers: the buffer is copied to the destinations when the
  operations on it are done.
\<close>

definition pull_group_dist ::
  "'c vcomm \<Rightarrow> gcomp \<Rightarrow> krange list \<Rightarrow> (zpull \<Rightarrow> bytes) \<Rightarrow> (nat \<Rightarrow> bytes) \<Rightarrow> int \<times> addr list \<Rightarrow>
   zpull list \<times> 'c dworker \<Rightarrow> (zpull list \<times> 'c dworker) res" where
  "pull_group_dist cm g krs fetch mem kv s =
     (case kv of (k, outs) \<Rightarrow> case s of (zs, d) \<Rightarrow>
      rbind (vec_at outs 0) (\<lambda>o1. rbind (array_at (dw_heap d) o1) (\<lambda>x.
      rcheck (\<not> is_sparse x) ''Expected stype of value to be kDefaultStorage''
      (rbind (case dw_buf d k of
           Some a \<Rightarrow> Inr (a, [], d)
         | None \<Rightarrow>
             rmap (\<lambda>(zs', bs, st).
               case new_array ((nd_alloc (nd_shape x) (nd_dtype x))\<lparr>nd_data := Some bs\<rparr>) (dw_heap d) of
                 (a, h) \<Rightarrow> (a, zs', d\<lparr>dw_div := st, dw_buf := (dw_buf d)(k \<mapsto> a), dw_heap := h\<rparr>))
             (pull_from_servers g krs fetch mem k x (dw_div d))) (\<lambda>(a, zs', d).
       rmap (\<lambda>(c, h). (zs @ zs', d\<lparr>dw_comm := c, dw_heap := h\<rparr>)) (cm_Broadcast cm k a outs (dw_comm d, dw_heap d)))))))"

definition PullImpl_dist ::
  "((int \<times> nat) list \<Rightarrow> (int \<times> nat) list) \<Rightarrow> 'c vcomm \<Rightarrow> gcomp \<Rightarrow> krange list \<Rightarrow> (zpull \<Rightarrow> bytes) \<Rightarrow> (nat \<Rightarrow> bytes) \<Rightarrow> bool \<Rightarrow>
   int list \<Rightarrow> addr list \<Rightarrow> 'c dworker \<Rightarrow> (zpull list \<times> 'c dworker) res" where
  "PullImpl_dist srt cm g krs fetch mem ignore_sparse ks outs d =
     rcheck ignore_sparse ''dist kvstore pull doesn't support ignore_sparse=False''
     (rbind (GroupKVPairsPull srt (dw_heap d) True ks outs (dw_local d)) (\<lambda>(gs, l).
      rfold (pull_group_dist cm g krs fetch mem) gs ([], d\<lparr>dw_local := l\<rparr>)))"

section \<open>Pulling rows\<close>

text \<open>The answer is cut into the rows that were asked for.\<close>

fun cut_rows :: "int list \<Rightarrow> nat \<Rightarrow> bytes \<Rightarrow> (int \<times> bytes) list" where
  "cut_rows [] n b = []"
| "cut_rows (i # is) n b = (i, take n b) # cut_rows is n (drop n b)"

definition PullRowSparse_server ::
  "krange list \<Rightarrow> (zpull \<Rightarrow> bytes) \<Rightarrow> int \<Rightarrow> ndarray \<Rightarrow> int list \<Rightarrow> kdist \<Rightarrow> (zpull \<times> ndarray \<times> kdist) res" where
  "PullRowSparse_server krs fetch k x indices st =
     rcheck (is_sparse x) ''CheckAndAlloc on dense storage''
     (rbind (mshadow_sizeof (nd_dtype x)) (\<lambda>num_bytes.
     let unit_len = nat (unit_length x) in
     rmap (\<lambda>(p, st).
         let z = \<lparr>zl_keys = pk_keys p, zl_from = 0, zl_to = length indices * unit_len * num_bytes, zl_lens = pk_lens p,
               zl_cmd = GetCommandType kRowSparsePushPull (nd_dtype x)\<rparr> in
         (z, x\<lparr>nd_rows := Some (cut_rows indices (unit_len * num_bytes) (fetch z))\<rparr>, st))
       (EncodeRowSparseKey k indices unit_len (nat (hd (nd_shape x))) (int num_bytes) krs st)))"

definition pull_rows_dist ::
  "'c vcomm \<Rightarrow> krange list \<Rightarrow> (zpull \<Rightarrow> bytes) \<Rightarrow> int \<times> (addr \<times> int list) list \<Rightarrow>
   zpull list \<times> 'c dworker \<Rightarrow> (zpull list \<times> 'c dworker) res" where
  "pull_rows_dist cm krs fetch kv s =
     (case kv of (k, outs) \<Rightarrow> case s of (zs, d) \<Rightarrow>
      rbind (vec_at outs 0) (\<lambda>o1. rbind (array_at (dw_heap d) (fst o1)) (\<lambda>x.
      rcheck (is_sparse x) ''expected kRowSparseStorage''
      (let (a, h) = (case dw_buf d k of Some a \<Rightarrow> (a, dw_heap d) | None \<Rightarrow> new_array (nd_alloc_rsp (nd_shape x) (nd_dtype x)) (dw_heap d)) in
       rcheck (length outs = 1) ''RowSparsePull with multiple values is not supported yet''
       (rbind (array_at h a) (\<lambda>y.
        rbind (PullRowSparse_server krs fetch k y (UniqueImpl (snd o1)) (dw_div d)) (\<lambda>(z, y, st).
        let d = d\<lparr>dw_div := st, dw_buf := (dw_buf d)(k \<mapsto> a)\<rparr> in
        rmap (\<lambda>(c, h). (zs @ [z], d\<lparr>dw_comm := c, dw_heap := h\<rparr>)) (cm_Broadcast cm k a (map fst outs) (dw_comm d, h[a := y])))))))))"

definition PullRowSparseImpl_dist ::
  "((int \<times> nat) list \<Rightarrow> (int \<times> nat) list) \<Rightarrow> 'c vcomm \<Rightarrow> krange list \<Rightarrow> (zpull \<Rightarrow> bytes) \<Rightarrow>
   int list \<Rightarrow> (addr \<times> int list) list \<Rightarrow> 'c dworker \<Rightarrow> (zpull list \<times> 'c dworker) res" where
  "PullRowSparseImpl_dist srt cm krs fetch ks outs d =
     rbind (GroupKVPairsPullRsp srt (dw_heap d) ks outs) (\<lambda>gs. rfold (pull_rows_dist cm krs fetch) gs ([], d))"

section \<open>A pull returns what was pushed\<close>

text \<open>The ranges of the requests follow each other and cover the buffer.\<close>

lemma pull_segments_tile:
  assumes "length ks = length ls" "\<forall>l \<in> set ls. 0 \<le> l" "int n + sum_list ls = int tot"
  shows "\<exists>zs. pull_segments cmd tot n (zip ks ls) = Inr zs \<and> map zl_keys zs = map (\<lambda>x. [x]) ks \<and>
    map (\<lambda>z. int (zl_to z) - int (zl_from z)) zs = ls \<and> (\<forall>z \<in> set zs. zl_from z \<le> zl_to z) \<and>
    (\<forall>fetch b. (\<forall>z \<in> set zs. length (fetch z) = zl_to z - zl_from z) \<longrightarrow> length b = tot \<longrightarrow>
       pull_fill fetch zs b = take n b @ concat (map fetch zs))"
  using assms
proof (induction ks ls arbitrary: n rule: list_induct2)
  case Nil
  then show ?case by (simp add: pull_fill_def)
next
  case (Cons k1 ks l ls)
  have nonneg: "0 \<le> sum_list ls" using Cons.prems by (intro sum_list_nonneg) auto
  define e where "e = nat (int n + l)"
  have e: "int e = int n + l" "n \<le> e" "e \<le> tot" using Cons.prems nonneg by (auto simp: e_def)
  from Cons.IH [of e] Cons.prems e obtain zs where zs: "pull_segments cmd tot e (zip ks ls) = Inr zs"
    "map zl_keys zs = map (\<lambda>x. [x]) ks" "map (\<lambda>z. int (zl_to z) - int (zl_from z)) zs = ls" "\<forall>z \<in> set zs. zl_from z \<le> zl_to z"
    "\<forall>fetch b. (\<forall>z \<in> set zs. length (fetch z) = zl_to z - zl_from z) \<longrightarrow> length b = tot \<longrightarrow>
       pull_fill fetch zs b = take e b @ concat (map fetch zs)" by auto
  let ?z = "\<lparr>zl_keys = [k1], zl_from = n, zl_to = e, zl_lens = [l], zl_cmd = cmd\<rparr>"
  have "pull_segments cmd tot n (zip (k1 # ks) (l # ls)) = Inr (?z # zs)"
    using e zs(1) by (simp add: Let_def flip: e_def)
  moreover have "pull_fill fetch (?z # zs) b = take n b @ concat (map fetch (?z # zs))"
    if f: "\<forall>z \<in> set (?z # zs). length (fetch z) = zl_to z - zl_from z" and b: "length b = tot" for fetch b
  proof -
    let ?b = "take n b @ fetch ?z @ drop e b"
    have len: "length (fetch ?z) = e - n" using f by simp
    then have "length ?b = tot" "take e ?b = take n b @ fetch ?z" using b e by auto
    with zs(5) f show ?thesis by (simp add: pull_fill_def)
  qed
  ultimately show ?case using zs(2-4) e by (intro exI [of _ "?z # zs"]) auto
qed

lemma EncodeDefaultKey_size:
  assumes "EncodeDefaultKey k n nb krs st = Inr (p, st')"
  shows "size_t (pk_size p) = size_t (int n * nb)"
  using assms by (auto simp: EncodeDefaultKey_def Let_def rcheck_Inr_iff rbind_Inr_iff split: if_splits)

lemma EncodeDefaultKey_cached:
  assumes "ps_kv st k = p" "pk_keys p \<noteq> []" "size_t (pk_size p) = size_t (int n * nb)"
  shows "\<exists>st'. EncodeDefaultKey k n nb krs st = Inr (p, st')"
proof -
  have "ps_kv (count_parameters k n (length krs) st) = ps_kv st" by (simp add: count_parameters_def Let_def)
  with assms show ?thesis by (simp add: EncodeDefaultKey_def Let_def)
qed

text \<open>
  When the servers hold what was pushed under each key, a worker that has the division of the push pulls the value that was
  pushed.
\<close>

lemma pull_returns_push:
  assumes enc: "EncodeDefaultKey k n nb krs st = Inr (p, st')"
    "ps_kv st k = PSKV" "enable_original st \<noteq> 1" "contiguous lo krs" "0 < bigarray_bound st"
    "0 < nb" "int n * nb < 2 ^ 31" and vals: "int (length vals) = int n * nb"
    and inv: "k \<noteq> 0 \<Longrightarrow> alloc_inv krs st K" "k = 0 \<Longrightarrow> seg_update_flag st \<noteq> 2 \<and> K = {}"
    and push: "PushDefault k ty vals p st1 = Inr zp" and held: "\<And>z. z \<in> set zp \<Longrightarrow> held (hd (zp_keys z)) = zp_vals z"
    and x: "nd_dtype x = ty" "nat (shape_size (nd_shape x)) = n" "mshadow_sizeof ty = Inr b" "nb = int b"
    and g: "gc_type g = kNone" and p: "ps_kv st2 k = p" and mem: "\<And>m. length (mem m) = m"
  shows "\<exists>zs st3. pull_from_servers g krs (\<lambda>z. held (hd (zl_keys z))) mem k x st2 = Inr (zs, vals, st3)"
proof -
  note e = EncodeDefaultKey_division [OF enc inv]
  have ls: "pk_lens p = map (\<lambda>m. int m * nb) (seg_sizes (bigarray_bound st) n)"
    and len: "length (pk_keys p) = length (pk_lens p)" and sum: "sum_list (pk_lens p) = int n * nb"
    using e by blast+
  have nonneg: "\<forall>l \<in> set (pk_lens p). 0 \<le> l" using ls enc(6) by auto
  have tot: "n * b = length vals" using vals x(4) by (simp flip: of_nat_mult)
  have cover: "int 0 + sum_list (pk_lens p) = int (length vals)" using sum vals by simp
  from push_segments_cover [OF len nonneg cover, of "GetCommandType kDefaultPushPull ty" k "iter_count st1"] push have
    zp: "concat (map zp_vals zp) = vals" "map zp_keys zp = map (\<lambda>x. [x]) (pk_keys p)" "map (int \<circ> length \<circ> zp_vals) zp = pk_lens p"
    by (auto simp: PushDefault_def)
  from pull_segments_tile [OF len nonneg cover, of "GetCommandType kDefaultPushPull ty"] obtain zs where
    zs: "pull_segments (GetCommandType kDefaultPushPull ty) (length vals) 0 (zip (pk_keys p) (pk_lens p)) = Inr zs"
      "map zl_keys zs = map (\<lambda>x. [x]) (pk_keys p)" "map (\<lambda>z. int (zl_to z) - int (zl_from z)) zs = pk_lens p" "\<forall>z \<in> set zs. zl_from z \<le> zl_to z"
    and fill: "\<forall>fetch b. (\<forall>z \<in> set zs. length (fetch z) = zl_to z - zl_from z) \<longrightarrow> length b = length vals \<longrightarrow>
       pull_fill fetch zs b = take 0 b @ concat (map fetch zs)" by (elim exE conjE) simp
  let ?f = "\<lambda>z. held (hd (zl_keys z))"
  have "map ?f zs = map held (map hd (map zl_keys zs))" by (simp add: comp_def)
  also have "\<dots> = map (\<lambda>z. held (hd (zp_keys z))) zp" unfolding zs(2) zp(2) [symmetric] by (simp add: comp_def)
  also have "\<dots> = map zp_vals zp" using held by simp
  finally have same: "map ?f zs = map zp_vals zp" .
  from arg_cong [OF this, of "map (\<lambda>v. int (length v))"]
  have lens: "map (\<lambda>z. int (length (?f z))) zs = map (\<lambda>z. int (zl_to z) - int (zl_from z)) zs"
    using zp(3) zs(3) by (simp add: comp_def)
  have "\<forall>z \<in> set zs. length (?f z) = zl_to z - zl_from z"
    using lens zs(4) by (metis (no_types, lifting) map_eq_conv nat_int nat_diff_distrib of_nat_0_le_iff of_nat_diff)
  then have bytes: "pull_fill ?f zs (mem (length vals)) = vals" using fill [rule_format, of ?f "mem (length vals)"] mem same zp(1) by simp
  have "pk_keys p \<noteq> []" using len ls seg_sizes.simps [of "bigarray_bound st" n] by (auto split: if_splits)
  with EncodeDefaultKey_cached [OF p _ EncodeDefaultKey_size [OF enc(1)], of krs] obtain st3 where
    "EncodeDefaultKey k n nb krs st2 = Inr (p, st3)" by blast
  then show ?thesis using g x zs(1) tot bytes by (simp add: pull_from_servers_def Let_def)
qed

text \<open>What the servers hold after a push: the values of its requests under their keys.\<close>

definition server_values :: "zpush list \<Rightarrow> key \<Rightarrow> bytes" where
  "server_values zp k = (case map_of (map (\<lambda>z. (hd (zp_keys z), zp_vals z)) zp) k of None \<Rightarrow> [] | Some v \<Rightarrow> v)"

lemma server_values_pushed:
  assumes "distinct ks" "map zp_keys zp = map (\<lambda>x. [x]) ks" "z \<in> set zp"
  shows "server_values zp (hd (zp_keys z)) = zp_vals z"
proof -
  have "map (\<lambda>z. hd (zp_keys z)) zp = ks" using arg_cong [OF assms(2), of "map hd"] by (simp add: comp_def)
  then have "distinct (map fst (map (\<lambda>z. (hd (zp_keys z), zp_vals z)) zp))" using assms(1) by (simp add: comp_def)
  from map_of_is_SomeI [OF this, of "hd (zp_keys z)" "zp_vals z"] assms(3) show ?thesis by (auto simp: server_values_def)
qed

end
