(* ===== verification/MX_Store.thy ===== *)
theory MX_Store
  imports MX_Local
begin

text \<open>
  Theorems on the local key-value store: the numbers given to string keys, the grouping of the values of a
  call by key, and a push followed by a pull, which writes to every destination the sum of the values pushed
  under its key.  The store relies on the communication between devices and on the sort only through the
  contracts \<open>device_comm\<close> and \<open>key_sort\<close>; both are interpreted on the code of the CPU.
\<close>

section \<open>String keys\<close>

text \<open>The two dictionaries are inverse to each other and hold exactly the numbers given out.\<close>

definition keys_inv :: "klocal \<Rightarrow> bool" where
  "keys_inv st \<longleftrightarrow> 0 \<le> next_str_key st \<and> (\<forall>s k. str_key_dict st s = Some k \<longleftrightarrow> reverse_str_key_dict st k = Some s) \<and>
     (\<forall>s k. str_key_dict st s = Some k \<longrightarrow> 0 \<le> k \<and> k < next_str_key st)"

lemma keys_inv_initial: "keys_inv KVStoreLocal"
  by (simp add: keys_inv_def KVStoreLocal_def)

lemma keys_inv_SetKeyType: "SetKeyType t st = Inr st' \<Longrightarrow> keys_inv st' = keys_inv st"
  by (cases "kv_key_type st = kUndefinedKey") (auto simp: SetKeyType_def Let_def rcheck_Inr_iff keys_inv_def)

text \<open>New string keys get the next numbers, in order; looking them up gives these numbers, and old keys keep theirs.\<close>

lemma add_str_keys_spec:
  assumes "keys_inv st" "add_str_keys ss st = Inr (ks, st')"
  shows "keys_inv st' \<and> ks = map (\<lambda>i. next_str_key st + int i) [0..<length ss] \<and> distinct ss \<and>
    (\<forall>s \<in> set ss. str_key_dict st s = None) \<and> LookupKeys ss st' = Inr ks \<and>
    (\<forall>s k. str_key_dict st s = Some k \<longrightarrow> str_key_dict st' s = Some k) \<and>
    local_store st' = local_store st \<and> next_str_key st' = next_str_key st + int (length ss)"
  using assms
proof (induction ss arbitrary: st ks)
  case Nil
  then show ?case by (simp add: LookupKeys_def)
next
  case (Cons s ss)
  let ?k = "next_str_key st"
  let ?st = "st\<lparr>next_str_key := ?k + 1, str_key_dict := (str_key_dict st)(s \<mapsto> ?k),
      reverse_str_key_dict := (reverse_str_key_dict st)(?k \<mapsto> s)\<rparr>"
  from Cons.prems(2) obtain ks' where new: "str_key_dict st s = None" and r: "add_str_keys ss ?st = Inr (ks', st')" and ks: "ks = ?k # ks'"
    by (auto simp: rcheck_Inr_iff rbind_Inr_iff rmap_Inr_iff cint_inc_Inr_iff Let_def)
  have fresh: "reverse_str_key_dict st ?k = None"
    using Cons.prems(1) unfolding keys_inv_def by (metis not_Some_eq less_irrefl)
  have "keys_inv ?st"
    unfolding keys_inv_def
  proof (intro conjI allI impI)
    fix t k
    have "str_key_dict st t = Some k \<longleftrightarrow> reverse_str_key_dict st k = Some t" "reverse_str_key_dict st k \<noteq> Some s"
      using Cons.prems(1) new by (auto simp: keys_inv_def) (metis option.distinct(1))
    then show "str_key_dict ?st t = Some k \<longleftrightarrow> reverse_str_key_dict ?st k = Some t"
      using fresh by auto
  qed (use Cons.prems(1) in \<open>auto simp: keys_inv_def split: if_splits\<close>, fastforce+)
  note ih = Cons.IH [OF this r]
  have "str_key_dict st' s = Some ?k" using ih by simp
  moreover have "map (\<lambda>i. ?k + int i) [0..<length (s # ss)] = ?k # map (\<lambda>i. ?k + 1 + int i) [0..<length ss]"
    by (simp add: upt_conv_Cons map_Suc_upt [symmetric] comp_def algebra_simps del: upt_Suc)
  moreover have "str_key_dict st' t = Some k" if "str_key_dict st t = Some k" for t k
  proof -
    have "t \<noteq> s" using that new by auto
    then have "str_key_dict ?st t = Some k" using that by simp
    then show ?thesis using ih by blast
  qed
  moreover have "s \<notin> set ss" "\<forall>t \<in> set ss. str_key_dict st t = None" using ih by (auto split: if_splits)
  moreover have "LookupKeys (s # ss) st' = Inr (?k # ks')" using ih \<open>str_key_dict st' s = Some ?k\<close> by (simp add: LookupKeys_def)
  ultimately show ?case using ih ks new by simp
qed

lemma LookupKeys_Inr_iff:
  "LookupKeys ss st = Inr ks \<longleftrightarrow> list_all2 (\<lambda>s k. str_key_dict st s = Some k) ss ks"
  by (auto simp: LookupKeys_def rmap_list_Inr_iff list_all2_conv_all_nth split: option.splits)

section \<open>Grouping\<close>

function runs :: "(int \<times> 'v) list \<Rightarrow> (int \<times> 'v list) list" where
  "runs [] = []"
| "runs ((k, v) # xs) = (k, v # map snd (takeWhile (\<lambda>x. fst x = k) xs)) # runs (dropWhile (\<lambda>x. fst x = k) xs)"
  by pat_completeness auto
termination by (relation "measure length") (auto simp: le_imp_less_Suc length_dropWhile_le)

lemma dropWhile_above:
  "sorted (map fst xs) \<Longrightarrow> \<forall>y \<in> set xs. (k :: int) \<le> fst y \<Longrightarrow>
   sorted (map fst (dropWhile (\<lambda>x. fst x = k) xs)) \<and> (\<forall>y \<in> set (dropWhile (\<lambda>x. fst x = k) xs). k < fst y)"
  by (induction xs) (auto simp: order.strict_iff_order)

lemma group_loop_run:
  assumes "\<And>k v s. v \<in> set vals \<Longrightarrow> valid k v s = Inr (True, s)" "\<forall>x \<in> set run. fst x = k \<and> snd x < length vals"
  shows "group_loop valid vals (run @ idx) k (gs @ [(k, vs)]) s =
    group_loop valid vals idx k (gs @ [(k, vs @ map (\<lambda>x. vals ! snd x) run)]) s"
  using assms(2) by (induction run arbitrary: vs) (auto simp: assms(1))

lemma group_loop_runs:
  assumes "\<And>k v s. v \<in> set vals \<Longrightarrow> valid k v s = Inr (True, s)" "sorted (map fst idx)" "\<forall>x \<in> set idx. pre < fst x \<and> snd x < length vals"
  shows "group_loop valid vals idx pre gs s = Inr (gs @ runs (map (\<lambda>x. (fst x, vals ! snd x)) idx), s)"
  using assms(2,3)
proof (induction "length idx" arbitrary: idx pre gs rule: less_induct)
  case less
  show ?case
  proof (cases idx)
    case (Cons x xs)
    obtain k i where x: "x = (k, i)" by (cases x)
    define run rest where "run = takeWhile (\<lambda>x. fst x = k) xs" and "rest = dropWhile (\<lambda>x. fst x = k) xs"
    have xs: "xs = run @ rest" by (simp add: run_def rest_def)
    have run: "\<forall>x \<in> set run. fst x = k \<and> snd x < length vals"
      using less.prems Cons by (auto simp: run_def dest: set_takeWhileD)
    have sorted_xs: "sorted (map fst xs)" "\<forall>y \<in> set xs. k \<le> fst y" using less.prems(1) Cons x by auto
    have sorted_rest: "sorted (map fst rest)" and "\<forall>y \<in> set rest. k < fst y"
      using dropWhile_above [OF sorted_xs] by (auto simp: rest_def)
    then have above: "\<forall>y \<in> set rest. k < fst y \<and> snd y < length vals"
      using less.prems(2) Cons xs by auto
    have "length rest < length idx" using Cons xs by simp
    note ih = less.hyps [OF this sorted_rest above]
    let ?f = "\<lambda>x :: int \<times> nat. (fst x, vals ! snd x)"
    have tw: "takeWhile (\<lambda>x. fst x = k) (map ?f xs) = map ?f run" "dropWhile (\<lambda>x. fst x = k) (map ?f xs) = map ?f rest"
      by (simp_all add: takeWhile_map dropWhile_map comp_def run_def rest_def)
    have "group_loop valid vals idx pre gs s = group_loop valid vals (run @ rest) k (gs @ [(k, [vals ! i])]) s"
      using less.prems(2) by (simp add: Cons x xs assms(1))
    also have "\<dots> = Inr (gs @ [(k, vals ! i # map (\<lambda>x. vals ! snd x) run)] @ runs (map ?f rest), s)"
      using group_loop_run [OF assms(1) run, where idx = rest and gs = gs and vs = "[vals ! i]" and s = s] ih by simp
    finally show ?thesis by (simp add: Cons x tw comp_def)
  qed simp
qed

lemma runs_keys: "sorted (map fst xs) \<Longrightarrow> set (map fst (runs xs)) = fst ` set xs \<and> sorted_wrt (<) (map fst (runs xs))"
proof (induction xs rule: runs.induct)
  case (2 k v xs)
  let ?rest = "dropWhile (\<lambda>x. fst x = k) xs"
  have sorted_xs: "sorted (map fst xs)" "\<forall>y \<in> set xs. k \<le> fst y" using 2 by auto
  have xs: "set xs = set (takeWhile (\<lambda>x. fst x = k) xs) \<union> set ?rest" by (metis set_append takeWhile_dropWhile_id)
  note rest = dropWhile_above [OF sorted_xs]
  have "fst y = k" if "y \<in> set (takeWhile (\<lambda>x. fst x = k) xs)" for y using that by (auto dest: set_takeWhileD)
  then show ?case using 2(1) rest xs by auto
qed simp

lemma runs_values: "sorted (map fst xs) \<Longrightarrow> (k, vs) \<in> set (runs xs) \<Longrightarrow> vs = map snd (filter (\<lambda>x. fst x = k) xs)"
proof (induction xs rule: runs.induct)
  case (2 j v xs)
  let ?take = "takeWhile (\<lambda>x. fst x = j) xs" and ?rest = "dropWhile (\<lambda>x. fst x = j) xs"
  have sorted_xs: "sorted (map fst xs)" "\<forall>y \<in> set xs. j \<le> fst y" using 2 by auto
  have above: "fst y \<noteq> j" if "y \<in> set ?rest" for y
    using dropWhile_above [OF sorted_xs] that by blast
  have rest: "sorted (map fst ?rest)" using dropWhile_above [OF sorted_xs] by simp
  have split: "filter P xs = filter P ?take @ filter P ?rest" for P by (metis filter_append takeWhile_dropWhile_id)
  have same: "filter (\<lambda>x. fst x = j) ?take = ?take" by (auto simp: filter_id_conv dest: set_takeWhileD)
  show ?case
  proof (cases "(k, vs) \<in> set (runs ?rest)")
    case True
    have "k \<in> fst ` set ?rest" using runs_keys [OF rest] True by force
    then have kj: "k \<noteq> j" using above by blast
    then have "filter (\<lambda>x. fst x = k) ?take = []" by (auto simp: filter_empty_conv dest: set_takeWhileD)
    with 2(1) [OF rest True] kj split [of "\<lambda>x. fst x = k"] show ?thesis by simp
  next
    case False
    then have "k = j" "vs = v # map snd ?take" using 2(3) by auto
    moreover have "filter (\<lambda>x. fst x = j) ?rest = []" using above by (blast intro: filter_False)
    ultimately show ?thesis by (simp only: filter.simps fst_conv snd_conv list.map if_True split [of "\<lambda>x. fst x = j"] same append_Nil2 simp_thms)
  qed
qed simp
text \<open>What \<open>std::sort\<close> promises: a permutation, ascending by key.\<close>

locale key_sort =
  fixes srt :: "(int \<times> nat) list \<Rightarrow> (int \<times> nat) list"
  assumes srt_perm: "mset (srt xs) = mset xs"
    and srt_sorted: "sorted (map fst (srt xs))"
begin

lemma srt_set: "set (srt xs) = set xs"
  by (metis srt_perm set_mset_mset)

lemma srt_Nil_iff: "srt xs = [] \<longleftrightarrow> xs = []"
  using srt_set [of xs] by (metis set_empty)

end

interpretation stable: key_sort "sort_key fst"
  by unfold_locales (auto intro: sorted_sort_key)

text \<open>The values pushed or pulled under a key, in the order in which they are grouped.\<close>

definition group_of :: "((int \<times> nat) list \<Rightarrow> (int \<times> nat) list) \<Rightarrow> int list \<Rightarrow> 'v list \<Rightarrow> int \<Rightarrow> 'v list" where
  "group_of srt ks vals k = map (\<lambda>x. vals ! snd x) (filter (\<lambda>x. fst x = k) (srt (zip ks [0..<length ks])))"

definition groups_of :: "((int \<times> nat) list \<Rightarrow> (int \<times> nat) list) \<Rightarrow> int list \<Rightarrow> 'v list \<Rightarrow> (int \<times> 'v list) list" where
  "groups_of srt ks vals = map (\<lambda>k. (k, group_of srt ks vals k)) (sorted_list_of_set (set ks))"

context key_sort
begin

text \<open>
  Grouping gives every key once, ascending, with all values of that key.
\<close>

lemma GroupKVPairs_groups:
  assumes valid: "\<And>k v s. v \<in> set vals \<Longrightarrow> valid k v s = Inr (True, s)" and len: "length ks = length vals" "ks \<noteq> []"
    and range: "\<forall>k \<in> set ks. cint_in_range (k - 1)"
  shows "GroupKVPairs srt valid ks vals s = Inr (groups_of srt ks vals, s)"
proof -
  let ?idx = "srt (zip ks [0..<length ks])"
  let ?xs = "map (\<lambda>x. (fst x, vals ! snd x)) ?idx"
  have set: "set ?idx = set (zip ks [0..<length ks])" by (rule srt_set)
  then have keys: "fst ` set ?idx = set ks" by (metis diff_zero length_upt map_fst_zip set_map)
  have ne: "?idx \<noteq> []" using len by (auto simp: srt_Nil_iff zip_eq_Nil_iff)
  have hd: "fst (hd ?idx) \<in> set ks" using keys ne by (metis hd_in_set image_eqI)
  have low: "\<forall>x \<in> set ?idx. fst (hd ?idx) - 1 < fst x \<and> snd x < length vals"
  proof
    fix x assume x: "x \<in> set ?idx"
    then have "fst (hd ?idx) \<le> fst x" using srt_sorted [of "zip ks [0..<length ks]"] ne by (cases ?idx) auto
    moreover have "snd x < length vals" using x set len(1) by (auto simp: in_set_zip)
    ultimately show "fst (hd ?idx) - 1 < fst x \<and> snd x < length vals" by simp
  qed
  have sorted_xs: "sorted (map fst ?xs)" using srt_sorted by (simp add: comp_def)
  have runs: "runs ?xs = groups_of srt ks vals"
  proof -
    have "set (map fst (runs ?xs)) = set ks" using runs_keys [OF sorted_xs] keys by (simp add: image_image)
    moreover have "sorted (map fst (runs ?xs)) \<and> distinct (map fst (runs ?xs))"
      using runs_keys [OF sorted_xs] by (simp add: strict_sorted_iff)
    ultimately have "map fst (runs ?xs) = sorted_list_of_set (set ks)"
      by (metis sorted_list_of_set.idem_if_sorted_distinct)
    moreover have "x = (fst x, group_of srt ks vals (fst x))" if "x \<in> set (runs ?xs)" for x
    proof -
      obtain k vs where x: "x = (k, vs)" by (cases x)
      have "vs = map snd (filter (\<lambda>x. fst x = k) ?xs)" using runs_values [OF sorted_xs] that x by blast
      then show ?thesis by (simp add: x group_of_def filter_map comp_def)
    qed
    then have "runs ?xs = map (\<lambda>k. (k, group_of srt ks vals k)) (map fst (runs ?xs))"
      unfolding map_map by (intro sym [OF map_idI]) (simp add: comp_def)
    ultimately show ?thesis by (simp add: groups_of_def)
  qed
  have "GroupKVPairs srt valid ks vals s = group_loop valid vals ?idx (fst (hd ?idx) - 1) [] s"
    using len ne bspec [OF range hd] by (simp add: GroupKVPairs_def Let_def)
  then show ?thesis using group_loop_runs [OF valid srt_sorted low, where gs = "[]" and s = s] runs by simp
qed

end

lemma group_of_mset:
  assumes "mset (srt (zip ks [0..<length ks])) = mset (zip ks [0..<length ks])" "length ks = length vals"
  shows "mset (group_of srt ks vals k) = image_mset snd (filter_mset (\<lambda>x. fst x = k) (mset (zip ks vals)))"
proof -
  have "mset (group_of srt ks vals k) = image_mset (\<lambda>x. vals ! snd x) (filter_mset (\<lambda>x. fst x = k) (mset (zip ks [0..<length ks])))"
    by (simp add: group_of_def assms(1))
  also have "\<dots> = image_mset snd (image_mset (\<lambda>x. (fst x, vals ! snd x)) (filter_mset (\<lambda>x. fst x = k) (mset (zip ks [0..<length ks]))))"
    by (simp add: image_mset.compositionality comp_def)
  also have "image_mset (\<lambda>x. (fst x, vals ! snd x)) (filter_mset (\<lambda>x. fst x = k) (mset (zip ks [0..<length ks]))) =
      filter_mset (\<lambda>x. fst x = k) (image_mset (\<lambda>x. (fst x, vals ! snd x)) (mset (zip ks [0..<length ks])))"
    by (simp add: filter_mset_image_mset)
  also have "image_mset (\<lambda>x. (fst x, vals ! snd x)) (mset (zip ks [0..<length ks])) = mset (zip ks vals)"
  proof -
    have "map (\<lambda>x. (fst x, vals ! snd x)) (zip ks [0..<length ks]) = zip ks vals"
      using assms(2) by (intro nth_equalityI) auto
    then show ?thesis by (metis mset_map)
  qed
  finally show ?thesis .
qed

context key_sort
begin

lemma group_of_set: "set (group_of srt ks vals k) = {vals ! i | i. i < length ks \<and> ks ! i = k}"
proof -
  have "set (group_of srt ks vals k) = (\<lambda>x. vals ! snd x) ` {x \<in> set (zip ks [0..<length ks]). fst x = k}"
    by (simp add: group_of_def srt_set)
  also have "{x \<in> set (zip ks [0..<length ks]). fst x = k} = (\<lambda>i. (k, i)) ` {i. i < length ks \<and> ks ! i = k}"
    by (auto simp: set_zip)
  finally show ?thesis by (auto simp: image_image)
qed

lemma group_of_length: "length (group_of srt ks vals k) = count_list ks k"
proof -
  have fst: "length (filter (\<lambda>x. fst x = k) zs) = count_list (map fst zs) k" for zs :: "(int \<times> nat) list"
    by (induction zs) auto
  have "length (filter (\<lambda>x. fst x = k) (srt (zip ks [0..<length ks]))) = size (filter_mset (\<lambda>x. fst x = k) (mset (zip ks [0..<length ks])))"
    by (metis mset_filter size_mset srt_perm)
  also have "\<dots> = count_list (map fst (zip ks [0..<length ks])) k" unfolding fst [symmetric] by (metis mset_filter size_mset)
  finally show ?thesis by (simp add: group_of_def)
qed

end
section \<open>Push and pull\<close>

context device_comm
begin

text \<open>The stored arrays are dense, none of the clients' and in no other key's buffers.\<close>

definition stored_ok :: "(int \<rightharpoonup> int \<times> int list) \<Rightarrow> addr set \<Rightarrow> 'c lstate \<Rightarrow> bool" where
  "stored_ok K U s \<longleftrightarrow> (\<forall>k. K k \<noteq> None \<longrightarrow> (\<exists>a. local_store (fst s) k = Some a \<and> a < length (snd (snd s)) \<and>
     \<not> is_sparse (snd (snd s) ! a) \<and> a \<notin> U \<and> (\<forall>k'. k' \<noteq> k \<longrightarrow> a \<notin> area k' (snd s))))"

text \<open>The value of a key.\<close>

definition stores :: "'c lstate \<Rightarrow> int \<Rightarrow> int \<Rightarrow> int list \<Rightarrow> bytes \<Rightarrow> bool" where
  "stores s k ty sh bs \<longleftrightarrow> (\<exists>a. local_store (fst s) k = Some a \<and> holds (snd (snd s)) a ty sh bs)"

lemma push_group_sum:
  assumes rd: "ready K n U (snd s)" and ok: "stored_ok K U s" and upd: "kv_updater (fst s) = None"
    and k: "K k = Some (ty, sh)" "2 \<le> n" "length src = n" "set src \<subseteq> U"
    and v: "list_all2 (\<lambda>a. holds (snd (snd s)) a ty sh) src bss"
  shows "\<exists>s'. push_group ops cm (k, src) s = Inr s' \<and> ready K n U (snd s') \<and> stored_ok K U s' \<and> kv_updater (fst s') = None \<and>
    stores s' k ty sh (total_of ty sh bss) \<and>
    (\<forall>k' ty' sh' bs. k' \<noteq> k \<longrightarrow> K k' \<noteq> None \<longrightarrow> stores s k' ty' sh' bs \<longrightarrow> stores s' k' ty' sh' bs) \<and>
    (\<forall>u \<in> U. snd (snd s') ! u = snd (snd s) ! u) \<and> length (snd (snd s)) \<le> length (snd (snd s'))"
proof -
  obtain st c h where s: "s = (st, c, h)" by (cases s) auto
  from reduce [OF rd k v] obtain m c' h' where r: "cm_Reduce cm k src (c, h) = Inr (m, c', h')" "m \<in> area k (c', h')"
      "holds h' m ty sh (total_of ty sh bss)" "ready K n U (c', h')" "length h \<le> length h'"
      "\<forall>k'. k' \<noteq> k \<longrightarrow> area k' (c', h') = area k' (c, h)" "area k (c', h') \<subseteq> area k (c, h) \<union> {length h..<length h'}"
      "\<forall>x < length h. is_sparse (h' ! x) = is_sparse (h ! x) \<and> (x \<notin> area k (c, h) \<longrightarrow> h' ! x = h ! x)"
    unfolding s by auto
  have old: "\<exists>a. local_store st j = Some a \<and> a < length h \<and> \<not> is_sparse (h ! a) \<and> a \<notin> U \<and> (\<forall>k'. k' \<noteq> j \<longrightarrow> a \<notin> area k' (c, h))"
    if "K j \<noteq> None" for j
    using ok that by (simp add: stored_ok_def s)
  note apart = ready_apart [OF rd, unfolded s snd_conv] and apart' = ready_apart [OF r(4), unfolded snd_conv]
  from old [of k] k(1) obtain a where a: "local_store st k = Some a" "a < length h" "\<not> is_sparse (h ! a)" by auto
  have m: "array_at h' m = Inr (h' ! m)" "\<not> is_sparse (h' ! m)" "m < length h'"
    using r(3) by (auto simp: holds_def dense_at_def array_at_def is_sparse_def)
  have a': "array_at h' a = Inr (h' ! a)" "\<not> is_sparse (h' ! a)" using a r(5,8) by (auto simp: array_at_def)
  let ?s = "(st\<lparr>local_store := (local_store st)(k \<mapsto> m)\<rparr>, c', h')"
  have run: "push_group ops cm (k, src) s = Inr ?s"
    using upd r(1) m a(1) a' by (simp add: push_group_def s)
  have ok': "stored_ok K U ?s"
    unfolding stored_ok_def
  proof (intro allI impI)
    fix j assume j: "K j \<noteq> None"
    show "\<exists>a. local_store (fst ?s) j = Some a \<and> a < length (snd (snd ?s)) \<and> \<not> is_sparse (snd (snd ?s) ! a) \<and> a \<notin> U \<and>
        (\<forall>k'. k' \<noteq> j \<longrightarrow> a \<notin> area k' (snd ?s))"
    proof (cases "j = k")
      case True
      have "m \<notin> U" using apart' [of k k] r(2) by blast
      moreover have "m \<notin> area k' (c', h')" if "k' \<noteq> k" for k' using apart' [of k k'] r(2) that by blast
      ultimately show ?thesis using m True by simp
    next
      case False
      from old [OF j] obtain b where b: "local_store st j = Some b" "b < length h" "\<not> is_sparse (h ! b)" "b \<notin> U"
        "\<forall>k'. k' \<noteq> j \<longrightarrow> b \<notin> area k' (c, h)" by blast
      have "b \<notin> area k' (c', h')" if "k' \<noteq> j" for k'
        using b(2,5) r(6,7) that False by (cases "k' = k") auto
      with b False r(5,8) show ?thesis by auto
    qed
  qed
  have keep: "stores ?s j ty' sh' bs" if "j \<noteq> k" "K j \<noteq> None" "stores s j ty' sh' bs" for j ty' sh' bs
  proof -
    have kj: "k \<noteq> j" using that(1) by simp
    from old [OF that(2)] that(3) obtain b where b: "local_store st j = Some b" "b < length h" "b \<notin> area k (c, h)" "holds h b ty' sh' bs"
      using kj by (auto simp: stores_def s)
    with r(5,8) have "holds h' b ty' sh' bs" by (intro holds_cong [OF _ r(5)]) auto
    with b that(1) show ?thesis by (simp add: stores_def)
  qed
  have "h' ! u = h ! u" if "u \<in> U" for u using r(8) apart [of k k] that by blast
  then show ?thesis
    using run r(3,4,5) ok' keep upd by (intro exI [of _ ?s]) (auto simp: s stores_def)
qed

text \<open>The groups of a push, one after the other.\<close>

definition pushes_ok :: "(int \<rightharpoonup> int \<times> int list) \<Rightarrow> nat \<Rightarrow> addr set \<Rightarrow> (int \<Rightarrow> bytes list) \<Rightarrow> heap \<Rightarrow> (int \<times> addr list) list \<Rightarrow> bool" where
  "pushes_ok K n U V h gs \<longleftrightarrow> distinct (map fst gs) \<and>
     (\<forall>(k, src) \<in> set gs. length src = n \<and> set src \<subseteq> U \<and>
        (\<exists>ty sh. K k = Some (ty, sh) \<and> list_all2 (\<lambda>a. holds h a ty sh) src (V k)))"

lemma push_groups_sum:
  assumes "ready K n U (snd s)" "stored_ok K U s" "kv_updater (fst s) = None" "2 \<le> n" "pushes_ok K n U V (snd (snd s)) gs"
  shows "\<exists>s'. rfold (push_group ops cm) gs s = Inr s' \<and> ready K n U (snd s') \<and> stored_ok K U s' \<and> kv_updater (fst s') = None \<and>
    (\<forall>k \<in> fst ` set gs. \<forall>ty sh. K k = Some (ty, sh) \<longrightarrow> stores s' k ty sh (total_of ty sh (V k))) \<and>
    (\<forall>k ty sh bs. k \<notin> fst ` set gs \<longrightarrow> K k \<noteq> None \<longrightarrow> stores s k ty sh bs \<longrightarrow> stores s' k ty sh bs) \<and>
    (\<forall>u \<in> U. snd (snd s') ! u = snd (snd s) ! u) \<and> length (snd (snd s)) \<le> length (snd (snd s'))"
  using assms
proof (induction gs arbitrary: s)
  case (Cons g gs)
  obtain k src where g: "g = (k, src)" by (cases g)
  from Cons.prems(5) obtain ty sh where k: "K k = Some (ty, sh)" "length src = n" "set src \<subseteq> U"
      "list_all2 (\<lambda>a. holds (snd (snd s)) a ty sh) src (V k)" and new: "k \<notin> fst ` set gs"
    by (auto simp: pushes_ok_def g)
  from push_group_sum [OF Cons.prems(1-3) k(1) Cons.prems(4) k(2-4), of ops] obtain s1 where
    s1: "push_group ops cm g s = Inr s1" "ready K n U (snd s1)" "stored_ok K U s1" "kv_updater (fst s1) = None"
      "stores s1 k ty sh (total_of ty sh (V k))"
      "\<forall>k' ty' sh' bs. k' \<noteq> k \<longrightarrow> K k' \<noteq> None \<longrightarrow> stores s k' ty' sh' bs \<longrightarrow> stores s1 k' ty' sh' bs"
      "\<forall>u \<in> U. snd (snd s1) ! u = snd (snd s) ! u" "length (snd (snd s)) \<le> length (snd (snd s1))"
    unfolding g by blast
  have hold: "holds (snd (snd s1)) a ty' sh' bs" if "a \<in> U" "holds (snd (snd s)) a ty' sh' bs" for a ty' sh' bs
    using that s1(7,8) by (intro holds_cong [OF _ s1(8)]) auto
  have "pushes_ok K n U V (snd (snd s1)) gs"
    unfolding pushes_ok_def
  proof (intro conjI ballI)
    show "distinct (map fst gs)" using Cons.prems(5) by (simp add: pushes_ok_def)
    fix x assume "x \<in> set gs"
    moreover obtain k' src' where x: "x = (k', src')" by (cases x)
    ultimately obtain ty' sh' where x': "length src' = n" "set src' \<subseteq> U" "K k' = Some (ty', sh')"
        "list_all2 (\<lambda>a. holds (snd (snd s)) a ty' sh') src' (V k')"
      using Cons.prems(5) by (auto simp: pushes_ok_def)
    have "list_all2 (\<lambda>a. holds (snd (snd s1)) a ty' sh') src' (V k')"
      unfolding list_all2_conv_all_nth
    proof (intro conjI allI impI)
      show "length src' = length (V k')" using x'(4) by (rule list_all2_lengthD)
      fix i assume i: "i < length src'"
      then have "src' ! i \<in> U" using x'(2) by auto
      with x'(4) i show "holds (snd (snd s1)) (src' ! i) ty' sh' (V k' ! i)"
        by (intro hold) (auto simp: list_all2_conv_all_nth)
    qed
    with x' x show "case x of (k, src) \<Rightarrow> length src = n \<and> set src \<subseteq> U \<and>
        (\<exists>ty sh. K k = Some (ty, sh) \<and> list_all2 (\<lambda>a. holds (snd (snd s1)) a ty sh) src (V k))" by auto
  qed
  from Cons.IH [OF s1(2-4) Cons.prems(4) this] obtain s' where s': "rfold (push_group ops cm) gs s1 = Inr s'"
      "ready K n U (snd s')" "stored_ok K U s'" "kv_updater (fst s') = None"
      "\<forall>k \<in> fst ` set gs. \<forall>ty sh. K k = Some (ty, sh) \<longrightarrow> stores s' k ty sh (total_of ty sh (V k))"
      "\<forall>k ty sh bs. k \<notin> fst ` set gs \<longrightarrow> K k \<noteq> None \<longrightarrow> stores s1 k ty sh bs \<longrightarrow> stores s' k ty sh bs"
      "\<forall>u \<in> U. snd (snd s') ! u = snd (snd s1) ! u" "length (snd (snd s1)) \<le> length (snd (snd s'))" by blast
  have "stores s' k ty sh (total_of ty sh (V k))" using s'(6) new k(1) s1(5) by auto
  with s' s1 k(1) show ?case by (auto simp: g)
qed auto

end
context device_comm
begin

definition pulls_ok :: "(int \<rightharpoonup> int \<times> int list) \<Rightarrow> addr set \<Rightarrow> heap \<Rightarrow> (int \<times> addr list) list \<Rightarrow> bool" where
  "pulls_ok K U h gs \<longleftrightarrow> distinct (map fst gs) \<and>
     (\<forall>x \<in> set gs. \<forall>y \<in> set gs. fst x \<noteq> fst y \<longrightarrow> set (snd x) \<inter> set (snd y) = {}) \<and>
     (\<forall>(k, dsts) \<in> set gs. set dsts \<subseteq> U \<and> (\<exists>ty sh. K k = Some (ty, sh) \<and> (\<forall>d \<in> set dsts. dense_at ty sh h d)))"

lemma pull_group_writes:
  assumes rd: "ready K n U (snd s)" and ok: "stored_ok K U s" and k: "K k = Some (ty, sh)" and W: "stores s k ty sh bs"
    and d: "set dsts \<subseteq> U" "\<forall>d \<in> set dsts. dense_at ty sh (snd (snd s)) d"
  shows "\<exists>s'. pull_group cm (k, dsts) s = Inr s' \<and> ready K n U (snd s') \<and> stored_ok K U s' \<and> fst s' = fst s \<and>
    (\<forall>d \<in> set dsts. holds (snd (snd s')) d ty sh bs) \<and> length (snd (snd s')) = length (snd (snd s)) \<and>
    (\<forall>x. x \<notin> set dsts \<longrightarrow> snd (snd s') ! x = snd (snd s) ! x)"
proof -
  obtain st c h where s: "s = (st, c, h)" by (cases s) auto
  from W ok k obtain a where a: "local_store st k = Some a" "holds h a ty sh bs" "a \<notin> U"
    by (force simp: stores_def stored_ok_def s)
  have good: "good_shape sh" using ready_shape [OF rd k] .
  from broadcast [OF rd d(1) a(3) _ good d(2), of bs k] a(2) obtain c' h' where
    b: "cm_Broadcast cm k a dsts (c, h) = Inr (c', h')" "ready K n U (c', h')" "\<forall>k. area k (c', h') = area k (c, h)"
      "length h' = length h" "\<forall>x. h' ! x = (if x \<in> set dsts then h ! a else h ! x)"
    by (auto simp: s)
  have run: "pull_group cm (k, dsts) s = Inr (st, c', h')" by (simp add: pull_group_def s a(1) b(1))
  have "holds h' x ty sh bs" if "x \<in> set dsts" for x
    using that b(4,5) d(2) by (intro holds_copied [OF a(2)]) (auto simp: s dense_at_def)
  moreover have "stored_ok K U (st, c', h')"
    unfolding stored_ok_def
  proof (intro allI impI)
    fix j assume "K j \<noteq> None"
    with ok obtain b' where b': "local_store st j = Some b'" "b' < length h" "\<not> is_sparse (h ! b')" "b' \<notin> U"
      "\<forall>k'. k' \<noteq> j \<longrightarrow> b' \<notin> area k' (c, h)" by (auto simp: stored_ok_def s)
    then have "b' \<notin> set dsts" using d(1) by blast
    with b' b(3-5) show "\<exists>a. local_store (fst (st, c', h')) j = Some a \<and> a < length (snd (snd (st, c', h'))) \<and>
        \<not> is_sparse (snd (snd (st, c', h')) ! a) \<and> a \<notin> U \<and> (\<forall>k'. k' \<noteq> j \<longrightarrow> a \<notin> area k' (snd (st, c', h')))" by auto
  qed
  ultimately show ?thesis using run b by (intro exI [of _ "(st, c', h')"]) (auto simp: s)
qed

lemma pull_groups_write:
  assumes "ready K n U (snd s)" "stored_ok K U s" "pulls_ok K U (snd (snd s)) gs"
    "\<forall>(k, dsts) \<in> set gs. \<forall>ty sh. K k = Some (ty, sh) \<longrightarrow> stores s k ty sh (W k)"
  shows "\<exists>s'. rfold (pull_group cm) gs s = Inr s' \<and> ready K n U (snd s') \<and> stored_ok K U s' \<and> fst s' = fst s \<and>
    (\<forall>(k, dsts) \<in> set gs. \<forall>ty sh. K k = Some (ty, sh) \<longrightarrow> (\<forall>d \<in> set dsts. holds (snd (snd s')) d ty sh (W k))) \<and>
    length (snd (snd s')) = length (snd (snd s)) \<and> (\<forall>x. x \<notin> set (concat (map snd gs)) \<longrightarrow> snd (snd s') ! x = snd (snd s) ! x)"
  using assms
proof (induction gs arbitrary: s)
  case (Cons g gs)
  obtain k dsts where g: "g = (k, dsts)" by (cases g)
  from Cons.prems(3) obtain ty sh where k: "K k = Some (ty, sh)" "set dsts \<subseteq> U" "\<forall>d \<in> set dsts. dense_at ty sh (snd (snd s)) d"
    by (auto simp: pulls_ok_def g)
  have dist: "set dsts \<inter> set (concat (map snd gs)) = {}"
  proof -
    have "set dsts \<inter> set (snd x) = {}" if x: "x \<in> set gs" for x
    proof -
      have "fst x \<noteq> k" using Cons.prems(3) x by (auto simp: pulls_ok_def g)
      with Cons.prems(3) x show ?thesis by (simp add: pulls_ok_def g)
    qed
    then show ?thesis by auto
  qed
  have "stores s k ty sh (W k)" using Cons.prems(4) k(1) by (auto simp: g)
  from pull_group_writes [OF Cons.prems(1,2) k(1) this k(2,3)] obtain s1 where
    s1: "pull_group cm g s = Inr s1" "ready K n U (snd s1)" "stored_ok K U s1" "fst s1 = fst s"
      "\<forall>d \<in> set dsts. holds (snd (snd s1)) d ty sh (W k)" "length (snd (snd s1)) = length (snd (snd s))"
      "\<forall>x. x \<notin> set dsts \<longrightarrow> snd (snd s1) ! x = snd (snd s) ! x"
    unfolding g by blast
  have "pulls_ok K U (snd (snd s1)) gs"
    unfolding pulls_ok_def
  proof (intro conjI ballI)
    show "distinct (map fst gs)" using Cons.prems(3) by (simp add: pulls_ok_def)
    show "fst x \<noteq> fst y \<longrightarrow> set (snd x) \<inter> set (snd y) = {}" if "x \<in> set gs" "y \<in> set gs" for x y
      using Cons.prems(3) that by (simp add: pulls_ok_def)
    fix x assume x: "x \<in> set gs"
    obtain k' ds' where x': "x = (k', ds')" by (cases x)
    from Cons.prems(3) x obtain ty' sh' where o: "set ds' \<subseteq> U" "K k' = Some (ty', sh')" "\<forall>d \<in> set ds'. dense_at ty' sh' (snd (snd s)) d"
      by (fastforce simp: pulls_ok_def x')
    have "dense_at ty' sh' (snd (snd s1)) d" if "d \<in> set ds'" for d
    proof -
      have "d \<in> set (concat (map snd gs))" using x x' that by force
      then have "snd (snd s1) ! d = snd (snd s) ! d" using s1(7) dist by blast
      with o(3) that s1(6) show ?thesis by (simp add: dense_at_def)
    qed
    with o show "case x of (k, dsts) \<Rightarrow> set dsts \<subseteq> U \<and> (\<exists>ty sh. K k = Some (ty, sh) \<and> (\<forall>d \<in> set dsts. dense_at ty sh (snd (snd s1)) d))"
      by (simp add: x')
  qed
  moreover have "stores s1 k' ty' sh' bs" if "K k' = Some (ty', sh')" "stores s k' ty' sh' bs" for k' ty' sh' bs
  proof -
    from that(2) obtain a where a: "local_store (fst s) k' = Some a" "holds (snd (snd s)) a ty' sh' bs" by (auto simp: stores_def)
    moreover have "a \<notin> set dsts" using Cons.prems(2) that(1) a(1) k(2) by (force simp: stored_ok_def)
    ultimately show ?thesis using s1(4,6,7) by (auto simp: stores_def intro!: holds_cong [OF _ _ a(2)])
  qed
  then have "\<forall>(k, dsts) \<in> set gs. \<forall>ty sh. K k = Some (ty, sh) \<longrightarrow> stores s1 k ty sh (W k)" using Cons.prems(4) by fastforce
  ultimately obtain s' where s': "rfold (pull_group cm) gs s1 = Inr s'" "ready K n U (snd s')" "stored_ok K U s'" "fst s' = fst s1"
      "\<forall>(k, dsts) \<in> set gs. \<forall>ty sh. K k = Some (ty, sh) \<longrightarrow> (\<forall>d \<in> set dsts. holds (snd (snd s')) d ty sh (W k))"
      "length (snd (snd s')) = length (snd (snd s1))"
      "\<forall>x. x \<notin> set (concat (map snd gs)) \<longrightarrow> snd (snd s') ! x = snd (snd s1) ! x"
    using Cons.IH [OF s1(2,3)] by blast
  have "holds (snd (snd s')) d ty sh (W k)" if "d \<in> set dsts" for d
  proof -
    have "snd (snd s') ! d = snd (snd s1) ! d" using that dist s'(7) by blast
    moreover have "holds (snd (snd s1)) d ty sh (W k)" using that s1(5) by blast
    ultimately show ?thesis using s'(6) by (auto intro: holds_cong)
  qed
  with s' s1 k(1) show ?case by (auto simp: g)
qed auto

end
text \<open>A store: a communicator and a sort.\<close>

locale local_kvstore = device_comm + key_sort
begin

lemma pushes_ok_groups:
  assumes "length vals = length vkeys" "set vals \<subseteq> U" "\<forall>k \<in> set vkeys. count_list vkeys k = n \<and> cint_in_range (k - 1)"
    "\<forall>i < length vkeys. \<exists>ty sh. K (vkeys ! i) = Some (ty, sh) \<and> holds h (vals ! i) ty sh (bss ! i)"
  shows "pushes_ok K n U (group_of srt vkeys bss) h (groups_of srt vkeys vals)"
  unfolding pushes_ok_def
proof (intro conjI ballI)
  have at: "\<exists>i < length vkeys. vkeys ! i = k" if "k \<in> set vkeys" for k using that by (metis in_set_conv_nth)
  show "distinct (map fst (groups_of srt vkeys vals))" by (simp add: groups_of_def comp_def)
  fix x assume "x \<in> set (groups_of srt vkeys vals)"
  then obtain k where x: "x = (k, group_of srt vkeys vals k)" and k: "k \<in> set vkeys" by (auto simp: groups_of_def)
  from at [OF k] assms(4) obtain ty sh where K: "K k = Some (ty, sh)" by auto
  have "set (group_of srt vkeys vals k) \<subseteq> U" using assms(1,2) by (auto simp: group_of_set)
  moreover have "list_all2 (\<lambda>a. holds h a ty sh) (group_of srt vkeys vals k) (group_of srt vkeys bss k)"
  proof -
    have "holds h (vals ! snd y) ty sh (bss ! snd y)" if "y \<in> set (zip vkeys [0..<length vkeys])" "fst y = k" for y
      using that assms(4) K by (auto simp: set_zip)
    then show ?thesis
      unfolding group_of_def list_all2_map1 list_all2_map2 by (intro list.rel_refl_strong) (simp add: srt_set)
  qed
  ultimately show "case x of (k, src) \<Rightarrow> length src = n \<and> set src \<subseteq> U \<and>
      (\<exists>ty sh. K k = Some (ty, sh) \<and> list_all2 (\<lambda>a. holds h a ty sh) src (group_of srt vkeys bss k))"
    using K k assms(3) by (simp add: x group_of_length)
qed

lemma pulls_ok_groups:
  assumes "length outs = length okeys" "set outs \<subseteq> U" "distinct outs"
    "\<forall>i < length okeys. \<exists>ty sh. K (okeys ! i) = Some (ty, sh) \<and> dense_at ty sh h (outs ! i)"
  shows "pulls_ok K U h (groups_of srt okeys outs)"
  unfolding pulls_ok_def
proof (intro conjI ballI impI)
  show "distinct (map fst (groups_of srt okeys outs))" by (simp add: groups_of_def comp_def)
  show "set (snd x) \<inter> set (snd y) = {}" if "x \<in> set (groups_of srt okeys outs)" "y \<in> set (groups_of srt okeys outs)" "fst x \<noteq> fst y" for x y
    using that assms(1,3) by (auto simp: groups_of_def group_of_set nth_eq_iff_index_eq)
  fix x assume "x \<in> set (groups_of srt okeys outs)"
  then obtain k where x: "x = (k, group_of srt okeys outs k)" and k: "k \<in> set okeys" by (auto simp: groups_of_def)
  from k obtain i where i: "i < length okeys" "okeys ! i = k" by (metis in_set_conv_nth)
  with assms(4) obtain ty sh where K: "K k = Some (ty, sh)" by auto
  have "\<forall>d \<in> set (group_of srt okeys outs k). dense_at ty sh h d" using assms(4) K by (force simp: group_of_set)
  moreover have "set (group_of srt okeys outs k) \<subseteq> U" using assms(1,2) by (auto simp: group_of_set)
  ultimately show "case x of (k, dsts) \<Rightarrow> set dsts \<subseteq> U \<and> (\<exists>ty sh. K k = Some (ty, sh) \<and> (\<forall>d \<in> set dsts. dense_at ty sh h d))"
    using K by (simp add: x)
qed

text \<open>
  Every device pushes its array of every key, then pulls: each destination holds the sum over
  the devices of its key.
\<close>

lemma PushPullImpl_sums:
  assumes rd: "ready K n U (c, h)" "stored_ok K U (st, c, h)" "kv_updater st = None" "2 \<le> n"
    and push: "length vals = length vkeys" "length bss = length vkeys" "vkeys \<noteq> []" "set vals \<subseteq> U"
      "\<forall>k \<in> set vkeys. count_list vkeys k = n \<and> cint_in_range (k - 1)"
      "\<forall>i < length vkeys. \<exists>ty sh. K (vkeys ! i) = Some (ty, sh) \<and> holds h (vals ! i) ty sh (bss ! i)"
    and pull: "length outs = length okeys" "okeys \<noteq> []" "set okeys \<subseteq> set vkeys" "set outs \<subseteq> U" "distinct outs"
      "\<forall>i < length okeys. \<exists>ty sh. K (okeys ! i) = Some (ty, sh) \<and> dense_at ty sh h (outs ! i)"
  shows "\<exists>st' c' h'. PushPullImpl ops srt cm vkeys okeys vals outs (st, c, h) = Inr (st', c', h') \<and>
    ready K n U (c', h') \<and> stored_ok K U (st', c', h') \<and>
    (\<forall>i < length okeys. \<forall>ty sh. K (okeys ! i) = Some (ty, sh) \<longrightarrow>
       holds h' (outs ! i) ty sh (total_of ty sh (group_of srt vkeys bss (okeys ! i))))"
proof -
  let ?V = "group_of srt vkeys bss"
  let ?gs = "groups_of srt vkeys vals" and ?os = "groups_of srt okeys outs"
  have g1: "GroupKVPairsPush srt vkeys vals = Inr ?gs"
    using GroupKVPairs_groups [of vals "valid_push False" vkeys "()"] push
    by (simp add: GroupKVPairsPush_def valid_push_def)
  note this_ok = pushes_ok_groups [OF push(1,4,5,6)]
  from push_groups_sum [of K n U "(st, c, h)" ?V ?gs ops] rd this_ok obtain st1 c1 h1 where
    s1: "rfold (push_group ops cm) ?gs (st, c, h) = Inr (st1, c1, h1)" "ready K n U (c1, h1)" "stored_ok K U (st1, c1, h1)"
      "\<forall>k \<in> fst ` set ?gs. \<forall>ty sh. K k = Some (ty, sh) \<longrightarrow> stores (st1, c1, h1) k ty sh (total_of ty sh (?V k))"
      "\<forall>u \<in> U. h1 ! u = h ! u" "length h \<le> length h1" by auto
  have keys: "fst ` set ?gs = set vkeys" by (force simp: groups_of_def)
  have dense: "dense_at ty sh h1 (outs ! i)" if "i < length okeys" "K (okeys ! i) = Some (ty, sh)" for i ty sh
  proof -
    have "dense_at ty sh h (outs ! i)" "outs ! i \<in> U" using pull(1,4,6) that by fastforce+
    with s1(5,6) show ?thesis by (auto intro: dense_at_cong)
  qed
  have vp: "valid_pull h1 True k v w = Inr (True, w)" if "v \<in> set outs" for k v w
  proof -
    from that pull(1) obtain i where "i < length okeys" "v = outs ! i" by (metis in_set_conv_nth)
    with pull(6) dense obtain ty sh where "dense_at ty sh h1 v" by blast
    then show ?thesis by (simp add: valid_pull_def array_at_def dense_at_def is_sparse_def)
  qed
  have "\<forall>k \<in> set okeys. cint_in_range (k - 1)" using pull(3) push(5) by blast
  then have g2: "GroupKVPairsPull srt h1 True okeys outs st1 = Inr (?os, st1)"
    using GroupKVPairs_groups [of outs "valid_pull h1 True" okeys "warnings_printed st1"] vp pull(1,2)
    by (simp add: GroupKVPairsPull_def)
  have ok: "pulls_ok K U h1 ?os" using pull(6) dense by (intro pulls_ok_groups [OF pull(1,4,5)]) blast
  let ?W = "\<lambda>k. case K k of Some (ty, sh) \<Rightarrow> total_of ty sh (?V k)"
  have "\<forall>(k, dsts) \<in> set ?os. \<forall>ty sh. K k = Some (ty, sh) \<longrightarrow> stores (st1, c1, h1) k ty sh (?W k)"
    using s1(4) keys pull(3) by (auto simp: groups_of_def)
  from pull_groups_write [of K n U "(st1, c1, h1)" ?os ?W] s1(2,3) ok this obtain st2 c2 h2 where
    s2: "rfold (pull_group cm) ?os (st1, c1, h1) = Inr (st2, c2, h2)" "ready K n U (c2, h2)" "stored_ok K U (st2, c2, h2)"
      "\<forall>(k, dsts) \<in> set ?os. \<forall>ty sh. K k = Some (ty, sh) \<longrightarrow> (\<forall>d \<in> set dsts. holds h2 d ty sh (?W k))" by auto
  have "holds h2 (outs ! i) ty sh (total_of ty sh (?V (okeys ! i)))" if "i < length okeys" "K (okeys ! i) = Some (ty, sh)" for i ty sh
  proof -
    have "(okeys ! i, group_of srt okeys outs (okeys ! i)) \<in> set ?os" using that(1) by (simp add: groups_of_def)
    moreover have "outs ! i \<in> set (group_of srt okeys outs (okeys ! i))" using that(1) by (auto simp: group_of_set)
    ultimately show ?thesis using s2(4) that(2) by fastforce
  qed
  moreover have "PushPullImpl ops srt cm vkeys okeys vals outs (st, c, h) = Inr (st2, c2, h2)"
    by (simp add: PushPullImpl_def PushImpl_def g1 s1(1) PullImpl_def g2 s2(1))
  ultimately show ?thesis using s2(2,3) by blast
qed

end

text \<open>The store with the CPU communicator.\<close>

locale cpu_kvstore = task_order + key_sort

sublocale cpu_kvstore \<subseteq> store: local_kvstore "cpu_comm ops order threads" cpu_ready cpu_area "cpu_total ops" srt
  by unfold_locales

context cpu_kvstore
begin

lemma cpu_store: "local_kvstore (cpu_comm ops order threads) cpu_ready cpu_area (cpu_total ops) srt"
  by unfold_locales

end

interpretation sequential_store: cpu_kvstore "\<lambda>m. [0..<m]" "sort_key fst"
  by unfold_locales
section \<open>Mixed keys and shared arrays\<close>

text \<open>After the first operation only keys of the same type are accepted.\<close>

lemma SetKeyType_mixed:
  assumes "SetKeyType t st = Inr st'" "t \<noteq> kUndefinedKey" "t' \<noteq> t"
  shows "SetKeyType t' st' = Inl (Check_failed ''Mixed key types are not allowed'')"
  using assms by (cases "kv_key_type st = kUndefinedKey") (auto simp: SetKeyType_def Let_def rcheck_Inr_iff)

text \<open>
  A push from a single device without an updater copies nothing: the store keeps the caller's own array,
  so that whatever is written to that array later is what a pull returns.
\<close>

lemma push_group_shares:
  assumes "dense_at ty sh h v" "kv_updater st = None" "local_store st k = Some a" "dense_at ty' sh' h a"
  shows "push_group ops (cpu_comm ops order threads) (k, [v]) (st, c, h) = Inr (st\<lparr>local_store := (local_store st)(k \<mapsto> v)\<rparr>, c, h)"
  using assms by (simp add: push_group_def cpu_comm_def comm_Reduce_def vec_at_def array_at_def dense_at_def is_sparse_def)

end
