(* ===== verification/MX_Var.thy ===== *)
theory MX_Var
  imports NS_Prelude
begin

text \<open>
  The variables of the dependency engine (\<open>ThreadedVar\<close> of \<open>src/engine/threaded_engine.h\<close> and
  \<open>src/engine/threaded_engine.cc\<close>). A variable is a queue of the operations that read or write
  it. The linked blocks from \<open>pending_write_\<close> up to, and without, the empty block \<open>head_\<close> are a
  list; a null \<open>pending_write_\<close> is \<open>None\<close>, and then \<open>head_\<close> is the only block. The operations
  return, beside the variable, the operation blocks whose wait counters they decrease.

  The second half states what a variable promises: it is a fair readers-writer lock that grants
  requests in the order they came, as far as they are compatible. Every operation of the code
  refines the operation of that lock.
\<close>

section \<open>Blocks and variables\<close>

type_synonym blk = nat

record VersionedVarBlock =
  trigger :: blk
  is_write :: bool

abbreviation dep :: "blk \<Rightarrow> bool \<Rightarrow> VersionedVarBlock" where
  "dep b w \<equiv> \<lparr>trigger = b, is_write = w\<rparr>"

record ThreadedVar =
  num_pending_reads :: int
  pending_write :: "VersionedVarBlock list option"
  to_delete :: bool
  var_version :: nat
  var_exception :: "nat option"

definition kWriteTriggered :: int where
  "kWriteTriggered = -1"

definition ThreadedVar :: ThreadedVar where
  "ThreadedVar = \<lparr>num_pending_reads = 0, pending_write = None, to_delete = False,
     var_version = 0, var_exception = None\<rparr>"

section \<open>Appending dependencies\<close>

text \<open>The flag says whether the wait counter of the operation is decreased at once.\<close>

definition AppendReadDependency :: "blk \<Rightarrow> ThreadedVar \<Rightarrow> (ThreadedVar \<times> bool) res" where
  "AppendReadDependency b v =
    (case pending_write v of
       None \<Rightarrow> rcheck (0 \<le> num_pending_reads v) ''num_pending_reads_ >= 0''
         (Inr (v\<lparr>num_pending_reads := num_pending_reads v + 1\<rparr>, True))
     | Some bs \<Rightarrow> Inr (v\<lparr>pending_write := Some (bs @ [dep b False])\<rparr>, False))"

definition AppendWriteDependency :: "blk \<Rightarrow> ThreadedVar \<Rightarrow> (ThreadedVar \<times> bool) res" where
  "AppendWriteDependency b v =
    (case pending_write v of
       None \<Rightarrow> rcheck (0 \<le> num_pending_reads v) ''num_pending_reads_ >= 0''
         (let v = v\<lparr>pending_write := Some [dep b True]\<rparr> in
          if num_pending_reads v = 0
          then Inr (v\<lparr>num_pending_reads := kWriteTriggered\<rparr>, True)
          else Inr (v, False))
     | Some bs \<Rightarrow> rcheck (num_pending_reads v \<noteq> 0) ''num_pending_reads_ != 0''
         (Inr (v\<lparr>pending_write := Some (bs @ [dep b True])\<rparr>, False)))"

text \<open>The two appends of \<open>Push\<close>, chosen by whether the dependency is a write.\<close>

definition AppendDependency :: "bool \<Rightarrow> blk \<Rightarrow> ThreadedVar \<Rightarrow> (ThreadedVar \<times> bool) res" where
  "AppendDependency w b = (if w then AppendWriteDependency b else AppendReadDependency b)"

section \<open>Completing dependencies\<close>

definition CompleteReadDependency :: "ThreadedVar \<Rightarrow> (ThreadedVar \<times> blk list) res" where
  "CompleteReadDependency v =
    rcheck (0 < num_pending_reads v) ''num_pending_reads_ > 0''
      (let v = v\<lparr>num_pending_reads := num_pending_reads v - 1\<rparr> in
       if num_pending_reads v = 0
       then (case pending_write v of
               None \<Rightarrow> Inr (v, [])
             | Some bs \<Rightarrow> Inr (v\<lparr>num_pending_reads := kWriteTriggered\<rparr>, map trigger (take 1 bs)))
       else Inr (v, []))"

text \<open>
  The loop over the reads that follow a completed write: the number of them, their blocks in
  order, and the blocks from \<open>end_of_read_chain\<close> on.
\<close>

fun read_chain ::
  "VersionedVarBlock list \<Rightarrow> int \<times> VersionedVarBlock list \<times> VersionedVarBlock list" where
  "read_chain [] = (0, [], [])"
| "read_chain (x # xs) =
    (if is_write x then (0, [], x # xs)
     else case read_chain xs of (n, reads, rest) \<Rightarrow> (n + 1, x # reads, rest))"

text \<open>
  The last component says whether the variable is to be deleted; a null \<open>pending_write_\<close>, which
  the code excludes by an assertion only, is dereferenced.
\<close>

definition CompleteWriteDependency :: "ThreadedVar \<Rightarrow> (ThreadedVar \<times> blk list \<times> bool) res" where
  "CompleteWriteDependency v =
    rcheck (num_pending_reads v = kWriteTriggered) ''num_pending_reads_ == kWriteTriggered''
      (let v = v\<lparr>var_version := var_version v + 1\<rparr> in
       case pending_write v of
         None \<Rightarrow> Inl (Undefined ''pending_write_ is null'')
       | Some bs \<Rightarrow>
           if to_delete v then Inr (v, [], True)
           else (case read_chain (tl bs) of (n, reads, rest) \<Rightarrow>
             if rest = [] then
               Inr (v\<lparr>num_pending_reads := n, pending_write := None\<rparr>, map trigger reads, False)
             else if n = 0 then
               Inr (v\<lparr>num_pending_reads := kWriteTriggered, pending_write := Some rest\<rparr>,
                 map trigger reads @ [trigger (hd rest)], False)
             else
               Inr (v\<lparr>num_pending_reads := n, pending_write := Some rest\<rparr>,
                 map trigger reads, False)))"

definition SetToDelete :: "ThreadedVar \<Rightarrow> ThreadedVar" where
  "SetToDelete v = v\<lparr>to_delete := True\<rparr>"

definition ready_to_read :: "ThreadedVar \<Rightarrow> bool" where
  "ready_to_read v = (pending_write v = None)"

section \<open>The fair readers-writer lock\<close>

type_synonym rwlock = "VersionedVarBlock list \<times> VersionedVarBlock list"

definition compatible :: "VersionedVarBlock list \<Rightarrow> VersionedVarBlock \<Rightarrow> bool" where
  "compatible H r = (if is_write r then H = [] else (\<forall>h\<in>set H. \<not> is_write h))"

fun grant :: "VersionedVarBlock list \<Rightarrow> VersionedVarBlock list \<Rightarrow> rwlock" where
  "grant H [] = (H, [])"
| "grant H (r # Q) = (if compatible H r then grant (H @ [r]) Q else (H, r # Q))"

fun rw_acquire :: "VersionedVarBlock \<Rightarrow> rwlock \<Rightarrow> rwlock" where
  "rw_acquire r (H, Q) = (if Q = [] \<and> compatible H r then (H @ [r], []) else (H, Q @ [r]))"

fun rw_release :: "VersionedVarBlock \<Rightarrow> rwlock \<Rightarrow> rwlock" where
  "rw_release r (H, Q) = grant (remove1 r H) Q"

text \<open>How a variable represents a lock: the queue it keeps, and the holders it only counts.\<close>

definition waiting :: "ThreadedVar \<Rightarrow> VersionedVarBlock list" where
  "waiting v =
    (case pending_write v of
       None \<Rightarrow> []
     | Some bs \<Rightarrow> if num_pending_reads v = kWriteTriggered then tl bs else bs)"

definition all_reads :: "VersionedVarBlock list \<Rightarrow> bool" where
  "all_reads H = (\<forall>h\<in>set H. \<not> is_write h)"

definition var_rel :: "ThreadedVar \<Rightarrow> VersionedVarBlock list \<Rightarrow> bool" where
  "var_rel v H =
    (case pending_write v of
       None \<Rightarrow> num_pending_reads v = int (length H) \<and> all_reads H
     | Some bs \<Rightarrow> bs \<noteq> [] \<and> is_write (hd bs) \<and>
         (if num_pending_reads v = kWriteTriggered then H = [hd bs]
          else num_pending_reads v = int (length H) \<and> H \<noteq> [] \<and> all_reads H))"

section \<open>The code refines the lock\<close>

lemma read_chain_split:
  obtains rs rest where "read_chain xs = (int (length rs), rs, rest)" and "xs = rs @ rest"
    and "all_reads rs" and "rest \<noteq> [] \<longrightarrow> is_write (hd rest)"
proof (induction xs arbitrary: thesis)
  case Nil
  show ?case by (rule Nil [of "[]" "[]"]) (auto simp: all_reads_def)
next
  case (Cons x xs)
  show ?case
  proof (cases "is_write x")
    case True
    show ?thesis by (rule Cons.prems [of "[]" "x # xs"]) (use True in \<open>auto simp: all_reads_def\<close>)
  next
    case False
    obtain rs rest where "read_chain xs = (int (length rs), rs, rest)" "xs = rs @ rest"
      "all_reads rs" "rest \<noteq> [] \<longrightarrow> is_write (hd rest)" by (rule Cons.IH)
    then show ?thesis
      by (intro Cons.prems [of "x # rs" rest]) (use False in \<open>auto simp: all_reads_def\<close>)
  qed
qed

lemma grant_writer: "is_write w \<Longrightarrow> grant [w] Q = ([w], Q)"
  by (cases Q) (auto simp: compatible_def)

lemma grant_reads:
  assumes "all_reads H" and "all_reads rs" and "rest \<noteq> [] \<longrightarrow> is_write (hd rest)"
  shows "grant H (rs @ rest) =
    (if rest \<noteq> [] \<and> H @ rs = [] then ([hd rest], tl rest) else (H @ rs, rest))"
  using assms
proof (induction rs arbitrary: H)
  case Nil
  then show ?case by (cases rest) (auto simp: compatible_def grant_writer)
next
  case (Cons r rs)
  then have "compatible H r" "all_reads (H @ [r])" "all_reads rs"
    by (auto simp: compatible_def all_reads_def)
  with Cons.IH [of "H @ [r]"] Cons.prems show ?case by simp
qed

lemma AppendDependency_refines:
  assumes "var_rel v H"
  obtains v' t where "AppendDependency w b v = Inr (v', t)"
    and "t = (waiting v = [] \<and> compatible H (dep b w))"
    and "rw_acquire (dep b w) (H, waiting v) = (if t then H @ [dep b w] else H, waiting v')"
    and "var_rel v' (if t then H @ [dep b w] else H)"
    and "to_delete v' = to_delete v" and "var_exception v' = var_exception v"
proof (cases "pending_write v")
  case None
  with assms show ?thesis
    by (intro that [of "fst (projr (AppendDependency w b v))" "snd (projr (AppendDependency w b v))"])
      (auto simp: AppendDependency_def AppendReadDependency_def AppendWriteDependency_def var_rel_def
         waiting_def kWriteTriggered_def all_reads_def compatible_def Let_def)
next
  case (Some bs)
  then obtain x xs where "bs = x # xs" using assms by (cases bs) (auto simp: var_rel_def)
  with Some assms show ?thesis
    by (intro that [of "fst (projr (AppendDependency w b v))" "snd (projr (AppendDependency w b v))"])
      (auto simp: AppendDependency_def AppendReadDependency_def AppendWriteDependency_def var_rel_def
         waiting_def kWriteTriggered_def all_reads_def compatible_def Let_def split: if_splits)
qed

lemma all_reads_remove1: "all_reads H \<Longrightarrow> all_reads (remove1 r H)"
  unfolding all_reads_def by (meson notin_set_remove1)

lemma CompleteReadDependency_refines:
  assumes rel: "var_rel v H" and r: "dep b False \<in> set H"
  obtains v' G where "CompleteReadDependency v = Inr (v', map trigger G)"
    and "rw_release (dep b False) (H, waiting v) = (remove1 (dep b False) H @ G, waiting v')"
    and "waiting v = G @ waiting v'" and "var_rel v' (remove1 (dep b False) H @ G)"
    and "to_delete v' = to_delete v" and "var_exception v' = var_exception v"
proof -
  let ?H = "remove1 (dep b False) H"
  have len: "int (length ?H) = int (length H) - 1"
    using r length_pos_if_in_set [OF r] by (simp add: length_remove1 of_nat_diff Suc_le_eq)
  have ne: "H \<noteq> []" using r by auto
  show ?thesis
  proof (cases "pending_write v")
    case None
    with rel have "all_reads H" "num_pending_reads v = int (length H)" by (auto simp: var_rel_def)
    with None len all_reads_remove1 [of H "dep b False"] ne show ?thesis
      by (intro that [of "v\<lparr>num_pending_reads := int (length ?H)\<rparr>" "[]"])
        (auto simp: CompleteReadDependency_def waiting_def var_rel_def Let_def)
  next
    case (Some bs)
    then obtain w ws where bs: "bs = w # ws" "is_write w"
      using rel by (cases bs) (auto simp: var_rel_def)
    have reads: "num_pending_reads v = int (length H)" "all_reads H" "num_pending_reads v \<noteq> kWriteTriggered"
      using rel r bs Some by (auto simp: var_rel_def split: if_splits)
    note reads_rest = all_reads_remove1 [OF reads(2), of "dep b False"]
    show ?thesis
    proof (cases "?H = []")
      case True
      with len Some bs reads ne grant_writer [OF bs(2)] show ?thesis
        by (intro that [of "v\<lparr>num_pending_reads := kWriteTriggered\<rparr>" "[w]"])
          (auto simp: CompleteReadDependency_def waiting_def var_rel_def compatible_def Let_def)
    next
      case False
      with len Some bs reads ne reads_rest show ?thesis
        by (intro that [of "v\<lparr>num_pending_reads := int (length ?H)\<rparr>" "[]"])
          (auto simp: CompleteReadDependency_def waiting_def var_rel_def compatible_def Let_def
             kWriteTriggered_def)
    qed
  qed
qed

lemma CompleteWriteDependency_refines:
  assumes rel: "var_rel v H" and r: "dep b True \<in> set H" and keep: "\<not> to_delete v"
  obtains v' G where "CompleteWriteDependency v = Inr (v', map trigger G, False)"
    and "rw_release (dep b True) (H, waiting v) = (remove1 (dep b True) H @ G, waiting v')"
    and "waiting v = G @ waiting v'" and "var_rel v' (remove1 (dep b True) H @ G)"
    and "to_delete v' = to_delete v" and "var_exception v' = var_exception v"
    and "var_version v' = Suc (var_version v)"
proof -
  obtain bs where Some: "pending_write v = Some bs" and H: "H = [dep b True]"
    and num: "num_pending_reads v = kWriteTriggered" and bs: "bs \<noteq> []"
    using rel r by (cases "pending_write v")
      (auto simp: var_rel_def all_reads_def split: if_splits)
  obtain rs rest where chain: "read_chain (tl bs) = (int (length rs), rs, rest)"
    and split: "tl bs = rs @ rest" and reads: "all_reads rs"
    and hd: "rest \<noteq> [] \<longrightarrow> is_write (hd rest)"
    by (rule read_chain_split)
  let ?v = "v\<lparr>var_version := var_version v + 1\<rparr>"
  have w: "waiting v = rs @ rest" using Some num split by (simp add: waiting_def)
  have g: "rw_release (dep b True) (H, waiting v) =
     (if rest \<noteq> [] \<and> rs = [] then ([hd rest], tl rest) else (rs, rest))"
    using H w grant_reads [OF _ reads hd, of "[]"] by (simp add: all_reads_def)
  note facts = Some num H keep w g reads split chain hd
  consider "rest = []" | "rest \<noteq> []" "rs = []" | "rest \<noteq> []" "rs \<noteq> []" by blast
  then show ?thesis
  proof cases
    case 1
    then show ?thesis using facts
      by (intro that [of "?v\<lparr>num_pending_reads := int (length rs), pending_write := None\<rparr>" rs])
        (simp_all add: CompleteWriteDependency_def waiting_def var_rel_def)
  next
    case 2
    then show ?thesis using facts
      by (intro that [of "?v\<lparr>pending_write := Some rest\<rparr>" "[hd rest]"])
        (simp_all add: CompleteWriteDependency_def waiting_def var_rel_def)
  next
    case 3
    then show ?thesis using facts
      by (intro that [of "?v\<lparr>num_pending_reads := int (length rs), pending_write := Some rest\<rparr>" rs])
        (simp_all add: CompleteWriteDependency_def waiting_def var_rel_def kWriteTriggered_def)
  qed
qed

section \<open>Sequences of dependencies\<close>

text \<open>
  The calls that the engine makes on one variable, and the same calls on the lock. Both answer with the
  blocks that are granted the variable by the call.
\<close>

datatype dep_op = AppendOp bool blk | CompleteOp bool blk

fun var_step :: "dep_op \<Rightarrow> ThreadedVar \<Rightarrow> (ThreadedVar \<times> blk list) res" where
  "var_step (AppendOp w b) v = rmap (\<lambda>(v, now). (v, if now then [b] else [])) (AppendDependency w b v)"
| "var_step (CompleteOp w b) v =
    (if w then rmap (\<lambda>(v, ts, del). (v, ts)) (CompleteWriteDependency v) else CompleteReadDependency v)"

fun lock_step :: "dep_op \<Rightarrow> rwlock \<Rightarrow> (rwlock \<times> blk list) option" where
  "lock_step (AppendOp w b) (H, Q) =
    (let L = rw_acquire (dep b w) (H, Q) in Some (L, map trigger (drop (length H) (fst L))))"
| "lock_step (CompleteOp w b) (H, Q) =
    (if dep b w \<in> set H
     then let L = rw_release (dep b w) (H, Q) in Some (L, map trigger (drop (length H - 1) (fst L)))
     else None)"

fun var_run :: "dep_op list \<Rightarrow> ThreadedVar \<Rightarrow> (ThreadedVar \<times> blk list list) res" where
  "var_run [] v = Inr (v, [])"
| "var_run (a # as) v =
    rbind (var_step a v) (\<lambda>(v, ts). rmap (\<lambda>(v, tss). (v, ts # tss)) (var_run as v))"

fun lock_run :: "dep_op list \<Rightarrow> rwlock \<Rightarrow> (rwlock \<times> blk list list) option" where
  "lock_run [] L = Some (L, [])"
| "lock_run (a # as) L =
    Option.bind (lock_step a L) (\<lambda>(L, ts). map_option (\<lambda>(L, tss). (L, ts # tss)) (lock_run as L))"

lemma var_step_refines:
  assumes rel: "var_rel v H" "\<not> to_delete v" and lock: "lock_step a (H, waiting v) = Some (L, ts)"
  shows "\<exists>v'. var_step a v = Inr (v', ts) \<and> var_rel v' (fst L) \<and> waiting v' = snd L \<and> \<not> to_delete v'"
proof (cases a)
  case (AppendOp w b)
  obtain v' t where step: "AppendDependency w b v = Inr (v', t)"
    and acq: "rw_acquire (dep b w) (H, waiting v) = (if t then H @ [dep b w] else H, waiting v')"
    and rel': "var_rel v' (if t then H @ [dep b w] else H)" "to_delete v' = to_delete v"
    by (rule AppendDependency_refines [OF rel(1)])
  have "L = (if t then H @ [dep b w] else H, waiting v')" "ts = (if t then [b] else [])"
    using lock unfolding AppendOp lock_step.simps acq Let_def by (cases t; simp)+
  with step rel' rel(2) AppendOp show ?thesis by simp
next
  case (CompleteOp w b)
  then have b: "dep b w \<in> set H" using lock by (auto split: if_splits)
  then have len: "length (remove1 (dep b w) H) = length H - 1" by (simp add: length_remove1)
  show ?thesis
  proof (cases w)
    case True
    then have w: "w = True" by simp
    obtain v' G where step: "CompleteWriteDependency v = Inr (v', map trigger G, False)"
      and rls: "rw_release (dep b True) (H, waiting v) = (remove1 (dep b True) H @ G, waiting v')"
      and rel': "var_rel v' (remove1 (dep b True) H @ G)" "to_delete v' = to_delete v"
      by (rule CompleteWriteDependency_refines [OF rel(1) b [unfolded w] rel(2)])
    have "L = (remove1 (dep b True) H @ G, waiting v')" "ts = map trigger G"
      using lock b len unfolding CompleteOp w lock_step.simps rls Let_def by simp_all
    with step rel' rel(2) CompleteOp w show ?thesis by simp
  next
    case False
    then have w: "w = False" by simp
    obtain v' G where step: "CompleteReadDependency v = Inr (v', map trigger G)"
      and rls: "rw_release (dep b False) (H, waiting v) = (remove1 (dep b False) H @ G, waiting v')"
      and rel': "var_rel v' (remove1 (dep b False) H @ G)" "to_delete v' = to_delete v"
      by (rule CompleteReadDependency_refines [OF rel(1) b [unfolded w]])
    have "L = (remove1 (dep b False) H @ G, waiting v')" "ts = map trigger G"
      using lock b len unfolding CompleteOp w lock_step.simps rls Let_def by simp_all
    with step rel' rel(2) CompleteOp w show ?thesis by simp
  qed
qed

lemma var_run_refines:
  assumes "var_rel v H" "\<not> to_delete v" and "lock_run as (H, waiting v) = Some (L, tss)"
  shows "\<exists>v'. var_run as v = Inr (v', tss) \<and> var_rel v' (fst L) \<and> waiting v' = snd L"
  using assms
proof (induction as arbitrary: v H tss)
  case (Cons a as)
  from Cons.prems(3) obtain L1 ts tss' where step: "lock_step a (H, waiting v) = Some (L1, ts)"
    and run: "lock_run as L1 = Some (L, tss')" and tss: "tss = ts # tss'"
    by (auto simp: bind_eq_Some_conv)
  from var_step_refines [OF Cons.prems(1,2) step] obtain v1 where
    v1: "var_step a v = Inr (v1, ts)" "var_rel v1 (fst L1)" "waiting v1 = snd L1" "\<not> to_delete v1" by blast
  from Cons.IH [OF v1(2,4), of tss'] run v1(3) obtain v' where
    "var_run as v1 = Inr (v', tss')" "var_rel v' (fst L)" "waiting v' = snd L" by auto
  with v1(1) tss show ?case by auto
qed auto

end
