(* ===== verification/MX_Engine.thy ===== *)
theory MX_Engine
  imports MX_Var MX_Reduce
begin

text \<open>
  The dependency engine: \<open>ThreadedEngine\<close> of \<open>src/engine/threaded_engine.h\<close> and
  \<open>src/engine/threaded_engine.cc\<close>, the helpers of \<open>include/mxnet/engine.h\<close> and the synchronous
  \<open>NaiveEngine\<close> of \<open>src/engine/naive_engine.cc\<close>.

  Variables, operators, operation blocks and exception cells are numbered objects of the engine
  state; a deleted object is absent. The functions that clients push are opaque numbers: a
  \<open>client\<close> says how each of them behaves. \<open>Push\<close> and \<open>OnComplete\<close> are straight-line sequences
  of atomic actions, one for each scope of a lock and each atomic decrement, so that the same
  actions serve the sequential operations here and the interleaved runs of \<open>MX_Sched\<close>.
  Profiling, logging and the CUDA device check are left out.
\<close>

section \<open>State\<close>

datatype fn_property =
  kNormal | kCopyFromGPU | kCopyToGPU | kCPUPrioritized | kAsync | kDeleteVar | kGPUPrioritized | kNoSkip

text \<open>
  The functions the engine runs: those of clients, and the closures that the engine itself
  pushes.
\<close>

datatype async_fn =
    AsyncFn nat                \<comment> \<open>a function pushed by \<open>PushAsync\<close> or given to \<open>NewOperator\<close>\<close>
  | SyncFn nat                 \<comment> \<open>the wrapper of \<open>PushSync\<close>\<close>
  | BulkFn "nat list"          \<comment> \<open>the wrapper of \<open>BulkFlush\<close>\<close>
  | DeleteVariableFn nat nat   \<comment> \<open>\<open>DeleteVariable\<close>: the variable and \<open>delete_fn\<close>\<close>
  | DeleteOperatorFn nat       \<comment> \<open>\<open>DeleteOperator\<close>\<close>
  | WaitForVarFn nat           \<comment> \<open>\<open>WaitForVar\<close>: the number of the flag \<open>done\<close>\<close>

type_synonym exc = string

datatype outcome =
    Returns        \<comment> \<open>the function called \<open>on_complete\<close> without an error\<close>
  | Fails exc      \<comment> \<open>it called \<open>on_complete\<close> with an error\<close>
  | Throws exc     \<comment> \<open>it threw an exception before it called \<open>on_complete\<close>\<close>
  | Later          \<comment> \<open>it returned; another thread calls \<open>on_complete\<close>\<close>

record client =
  async_run :: "nat \<Rightarrow> outcome"
  sync_run :: "nat \<Rightarrow> exc option"

record ThreadedOpr =
  opr_fn :: async_fn
  opr_const_vars :: "nat list"
  opr_mutable_vars :: "nat list"
  opr_prop :: fn_property
  temporary :: bool
  opr_wait :: bool
  opr_exception :: "nat option"

record OprBlock =
  wait :: int
  blk_opr :: nat
  blk_ctx :: nat
  blk_priority :: int

record BulkStatus =
  bs_bulk_size :: int
  bs_count :: int
  bs_ctx :: nat
  bs_functions :: "nat list"
  bs_const_vars :: "nat list"
  bs_mutable_vars :: "nat list"

record engine =
  vars :: "nat \<Rightarrow> ThreadedVar option"
  oprs :: "nat \<Rightarrow> ThreadedOpr option"
  blks :: "blk \<Rightarrow> OprBlock option"
  excs :: "nat \<Rightarrow> exc option"
  next_var :: nat
  next_opr :: nat
  next_blk :: nat
  next_exc :: nat
  next_done :: nat
  done_flags :: "nat list"
  pending :: int
  executing :: "(blk \<times> bool) list"
  global_exception_refs :: "nat list"
  kill :: bool
  shutdown_phase :: bool
  engine_debug :: bool
  aggregate_running :: bool
  bulk_status :: BulkStatus

definition BulkStatus :: BulkStatus where
  "BulkStatus = \<lparr>bs_bulk_size = 0, bs_count = 0, bs_ctx = 0, bs_functions = [],
     bs_const_vars = [], bs_mutable_vars = []\<rparr>"

definition ThreadedEngine :: engine where
  "ThreadedEngine = \<lparr>vars = Map.empty, oprs = Map.empty, blks = Map.empty, excs = Map.empty,
     next_var = 0, next_opr = 0, next_blk = 0, next_exc = 0, next_done = 0, done_flags = [],
     pending = 0, executing = [], global_exception_refs = [], kill = False,
     shutdown_phase = False, engine_debug = False, aggregate_running = False,
     bulk_status = BulkStatus\<rparr>"

section \<open>Variables and operators\<close>

definition NewVariable :: "engine \<Rightarrow> engine \<times> nat" where
  "NewVariable e =
    (e\<lparr>vars := (vars e)(next_var e \<mapsto> ThreadedVar), next_var := Suc (next_var e)\<rparr>, next_var e)"

fun adjacent_equal :: "nat list \<Rightarrow> bool" where
  "adjacent_equal (x # y # zs) = (x = y \<or> adjacent_equal (y # zs))"
| "adjacent_equal xs = False"

text \<open>The merge of the two sorted lists, with \<open>j\<close> the part of \<open>mutate\<close> that is left.\<close>

fun common_vars :: "nat list \<Rightarrow> nat list \<Rightarrow> bool" where
  "common_vars [] mutate = False"
| "common_vars (u # us) mutate =
    (case dropWhile (\<lambda>m. m < u) mutate of
       [] \<Rightarrow> False
     | m # ms \<Rightarrow> m = u \<or> common_vars us (m # ms))"

definition CheckDuplicate :: "nat list \<Rightarrow> nat list \<Rightarrow> unit res" where
  "CheckDuplicate const_vars mutable_vars =
    (let use = sort const_vars; mutate = sort mutable_vars in
     if adjacent_equal use then Inl (Fatal ''duplicate items found in `const_vars`'')
     else if adjacent_equal mutate then Inl (Fatal ''duplicate items found in `mutable_vars`'')
     else if common_vars use mutate
     then Inl (Fatal ''duplicate items found between `const_vars` and `mutable_vars`'')
     else Inr ())"

text \<open>\<open>Engine::DeduplicateVarHandle\<close>: the last loop keeps the reads that are not writes.\<close>

fun drop_written :: "nat list \<Rightarrow> nat list \<Rightarrow> nat list" where
  "drop_written [] ws = []"
| "drop_written (r # rs) ws =
    (case dropWhile (\<lambda>w. w < r) ws of
       [] \<Rightarrow> r # drop_written rs []
     | w # ws' \<Rightarrow> if w \<noteq> r then r # drop_written rs (w # ws') else drop_written rs (w # ws'))"

definition DeduplicateVarHandle :: "nat list \<Rightarrow> nat list \<Rightarrow> nat list \<times> nat list" where
  "DeduplicateVarHandle read_vars write_vars =
    (let ws = std_unique (sort write_vars); rs = std_unique (sort read_vars) in
     (drop_written rs ws, ws))"

definition NewOperator ::
  "async_fn \<Rightarrow> nat list \<Rightarrow> nat list \<Rightarrow> fn_property \<Rightarrow> bool \<Rightarrow> engine \<Rightarrow> (engine \<times> nat) res" where
  "NewOperator f const_vars mutable_vars pr w e =
    rbind (if engine_debug e then CheckDuplicate const_vars mutable_vars else Inr ()) (\<lambda>_.
    Inr (e\<lparr>oprs := (oprs e)(next_opr e \<mapsto>
           \<lparr>opr_fn = f, opr_const_vars = const_vars, opr_mutable_vars = mutable_vars,
            opr_prop = pr, temporary = False, opr_wait = w, opr_exception = None\<rparr>),
           next_opr := Suc (next_opr e)\<rparr>, next_opr e))"

section \<open>Exceptions\<close>

text \<open>The test \<open>ref && *ref\<close>.\<close>

definition live_exc :: "engine \<Rightarrow> nat option \<Rightarrow> bool" where
  "live_exc e r = (case r of None \<Rightarrow> False | Some r \<Rightarrow> excs e r \<noteq> None)"

definition AddToGlobalExceptions :: "nat option \<Rightarrow> engine \<Rightarrow> engine" where
  "AddToGlobalExceptions r e =
    (case r of None \<Rightarrow> e
     | Some r \<Rightarrow> if r \<in> set (global_exception_refs e) then e
         else e\<lparr>global_exception_refs := global_exception_refs e @ [r]\<rparr>)"

definition the_opr :: "nat \<Rightarrow> engine \<Rightarrow> ThreadedOpr res" where
  "the_opr oh e = (case oprs e oh of None \<Rightarrow> Inl (Undefined ''deleted operator'') | Some t \<Rightarrow> Inr t)"

definition the_var :: "nat \<Rightarrow> engine \<Rightarrow> ThreadedVar res" where
  "the_var v e = (case vars e v of None \<Rightarrow> Inl (Undefined ''deleted variable'') | Some x \<Rightarrow> Inr x)"

definition the_blk :: "blk \<Rightarrow> engine \<Rightarrow> OprBlock res" where
  "the_blk b e = (case blks e b of None \<Rightarrow> Inl (Undefined ''deleted block'') | Some k \<Rightarrow> Inr k)"

text \<open>A new exception reference for an operator.\<close>

definition set_opr_exception :: "nat \<Rightarrow> nat option \<Rightarrow> engine \<Rightarrow> engine" where
  "set_opr_exception oh r e = e\<lparr>oprs := (oprs e)(oh := map_option (\<lambda>t. t\<lparr>opr_exception := r\<rparr>) (oprs e oh))\<rparr>"

definition new_opr_exception :: "nat \<Rightarrow> exc \<Rightarrow> engine \<Rightarrow> engine" where
  "new_opr_exception oh x e =
    set_opr_exception oh (Some (next_exc e))
      (e\<lparr>excs := (excs e)(next_exc e \<mapsto> x), next_exc := Suc (next_exc e)\<rparr>)"

fun first_live :: "engine \<Rightarrow> nat list \<Rightarrow> nat option res" where
  "first_live e [] = Inr None"
| "first_live e (v # vs) = rbind (the_var v e) (\<lambda>x.
     if live_exc e (var_exception x) then Inr (var_exception x) else first_live e vs)"

text \<open>One of the two loops of \<open>OnStart\<close>.\<close>

definition inherit_exception :: "nat \<Rightarrow> nat list \<Rightarrow> engine \<Rightarrow> engine res" where
  "inherit_exception oh vs e =
    rbind (first_live e vs) (\<lambda>r.
      Inr (if r = None then e else AddToGlobalExceptions r (set_opr_exception oh r e)))"

definition OnStart :: "nat \<Rightarrow> engine \<Rightarrow> engine res" where
  "OnStart oh e =
    rbind (the_opr oh e) (\<lambda>t.
    rbind (inherit_exception oh (opr_const_vars t) e) (\<lambda>e.
    rbind (the_opr oh e) (\<lambda>t.
    if live_exc e (opr_exception t) then Inr e
    else inherit_exception oh (opr_mutable_vars t) e)))"

text \<open>The exception that is rethrown, if any; the cell it was in becomes null.\<close>

definition ThrowException :: "nat \<Rightarrow> engine \<Rightarrow> (engine \<times> exc option) res" where
  "ThrowException v e =
    rbind (the_var v e) (\<lambda>x.
    case var_exception x of
      None \<Rightarrow> Inr (e, None)
    | Some r \<Rightarrow> (case excs e r of
        None \<Rightarrow> Inr (e, None)
      | Some y \<Rightarrow> Inr (e\<lparr>excs := (excs e)(r := None)\<rparr>, Some y)))"

section \<open>Atomic actions\<close>

definition decr_wait :: "blk \<Rightarrow> engine \<Rightarrow> (engine \<times> int) res" where
  "decr_wait b e =
    rbind (the_blk b e) (\<lambda>k.
    let n = wait k - 1 in
    rcheck (0 \<le> n) ''ret >= 0'' (Inr (e\<lparr>blks := (blks e)(b \<mapsto> k\<lparr>wait := n\<rparr>)\<rparr>, n)))"

definition PushToExecute :: "blk \<Rightarrow> bool \<Rightarrow> engine \<Rightarrow> engine" where
  "PushToExecute b pusher_thread e = e\<lparr>executing := executing e @ [(b, pusher_thread)]\<rparr>"

definition decr_dispatch :: "bool \<Rightarrow> blk \<Rightarrow> engine \<Rightarrow> engine res" where
  "decr_dispatch pusher b e =
    rbind (decr_wait b e) (\<lambda>(e, n). Inr (if n = 0 then PushToExecute b pusher e else e))"

datatype action =
    Append bool nat blk      \<comment> \<open>\<open>AppendWriteDependency\<close> (True) or \<open>AppendReadDependency\<close> on a variable\<close>
  | PushEnd blk              \<comment> \<open>the last statement of \<open>Push\<close>\<close>
  | Complete bool nat blk    \<comment> \<open>the locked part of \<open>CompleteWriteDependency\<close> (True) or \<open>CompleteReadDependency\<close>\<close>
  | Decr blk                 \<comment> \<open>\<open>decr_wait\<close> of a triggered block and its dispatch\<close>
  | OprEnd blk nat bool      \<comment> \<open>the rest of \<open>OnComplete\<close> for an operator, temporary or not\<close>

text \<open>The loop body of \<open>OnComplete\<close> for a written variable.\<close>

definition mark_exception :: "nat \<Rightarrow> nat \<Rightarrow> engine \<Rightarrow> engine res" where
  "mark_exception oh v e =
    rbind (the_opr oh e) (\<lambda>t.
    rbind (the_var v e) (\<lambda>x.
    if live_exc e (opr_exception t)
    then Inr (AddToGlobalExceptions (opr_exception t)
      (e\<lparr>vars := (vars e)(v \<mapsto> x\<lparr>var_exception := opr_exception t\<rparr>)\<rparr>))
    else Inr e))"

definition complete_write :: "nat \<Rightarrow> blk \<Rightarrow> engine \<Rightarrow> (engine \<times> blk list) res" where
  "complete_write v b e =
    rbind (the_blk b e) (\<lambda>k.
    rbind (mark_exception (blk_opr k) v e) (\<lambda>e.
    rbind (the_var v e) (\<lambda>x.
    rbind (CompleteWriteDependency x) (\<lambda>(x, ts, del).
    Inr (e\<lparr>vars := (vars e)(v := (if del then None else Some x))\<rparr>, ts)))))"

text \<open>An action gives the engine after it and the blocks that it triggers.\<close>

fun act :: "action \<Rightarrow> engine \<Rightarrow> (engine \<times> blk list) res" where
  "act (Append w v b) e =
    rbind (the_var v e) (\<lambda>x.
    rbind (AppendDependency w b x) (\<lambda>(x, now).
    let e = e\<lparr>vars := (vars e)(v \<mapsto> x)\<rparr> in
    if now then rmap (\<lambda>(e, n). (e, [])) (decr_wait b e) else Inr (e, [])))"
| "act (PushEnd b) e = rmap (\<lambda>e. (e, [])) (decr_dispatch True b e)"
| "act (Complete w v b) e =
    (if w then complete_write v b e
     else rbind (the_var v e) (\<lambda>x.
       rmap (\<lambda>(x, ts). (e\<lparr>vars := (vars e)(v \<mapsto> x)\<rparr>, ts)) (CompleteReadDependency x)))"
| "act (Decr b) e = rmap (\<lambda>e. (e, [])) (decr_dispatch False b e)"
| "act (OprEnd b oh tmp) e =
    (let n = pending e - 1 in
     rcheck (0 \<le> n) ''npending >= 0''
       (Inr (e\<lparr>pending := n, oprs := (if tmp then (oprs e)(oh := None) else oprs e),
               blks := (blks e)(b := None)\<rparr>, [])))"

text \<open>One action followed by the decrements it triggers, and a sequence of them.\<close>

definition run_action :: "action \<Rightarrow> engine \<Rightarrow> engine res" where
  "run_action a e = rbind (act a e) (\<lambda>(e, bs). rfold (decr_dispatch False) bs e)"

definition run_actions :: "action list \<Rightarrow> engine \<Rightarrow> engine res" where
  "run_actions = rfold run_action"

section \<open>Pushing\<close>

definition new_block :: "nat \<Rightarrow> nat \<Rightarrow> int \<Rightarrow> engine \<Rightarrow> (engine \<times> blk \<times> ThreadedOpr) res" where
  "new_block oh ctx prio e =
    rbind (the_opr oh e) (\<lambda>t.
    Inr (e\<lparr>blks := (blks e)(next_blk e \<mapsto>
           \<lparr>wait = int (length (opr_const_vars t) + length (opr_mutable_vars t) + 1),
            blk_opr = oh, blk_ctx = ctx, blk_priority = prio\<rparr>),
           next_blk := Suc (next_blk e), pending := pending e + 1\<rparr>, next_blk e, t))"

definition push_actions :: "blk \<Rightarrow> ThreadedOpr \<Rightarrow> action list" where
  "push_actions b t =
    map (\<lambda>v. Append False v b) (opr_const_vars t) @
    map (\<lambda>v. Append True v b) (opr_mutable_vars t) @ [PushEnd b]"

text \<open>\<open>Push\<close> after its call of \<open>BulkFlush\<close>.\<close>

definition push_opr :: "nat \<Rightarrow> nat \<Rightarrow> int \<Rightarrow> engine \<Rightarrow> engine res" where
  "push_opr oh ctx prio e =
    rbind (new_block oh ctx prio e) (\<lambda>(e, b, t). run_actions (push_actions b t) e)"

definition set_temporary :: "nat \<Rightarrow> engine \<Rightarrow> engine" where
  "set_temporary oh e = e\<lparr>oprs := (oprs e)(oh := map_option (\<lambda>t. t\<lparr>temporary := True\<rparr>) (oprs e oh))\<rparr>"

text \<open>
  \<open>BulkFlush\<close> resets \<open>count\<close> before it calls \<open>PushAsync\<close>, so the \<open>BulkFlush\<close> that \<open>Push\<close> calls
  inside it returns at once.
\<close>

definition BulkFlush :: "engine \<Rightarrow> engine res" where
  "BulkFlush e =
    (let bs = bulk_status e in
     if bs_count bs = 0 then Inr e
     else case DeduplicateVarHandle (bs_const_vars bs) (bs_mutable_vars bs) of (cs, ms) \<Rightarrow>
       rbind (NewOperator (BulkFn (bs_functions bs)) cs ms kNormal False
               (e\<lparr>bulk_status := bs\<lparr>bs_count := 0, bs_const_vars := cs, bs_mutable_vars := ms\<rparr>\<rparr>)) (\<lambda>(e, oh).
       rbind (push_opr oh (bs_ctx bs) 0 (set_temporary oh e)) (\<lambda>e.
       Inr (e\<lparr>bulk_status := (bulk_status e)\<lparr>bs_functions := [], bs_const_vars := [],
              bs_mutable_vars := []\<rparr>\<rparr>))))"

definition engine_Push :: "nat \<Rightarrow> nat \<Rightarrow> int \<Rightarrow> engine \<Rightarrow> engine res" where
  "engine_Push oh ctx prio e = rbind (BulkFlush e) (push_opr oh ctx prio)"

definition PushAsync ::
  "async_fn \<Rightarrow> nat \<Rightarrow> nat list \<Rightarrow> nat list \<Rightarrow> fn_property \<Rightarrow> int \<Rightarrow> bool \<Rightarrow> engine \<Rightarrow> engine res" where
  "PushAsync f ctx cs ms pr prio w e =
    rbind (NewOperator f cs ms pr w e) (\<lambda>(e, oh). engine_Push oh ctx prio (set_temporary oh e))"

definition BulkAppend :: "nat \<Rightarrow> nat \<Rightarrow> nat list \<Rightarrow> nat list \<Rightarrow> engine \<Rightarrow> engine res" where
  "BulkAppend f ctx cs ms e =
    (let bs = bulk_status e;
         bs = bs\<lparr>bs_functions := bs_functions bs @ [f],
                 bs_ctx := (if bs_count bs = 0 then ctx else bs_ctx bs),
                 bs_count := bs_count bs + 1,
                 bs_const_vars := bs_const_vars bs @ cs,
                 bs_mutable_vars := bs_mutable_vars bs @ ms\<rparr>;
         e = e\<lparr>bulk_status := bs\<rparr> in
     if bs_bulk_size bs \<le> bs_count bs then BulkFlush e else Inr e)"

definition engine_bulk_size :: "engine \<Rightarrow> int" where
  "engine_bulk_size e = (if aggregate_running e then 0 else bs_bulk_size (bulk_status e))"

definition set_bulk_size :: "int \<Rightarrow> engine \<Rightarrow> (engine \<times> int) res" where
  "set_bulk_size n e =
    (let bs = bulk_status e; e = e\<lparr>bulk_status := bs\<lparr>bs_bulk_size := n\<rparr>\<rparr> in
     rmap (\<lambda>e. (e, bs_bulk_size bs)) (if n \<le> bs_count bs then BulkFlush e else Inr e))"

definition PushSync ::
  "nat \<Rightarrow> nat \<Rightarrow> nat list \<Rightarrow> nat list \<Rightarrow> fn_property \<Rightarrow> int \<Rightarrow> engine \<Rightarrow> engine res" where
  "PushSync f ctx cs ms pr prio e =
    (if engine_bulk_size e = 0 \<or> pr \<noteq> kNormal \<or> prio \<noteq> 0
     then PushAsync (SyncFn f) ctx cs ms pr prio False e
     else rbind (if bs_count (bulk_status e) \<noteq> 0 \<and> ctx \<noteq> bs_ctx (bulk_status e) then BulkFlush e else Inr e)
       (BulkAppend f ctx cs ms))"

definition DeleteOperator :: "nat \<Rightarrow> engine \<Rightarrow> engine res" where
  "DeleteOperator oh e =
    rbind (the_opr oh e) (\<lambda>t.
    PushAsync (DeleteOperatorFn oh) 0 [] (opr_const_vars t @ opr_mutable_vars t) kDeleteVar 0 False e)"

definition DeleteVariable :: "nat \<Rightarrow> nat \<Rightarrow> nat \<Rightarrow> engine \<Rightarrow> engine res" where
  "DeleteVariable f ctx v e = PushAsync (DeleteVariableFn v f) ctx [] [v] kDeleteVar 0 False e"

section \<open>Execution and completion\<close>

fun bulk_outcome :: "client \<Rightarrow> nat list \<Rightarrow> outcome" where
  "bulk_outcome c [] = Returns"
| "bulk_outcome c (f # fs) = (case sync_run c f of Some x \<Rightarrow> Throws x | None \<Rightarrow> bulk_outcome c fs)"

text \<open>What calling the function of an operator does to the engine, and how the call ends.\<close>

fun call_fn :: "client \<Rightarrow> async_fn \<Rightarrow> engine \<Rightarrow> engine \<times> outcome" where
  "call_fn c (AsyncFn f) e = (e, async_run c f)"
| "call_fn c (SyncFn f) e = (e, bulk_outcome c [f])"
| "call_fn c (BulkFn fs) e = (e, bulk_outcome c fs)"
| "call_fn c (DeleteVariableFn v f) e =
    (e\<lparr>vars := (vars e)(v := map_option SetToDelete (vars e v))\<rparr>, bulk_outcome c [f])"
| "call_fn c (DeleteOperatorFn oh) e = (e\<lparr>oprs := (oprs e)(oh := None)\<rparr>, Returns)"
| "call_fn c (WaitForVarFn k) e = (e\<lparr>done_flags := done_flags e @ [k]\<rparr>, Returns)"

definition complete_actions :: "blk \<Rightarrow> nat \<Rightarrow> ThreadedOpr \<Rightarrow> action list" where
  "complete_actions b oh t =
    map (\<lambda>v. Complete False v b) (opr_const_vars t) @
    map (\<lambda>v. Complete True v b) (opr_mutable_vars t) @ [OprEnd b oh (temporary t)]"

definition OnComplete :: "blk \<Rightarrow> nat \<Rightarrow> engine \<Rightarrow> engine res" where
  "OnComplete b oh e = rbind (the_opr oh e) (\<lambda>t. run_actions (complete_actions b oh t) e)"

definition note_error :: "nat \<Rightarrow> exc option \<Rightarrow> engine \<Rightarrow> engine" where
  "note_error oh err e = (case err of None \<Rightarrow> e | Some x \<Rightarrow> new_opr_exception oh x e)"

definition OnCompleteStatic :: "blk \<Rightarrow> exc option \<Rightarrow> engine \<Rightarrow> engine res" where
  "OnCompleteStatic b err e =
    rbind (the_blk b e) (\<lambda>k. OnComplete b (blk_opr k) (note_error (blk_opr k) err e))"

text \<open>The inner \<open>try\<close> block of \<open>ExecuteOprBlock\<close>.\<close>

definition run_fn :: "client \<Rightarrow> nat \<Rightarrow> ThreadedOpr \<Rightarrow> engine \<Rightarrow> engine \<times> exc option option" where
  "run_fn c oh t e =
    (case call_fn c (opr_fn t) e of (e, oc) \<Rightarrow>
      (case oc of
         Returns \<Rightarrow> (e, Some None)
       | Fails x \<Rightarrow> (e, Some (Some x))
       | Throws x \<Rightarrow> (new_opr_exception oh x e, Some None)
       | Later \<Rightarrow> (e, None)))"

text \<open>
  \<open>ExecuteOprBlock\<close> up to the call of the callback: the argument of the callback, or \<open>None\<close> when
  the function leaves the call to another thread.
\<close>

definition execute_fn :: "client \<Rightarrow> blk \<Rightarrow> engine \<Rightarrow> (engine \<times> exc option option) res" where
  "execute_fn c b e =
    rbind (the_blk b e) (\<lambda>k. let oh = blk_opr k in
    rbind (the_opr oh e) (\<lambda>t.
    if \<not> shutdown_phase e \<or> opr_prop t = kDeleteVar then
      rbind (OnStart oh e) (\<lambda>e.
      rbind (the_opr oh e) (\<lambda>t.
      if \<not> live_exc e (opr_exception t) \<or> opr_prop t = kNoSkip \<or> opr_wait t
      then Inr (run_fn c oh t e)
      else Inr (e, Some None)))
    else Inr (e, Some None)))"

definition ExecuteOprBlock :: "client \<Rightarrow> blk \<Rightarrow> engine \<Rightarrow> engine res" where
  "ExecuteOprBlock c b e =
    rbind (execute_fn c b e) (\<lambda>(e, cb).
    case cb of None \<Rightarrow> Inr e | Some err \<Rightarrow> OnCompleteStatic b err e)"

section \<open>Waiting\<close>

datatype wait_result = Finished "exc option" | Blocked nat

definition WaitForVar :: "nat \<Rightarrow> engine \<Rightarrow> (engine \<times> wait_result) res" where
  "WaitForVar v e =
    rbind (BulkFlush e) (\<lambda>e.
    rbind (the_var v e) (\<lambda>x.
    if ready_to_read x then rmap (\<lambda>(e, r). (e, Finished r)) (ThrowException v e)
    else
      rbind (PushAsync (WaitForVarFn (next_done e)) 0 [v] [] kNormal 0 True
              (e\<lparr>next_done := Suc (next_done e)\<rparr>)) (\<lambda>e'. Inr (e', Blocked (next_done e)))))"

text \<open>A waiter that is woken: it goes on when its flag is set or the engine is killed.\<close>

definition WaitForVar_wake :: "nat \<Rightarrow> nat \<Rightarrow> engine \<Rightarrow> (engine \<times> exc option) res option" where
  "WaitForVar_wake k v e =
    (if k \<in> set (done_flags e) \<or> kill e then Some (ThrowException v e) else None)"

definition clear_exceptions :: "nat list \<Rightarrow> engine \<Rightarrow> engine" where
  "clear_exceptions rs e = fold (\<lambda>r e. e\<lparr>excs := (excs e)(r := None)\<rparr>) rs e"

fun first_exception :: "engine \<Rightarrow> nat list \<Rightarrow> exc option" where
  "first_exception e [] = None"
| "first_exception e (r # rs) = (case excs e r of Some x \<Rightarrow> Some x | None \<Rightarrow> first_exception e rs)"

text \<open>\<open>WaitForAll\<close> after \<open>BulkFlush\<close>: \<open>None\<close> while it has to wait.\<close>

definition WaitForAll_wake :: "engine \<Rightarrow> (engine \<times> exc option) option" where
  "WaitForAll_wake e =
    (if pending e = 0 \<or> kill e
     then Some ((clear_exceptions (global_exception_refs e) e)\<lparr>global_exception_refs := []\<rparr>,
       first_exception e (global_exception_refs e))
     else None)"

definition WaitForAll :: "engine \<Rightarrow> (engine \<times> (engine \<times> exc option) option) res" where
  "WaitForAll e = rmap (\<lambda>e. (e, WaitForAll_wake e)) (BulkFlush e)"

definition NotifyShutdown :: "engine \<Rightarrow> engine" where
  "NotifyShutdown e = e\<lparr>shutdown_phase := True\<rparr>"

definition ThreadedEngine_destroy :: "engine \<Rightarrow> engine" where
  "ThreadedEngine_destroy e = e\<lparr>kill := True\<rparr>"

section \<open>The naive engine\<close>

record naive =
  nvars :: "nat \<Rightarrow> nat option"    \<comment> \<open>the version of a variable\<close>
  n_next :: nat
  n_log :: "async_fn list"         \<comment> \<open>the functions it has run\<close>

definition NaiveEngine :: naive where
  "NaiveEngine = \<lparr>nvars = Map.empty, n_next = 0, n_log = []\<rparr>"

definition naive_NewVariable :: "naive \<Rightarrow> naive \<times> nat" where
  "naive_NewVariable n =
    (n\<lparr>nvars := (nvars n)(n_next n \<mapsto> 0), n_next := Suc (n_next n)\<rparr>, n_next n)"

definition bump_versions :: "nat list \<Rightarrow> naive \<Rightarrow> naive res" where
  "bump_versions = rfold (\<lambda>v n. case nvars n v of
     None \<Rightarrow> Inl (Undefined ''deleted variable'')
   | Some k \<Rightarrow> Inr (n\<lparr>nvars := (nvars n)(v \<mapsto> Suc k)\<rparr>))"

text \<open>
  \<open>PushAsync\<close> runs the function before it returns; an exception leaves it. \<open>DeleteVariable\<close>
  deletes the variable inside the function, and the version of the deleted object is increased
  afterwards, which is an access to freed memory.
\<close>

definition naive_PushAsync :: "client \<Rightarrow> async_fn \<Rightarrow> nat list \<Rightarrow> naive \<Rightarrow> (naive \<times> exc option) res" where
  "naive_PushAsync c f ms n =
    (let n = n\<lparr>n_log := n_log n @ [f]\<rparr>;
         n' = (case f of DeleteVariableFn v _ \<Rightarrow> n\<lparr>nvars := (nvars n)(v := None)\<rparr> | _ \<Rightarrow> n) in
     case snd (call_fn c f ThreadedEngine) of
       Throws x \<Rightarrow> Inr (n, Some x)
     | Later \<Rightarrow> rbind (bump_versions ms n') (\<lambda>_. Inl (Check_failed ''req_completed''))
     | _ \<Rightarrow> rmap (\<lambda>n. (n, None)) (bump_versions ms n'))"

section \<open>Duplicate variables\<close>

lemma adjacent_equal_sorted: "sorted xs \<Longrightarrow> adjacent_equal xs \<longleftrightarrow> \<not> distinct xs"
  by (induction xs rule: adjacent_equal.induct) (auto simp: order_less_le dest: order_antisym)

text \<open>Skipping the smaller elements of a sorted list loses nothing for later, larger elements.\<close>

lemma dropWhile_less:
  assumes "sorted ms" and "u \<le> (x :: nat)"
  shows "x \<in> set (dropWhile (\<lambda>m. m < u) ms) \<longleftrightarrow> x \<in> set ms"
  using assms by (induction ms) (auto simp: not_less)

lemma dropWhile_less_hd:
  assumes "sorted ms" and "dropWhile (\<lambda>m. m < (u :: nat)) ms = m # ms'"
  shows "u \<le> m \<and> sorted (m # ms') \<and> (m = u \<longleftrightarrow> u \<in> set ms)"
proof -
  have "u \<le> m" using hd_dropWhile [of "\<lambda>m. m < u" ms] assms(2) by auto
  moreover have "sorted (m # ms')" using sorted_dropWhile [OF assms(1)] assms(2) by metis
  moreover have "u \<in> set ms \<longleftrightarrow> u \<in> set (m # ms')"
    using dropWhile_less [OF assms(1), of u u] assms(2) by simp
  ultimately show ?thesis by auto
qed

lemma common_vars_sorted:
  "sorted us \<Longrightarrow> sorted ms \<Longrightarrow> common_vars us ms \<longleftrightarrow> set us \<inter> set ms \<noteq> {}"
proof (induction us ms rule: common_vars.induct)
  case (2 u us ms)
  have later: "x \<in> set us \<Longrightarrow> x \<in> set (dropWhile (\<lambda>m. m < u) ms) \<longleftrightarrow> x \<in> set ms" for x
    using 2 dropWhile_less [of ms u x] by simp
  have u: "u \<in> set (dropWhile (\<lambda>m. m < u) ms) \<longleftrightarrow> u \<in> set ms"
    using 2 dropWhile_less [of ms u u] by simp
  show ?case
  proof (cases "dropWhile (\<lambda>m. m < u) ms")
    case Nil
    then have "\<not> common_vars (u # us) ms" by (simp only: common_vars.simps list.case not_False_eq_True)
    moreover have "set (u # us) \<inter> set ms = {}" using later u Nil by auto
    ultimately show ?thesis by blast
  next
    case (Cons m ms')
    note hd = dropWhile_less_hd [OF "2.prems"(2) Cons]
    then have "common_vars us (m # ms') \<longleftrightarrow> set us \<inter> set (m # ms') \<noteq> {}"
      using "2.IH" [OF Cons] "2.prems" by auto
    then show ?thesis using later hd u Cons by auto
  qed
qed simp

lemma CheckDuplicate_iff: "CheckDuplicate cs ms = Inr () \<longleftrightarrow> distinct (cs @ ms)"
  by (auto simp: CheckDuplicate_def adjacent_equal_sorted common_vars_sorted Let_def)

lemma drop_written_sorted:
  "sorted rs \<Longrightarrow> sorted ws \<Longrightarrow> drop_written rs ws = filter (\<lambda>r. r \<notin> set ws) rs"
proof (induction rs ws rule: drop_written.induct)
  case (2 r rs ws)
  have later: "x \<in> set rs \<Longrightarrow> x \<in> set (dropWhile (\<lambda>m. m < r) ws) \<longleftrightarrow> x \<in> set ws" for x
    using 2 dropWhile_less [of ws r x] by simp
  have r: "r \<in> set (dropWhile (\<lambda>m. m < r) ws) \<longleftrightarrow> r \<in> set ws"
    using 2 dropWhile_less [of ws r r] by simp
  show ?case
  proof (cases "dropWhile (\<lambda>m. m < r) ws")
    case Nil
    then have "drop_written rs [] = rs" using "2.IH"(1) "2.prems" by simp
    moreover have "\<forall>x\<in>set (r # rs). x \<notin> set ws" using later r Nil by auto
    then have "filter (\<lambda>r. r \<notin> set ws) (r # rs) = r # rs" by (simp add: filter_id_conv)
    ultimately show ?thesis using Nil by (simp only: drop_written.simps list.case)
  next
    case (Cons w ws')
    note hd = dropWhile_less_hd [OF "2.prems"(2) Cons]
    have "drop_written rs (w # ws') = filter (\<lambda>r. r \<notin> set (w # ws')) rs"
      using "2.IH"(2,3) [OF Cons] "2.prems" hd by (cases "w = r") auto
    also have "\<dots> = filter (\<lambda>r. r \<notin> set ws) rs" using later Cons by (auto intro: filter_cong)
    finally show ?thesis using Cons hd by auto
  qed
qed simp

lemma DeduplicateVarHandle_spec:
  assumes "DeduplicateVarHandle rs ws = (rs', ws')"
  shows "distinct (rs' @ ws') \<and> set ws' = set ws \<and> set rs' = set rs - set ws"
proof -
  have u: "set (std_unique (sort xs)) = set xs" "sorted_wrt (<) (std_unique (sort xs))"
    for xs :: "nat list"
    using std_unique_sorted [of "sort xs"] by auto
  then have "sorted (std_unique (sort xs))" "distinct (std_unique (sort xs))" for xs :: "nat list"
    by (simp_all add: strict_sorted_iff)
  with u assms show ?thesis by (auto simp: DeduplicateVarHandle_def Let_def drop_written_sorted)
qed

end
