(* ===== verification/MX_Sched.thy ===== *)
theory MX_Sched
  imports MX_Engine "HOL-Library.Multiset"
begin

text \<open>
  Interleaved runs of the dependency engine. A state of the machine is the engine together with
  the actions that its threads have still to do, the operations whose functions have returned
  without a call of their callback, and two records of the run: the operations in the order they
  were pushed and the blocks in the order their functions were started. A step is one atomic
  action of one thread, the start of an operation by a worker, a callback, a push, or a new
  variable or operator.

  The invariant says how the wait counters, the queues of the variables and the outstanding
  actions agree; safety (conflicting operations never run together), the absence of failing
  checks and, for pushes that are not interleaved with each other, progress and the order of
  conflicting operations follow from it.
\<close>

section \<open>The machine\<close>

definition deps :: "ThreadedOpr \<Rightarrow> (nat \<times> bool) list" where
  "deps t = map (\<lambda>v. (v, False)) (opr_const_vars t) @ map (\<lambda>v. (v, True)) (opr_mutable_vars t)"

record mach =
  eng :: engine
  threads :: "action list list"
  running :: "blk list"
  pushed :: "(async_fn \<times> (nat \<times> bool) list) list"
  started :: "blk list"

definition mach0 :: mach where
  "mach0 = \<lparr>eng = ThreadedEngine, threads = [], running = [], pushed = [], started = []\<rparr>"

text \<open>The functions that delete engine objects are left out of the interleaved runs.\<close>

fun deletes :: "async_fn \<Rightarrow> bool" where
  "deletes (DeleteVariableFn v f) = True"
| "deletes (DeleteOperatorFn oh) = True"
| "deletes f = False"

definition take_block :: "blk \<times> bool \<Rightarrow> engine \<Rightarrow> engine" where
  "take_block bp e = e\<lparr>executing := remove1 bp (executing e)\<rparr>"

inductive estep :: "client \<Rightarrow> mach \<Rightarrow> mach \<Rightarrow> bool" for c where
  new_variable: "estep c s (s\<lparr>eng := fst (NewVariable (eng s))\<rparr>)"
| new_operator: "\<lbrakk>distinct (cs @ ms); set (cs @ ms) \<subseteq> dom (vars (eng s)); \<not> deletes f;
     NewOperator f cs ms pr w (eng s) = Inr (e, oh)\<rbrakk> \<Longrightarrow>
   estep c s (s\<lparr>eng := (if tmp then set_temporary oh e else e)\<rparr>)"
| push: "\<lbrakk>new_block oh ctx prio (eng s) = Inr (e, b, t);
     temporary t \<longrightarrow> (\<forall>b' k. blks (eng s) b' = Some k \<longrightarrow> blk_opr k \<noteq> oh)\<rbrakk> \<Longrightarrow>
   estep c s (s\<lparr>eng := e, threads := threads s @ [push_actions b t],
     pushed := pushed s @ [(opr_fn t, deps t)]\<rparr>)"
| thread: "\<lbrakk>i < length (threads s); threads s ! i = a # rest; act a (eng s) = Inr (e, bs)\<rbrakk> \<Longrightarrow>
   estep c s (s\<lparr>eng := e, threads := (threads s)[i := map Decr bs @ rest]\<rparr>)"
| run: "\<lbrakk>(b, p) \<in> set (executing (eng s)); execute_fn c b (eng s) = Inr (e, Some err);
     blks e b = Some k; oprs e (blk_opr k) = Some t\<rbrakk> \<Longrightarrow>
   estep c s (s\<lparr>eng := note_error (blk_opr k) err (take_block (b, p) e),
     threads := threads s @ [complete_actions b (blk_opr k) t], started := started s @ [b]\<rparr>)"
| start: "\<lbrakk>(b, p) \<in> set (executing (eng s)); execute_fn c b (eng s) = Inr (e, None)\<rbrakk> \<Longrightarrow>
   estep c s (s\<lparr>eng := take_block (b, p) e, running := running s @ [b], started := started s @ [b]\<rparr>)"
| callback: "\<lbrakk>b \<in> set (running s); blks (eng s) b = Some k; oprs (eng s) (blk_opr k) = Some t\<rbrakk> \<Longrightarrow>
   estep c s (s\<lparr>eng := note_error (blk_opr k) err (eng s),
     threads := threads s @ [complete_actions b (blk_opr k) t], running := remove1 b (running s)\<rparr>)"

inductive reachable :: "client \<Rightarrow> mach \<Rightarrow> bool" for c where
  init: "reachable c mach0"
| step: "reachable c s \<Longrightarrow> estep c s s' \<Longrightarrow> reachable c s'"

section \<open>The view of the engine that scheduling depends on\<close>

definition lockv :: "engine \<Rightarrow> nat \<Rightarrow> ThreadedVar option" where
  "lockv e v = map_option (\<lambda>x. x\<lparr>var_version := 0, var_exception := None\<rparr>) (vars e v)"

definition oprv :: "engine \<Rightarrow> nat \<Rightarrow> ((nat \<times> bool) list \<times> bool \<times> async_fn) option" where
  "oprv e oh = map_option (\<lambda>t. (deps t, temporary t, opr_fn t)) (oprs e oh)"

definition same_core :: "engine \<Rightarrow> engine \<Rightarrow> bool" where
  "same_core e e' \<longleftrightarrow> lockv e' = lockv e \<and> oprv e' = oprv e \<and> blks e' = blks e \<and>
     executing e' = executing e \<and> pending e' = pending e \<and> next_var e' = next_var e \<and>
     next_opr e' = next_opr e \<and> next_blk e' = next_blk e"

definition queue :: "engine \<Rightarrow> nat \<Rightarrow> VersionedVarBlock list" where
  "queue e v = (case lockv e v of None \<Rightarrow> [] | Some x \<Rightarrow> waiting x)"

definition wc :: "engine \<Rightarrow> blk \<Rightarrow> int" where
  "wc e b = (case blks e b of None \<Rightarrow> 0 | Some k \<Rightarrow> wait k)"

definition bdeps :: "engine \<Rightarrow> blk \<Rightarrow> (nat \<times> bool) list" where
  "bdeps e b = (case blks e b of None \<Rightarrow> []
     | Some k \<Rightarrow> (case oprv e (blk_opr k) of None \<Rightarrow> [] | Some (D, _) \<Rightarrow> D))"

definition active :: "engine \<Rightarrow> blk list \<Rightarrow> blk list" where
  "active e R = map fst (executing e) @ R"

text \<open>A block is live until its callback is called.\<close>

definition live :: "engine \<Rightarrow> blk list \<Rightarrow> blk \<Rightarrow> bool" where
  "live e R b \<longleftrightarrow> 0 < wc e b \<or> b \<in> set (active e R)"

definition cnt :: "VersionedVarBlock list \<Rightarrow> blk \<Rightarrow> bool \<Rightarrow> nat" where
  "cnt xs b w = count (mset xs) (dep b w)"

fun is_end :: "blk \<Rightarrow> action \<Rightarrow> bool" where
  "is_end b (OprEnd b' oh tmp) = (b' = b)"
| "is_end b a = False"

section \<open>The invariant\<close>

text \<open>
  \<open>T\<close> is the multiset of the outstanding actions, \<open>R\<close> the running operations and \<open>H v\<close> the
  dependencies that have been granted on \<open>v\<close> and not yet released.
\<close>

definition var_inv :: "engine \<Rightarrow> (nat \<Rightarrow> VersionedVarBlock list) \<Rightarrow> bool" where
  "var_inv e H \<longleftrightarrow> (\<forall>v. case lockv e v of None \<Rightarrow> H v = []
     | Some x \<Rightarrow> var_rel x (H v) \<and> \<not> to_delete x)"

definition obj_inv :: "engine \<Rightarrow> bool" where
  "obj_inv e \<longleftrightarrow>
    (\<forall>oh D tmp f. oprv e oh = Some (D, tmp, f) \<longrightarrow>
       distinct (map fst D) \<and> (\<forall>p\<in>set D. lockv e (fst p) \<noteq> None) \<and> \<not> deletes f) \<and>
    (\<forall>b k. blks e b = Some k \<longrightarrow> oprv e (blk_opr k) \<noteq> None \<and> b < next_blk e \<and> 0 \<le> wait k) \<and>
    (\<forall>b b' k k' D f. blks e b = Some k \<longrightarrow> blks e b' = Some k' \<longrightarrow> blk_opr k = blk_opr k' \<longrightarrow>
       oprv e (blk_opr k) = Some (D, True, f) \<longrightarrow> b = b') \<and>
    (\<forall>v. next_var e \<le> v \<longrightarrow> lockv e v = None) \<and> (\<forall>oh. next_opr e \<le> oh \<longrightarrow> oprv e oh = None) \<and>
    finite (dom (blks e)) \<and> pending e = int (card (dom (blks e)))"

definition dep_inv :: "engine \<Rightarrow> action multiset \<Rightarrow> blk list \<Rightarrow> (nat \<Rightarrow> VersionedVarBlock list) \<Rightarrow> bool" where
  "dep_inv e T R H \<longleftrightarrow>
    (\<forall>b v w. if live e R b
       then count T (Append w v b) + cnt (queue e v) b w + cnt (H v) b w =
              of_bool ((v, w) \<in> set (bdeps e b)) \<and> count T (Complete w v b) = 0
       else count T (Append w v b) = 0 \<and> cnt (queue e v) b w = 0 \<and>
              cnt (H v) b w = count T (Complete w v b))"

definition held :: "engine \<Rightarrow> (nat \<Rightarrow> VersionedVarBlock list) \<Rightarrow> blk \<Rightarrow> nat" where
  "held e H b = (\<Sum>p\<in>set (bdeps e b). cnt (H (fst p)) b (snd p))"

definition wait_inv :: "engine \<Rightarrow> action multiset \<Rightarrow> blk list \<Rightarrow> (nat \<Rightarrow> VersionedVarBlock list) \<Rightarrow> bool" where
  "wait_inv e T R H \<longleftrightarrow>
    (\<forall>b. if live e R b
       then wc e b + int (held e H b) = int (count T (Decr b) + count T (PushEnd b) + length (bdeps e b))
       else count T (Decr b) = 0 \<and> count T (PushEnd b) = 0)"

definition act_inv :: "engine \<Rightarrow> action multiset \<Rightarrow> blk list \<Rightarrow> bool" where
  "act_inv e T R \<longleftrightarrow>
    distinct (active e R) \<and> (\<forall>b\<in>set (active e R). blks e b \<noteq> None \<and> wc e b = 0) \<and>
    (\<forall>b. size (filter_mset (is_end b) T) = of_bool (blks e b \<noteq> None \<and> \<not> live e R b)) \<and>
    (\<forall>b oh tmp. OprEnd b oh tmp \<in># T \<longrightarrow>
       (\<exists>k D f. blks e b = Some k \<and> blk_opr k = oh \<and> oprv e oh = Some (D, tmp, f))) \<and>
    (\<forall>b w v. Complete w v b \<in># T \<longrightarrow> blks e b \<noteq> None) \<and>
    (\<forall>b w v. Append w v b \<in># T \<longrightarrow> PushEnd b \<in># T) \<and>
    (\<forall>b. count T (PushEnd b) \<le> 1)"

definition sched_inv :: "engine \<Rightarrow> action multiset \<Rightarrow> blk list \<Rightarrow> (nat \<Rightarrow> VersionedVarBlock list) \<Rightarrow> bool" where
  "sched_inv e T R H \<longleftrightarrow>
    var_inv e H \<and> obj_inv e \<and> dep_inv e T R H \<and> wait_inv e T R H \<and> act_inv e T R"

definition thread_ok :: "action list \<Rightarrow> bool" where
  "thread_ok th \<longleftrightarrow> th = [] \<or>
    (\<exists>b. last th = PushEnd b \<and> (\<forall>a\<in>set (butlast th). \<exists>w v. a = Append w v b)) \<or>
    (\<exists>b oh tmp. last th = OprEnd b oh tmp \<and>
       (\<forall>a\<in>set (butlast th). (\<exists>b'. a = Decr b') \<or> (\<exists>w v. a = Complete w v b)))"

definition mach_inv :: "mach \<Rightarrow> (nat \<Rightarrow> VersionedVarBlock list) \<Rightarrow> bool" where
  "mach_inv s H \<longleftrightarrow>
    sched_inv (eng s) (mset (concat (threads s))) (running s) H \<and> (\<forall>th\<in>set (threads s). thread_ok th)"

lemma sched_inv_same_core:
  assumes "same_core e e'" and "sched_inv e T R H"
  shows "sched_inv e' T R H"
proof -
  have eqs: "lockv e' = lockv e" "oprv e' = oprv e" "blks e' = blks e" "executing e' = executing e"
    using assms(1) by (simp_all add: same_core_def)
  have "wc e' = wc e" "bdeps e' = bdeps e" "queue e' = queue e" "active e' = active e"
    unfolding fun_eq_iff wc_def bdeps_def queue_def active_def eqs by simp_all
  moreover from this have "live e' = live e" "held e' = held e"
    unfolding fun_eq_iff live_def held_def by simp_all
  ultimately show ?thesis
    using assms unfolding sched_inv_def var_inv_def obj_inv_def dep_inv_def wait_inv_def act_inv_def
      same_core_def by simp
qed

section \<open>Views of updated engines\<close>

abbreviation strip :: "ThreadedVar \<Rightarrow> ThreadedVar" where
  "strip x \<equiv> x\<lparr>var_version := 0, var_exception := None\<rparr>"

lemma strip_views [simp]:
  "var_rel (strip x) H = var_rel x H" "waiting (strip x) = waiting x"
  "to_delete (strip x) = to_delete x"
  by (simp_all add: var_rel_def waiting_def cong: option.case_cong)

lemma lockv_upd [simp]:
  "lockv (e\<lparr>vars := (vars e)(v \<mapsto> x)\<rparr>) = (lockv e)(v \<mapsto> strip x)"
  "lockv (e\<lparr>blks := bs\<rparr>) = lockv e" "lockv (e\<lparr>executing := xs\<rparr>) = lockv e"
  "lockv (e\<lparr>oprs := os\<rparr>) = lockv e" "lockv (e\<lparr>pending := n\<rparr>) = lockv e"
  "lockv (e\<lparr>next_blk := k\<rparr>) = lockv e" "lockv (e\<lparr>next_opr := k\<rparr>) = lockv e" "lockv (e\<lparr>next_var := k\<rparr>) = lockv e"
  by (auto simp: lockv_def)

lemma oprv_upd [simp]:
  "oprv (e\<lparr>vars := vs\<rparr>) = oprv e" "oprv (e\<lparr>blks := bs\<rparr>) = oprv e"
  "oprv (e\<lparr>executing := xs\<rparr>) = oprv e" "oprv (e\<lparr>pending := n\<rparr>) = oprv e"
  "oprv (e\<lparr>next_blk := k\<rparr>) = oprv e" "oprv (e\<lparr>next_opr := k\<rparr>) = oprv e" "oprv (e\<lparr>next_var := k\<rparr>) = oprv e"
  by (auto simp: oprv_def)

lemma bdeps_cong: "oprv e' = oprv e \<Longrightarrow> map_option blk_opr (blks e' b) = map_option blk_opr (blks e b) \<Longrightarrow>
   bdeps e' b = bdeps e b"
  by (cases "blks e b"; cases "blks e' b") (simp_all add: bdeps_def)

lemma queue_upd: "queue (e\<lparr>vars := (vars e)(v \<mapsto> x)\<rparr>) = (queue e)(v := waiting x)"
  by (auto simp: queue_def)

lemma cnt_simps [simp]:
  "cnt [] b w = 0" "cnt (xs @ ys) b w = cnt xs b w + cnt ys b w"
  "cnt [x] b w = of_bool (x = dep b w)"
  by (simp_all add: cnt_def)

lemma cnt_remove1: "cnt (remove1 (dep b w) xs) b' w' =
   (if b' = b \<and> w' = w then cnt xs b' w' - 1 else cnt xs b' w')"
  unfolding cnt_def mset_remove1 count_diff by (cases "b' = b"; cases "w' = w") simp_all

lemma cnt_pos: "0 < cnt xs b w \<longleftrightarrow> dep b w \<in> set xs"
  by (simp add: cnt_def)

section \<open>Wait counters\<close>

lemma sched_invD:
  assumes "sched_inv e T R H"
  shows "var_inv e H" "obj_inv e" "dep_inv e T R H" "wait_inv e T R H" "act_inv e T R"
  using assms by (simp_all add: sched_inv_def)

lemma live_blk:
  assumes "sched_inv e T R H" and "live e R b"
  obtains k D tmp f where "blks e b = Some k" and "oprv e (blk_opr k) = Some (D, tmp, f)"
    and "bdeps e b = D" and "distinct (map fst D)" and "\<forall>p\<in>set D. lockv e (fst p) \<noteq> None"
    and "wc e b = wait k" and "0 \<le> wait k"
proof -
  have "blks e b \<noteq> None"
    using assms(2) sched_invD(5) [OF assms(1)]
    by (cases "blks e b") (auto simp: live_def wc_def act_inv_def)
  then obtain k where k: "blks e b = Some k" by auto
  with sched_invD(2) [OF assms(1)] obtain D tmp f where "oprv e (blk_opr k) = Some (D, tmp, f)"
    unfolding obj_inv_def by (metis not_None_eq prod_cases3)
  with k sched_invD(2) [OF assms(1)] show ?thesis
    by (intro that [of k D tmp f]) (auto simp: obj_inv_def bdeps_def wc_def)
qed

lemma live_cnt:
  assumes "sched_inv e T R H" and "live e R b"
  shows "count T (Append w v b) + cnt (queue e v) b w + cnt (H v) b w = of_bool ((v, w) \<in> set (bdeps e b))"
    and "count T (Complete w v b) = 0"
  using sched_invD(3) [OF assms(1)] assms(2) unfolding dep_inv_def by presburger+

lemma finished_cnt:
  assumes "sched_inv e T R H" and "\<not> live e R b"
  shows "count T (Append w v b) = 0" and "cnt (queue e v) b w = 0"
    and "cnt (H v) b w = count T (Complete w v b)"
    and "count T (Decr b) = 0" and "count T (PushEnd b) = 0"
  using sched_invD(3,4) [OF assms(1)] assms(2) unfolding dep_inv_def wait_inv_def by presburger+

lemma held_le:
  assumes inv: "sched_inv e T R H" and "live e R b"
  shows "held e H b \<le> length (bdeps e b)"
    and "held e H b = length (bdeps e b) \<longleftrightarrow> (\<forall>(v, w)\<in>set (bdeps e b). cnt (H v) b w = 1)"
proof -
  obtain k D tmp f where D: "bdeps e b = D" "distinct (map fst D)" by (rule live_blk [OF assms])
  then have card: "card (set D) = length D" by (simp add: distinct_card distinct_map)
  have le: "cnt (H (fst p)) b (snd p) \<le> 1" if "p \<in> set D" for p
    using live_cnt [OF assms, of "snd p" "fst p"] D that by simp
  have "held e H b \<le> (\<Sum>p\<in>set D. 1)" unfolding held_def D by (rule sum_mono) (rule le)
  then show "held e H b \<le> length (bdeps e b)" using card D by simp
  have "(\<Sum>p\<in>set D. 1 - cnt (H (fst p)) b (snd p)) = card (set D) - held e H b"
    unfolding held_def D by (subst sum_subtractf_nat) (use le in auto)
  moreover have "held e H b \<le> card (set D)" using \<open>held e H b \<le> (\<Sum>p\<in>set D. 1)\<close> by simp
  ultimately have "held e H b = card (set D) \<longleftrightarrow> (\<Sum>p\<in>set D. 1 - cnt (H (fst p)) b (snd p)) = 0"
    by linarith
  also have "\<dots> \<longleftrightarrow> (\<forall>p\<in>set D. cnt (H (fst p)) b (snd p) = 1)"
    using le by (auto simp: le_antisym)
  finally show "held e H b = length (bdeps e b) \<longleftrightarrow> (\<forall>(v, w)\<in>set (bdeps e b). cnt (H v) b w = 1)"
    using card D by (simp add: case_prod_beta)
qed

lemma wc_tokens:
  assumes inv: "sched_inv e T R H" and "live e R b"
  shows "int (count T (Decr b) + count T (PushEnd b)) \<le> wc e b"
    and "(v, w) \<in> set (bdeps e b) \<Longrightarrow> cnt (H v) b w = 0 \<Longrightarrow>
      int (count T (Decr b) + count T (PushEnd b)) < wc e b"
proof -
  have eq: "wc e b + int (held e H b) = int (count T (Decr b) + count T (PushEnd b) + length (bdeps e b))"
    using sched_invD(4) [OF inv] assms(2) by (simp add: wait_inv_def)
  with held_le(1) [OF assms] show "int (count T (Decr b) + count T (PushEnd b)) \<le> wc e b" by linarith
  assume "(v, w) \<in> set (bdeps e b)" "cnt (H v) b w = 0"
  then have "held e H b \<noteq> length (bdeps e b)" using held_le(2) [OF assms] by force
  with eq held_le(1) [OF assms] show "int (count T (Decr b) + count T (PushEnd b)) < wc e b" by linarith
qed

section \<open>Atomic actions keep the invariant\<close>

lemma count_remove: "count (T - {#a#}) x = (if x = a then count T a - 1 else count T x)"
  by simp

lemma count_Decr:
  "count (mset (map Decr bs)) (Decr c) = count (mset bs) c"
  "count (mset (map Decr bs)) (Append w v c) = 0" "count (mset (map Decr bs)) (Complete w v c) = 0"
  "count (mset (map Decr bs)) (PushEnd c) = 0" "filter_mset (is_end c) (mset (map Decr bs)) = {#}"
  by (induction bs) simp_all

lemma var_inv_upd:
  assumes "var_inv e H" and "lockv e' = (lockv e)(v \<mapsto> x)" and "var_rel x h" and "\<not> to_delete x"
  shows "var_inv e' (H(v := h))"
  unfolding var_inv_def
proof
  fix u
  show "case lockv e' u of None \<Rightarrow> (H(v := h)) u = [] | Some x \<Rightarrow> var_rel x ((H(v := h)) u) \<and> \<not> to_delete x"
    using assms assms(1) [unfolded var_inv_def, rule_format, of u]
    by (cases "u = v"; cases "lockv e u") simp_all
qed

lemma obj_inv_cong:
  assumes inv: "obj_inv e" and "\<And>v. lockv e' v = None \<longleftrightarrow> lockv e v = None" and "oprv e' = oprv e"
    and opr: "\<And>b. map_option blk_opr (blks e' b) = map_option blk_opr (blks e b)"
    and "\<And>b k. blks e' b = Some k \<Longrightarrow> 0 \<le> wait k" and "next_var e' = next_var e"
    and "next_opr e' = next_opr e" and "next_blk e' = next_blk e" and "pending e' = pending e"
  shows "obj_inv e'"
proof -
  have none: "blks e' b = None \<longleftrightarrow> blks e b = None" for b
    using opr [of b] by (metis option.map_disc_iff)
  then have "dom (blks e') = dom (blks e)" by (simp add: dom_def)
  moreover have same: "\<exists>k'. blks e b = Some k' \<and> blk_opr k' = blk_opr k" if "blks e' b = Some k" for b k
    using opr [of b] that by (cases "blks e b") simp_all
  moreover have "oprv e (blk_opr k) \<noteq> None \<and> b < next_blk e" if "blks e' b = Some k" for b k
    using same [OF that] inv unfolding obj_inv_def by metis
  moreover have "b = b'" if "blks e' b = Some k" "blks e' b' = Some k'" "blk_opr k = blk_opr k'"
    "oprv e (blk_opr k) = Some (D, True, f)" for b b' k k' D f
    using same [OF that(1)] same [OF that(2)] that(3,4) inv unfolding obj_inv_def by metis
  ultimately show ?thesis using inv assms(2-) unfolding obj_inv_def by simp
qed

lemma act_inv_cong:
  assumes inv: "act_inv e T R" and "distinct (active e' R)"
    and "\<And>b. b \<in> set (active e' R) \<Longrightarrow> blks e' b \<noteq> None \<and> wc e' b = 0"
    and live: "\<And>b. live e' R b = live e R b" and oprv: "oprv e' = oprv e"
    and opr: "\<And>b. map_option blk_opr (blks e' b) = map_option blk_opr (blks e b)"
    and ends: "\<And>b. filter_mset (is_end b) T' = filter_mset (is_end b) T"
    and comp: "\<And>w v b. Complete w v b \<in># T' \<Longrightarrow> Complete w v b \<in># T"
    and "\<And>w v b. Append w v b \<in># T' \<Longrightarrow> PushEnd b \<in># T'" and "\<And>b. count T' (PushEnd b) \<le> 1"
  shows "act_inv e' T' R"
proof -
  have none: "blks e' b = None \<longleftrightarrow> blks e b = None" for b
    using opr [of b] by (metis option.map_disc_iff)
  have "OprEnd b oh tmp \<in># T" if "OprEnd b oh tmp \<in># T'" for b oh tmp
    using that ends [of b] by (metis is_end.simps(1) set_mset_filter mem_Collect_eq)
  moreover have "\<exists>k'. blks e' b = Some k' \<and> blk_opr k' = blk_opr k" if "blks e b = Some k" for b k
    using opr [of b] that by (cases "blks e' b") simp_all
  ultimately have "\<exists>k D f. blks e' b = Some k \<and> blk_opr k = oh \<and> oprv e' oh = Some (D, tmp, f)"
    if "OprEnd b oh tmp \<in># T'" for b oh tmp
    using that inv unfolding act_inv_def oprv by metis
  moreover have "blks e' b \<noteq> None" if "Complete w v b \<in># T'" for w v b
    using comp [OF that] inv none [of b] unfolding act_inv_def by metis
  moreover have "size (filter_mset (is_end b) T') = of_bool (blks e' b \<noteq> None \<and> \<not> live e' R b)" for b
    using inv unfolding act_inv_def ends live none by blast
  ultimately show ?thesis using assms(2,3,9,10) unfolding act_inv_def by blast
qed

lemma decr_dispatch_inv:
  assumes inv: "sched_inv e T R H" and T: "a \<in># T"
    and a: "a = Decr b \<or> a = PushEnd b \<and> (\<forall>w v. Append w v b \<notin># T)"
  obtains e' where "decr_dispatch p b e = Inr e'" and "sched_inv e' (T - {#a#}) R H"
    and "lockv e' = lockv e" and "oprv e' = oprv e" and "next_blk e' = next_blk e"
    and "live e' = live e" and "bdeps e' = bdeps e"
    and "live e R b" and "0 < wc e b" and "wc e' = (wc e)(b := wc e b - 1)"
proof -
  have cntT: "0 < count T (Decr b) + count T (PushEnd b)"
    using a T by (auto simp: count_greater_zero_iff [symmetric] simp del: count_greater_zero_iff)
  have live: "live e R b"
  proof (rule ccontr)
    assume "\<not> live e R b"
    from finished_cnt(4,5) [OF inv this] cntT show False by simp
  qed
  obtain k D tmp f where k: "blks e b = Some k" "wc e b = wait k" by (rule live_blk [OF inv live])
  have pos: "1 \<le> wait k" using wc_tokens(1) [OF inv live] cntT k(2) by linarith
  define e1 where "e1 = e\<lparr>blks := (blks e)(b \<mapsto> k\<lparr>wait := wait k - 1\<rparr>)\<rparr>"
  define e' where "e' = (if wait k = 1 then PushToExecute b p e1 else e1)"
  have run: "decr_dispatch p b e = Inr e'"
    using k pos by (simp add: decr_dispatch_def decr_wait_def the_blk_def e'_def e1_def Let_def)
  have fields: "blks e' = (blks e)(b \<mapsto> k\<lparr>wait := wait k - 1\<rparr>)" "lockv e' = lockv e" "oprv e' = oprv e"
    "next_blk e' = next_blk e" "next_opr e' = next_opr e" "next_var e' = next_var e" "pending e' = pending e"
    "executing e' = executing e @ (if wait k = 1 then [(b, p)] else [])"
    by (simp_all add: e'_def e1_def PushToExecute_def)
  have wc: "wc e' c = (if c = b then wc e b - 1 else wc e c)" for c
    using k by (simp add: wc_def fields)
  have deps: "bdeps e' = bdeps e"
    by (rule ext, rule bdeps_cong) (use k in \<open>simp_all add: fields\<close>)
  have queue: "queue e' = queue e" by (rule ext) (simp add: queue_def fields)
  have fresh: "b \<notin> set (active e R)"
    using sched_invD(5) [OF inv] pos k by (auto simp: act_inv_def)
  have live_eq: "live e' R' c = live e R' c" for R' c
    using pos k(2) by (auto simp: live_def wc active_def fields)
  have held: "held e' H = held e H" by (rule ext) (simp add: held_def deps)
  have cnt: "count (T - {#a#}) (Append w v c) = count T (Append w v c)"
    "count (T - {#a#}) (Complete w v c) = count T (Complete w v c)" for w v c
    using a by auto
  have "var_inv e' H" using sched_invD(1) [OF inv] by (simp add: var_inv_def fields)
  moreover have "obj_inv e'"
    by (rule obj_inv_cong [OF sched_invD(2) [OF inv]])
      (use k pos sched_invD(2) [OF inv] in \<open>auto simp: fields obj_inv_def split: if_splits\<close>)
  moreover have "dep_inv e' (T - {#a#}) R H"
    using sched_invD(3) [OF inv] unfolding dep_inv_def live_eq queue deps cnt .
  moreover have "wait_inv e' (T - {#a#}) R H"
    unfolding wait_inv_def live_eq deps held wc
  proof (intro allI)
    fix c
    have "count (T - {#a#}) (Decr c) + count (T - {#a#}) (PushEnd c) =
        count T (Decr c) + count T (PushEnd c) - (if c = b then 1 else 0)"
      using a T by (cases "c = b") (auto simp: Suc_le_eq)
    moreover have "c = b \<Longrightarrow> 1 \<le> count T (Decr c) + count T (PushEnd c)" using Suc_leI [OF cntT] by simp
    ultimately have "int (count (T - {#a#}) (Decr c) + count (T - {#a#}) (PushEnd c)) =
        int (count T (Decr c) + count T (PushEnd c)) - (if c = b then 1 else 0)"
      by (simp add: of_nat_diff)
    moreover have "count (T - {#a#}) (Decr c) \<le> count T (Decr c)"
      "count (T - {#a#}) (PushEnd c) \<le> count T (PushEnd c)" by simp_all
    ultimately show "if live e R c
      then (if c = b then wc e b - 1 else wc e c) + int (held e H c) =
        int (count (T - {#a#}) (Decr c) + count (T - {#a#}) (PushEnd c) + length (bdeps e c))
      else count (T - {#a#}) (Decr c) = 0 \<and> count (T - {#a#}) (PushEnd c) = 0"
      using sched_invD(4) [OF inv, unfolded wait_inv_def, rule_format, of c] live
      by (cases "live e R c"; cases "c = b") simp_all
  qed
  moreover have "act_inv e' (T - {#a#}) R"
  proof -
    have "is_end c a = False" for c using a by auto
    then have ends: "filter_mset (is_end c) (T - {#a#}) = filter_mset (is_end c) T" for c
      by (simp add: filter_diff_mset)
    have A: "distinct (active e R)" "\<forall>c\<in>set (active e R). blks e c \<noteq> None \<and> wc e c = 0"
      "\<And>w v c. Append w v c \<in># T \<Longrightarrow> PushEnd c \<in># T" "\<And>c. count T (PushEnd c) \<le> 1"
      using sched_invD(5) [OF inv] unfolding act_inv_def by blast+
    show ?thesis
    proof (rule act_inv_cong [OF sched_invD(5) [OF inv]])
      show "filter_mset (is_end c) (T - {#a#}) = filter_mset (is_end c) T" for c by (rule ends)
      show "PushEnd c \<in># T - {#a#}" if "Append w v c \<in># T - {#a#}" for w v c
        using A(3) [OF in_diffD [OF that]] a in_diffD [OF that] by (auto simp: in_diff_count)
      show "count (T - {#a#}) (PushEnd c) \<le> 1" for c
        using A(4) [of c] by (meson diff_subset_eq_self mset_subset_eq_count order_trans)
    qed (use A(1,2) fresh k pos in \<open>auto simp: live_eq fields active_def wc dest: in_diffD\<close>)
  qed
  ultimately have "sched_inv e' (T - {#a#}) R H" by (simp add: sched_inv_def)
  moreover have "live e' = live e" by (intro ext) (rule live_eq)
  moreover have "wc e' = (wc e)(b := wc e b - 1)" by (rule ext) (simp add: wc)
  ultimately show ?thesis using run fields deps live pos k by (intro that [of e']) auto
qed
lemma append_inv:
  assumes inv: "sched_inv e T R H" and T: "Append w v b \<in># T"
  obtains e' H' where "act (Append w v b) e = Inr (e', [])" and "sched_inv e' (T - {#Append w v b#}) R H'"
    and "queue e v = [] \<and> H' = H(v := H v @ [dep b w]) \<and> queue e' = queue e \<or>
         H' = H \<and> queue e' = (queue e)(v := queue e v @ [dep b w])"
    and "oprv e' = oprv e" and "next_blk e' = next_blk e"
    and "live e' = live e" and "bdeps e' = bdeps e"
    and "\<forall>c. wc e' c \<le> wc e c"
proof -
  have live: "live e R b" using finished_cnt(1) [OF inv] T by (metis count_eq_zero_iff)
  note L = live_cnt(1) [OF inv live, of w v]
  have in_deps: "(v, w) \<in> set (bdeps e b)" and one: "count T (Append w v b) = 1"
    and H0: "cnt (H v) b w = 0" and Q0: "cnt (queue e v) b w = 0"
    using L T by (auto simp: of_bool_def count_greater_zero_iff [symmetric] simp del: count_greater_zero_iff split: if_splits)
  obtain k D tmp f where k: "blks e b = Some k" "bdeps e b = D" "\<forall>p\<in>set D. lockv e (fst p) \<noteq> None"
    "distinct (map fst D)" "wc e b = wait k"
    by (rule live_blk [OF inv live])
  obtain x where x: "vars e v = Some x" using k in_deps by (force simp: lockv_def)
  have rel: "var_rel x (H v)" "\<not> to_delete x"
    using sched_invD(1) [OF inv, unfolded var_inv_def, rule_format, of v] x by (simp_all add: lockv_def)
  have wq: "waiting x = queue e v" using x by (simp add: queue_def lockv_def)
  obtain x' g where app: "AppendDependency w b x = Inr (x', g)"
    and g: "g = (waiting x = [] \<and> compatible (H v) (dep b w))"
    and acq: "rw_acquire (dep b w) (H v, waiting x) = (if g then H v @ [dep b w] else H v, waiting x')"
    and rel': "var_rel x' (if g then H v @ [dep b w] else H v)" and del': "to_delete x' = to_delete x"
    by (rule AppendDependency_refines [OF rel(1)])
  have wx': "waiting x' = (if g then [] else waiting x @ [dep b w])" using acq g by (auto split: if_splits)
  have pe: "PushEnd b \<in># T" using sched_invD(5) [OF inv] T unfolding act_inv_def by blast
  then have "0 < count T (PushEnd b)" by simp
  then have pos: "2 \<le> wait k" using wc_tokens(2) [OF inv live in_deps H0] k by linarith
  define e' where "e' = e\<lparr>vars := (vars e)(v \<mapsto> x'),
     blks := (if g then (blks e)(b \<mapsto> k\<lparr>wait := wait k - 1\<rparr>) else blks e)\<rparr>"
  define H' where "H' = (if g then H(v := H v @ [dep b w]) else H)"
  have run: "act (Append w v b) e = Inr (e', [])"
    using x app k pos by (simp add: the_var_def decr_wait_def the_blk_def e'_def Let_def)
  have fields: "lockv e' = (lockv e)(v \<mapsto> strip x')" "oprv e' = oprv e" "next_blk e' = next_blk e"
    "next_opr e' = next_opr e" "next_var e' = next_var e" "pending e' = pending e" "executing e' = executing e"
    "blks e' = (if g then (blks e)(b \<mapsto> k\<lparr>wait := wait k - 1\<rparr>) else blks e)"
    by (simp_all add: e'_def lockv_def oprv_def fun_eq_iff)
  have wc: "wc e' c = (if g \<and> c = b then wc e b - 1 else wc e c)" for c
    using k by (simp add: wc_def fields)
  have deps: "bdeps e' = bdeps e"
    by (rule ext, rule bdeps_cong) (use k in \<open>simp_all add: fields\<close>)
  have queue: "queue e' = (queue e)(v := if g then [] else queue e v @ [dep b w])"
    by (rule ext) (use wx' wq in \<open>simp add: queue_def fields\<close>)
  have live_eq: "live e' R' c = live e R' c" for R' c
    using pos k by (auto simp: live_def wc active_def fields)
  let ?T = "T - {#Append w v b#}"
  let ?d = "\<lambda>v' c w'. w' = w \<and> v' = v \<and> c = b"
  have cntT: "count ?T (Append w' v' c) = (if ?d v' c w' then 0 else count T (Append w' v' c))"
    "count ?T (Complete w' v' c) = count T (Complete w' v' c)"
    "count ?T (Decr c) = count T (Decr c)" "count ?T (PushEnd c) = count T (PushEnd c)" for w' v' c
    by (simp_all only: count_remove action.inject action.distinct if_False one diff_self_eq_0)
  have cntH: "cnt (H' v') c w' = (if ?d v' c w' \<and> g then 1 else cnt (H v') c w')" for v' c w'
    using H0 by (auto simp: H'_def)
  have cntQ: "cnt (queue e' v') c w' = (if ?d v' c w' \<and> \<not> g then 1 else cnt (queue e v') c w')" for v' c w'
    using g wq Q0 by (auto simp: queue)
  have var: "var_inv e' H'"
    using var_inv_upd [OF sched_invD(1) [OF inv] fields(1), of "H' v"] rel' rel(2) del'
    by (cases g) (simp_all add: H'_def)
  have obj: "obj_inv e'"
    by (rule obj_inv_cong [OF sched_invD(2) [OF inv]])
      (use k pos x sched_invD(2) [OF inv] in \<open>auto simp: fields lockv_def obj_inv_def split: if_splits\<close>)
  have dep: "dep_inv e' ?T R H'"
    unfolding dep_inv_def live_eq deps
  proof (intro allI)
    fix c v' w'
    show "if live e R c
      then count ?T (Append w' v' c) + cnt (queue e' v') c w' + cnt (H' v') c w' =
        of_bool ((v', w') \<in> set (bdeps e c)) \<and> count ?T (Complete w' v' c) = 0
      else count ?T (Append w' v' c) = 0 \<and> cnt (queue e' v') c w' = 0 \<and>
        cnt (H' v') c w' = count ?T (Complete w' v' c)"
    proof (cases "?d v' c w'")
      case True
      with live live_cnt(2) [OF inv live, of w v] in_deps H0 Q0 show ?thesis
        by (cases g) (simp_all add: cntT cntH cntQ one)
    next
      case False
      then show ?thesis
        using sched_invD(3) [OF inv, unfolded dep_inv_def, rule_format, of c w' v']
        unfolding cntT cntH cntQ by (simp only: if_False simp_thms)
    qed
  qed
  have wait: "wait_inv e' ?T R H'"
  proof -
    have "held e' H' c = held e H c + (if g \<and> c = b then 1 else 0)" for c
    proof (cases "g \<and> c = b")
      case True
      have "cnt (H' (fst p)) b (snd p) = cnt (H (fst p)) b (snd p) + (if p = (v, w) then 1 else 0)" for p
        using True H0 by (cases p) (auto simp: cntH)
      then have "held e' H' b = (\<Sum>p\<in>set D. cnt (H (fst p)) b (snd p)) + (\<Sum>p\<in>set D. if p = (v, w) then 1 else 0)"
        using k(2) by (simp add: held_def deps sum.distrib)
      also have "(\<Sum>p\<in>set D. if p = (v, w) then 1 else 0) = (1 :: nat)"
        using in_deps k(2) by simp
      finally show ?thesis using True k(2) by (simp add: held_def)
    next
      case False
      then have "cnt (H' v') c w' = cnt (H v') c w'" for v' w' using cntH by auto
      with False show ?thesis by (simp add: held_def deps)
    qed
    then show ?thesis using sched_invD(4) [OF inv] live unfolding wait_inv_def live_eq deps wc cntT by auto
  qed
  have act: "act_inv e' ?T R"
  proof -
    have ends: "filter_mset (is_end c) ?T = filter_mset (is_end c) T" for c by (simp add: filter_diff_mset)
    have A: "distinct (active e R)" "\<forall>c\<in>set (active e R). blks e c \<noteq> None \<and> wc e c = 0"
      "\<And>w v c. Append w v c \<in># T \<Longrightarrow> PushEnd c \<in># T" "\<And>c. count T (PushEnd c) \<le> 1"
      using sched_invD(5) [OF inv] unfolding act_inv_def by blast+
    have not_active: "b \<notin> set (active e R)" using A(2) pos k by auto
    show ?thesis
    proof (rule act_inv_cong [OF sched_invD(5) [OF inv]])
      show "filter_mset (is_end c) ?T = filter_mset (is_end c) T" for c by (rule ends)
      show "PushEnd c \<in># ?T" if "Append w' v' c \<in># ?T" for w' v' c
        using A(3) [OF in_diffD [OF that]] by (simp add: in_diff_count)
    qed (use A(1,2,4) k pos not_active in \<open>auto simp: live_eq fields active_def wc dest: in_diffD\<close>)
  qed
  have "sched_inv e' ?T R H'" using var obj dep wait act by (simp add: sched_inv_def)
  moreover have "live e' = live e" by (intro ext) (rule live_eq)
  ultimately show ?thesis
    by (intro that [OF run, of H']) (use g wq in \<open>auto simp: fields deps queue H'_def fun_upd_idem wc\<close>)
qed
text \<open>What the blocks granted by a release add, for one block: a distinct list of dependencies has one entry per variable.\<close>

lemma granted_sum:
  assumes "\<And>w. 0 < cnt G c w \<Longrightarrow> (v, w) \<in> S" and "finite S"
  shows "(\<Sum>p\<in>S. if fst p = v then cnt G c (snd p) else 0) = count (mset (map trigger G)) c"
proof -
  have "(v, w) \<notin> S \<Longrightarrow> cnt G c w = 0" for w using assms(1) by blast
  then have "(\<Sum>p\<in>S. if fst p = v then cnt G c (snd p) else 0) = (\<Sum>p\<in>{(v, True), (v, False)}. cnt G c (snd p))"
    using assms by (intro sum.mono_neutral_cong) auto
  also have "\<dots> = cnt G c True + cnt G c False" by simp
  also have "\<dots> = count (mset (map trigger G)) c"
  proof (induction G)
    case (Cons x G)
    have "cnt (x # G) c w = cnt G c w + (if x = dep c w then 1 else 0)" for w by (simp add: cnt_def)
    moreover have "x = dep (trigger x) (is_write x)" by simp
    ultimately show ?case using Cons.IH by (cases "is_write x") (auto simp: VersionedVarBlock.equality)
  qed simp
  finally show ?thesis .
qed

lemma release_inv:
  assumes inv: "sched_inv e T R H" and T: "Complete w v b \<in># T"
    and x: "lockv e v = Some x" and rel: "var_rel x' (remove1 (dep b w) (H v) @ G)"
    and del: "\<not> to_delete x'" and G: "queue e v = G @ waiting x'"
    and lockv: "lockv e' = (lockv e)(v \<mapsto> x')"
    and fields: "oprv e' = oprv e" "blks e' = blks e" "executing e' = executing e"
      "next_blk e' = next_blk e" "next_opr e' = next_opr e" "next_var e' = next_var e" "pending e' = pending e"
  shows "sched_inv e' (T - {#Complete w v b#} + mset (map Decr (map trigger G))) R
    (H(v := remove1 (dep b w) (H v) @ G))"
proof -
  define T' where "T' = T - {#Complete w v b#} + mset (map Decr (map trigger G))"
  define H' where "H' = H(v := remove1 (dep b w) (H v) @ G)"
  have dead: "\<not> live e R b" using live_cnt(2) [OF inv] T by (metis count_eq_zero_iff)
  have Hb: "cnt (H v) b w = count T (Complete w v b)" by (rule finished_cnt(3) [OF inv dead])
  have deps: "bdeps e' = bdeps e" by (rule ext, rule bdeps_cong) (simp_all add: fields)
  have wc: "wc e' = wc e" by (rule ext) (simp add: wc_def fields)
  have live_eq: "live e' R' c = live e R' c" for R' c by (simp add: live_def wc active_def fields)
  have queue: "queue e' = (queue e)(v := waiting x')" by (rule ext) (simp add: queue_def lockv)
  let ?d = "\<lambda>v' c w'. w' = w \<and> v' = v \<and> c = b"
  have cntT: "count T' (Append w' v' c) = count T (Append w' v' c)"
    "count T' (Complete w' v' c) = (if ?d v' c w' then count T (Complete w v b) - 1 else count T (Complete w' v' c))"
    "count T' (Decr c) = count T (Decr c) + count (mset (map trigger G)) c"
    "count T' (PushEnd c) = count T (PushEnd c)" for w' v' c
    unfolding T'_def count_union count_Decr
    by (simp_all only: count_remove action.inject action.distinct if_False add_0_right)
  have granted: "cnt G c w' \<le> cnt (queue e v) c w'" for c w' by (simp add: G)
  have not_b: "cnt G b w' = 0" for w' using granted [of b w'] finished_cnt(2) [OF inv dead, of v w'] by simp
  have cntH: "cnt (H' v') c w' = (if ?d v' c w' then cnt (H v) b w - 1
     else cnt (H v') c w' + (if v' = v then cnt G c w' else 0))" for v' c w'
    by (cases "v' = v") (auto simp: H'_def cnt_remove1 not_b)
  have cntQ: "cnt (queue e v') c w' = cnt (queue e' v') c w' + (if v' = v then cnt G c w' else 0)" for v' c w'
    by (simp add: queue G)
  have var: "var_inv e' H'" unfolding H'_def by (rule var_inv_upd [OF sched_invD(1) [OF inv] lockv rel del])
  have obj: "obj_inv e'"
    by (rule obj_inv_cong [OF sched_invD(2) [OF inv]])
      (use x sched_invD(2) [OF inv] in \<open>auto simp: fields lockv obj_inv_def\<close>)
  have dep: "dep_inv e' T' R H'"
    unfolding dep_inv_def live_eq deps
  proof (intro allI)
    fix c v' w'
    show "if live e R c
      then count T' (Append w' v' c) + cnt (queue e' v') c w' + cnt (H' v') c w' =
        of_bool ((v', w') \<in> set (bdeps e c)) \<and> count T' (Complete w' v' c) = 0
      else count T' (Append w' v' c) = 0 \<and> cnt (queue e' v') c w' = 0 \<and>
        cnt (H' v') c w' = count T' (Complete w' v' c)"
    proof (cases "live e R c")
      case True
      then have "c \<noteq> b" using dead by auto
      then show ?thesis using True live_cnt [OF inv True, of w' v'] cntQ [of v' c w']
        by (simp add: cntT cntH)
    next
      case False
      note z = finished_cnt(1) [OF inv False, of w' v'] finished_cnt(2) [OF inv False, of v' w']
        finished_cnt(3) [OF inv False, of v' w']
      have g0: "(if v' = v then cnt G c w' else 0) = 0" and q0: "cnt (queue e' v') c w' = 0"
        using cntQ [of v' c w'] z(2) by simp_all
      show ?thesis using False z Hb q0 unfolding cntT cntH g0 by (simp only: if_False add_0_right simp_thms)
    qed
  qed
  have wait: "wait_inv e' T' R H'"
    unfolding wait_inv_def live_eq deps wc
  proof (intro allI)
    fix c
    show "if live e R c
      then wc e c + int (held e' H' c) = int (count T' (Decr c) + count T' (PushEnd c) + length (bdeps e c))
      else count T' (Decr c) = 0 \<and> count T' (PushEnd c) = 0"
    proof (cases "live e R c")
      case True
      then have c: "c \<noteq> b" using dead by auto
      have in_deps: "(v, w') \<in> set (bdeps e c)" if "0 < cnt G c w'" for w'
        using live_cnt(1) [OF inv True, of w' v] granted [of c w'] that by (auto simp: of_bool_def split: if_splits)
      have "held e' H' c = (\<Sum>p\<in>set (bdeps e c). cnt (H (fst p)) c (snd p) + (if fst p = v then cnt G c (snd p) else 0))"
        unfolding held_def deps by (rule sum.cong) (use c in \<open>simp_all add: cntH\<close>)
      also have "\<dots> = held e H c + count (mset (map trigger G)) c"
        using granted_sum [of G c v "set (bdeps e c)"] in_deps by (simp add: held_def sum.distrib)
      finally show ?thesis
        using True sched_invD(4) [OF inv, unfolded wait_inv_def, rule_format, of c] by (simp add: cntT)
    next
      case False
      have "cnt G c w' = 0" for w' using granted [of c w'] finished_cnt(2) [OF inv False, of v w'] by simp
      then have "count (mset (map trigger G)) c = 0" using granted_sum [of G c v "{}"] by simp
      with False finished_cnt(4,5) [OF inv False] show ?thesis by (simp add: cntT)
    qed
  qed
  have act: "act_inv e' T' R"
  proof -
    have ends: "filter_mset (is_end c) T' = filter_mset (is_end c) T" for c
      by (simp add: T'_def filter_diff_mset count_Decr del: mset_map map_map)
    have A: "distinct (active e R)" "\<forall>c\<in>set (active e R). blks e c \<noteq> None \<and> wc e c = 0"
      "\<And>w v c. Append w v c \<in># T \<Longrightarrow> PushEnd c \<in># T" "\<And>c. count T (PushEnd c) \<le> 1"
      using sched_invD(5) [OF inv] unfolding act_inv_def by blast+
    show ?thesis
    proof (rule act_inv_cong [OF sched_invD(5) [OF inv]])
      show "filter_mset (is_end c) T' = filter_mset (is_end c) T" for c by (rule ends)
      show "PushEnd c \<in># T'" if "Append w' v' c \<in># T'" for w' v' c
      proof -
        have "Append w' v' c \<in># T" using that cntT(1) [of w' v' c] by (metis count_eq_zero_iff)
        from A(3) [OF this] show ?thesis using cntT(4) [of c] by (metis count_eq_zero_iff)
      qed
      show "Complete w' v' c \<in># T" if "Complete w' v' c \<in># T'" for w' v' c
        using that unfolding T'_def by (auto dest: in_diffD)
      show "count T' (PushEnd c) \<le> 1" for c using A(4) [of c] by (simp only: cntT)
    qed (use A(1,2) in \<open>auto simp: live_eq fields active_def wc\<close>)
  qed
  have "sched_inv e' T' R H'" using var obj dep wait act by (simp add: sched_inv_def)
  then show ?thesis by (simp only: T'_def H'_def)
qed

lemma same_core_views:
  assumes "same_core e e'"
  shows "queue e' = queue e" and "bdeps e' = bdeps e" and "live e' R = live e R" and "wc e' = wc e"
    and "oprv e' = oprv e" and "lockv e' = lockv e" and "next_blk e' = next_blk e" and "active e' R = active e R"
    and "blks e' = blks e" and "executing e' = executing e"
proof -
  have eqs: "lockv e' = lockv e" "oprv e' = oprv e" "blks e' = blks e" "executing e' = executing e"
    using assms by (simp_all add: same_core_def)
  show "queue e' = queue e" "bdeps e' = bdeps e" "wc e' = wc e" "active e' R = active e R"
    unfolding fun_eq_iff wc_def bdeps_def queue_def active_def eqs by simp_all
  then show "live e' R = live e R" unfolding fun_eq_iff live_def by simp
  show "oprv e' = oprv e" "lockv e' = lockv e" "next_blk e' = next_blk e" "blks e' = blks e"
    "executing e' = executing e"
    using assms by (simp_all add: same_core_def)
qed

lemma same_core_refl [simp]: "same_core e e"
  by (simp add: same_core_def)

lemma same_core_trans: "same_core e e' \<Longrightarrow> same_core e' e'' \<Longrightarrow> same_core e e''"
  by (simp add: same_core_def)

lemma AddToGlobalExceptions_core [simp]: "same_core e (AddToGlobalExceptions r e)"
  by (auto simp: AddToGlobalExceptions_def same_core_def lockv_def oprv_def split: option.split)

lemma mark_exception_core:
  assumes "oprs e oh = Some t" and "vars e v = Some x"
  obtains e' where "mark_exception oh v e = Inr e'" and "same_core e e'"
proof -
  let ?e = "e\<lparr>vars := (vars e)(v \<mapsto> x\<lparr>var_exception := opr_exception t\<rparr>)\<rparr>"
  have "same_core e ?e" using assms(2) by (auto simp: same_core_def lockv_def fun_eq_iff oprv_def)
  with same_core_trans [OF this AddToGlobalExceptions_core] show ?thesis
    using that assms
    by (cases "live_exc e (opr_exception t)") (auto simp: mark_exception_def the_opr_def the_var_def)
qed

lemma complete_inv:
  assumes inv: "sched_inv e T R H" and T: "Complete w v b \<in># T"
  obtains e' G where "act (Complete w v b) e = Inr (e', map trigger G)"
    and "sched_inv e' (T - {#Complete w v b#} + mset (map Decr (map trigger G))) R
      (H(v := remove1 (dep b w) (H v) @ G))"
    and "queue e v = G @ queue e' v" and "\<forall>u. u \<noteq> v \<longrightarrow> queue e' u = queue e u"
    and "oprv e' = oprv e" and "next_blk e' = next_blk e"
    and "live e' = live e" and "bdeps e' = bdeps e" and "wc e' = wc e"
proof -
  have dead: "\<not> live e R b" using live_cnt(2) [OF inv] T by (metis count_eq_zero_iff)
  then have holds: "dep b w \<in> set (H v)"
    using finished_cnt(3) [OF inv dead, of v w] T by (metis cnt_pos count_greater_zero_iff)
  have V: "case lockv e v of None \<Rightarrow> H v = [] | Some x \<Rightarrow> var_rel x (H v) \<and> \<not> to_delete x"
    using sched_invD(1) [OF inv] by (simp add: var_inv_def)
  have "lockv e v \<noteq> None" using V holds by (auto split: option.splits)
  then obtain x0 where x0: "vars e v = Some x0" by (auto simp: lockv_def)
  show ?thesis
  proof (cases w)
    case False
    have rel: "var_rel x0 (H v)" "\<not> to_delete x0" and Q: "queue e v = waiting x0"
      using V x0 by (simp_all add: lockv_def queue_def)
    obtain x' G where step: "CompleteReadDependency x0 = Inr (x', map trigger G)"
      and G: "waiting x0 = G @ waiting x'" and rel': "var_rel x' (remove1 (dep b w) (H v) @ G)"
      and del: "to_delete x' = to_delete x0"
      by (rule CompleteReadDependency_refines [OF rel(1), of b]) (use holds False in simp_all)
    let ?e = "e\<lparr>vars := (vars e)(v \<mapsto> x')\<rparr>"
    have "sched_inv ?e (T - {#Complete w v b#} + mset (map Decr (map trigger G))) R
        (H(v := remove1 (dep b w) (H v) @ G))"
      by (rule release_inv [OF inv T, of "strip x0" "strip x'"])
        (use x0 rel rel' del G Q in \<open>simp_all add: lockv_def fun_eq_iff oprv_def\<close>)
    then show ?thesis
      by (intro that [of ?e G])
        (use False x0 step G Q in \<open>simp_all add: the_var_def queue_upd live_def wc_def active_def bdeps_def fun_eq_iff cong: option.case_cong\<close>)
  next
    case True
    obtain k where k: "blks e b = Some k"
      using sched_invD(5) [OF inv] T unfolding act_inv_def by blast
    then obtain t where t: "oprs e (blk_opr k) = Some t"
      using sched_invD(2) [OF inv] by (fastforce simp: obj_inv_def oprv_def)
    obtain e1 where e1: "mark_exception (blk_opr k) v e = Inr e1" and core: "same_core e e1"
      by (rule mark_exception_core [OF t x0])
    note views = same_core_views [OF core]
    have "lockv e1 v \<noteq> None" using x0 by (simp add: views(6)) (simp add: lockv_def)
    then obtain x where x: "vars e1 v = Some x" by (auto simp: lockv_def)
    have l1: "lockv e v = Some (strip x)" using x views(6) by (metis lockv_def option.simps(9))
    then have rel: "var_rel x (H v)" "\<not> to_delete x" and Q: "queue e1 v = waiting x"
      using V by (simp_all add: views(1), simp add: queue_def)
    obtain x' G where step: "CompleteWriteDependency x = Inr (x', map trigger G, False)"
      and G: "waiting x = G @ waiting x'" and rel': "var_rel x' (remove1 (dep b w) (H v) @ G)"
      and del: "to_delete x' = to_delete x"
      by (rule CompleteWriteDependency_refines [OF rel(1) _ rel(2), of b]) (use holds True in simp_all)
    let ?e = "e1\<lparr>vars := (vars e1)(v \<mapsto> x')\<rparr>"
    have "sched_inv ?e (T - {#Complete w v b#} + mset (map Decr (map trigger G))) R
        (H(v := remove1 (dep b w) (H v) @ G))"
      by (rule release_inv [OF sched_inv_same_core [OF core inv] T, of "strip x" "strip x'"])
        (use x rel rel' del G Q in \<open>simp_all add: lockv_def fun_eq_iff oprv_def\<close>)
    moreover have "queue ?e u = (if u = v then waiting x' else queue e u)"
      "oprv ?e = oprv e" "live ?e = live e" "bdeps ?e = bdeps e" "wc ?e = wc e" for u
      using views by (simp_all add: queue_upd live_def wc_def active_def bdeps_def fun_eq_iff cong: option.case_cong)
    ultimately show ?thesis
      by (intro that [of ?e G])
        (use True k e1 x step G Q views in \<open>simp_all add: complete_write_def the_var_def the_blk_def\<close>)
  qed
qed

lemma opr_end_inv:
  assumes inv: "sched_inv e T R H" and T: "OprEnd b oh tmp \<in># T" and none: "\<And>w v. Complete w v b \<notin># T"
  obtains e' where "act (OprEnd b oh tmp) e = Inr (e', [])"
    and "sched_inv e' (T - {#OprEnd b oh tmp#}) R H"
    and "lockv e' = lockv e" and "next_blk e' = next_blk e" and "live e' = live e"
    and "\<forall>c. live e R c \<longrightarrow> bdeps e' c = bdeps e c" and "wc e' = wc e"
proof -
  let ?T = "T - {#OprEnd b oh tmp#}"
  note O = sched_invD(2) [OF inv] and A = sched_invD(5) [OF inv]
  obtain k D f where k: "blks e b = Some k" "blk_opr k = oh" "oprv e oh = Some (D, tmp, f)"
    using A T unfolding act_inv_def by blast
  have ends_b: "size (filter_mset (is_end b) T) = of_bool (blks e b \<noteq> None \<and> \<not> live e R b)"
    using A unfolding act_inv_def by blast
  have mem: "OprEnd b oh tmp \<in># filter_mset (is_end b) T" using T by simp
  then have "size (filter_mset (is_end b) T) \<noteq> 0" by (metis empty_iff set_mset_empty size_eq_0_iff_empty)
  then have dead: "\<not> live e R b" and "size (filter_mset (is_end b) T) = 1"
    using ends_b by (auto simp: of_bool_def split: if_splits)
  then have one: "filter_mset (is_end b) T = {#OprEnd b oh tmp#}"
    using mem size_1_singleton_mset by fastforce
  have wait: "wait k = 0" using dead O k by (force simp: live_def wc_def obj_inv_def)
  have uniq: "c = b" if "blks e c = Some k'" "blk_opr k' = oh" "tmp" for c k'
    using O that k unfolding obj_inv_def by metis
  define e' where "e' = e\<lparr>pending := pending e - 1, oprs := (if tmp then (oprs e)(oh := None) else oprs e),
     blks := (blks e)(b := None)\<rparr>"
  have fin: "finite (dom (blks e))" "pending e = int (card (dom (blks e)))"
    using O unfolding obj_inv_def by blast+
  have "card (dom (blks e)) > 0" using fin k(1) by (metis card_gt_0_iff domI empty_iff)
  then have run: "act (OprEnd b oh tmp) e = Inr (e', [])"
    using fin(2) by (simp add: e'_def Let_def)
  have fields: "lockv e' = lockv e" "blks e' = (blks e)(b := None)" "executing e' = executing e"
    "next_blk e' = next_blk e" "next_opr e' = next_opr e" "next_var e' = next_var e" "pending e' = pending e - 1"
    "oprv e' = (if tmp then (oprv e)(oh := None) else oprv e)"
    by (auto simp: e'_def lockv_def oprv_def)
  have wc: "wc e' = wc e" using wait k by (auto simp: wc_def fields fun_eq_iff)
  have live_eq: "live e' R' c = live e R' c" for R' c by (simp add: live_def wc active_def fields)
  have queue: "queue e' = queue e" by (rule ext) (simp add: queue_def fields)
  have deps: "bdeps e' c = bdeps e c" if "live e R c" for c
    using that dead uniq [of c] by (cases "blks e c") (auto simp: bdeps_def fields)
  have cntT: "count ?T (Append w' v' c) = count T (Append w' v' c)"
    "count ?T (Complete w' v' c) = count T (Complete w' v' c)"
    "count ?T (Decr c) = count T (Decr c)" "count ?T (PushEnd c) = count T (PushEnd c)" for w' v' c
    by (simp_all only: count_remove action.distinct if_False)
  have var: "var_inv e' H" using sched_invD(1) [OF inv] by (simp add: var_inv_def fields)
  have obj: "obj_inv e'"
  proof -
    have same: "oprv e' (blk_opr k') = oprv e (blk_opr k')" "blks e c = Some k'" if "blks e' c = Some k'" for c k'
      using that uniq [of c k'] by (auto simp: fields split: if_splits)
    have old: "oprv e oh' = Some z" if "oprv e' oh' = Some z" for oh' z
      using that by (simp add: fields split: if_splits)
    have 1: "distinct (map fst D') \<and> (\<forall>p\<in>set D'. lockv e' (fst p) \<noteq> None) \<and> \<not> deletes f'"
      if "oprv e' oh' = Some (D', tmp', f')" for oh' D' tmp' f'
      using O old [OF that] unfolding obj_inv_def fields(1) by blast
    have 2: "oprv e' (blk_opr k') \<noteq> None \<and> c < next_blk e' \<and> 0 \<le> wait k'" if "blks e' c = Some k'" for c k'
      using O same [OF that] unfolding obj_inv_def fields(4) by simp
    have 3: "c = c'" if "blks e' c = Some k1" "blks e' c' = Some k2" "blk_opr k1 = blk_opr k2"
      "oprv e' (blk_opr k1) = Some (D', True, f')" for c c' k1 k2 D' f'
      using O same [OF that(1)] same [OF that(2)] that(3,4) unfolding obj_inv_def by metis
    have 4: "next_opr e' \<le> oh' \<longrightarrow> oprv e' oh' = None" "next_var e' \<le> v \<longrightarrow> lockv e' v = None" for oh' v
      using O by (simp_all add: obj_inv_def fields)
    have "dom (blks e') = dom (blks e) - {b}" by (auto simp: fields split: if_splits)
    then have "finite (dom (blks e'))" "pending e' = int (card (dom (blks e')))"
      using fin k(1) \<open>card (dom (blks e)) > 0\<close> by (simp_all add: fields(7) domI of_nat_diff)
    then show ?thesis using 1 2 3 4 unfolding obj_inv_def by blast
  qed
  have dep: "dep_inv e' ?T R H"
    using sched_invD(3) [OF inv] deps unfolding dep_inv_def live_eq queue cntT by presburger
  have held: "held e' H c = held e H c" if "live e R c" for c by (simp add: held_def deps [OF that])
  have wait': "wait_inv e' ?T R H"
    using sched_invD(4) [OF inv] deps held unfolding wait_inv_def live_eq wc cntT by presburger
  have act: "act_inv e' ?T R"
  proof -
    have none_b: "filter_mset (is_end b) ?T = {#}" using one by (simp add: filter_diff_mset)
    have not_b: "c \<noteq> b" if "OprEnd c oh' tmp' \<in># ?T" for c oh' tmp'
    proof
      assume "c = b"
      with that have "OprEnd c oh' tmp' \<in># filter_mset (is_end b) ?T"
        unfolding set_mset_filter by simp
      then show False unfolding none_b by simp
    qed
    have "c \<noteq> b \<Longrightarrow> filter_mset (is_end c) ?T = filter_mset (is_end c) T" for c
      by (simp add: filter_diff_mset)
    then have ends: "size (filter_mset (is_end c) ?T) = of_bool (blks e' c \<noteq> None \<and> \<not> live e' R c)" for c
      using A none_b unfolding act_inv_def live_eq
      by (cases "c = b") (simp_all add: fields del: filter_diff_mset)
    have ends': "\<exists>k D f. blks e' c = Some k \<and> blk_opr k = oh' \<and> oprv e' oh' = Some (D, tmp', f)"
      if "OprEnd c oh' tmp' \<in># ?T" for c oh' tmp'
    proof -
      have mem: "OprEnd c oh' tmp' \<in># T" by (rule in_diffD [OF that])
      obtain k' D' f' where k': "blks e c = Some k'" "blk_opr k' = oh'" "oprv e oh' = Some (D', tmp', f')"
        using A mem unfolding act_inv_def by blast
      with not_b [OF that] uniq [of c k'] show ?thesis by (auto simp: fields)
    qed
    have A': "distinct (active e R)" "\<forall>c\<in>set (active e R). blks e c \<noteq> None \<and> wc e c = 0"
      "\<And>w v c. Append w v c \<in># T \<Longrightarrow> PushEnd c \<in># T" "\<And>c. count T (PushEnd c) \<le> 1"
      "\<And>w v c. Complete w v c \<in># T \<Longrightarrow> blks e c \<noteq> None"
      using A unfolding act_inv_def by blast+
    have "active e' R = active e R" by (simp add: active_def fields)
    moreover have "b \<notin> set (active e R)" using dead by (simp add: live_def)
    ultimately have act': "distinct (active e' R)" "c \<in> set (active e' R) \<Longrightarrow> blks e' c \<noteq> None \<and> wc e' c = 0" for c
      using A'(1,2) by (auto simp: fields wc)
    have comp: "blks e' c \<noteq> None" if "Complete w v c \<in># ?T" for w v c
      using A'(5) [OF in_diffD [OF that]] none in_diffD [OF that] by (auto simp: fields)
    have app: "PushEnd c \<in># ?T" if "Append w v c \<in># ?T" for w v c
      using A'(3) [OF in_diffD [OF that]] by (simp add: in_diff_count)
    have "count ?T (PushEnd c) \<le> 1" for c using A'(4) [of c] by (simp only: cntT)
    then show ?thesis using ends ends' act' comp app unfolding act_inv_def by blast
  qed
  have "sched_inv e' ?T R H" using var obj dep wait' act by (simp add: sched_inv_def)
  moreover have "live e' = live e" by (intro ext) (rule live_eq)
  ultimately show ?thesis by (intro that [OF run]) (use fields deps wc in auto)
qed

end
