(* ===== verification/MX_Runs.thy ===== *)
theory MX_Runs
  imports MX_Sched
begin

text \<open>
  The runs of the dependency engine: every step of the machine of \<open>MX_Sched\<close> keeps its
  invariant, so in every reachable state no check of the engine can fail and operations that
  conflict never run together. For runs in which a push is not interleaved with another push,
  conflicting operations start in the order they were pushed, the engine never gets stuck, and
  the results are those of running the operations one after the other, as the naive engine does.
\<close>

section \<open>Execution of a block\<close>

lemma set_opr_exception_core [simp]: "same_core e (set_opr_exception oh r e)"
  by (auto simp: set_opr_exception_def same_core_def lockv_def oprv_def fun_eq_iff deps_def
    option.map_comp comp_def)

lemma new_opr_exception_core [simp]: "same_core e (new_opr_exception oh x e)"
  unfolding new_opr_exception_def
  by (rule same_core_trans [OF _ set_opr_exception_core])
    (simp add: same_core_def lockv_def oprv_def fun_eq_iff)

lemma note_error_core [simp]: "same_core e (note_error oh err e)"
  by (cases err) (simp_all add: note_error_def)

lemma first_live_ok: "\<forall>v\<in>set vs. lockv e v \<noteq> None \<Longrightarrow> \<exists>r. first_live e vs = Inr r"
  by (induction vs) (auto simp: the_var_def lockv_def)

lemma inherit_exception_core:
  assumes "\<forall>v\<in>set vs. lockv e v \<noteq> None"
  obtains e' where "inherit_exception oh vs e = Inr e'" and "same_core e e'"
proof -
  obtain r where r: "first_live e vs = Inr r" using first_live_ok [OF assms] by blast
  show ?thesis
    by (rule that [of "if r = None then e else AddToGlobalExceptions r (set_opr_exception oh r e)"])
      (use r same_core_trans [OF set_opr_exception_core AddToGlobalExceptions_core] in
        \<open>simp_all add: inherit_exception_def\<close>)
qed

lemma oprv_Some: "oprv e oh = Some (D, tmp, f) \<longleftrightarrow>
   (\<exists>t. oprs e oh = Some t \<and> deps t = D \<and> temporary t = tmp \<and> opr_fn t = f)"
  by (auto simp: oprv_def)

lemma OnStart_core:
  assumes t: "oprs e oh = Some t" and vars: "\<forall>p\<in>set (deps t). lockv e (fst p) \<noteq> None"
  obtains e' where "OnStart oh e = Inr e'" and "same_core e e'"
proof -
  have "\<forall>v\<in>set (opr_const_vars t). lockv e v \<noteq> None" using vars by (force simp: deps_def)
  then obtain e1 where e1: "inherit_exception oh (opr_const_vars t) e = Inr e1" "same_core e e1"
    by (rule inherit_exception_core)
  have "oprv e1 oh = oprv e oh" using same_core_views(5) [OF e1(2)] by simp
  then obtain t1 where t1: "oprs e1 oh = Some t1" "deps t1 = deps t" using t by (auto simp: oprv_def)
  have "\<forall>p\<in>set (deps t1). lockv e1 (fst p) \<noteq> None"
    using vars t1 same_core_views(6) [OF e1(2)] by simp
  then have "\<forall>v\<in>set (opr_mutable_vars t1). lockv e1 v \<noteq> None" by (force simp: deps_def)
  then obtain e2 where e2: "inherit_exception oh (opr_mutable_vars t1) e1 = Inr e2" "same_core e1 e2"
    by (rule inherit_exception_core)
  show ?thesis
    by (rule that [of "if live_exc e1 (opr_exception t1) then e1 else e2"])
      (use t e1 t1 e2 same_core_trans [OF e1(2) e2(2)] in \<open>auto simp: OnStart_def the_opr_def\<close>)
qed

lemma call_fn_core: "\<not> deletes f \<Longrightarrow> same_core e (fst (call_fn c f e))"
  by (cases f) (simp_all add: same_core_def lockv_def oprv_def fun_eq_iff)

lemma run_fn_core:
  assumes "\<not> deletes (opr_fn t)"
  shows "same_core e (fst (run_fn c oh t e))"
proof -
  obtain e1 oc where e1: "call_fn c (opr_fn t) e = (e1, oc)" by fastforce
  with call_fn_core [OF assms, of e c] have "same_core e e1" by simp
  then show ?thesis
    using same_core_trans [OF _ new_opr_exception_core] by (cases oc) (simp_all add: run_fn_def e1)
qed

lemma execute_fn_core:
  assumes obj: "obj_inv e" and k: "blks e b = Some k"
  obtains e' r where "execute_fn c b e = Inr (e', r)" and "same_core e e'"
proof -
  obtain D tmp f where "oprv e (blk_opr k) = Some (D, tmp, f)"
    using obj k unfolding obj_inv_def by (metis not_None_eq prod_cases3)
  then obtain t where t: "oprs e (blk_opr k) = Some t" "D = deps t" "f = opr_fn t" and
    ok: "\<forall>p\<in>set (deps t). lockv e (fst p) \<noteq> None" "\<not> deletes (opr_fn t)"
    using obj unfolding obj_inv_def oprv_Some by metis
  obtain e1 where e1: "OnStart (blk_opr k) e = Inr e1" "same_core e e1"
    by (rule OnStart_core [OF t(1) ok(1)])
  have "oprv e1 (blk_opr k) = oprv e (blk_opr k)" using same_core_views(5) [OF e1(2)] by simp
  then obtain t1 where t1: "oprs e1 (blk_opr k) = Some t1" "opr_fn t1 = opr_fn t"
    using t by (auto simp: oprv_def)
  have c2: "same_core e (fst (run_fn c (blk_opr k) t1 e1))"
    by (rule same_core_trans [OF e1(2) run_fn_core]) (use ok t1 in simp)
  show ?thesis
    using k t e1 t1 c2 that
    by (cases "\<not> shutdown_phase e \<or> opr_prop t = kDeleteVar";
        cases "\<not> live_exc e1 (opr_exception t1) \<or> opr_prop t1 = kNoSkip \<or> opr_wait t1";
        cases "run_fn c (blk_opr k) t1 e1")
      (auto simp: execute_fn_def the_blk_def the_opr_def Let_def)
qed

lemma deps_actions:
  "push_actions b t = map (\<lambda>(v, w). Append w v b) (deps t) @ [PushEnd b]"
  "complete_actions b oh t = map (\<lambda>(v, w). Complete w v b) (deps t) @ [OprEnd b oh (temporary t)]"
  by (simp_all add: push_actions_def complete_actions_def deps_def)

lemma count_deps:
  assumes "distinct D"
  shows "count (mset (map (\<lambda>(v, w). Append w v b) D)) (Append w v c) = of_bool (c = b \<and> (v, w) \<in> set D)"
    and "count (mset (map (\<lambda>(v, w). Complete w v b) D)) (Complete w v c) = of_bool (c = b \<and> (v, w) \<in> set D)"
    and "count (mset (map (\<lambda>(v, w). Append w v b) D)) (Complete w v c) = 0"
    and "count (mset (map (\<lambda>(v, w). Append w v b) D)) (Decr c) = 0"
    and "count (mset (map (\<lambda>(v, w). Append w v b) D)) (PushEnd c) = 0"
    and "count (mset (map (\<lambda>(v, w). Complete w v b) D)) (Append w v c) = 0"
    and "count (mset (map (\<lambda>(v, w). Complete w v b) D)) (Decr c) = 0"
    and "count (mset (map (\<lambda>(v, w). Complete w v b) D)) (PushEnd c) = 0"
    and "filter_mset (is_end c) (mset (map (\<lambda>(v, w). Append w v b) D)) = {#}"
    and "filter_mset (is_end c) (mset (map (\<lambda>(v, w). Complete w v b) D)) = {#}"
  using assms by (induction D) (auto simp: of_bool_def)

section \<open>Steps of workers and clients\<close>

lemma act_invD:
  assumes "act_inv e T R"
  shows "distinct (active e R)" and "b \<in> set (active e R) \<Longrightarrow> blks e b \<noteq> None"
    and "b \<in> set (active e R) \<Longrightarrow> wc e b = 0"
    and "size (filter_mset (is_end b) T) = of_bool (blks e b \<noteq> None \<and> \<not> live e R b)"
    and "OprEnd b oh tmp \<in># T \<Longrightarrow> \<exists>k D f. blks e b = Some k \<and> blk_opr k = oh \<and> oprv e oh = Some (D, tmp, f)"
    and "Complete w v b \<in># T \<Longrightarrow> blks e b \<noteq> None" and "Append w v b \<in># T \<Longrightarrow> PushEnd b \<in># T"
    and "count T (PushEnd b) \<le> 1"
  using assms unfolding act_inv_def by blast+

lemma active_inv:
  assumes "sched_inv e T R H" and "b \<in> set (active e R)"
  shows "live e R b" and "wc e b = 0" and "\<And>v w. cnt (H v) b w = of_bool ((v, w) \<in> set (bdeps e b))"
    and "\<And>v w. cnt (queue e v) b w = 0" and "\<And>v w. count T (Append w v b) = 0"
    and "count T (Decr b) = 0" and "count T (PushEnd b) = 0"
proof -
  show live: "live e R b" using assms(2) by (simp add: live_def)
  show wc: "wc e b = 0" using assms sched_invD(5) [OF assms(1)] unfolding act_inv_def by blast
  from wc_tokens(1) [OF assms(1) live] wc show "count T (Decr b) = 0" "count T (PushEnd b) = 0" by simp_all
  have "cnt (H v) b w \<noteq> 0" if "(v, w) \<in> set (bdeps e b)" for v w
    using wc_tokens(2) [OF assms(1) live that] wc by auto
  then have *: "of_bool ((v, w) \<in> set (bdeps e b)) \<le> cnt (H v) b w" for v w
    by (simp add: Suc_le_eq)
  show "cnt (H v) b w = of_bool ((v, w) \<in> set (bdeps e b))" "cnt (queue e v) b w = 0"
    "count T (Append w v b) = 0" for v w
    using live_cnt(1) [OF assms(1) live, of w v] * [of v w] by linarith+
qed

lemma finish_inv:
  assumes inv: "sched_inv e T R H" and b: "b \<in> set (active e R)"
    and k: "blks e b = Some k" and t: "oprv e (blk_opr k) = Some (D, tmp, f)"
    and active: "mset (active e' R') = mset (active e R) - {#b#}"
    and fields: "lockv e' = lockv e" "oprv e' = oprv e" "blks e' = blks e"
      "next_blk e' = next_blk e" "next_opr e' = next_opr e" "next_var e' = next_var e" "pending e' = pending e"
  shows "sched_inv e' (T + mset (map (\<lambda>(v, w). Complete w v b) D @ [OprEnd b (blk_opr k) tmp])) R' H"
proof -
  define T' where "T' = T + mset (map (\<lambda>(v, w). Complete w v b) D @ [OprEnd b (blk_opr k) tmp])"
  note A = sched_invD(5) [OF inv] and bi = active_inv [OF inv b]
  have D: "bdeps e b = D" using k t by (simp add: bdeps_def)
  have dist: "distinct D"
    using sched_invD(2) [OF inv] t unfolding obj_inv_def by (metis distinct_map)
  have deps: "bdeps e' = bdeps e" by (rule ext, rule bdeps_cong) (simp_all add: fields)
  have wc: "wc e' = wc e" by (rule ext) (simp add: wc_def fields)
  have queue: "queue e' = queue e" by (rule ext) (simp add: queue_def fields)
  have distA: "distinct (active e R)" using A unfolding act_inv_def by blast
  have perm: "mset (active e' R') = mset (remove1 b (active e R))" using active by simp
  have setA: "set (active e' R') = set (active e R) - {b}"
    using mset_eq_setD [OF perm] set_remove1_eq [OF distA, of b] by (rule trans)
  have distA': "distinct (active e' R')"
    using mset_eq_imp_distinct_iff [OF perm] distA by simp
  have live_eq: "live e' R' c = (live e R c \<and> c \<noteq> b)" for c
    using bi(2) by (auto simp: live_def wc setA)
  have held: "held e' H = held e H" by (rule ext) (simp add: held_def deps)
  note cnts = count_deps [OF dist]
  have cntT: "count T' (Append w v c) = count T (Append w v c)"
    "count T' (Complete w v c) = count T (Complete w v c) + of_bool (c = b \<and> (v, w) \<in> set D)"
    "count T' (Decr c) = count T (Decr c)" "count T' (PushEnd c) = count T (PushEnd c)" for w v c
    unfolding T'_def mset_append count_union cnts by simp_all
  have none: "count T (Complete w v b) = 0" for w v by (rule live_cnt(2) [OF inv bi(1)])
  have "var_inv e' H" using sched_invD(1) [OF inv] by (simp add: var_inv_def fields)
  moreover have "obj_inv e'"
    using sched_invD(2) [OF inv] unfolding obj_inv_def fields .
  moreover have "dep_inv e' T' R' H"
    unfolding dep_inv_def live_eq deps queue cntT
  proof (intro allI)
    fix c v w
    show "if live e R c \<and> c \<noteq> b
      then count T (Append w v c) + cnt (queue e v) c w + cnt (H v) c w = of_bool ((v, w) \<in> set (bdeps e c)) \<and>
        count T (Complete w v c) + of_bool (c = b \<and> (v, w) \<in> set D) = 0
      else count T (Append w v c) = 0 \<and> cnt (queue e v) c w = 0 \<and>
        cnt (H v) c w = count T (Complete w v c) + of_bool (c = b \<and> (v, w) \<in> set D)"
      using sched_invD(3) [OF inv, unfolded dep_inv_def, rule_format, of c w v] bi D none
      by (cases "c = b") simp_all
  qed
  moreover have "wait_inv e' T' R' H"
    using sched_invD(4) [OF inv] bi(6,7) unfolding wait_inv_def live_eq deps wc cntT held by metis
  moreover have "act_inv e' T' R'"
  proof -
    have ends: "filter_mset (is_end c) T' = filter_mset (is_end c) T + (if c = b then {#OprEnd b (blk_opr k) tmp#} else {#})" for c
      unfolding T'_def mset_append filter_union_mset cnts by simp
    have "size (filter_mset (is_end b) T) = 0" using A bi(1) unfolding act_inv_def by simp
    then have 1: "size (filter_mset (is_end c) T') = of_bool (blks e' c \<noteq> None \<and> \<not> live e' R' c)" for c
      using A k unfolding act_inv_def live_eq ends fields by (cases "c = b") simp_all
    have mem: "a \<in># T' \<longleftrightarrow> a \<in># T \<or> a \<in> (\<lambda>(v, w). Complete w v b) ` set D \<or> a = OprEnd b (blk_opr k) tmp" for a
      by (auto simp: T'_def)
    have 2: "\<exists>k D f. blks e' c = Some k \<and> blk_opr k = oh \<and> oprv e' oh = Some (D, tmp', f)"
      if "OprEnd c oh tmp' \<in># T'" for c oh tmp'
      using that act_invD(5) [OF A, of c oh tmp'] k t unfolding mem fields by auto
    have 3: "blks e' c \<noteq> None" if "Complete w v c \<in># T'" for c w v
      using that act_invD(6) [OF A, of w v c] k unfolding mem fields by auto
    have 4: "PushEnd c \<in># T'" if "Append w v c \<in># T'" for c w v
      using that act_invD(7) [OF A, of w v c] unfolding mem by auto
    have 5: "count T' (PushEnd c) \<le> 1" for c using A unfolding cntT act_inv_def by blast
    have 6: "blks e' c \<noteq> None \<and> wc e' c = 0" if "c \<in> set (active e' R')" for c
      using that A unfolding setA act_inv_def fields wc by blast
    show ?thesis using 1 2 3 4 5 6 distA' unfolding act_inv_def by blast
  qed
  ultimately have "sched_inv e' T' R' H" by (simp add: sched_inv_def)
  then show ?thesis by (simp only: T'_def)
qed

lemma start_inv:
  assumes inv: "sched_inv e T R H" and active: "mset (active e' R') = mset (active e R)"
    and fields: "lockv e' = lockv e" "oprv e' = oprv e" "blks e' = blks e"
      "next_blk e' = next_blk e" "next_opr e' = next_opr e" "next_var e' = next_var e" "pending e' = pending e"
  shows "sched_inv e' T R' H"
proof -
  have deps: "bdeps e' = bdeps e" by (rule ext, rule bdeps_cong) (simp_all add: fields)
  have wc: "wc e' = wc e" by (rule ext) (simp add: wc_def fields)
  have queue: "queue e' = queue e" by (rule ext) (simp add: queue_def fields)
  have setA: "set (active e' R') = set (active e R)" using active by (metis set_mset_mset)
  have distA: "distinct (active e' R') = distinct (active e R)" using active by (rule mset_eq_imp_distinct_iff)
  have live_eq: "live e' R' c = live e R c" for c by (simp add: live_def wc setA)
  have held: "held e' H = held e H" by (rule ext) (simp add: held_def deps)
  show ?thesis
    using inv unfolding sched_inv_def var_inv_def obj_inv_def dep_inv_def wait_inv_def act_inv_def
      live_eq deps wc queue setA distA held fields .
qed

lemma push_inv:
  assumes inv: "sched_inv e T R H" and new: "new_block oh ctx prio e = Inr (e', b, t)"
    and once: "temporary t \<longrightarrow> (\<forall>b' k. blks e b' = Some k \<longrightarrow> blk_opr k \<noteq> oh)"
  shows "sched_inv e' (T + mset (map (\<lambda>(v, w). Append w v b) (deps t) @ [PushEnd b])) R H"
proof -
  define T' where "T' = T + mset (map (\<lambda>(v, w). Append w v b) (deps t) @ [PushEnd b])"
  note O = sched_invD(2) [OF inv] and A = sched_invD(5) [OF inv]
  define k where "k = \<lparr>wait = 1 + int (length (deps t)), blk_opr = oh, blk_ctx = ctx, blk_priority = prio\<rparr>"
  have t: "oprs e oh = Some t" and b: "b = next_blk e"
    and e': "e' = e\<lparr>blks := (blks e)(b \<mapsto> k), next_blk := Suc b, pending := pending e + 1\<rparr>"
    using new by (auto simp: new_block_def the_opr_def k_def deps_def split: option.splits)
  have tv: "oprv e oh = Some (deps t, temporary t, opr_fn t)" using t by (simp add: oprv_def)
  have fields: "lockv e' = lockv e" "oprv e' = oprv e" "blks e' = (blks e)(b \<mapsto> k)"
    "executing e' = executing e" "next_blk e' = Suc b" "next_opr e' = next_opr e" "next_var e' = next_var e"
    "pending e' = pending e + 1"
    by (simp_all add: e' lockv_def oprv_def fun_eq_iff)
  have fresh: "blks e b = None" using O b unfolding obj_inv_def by (metis less_irrefl not_None_eq)
  have dead: "\<not> live e R b" using A fresh unfolding act_inv_def by (auto simp: live_def wc_def)
  have dist: "distinct (deps t)" "distinct (map fst (deps t))"
    using O tv unfolding obj_inv_def by (metis distinct_map)+
  have deps: "bdeps e' c = (if c = b then deps t else bdeps e c)" for c
    using tv unfolding bdeps_def fields by (simp add: k_def)
  have wc: "wc e' c = (if c = b then int (length (deps t)) + 1 else wc e c)" for c
    by (simp add: wc_def fields k_def)
  have queue: "queue e' = queue e" by (rule ext) (simp add: queue_def fields)
  have act: "active e' R = active e R" by (simp add: active_def fields)
  have live_eq: "live e' R c = (live e R c \<or> c = b)" for c by (auto simp: live_def wc act)
  note cnts = count_deps [OF dist(1)] and z = finished_cnt [OF inv dead]
  have none: "count T (Complete w v b) = 0" for w v
    using A fresh unfolding act_inv_def by (metis count_eq_zero_iff)
  have cntT: "count T' (Append w v c) = count T (Append w v c) + of_bool (c = b \<and> (v, w) \<in> set (deps t))"
    "count T' (Complete w v c) = count T (Complete w v c)"
    "count T' (Decr c) = count T (Decr c)" "count T' (PushEnd c) = count T (PushEnd c) + of_bool (c = b)" for w v c
    unfolding T'_def mset_append count_union cnts by simp_all
  have "var_inv e' H" using sched_invD(1) [OF inv] by (simp add: var_inv_def fields)
  moreover have "obj_inv e'"
  proof -
    have 1: "oprv e' (blk_opr k') \<noteq> None \<and> c < next_blk e' \<and> 0 \<le> wait k'" if "blks e' c = Some k'" for c k'
      using that O tv b unfolding obj_inv_def fields by (cases "c = b") (auto simp: k_def less_Suc_eq)
    have 2: "c = c'" if "blks e' c = Some k1" "blks e' c' = Some k2" "blk_opr k1 = blk_opr k2"
      "oprv e' (blk_opr k1) = Some (D, True, f)" for c c' k1 k2 D f
    proof (cases "c = b \<or> c' = b")
      case True
      with that once tv show ?thesis by (force simp: fields k_def split: if_splits)
    next
      case False
      with that O show ?thesis unfolding obj_inv_def fields by (metis fun_upd_apply)
    qed
    have "finite (dom (blks e))" "pending e = int (card (dom (blks e)))" "b \<notin> dom (blks e)"
      using O fresh unfolding obj_inv_def by auto
    then have 3: "finite (dom (blks e'))" "pending e' = int (card (dom (blks e')))" by (simp_all add: fields)
    have 4: "\<forall>oh D tmp f. oprv e' oh = Some (D, tmp, f) \<longrightarrow>
       distinct (map fst D) \<and> (\<forall>p\<in>set D. lockv e' (fst p) \<noteq> None) \<and> \<not> deletes f"
      "\<forall>v. next_var e' \<le> v \<longrightarrow> lockv e' v = None" "\<forall>oh. next_opr e' \<le> oh \<longrightarrow> oprv e' oh = None"
      using O unfolding obj_inv_def fields by blast+
    show ?thesis unfolding obj_inv_def using 1 2 3 4 by blast
  qed
  moreover have "dep_inv e' T' R H"
    unfolding dep_inv_def live_eq queue
  proof (intro allI)
    fix c v w
    show "if live e R c \<or> c = b
      then count T' (Append w v c) + cnt (queue e v) c w + cnt (H v) c w = of_bool ((v, w) \<in> set (bdeps e' c)) \<and>
        count T' (Complete w v c) = 0
      else count T' (Append w v c) = 0 \<and> cnt (queue e v) c w = 0 \<and> cnt (H v) c w = count T' (Complete w v c)"
      using sched_invD(3) [OF inv, unfolded dep_inv_def, rule_format, of c w v] z none dead
      by (cases "c = b") (simp_all add: cntT deps)
  qed
  moreover have "wait_inv e' T' R H"
  proof -
    have "held e' H b = 0" using z(3) none by (simp add: held_def)
    moreover have "held e' H c = held e H c" if "c \<noteq> b" for c using that by (simp add: held_def deps)
    ultimately show ?thesis
      unfolding wait_inv_def live_eq
    proof (intro allI)
      fix c
      show "if live e R c \<or> c = b then wc e' c + int (held e' H c) =
          int (count T' (Decr c) + count T' (PushEnd c) + length (bdeps e' c))
        else count T' (Decr c) = 0 \<and> count T' (PushEnd c) = 0"
        using sched_invD(4) [OF inv, unfolded wait_inv_def, rule_format, of c] z(4,5)
          \<open>held e' H b = 0\<close> \<open>c \<noteq> b \<Longrightarrow> held e' H c = held e H c\<close>
        by (cases "c = b") (simp_all add: cntT deps wc)
    qed
  qed
  moreover have "act_inv e' T' R"
  proof -
    have ends: "filter_mset (is_end c) T' = filter_mset (is_end c) T" for c
      unfolding T'_def mset_append filter_union_mset cnts by simp
    have mem: "a \<in># T' \<longleftrightarrow> a \<in># T \<or> a \<in> (\<lambda>(v, w). Append w v b) ` set (deps t) \<or> a = PushEnd b" for a
      by (auto simp: T'_def)
    have "size (filter_mset (is_end b) T) = 0" using A fresh unfolding act_inv_def by simp
    then have 1: "size (filter_mset (is_end c) T') = of_bool (blks e' c \<noteq> None \<and> \<not> live e' R c)" for c
      using A unfolding act_inv_def live_eq ends fields by (cases "c = b") simp_all
    have 2: "\<exists>k D f. blks e' c = Some k \<and> blk_opr k = oh \<and> oprv e' oh = Some (D, tmp', f)"
      if "OprEnd c oh tmp' \<in># T'" for c oh tmp'
    proof -
      have "OprEnd c oh tmp' \<in># T" using that unfolding mem by auto
      then obtain k' D f where "blks e c = Some k'" "blk_opr k' = oh" "oprv e oh = Some (D, tmp', f)"
        using A unfolding act_inv_def by blast
      with fresh show ?thesis unfolding fields by auto
    qed
    have 3: "blks e' c \<noteq> None" if "Complete w v c \<in># T'" for c w v
      using that act_invD(6) [OF A, of w v c] unfolding mem fields by auto
    have 4: "PushEnd c \<in># T'" if "Append w v c \<in># T'" for c w v
      using that act_invD(7) [OF A, of w v c] unfolding mem by auto
    have 5: "count T' (PushEnd c) \<le> 1" for c
      using A z(5) unfolding cntT act_inv_def by (cases "c = b") simp_all
    have 6: "blks e' c \<noteq> None \<and> wc e' c = 0" if "c \<in> set (active e' R)" for c
      using that act_invD(2,3) [OF A, of c] fresh unfolding act fields wc by auto
    have 7: "distinct (active e' R)" using A unfolding act act_inv_def by blast
    show ?thesis using 1 2 3 4 5 6 7 unfolding act_inv_def by blast
  qed
  ultimately have "sched_inv e' T' R H" by (simp add: sched_inv_def)
  then show ?thesis by (simp only: T'_def)
qed

lemma new_variable_inv:
  assumes inv: "sched_inv e T R H"
  shows "sched_inv (fst (NewVariable e)) T R H"
proof -
  define e' where "e' = fst (NewVariable e)"
  have O: "lockv e (next_var e) = None" using sched_invD(2) [OF inv] unfolding obj_inv_def by blast
  have fields: "lockv e' = (lockv e)(next_var e \<mapsto> strip ThreadedVar)" "oprv e' = oprv e" "blks e' = blks e"
    "executing e' = executing e" "next_blk e' = next_blk e" "next_opr e' = next_opr e"
    "next_var e' = Suc (next_var e)" "pending e' = pending e"
    by (simp_all add: e'_def NewVariable_def lockv_def oprv_def fun_eq_iff)
  have H: "H (next_var e) = []"
    using sched_invD(1) [OF inv, unfolded var_inv_def, rule_format, of "next_var e"] O by simp
  have init: "waiting ThreadedVar = []" "var_rel ThreadedVar []" "\<not> to_delete ThreadedVar"
    by (simp_all add: waiting_def var_rel_def ThreadedVar_def all_reads_def)
  have queue: "queue e' = queue e"
    by (rule ext) (use O init in \<open>simp add: queue_def fields\<close>)
  have deps: "bdeps e' = bdeps e" by (rule ext, rule bdeps_cong) (simp_all add: fields)
  have wc: "wc e' = wc e" by (rule ext) (simp add: wc_def fields)
  have live_eq: "live e' R = live e R" by (rule ext) (simp add: live_def wc active_def fields)
  have held: "held e' H = held e H" by (rule ext) (simp add: held_def deps)
  have "active e' R = active e R" by (simp add: active_def fields)
  then have rest: "dep_inv e' T R H" "wait_inv e' T R H" "act_inv e' T R"
    using sched_invD(3-5) [OF inv]
    unfolding dep_inv_def wait_inv_def act_inv_def live_eq deps wc queue held fields by simp_all
  have var: "var_inv e' H"
    using var_inv_upd [OF sched_invD(1) [OF inv] fields(1), of "[]"] init fun_upd_idem [of H, OF H] by simp
  have "lockv e' v \<noteq> None" if "lockv e v \<noteq> None" for v using that by (simp add: fields)
  then have "obj_inv e'"
    using sched_invD(2) [OF inv] unfolding obj_inv_def fields(2-8) by (auto simp: fields(1))
  with var rest show ?thesis unfolding sched_inv_def e'_def by blast
qed

lemma new_operator_inv:
  assumes inv: "sched_inv e T R H" and vs: "distinct (cs @ ms)" "set (cs @ ms) \<subseteq> dom (vars e)" "\<not> deletes f"
    and new: "NewOperator f cs ms pr w e = Inr (e1, oh)" and e': "e' = (if tmp then set_temporary oh e1 else e1)"
  shows "sched_inv e' T R H"
proof -
  define D where "D = map (\<lambda>v. (v, False)) cs @ map (\<lambda>v. (v, True)) ms"
  have oh: "oh = next_opr e" using new by (auto simp: NewOperator_def rbind_Inr_iff)
  have fields: "lockv e' = lockv e" "oprv e' = (oprv e)(oh \<mapsto> (D, tmp, f))" "blks e' = blks e"
    "executing e' = executing e" "next_blk e' = next_blk e" "next_opr e' = Suc (next_opr e)"
    "next_var e' = next_var e" "pending e' = pending e"
    using new unfolding e'
    by (auto simp: NewOperator_def rbind_Inr_iff set_temporary_def lockv_def oprv_def fun_eq_iff D_def deps_def)
  have none: "oprv e oh = None" using sched_invD(2) [OF inv] oh unfolding obj_inv_def by simp
  then have other: "blk_opr k \<noteq> oh" if "blks e b = Some k" for b k
    using sched_invD(2) [OF inv] that unfolding obj_inv_def by metis
  have "bdeps e' b = bdeps e b" for b
    using other by (cases "blks e b") (simp_all add: bdeps_def fields)
  then have deps: "bdeps e' = bdeps e" by (rule ext)
  have wc: "wc e' = wc e" by (rule ext) (simp add: wc_def fields)
  have queue: "queue e' = queue e" by (rule ext) (simp add: queue_def fields)
  have live_eq: "live e' R = live e R" by (rule ext) (simp add: live_def wc active_def fields)
  have held: "held e' H = held e H" by (rule ext) (simp add: held_def deps)
  have act: "active e' R = active e R" by (simp add: active_def fields)
  have rest: "var_inv e' H" "dep_inv e' T R H" "wait_inv e' T R H"
    using sched_invD(1,3,4) [OF inv]
    unfolding var_inv_def dep_inv_def wait_inv_def live_eq deps wc queue held fields by simp_all
  have "oprv e' oh' = Some z" if "oprv e oh' = Some z" for oh' z using that none by (auto simp: fields)
  then have "act_inv e' T R"
    using sched_invD(5) [OF inv] unfolding act_inv_def live_eq act wc fields(3) by blast
  moreover have "obj_inv e'"
  proof -
    note O = sched_invD(2) [OF inv, unfolded obj_inv_def]
    have "map fst D = cs @ ms" by (simp add: D_def comp_def)
    then have "distinct (map fst D) \<and> (\<forall>p\<in>set D. lockv e (fst p) \<noteq> None)"
      using vs(1,2) by (auto simp: D_def lockv_def)
    then have 1: "distinct (map fst D') \<and> (\<forall>p\<in>set D'. lockv e' (fst p) \<noteq> None) \<and> \<not> deletes f'"
      if "oprv e' oh' = Some (D', tmp', f')" for oh' D' tmp' f'
      using that vs(3) O unfolding fields by (cases "oh' = oh") auto
    have same: "oprv e' (blk_opr k) = oprv e (blk_opr k)" "blks e b = Some k" if "blks e' b = Some k" for b k
      using that other by (auto simp: fields)
    have 2: "oprv e' (blk_opr k) \<noteq> None \<and> b < next_blk e' \<and> 0 \<le> wait k" if "blks e' b = Some k" for b k
      using same [OF that] O unfolding fields(5) by simp
    have 3: "b = b'" if "blks e' b = Some k" "blks e' b' = Some k'" "blk_opr k = blk_opr k'"
      "oprv e' (blk_opr k) = Some (D', True, f')" for b b' k k' D' f'
      using O same [OF that(1)] same [OF that(2)] that(3,4) by metis
    have 4: "\<forall>v. next_var e' \<le> v \<longrightarrow> lockv e' v = None" "\<forall>oh'. next_opr e' \<le> oh' \<longrightarrow> oprv e' oh' = None"
      "finite (dom (blks e'))" "pending e' = int (card (dom (blks e')))"
      using O oh unfolding fields by simp_all
    show ?thesis unfolding obj_inv_def using 1 2 3 4 by blast
  qed
  ultimately show ?thesis using rest unfolding sched_inv_def by blast
qed

section \<open>Threads\<close>

definition action_ready :: "action \<Rightarrow> action multiset \<Rightarrow> bool" where
  "action_ready a T \<longleftrightarrow>
    (\<forall>b. a = PushEnd b \<longrightarrow> (\<forall>w v. Append w v b \<notin># T)) \<and>
    (\<forall>b oh tmp. a = OprEnd b oh tmp \<longrightarrow> (\<forall>w v. Complete w v b \<notin># T))"

text \<open>The order of the requests on a variable, when pushes are not interleaved.\<close>

definition order_inv :: "engine \<Rightarrow> action multiset \<Rightarrow> (nat \<Rightarrow> VersionedVarBlock list) \<Rightarrow> bool" where
  "order_inv e T H \<longleftrightarrow>
    (\<forall>v. sorted_wrt (<) (map trigger (queue e v)) \<and>
       (\<forall>h\<in>set (H v). \<forall>q\<in>set (queue e v). trigger h < trigger q)) \<and>
    (\<forall>w v b. Append w v b \<in># T \<longrightarrow> (\<forall>x\<in>set (H v) \<union> set (queue e v). trigger x < b)) \<and>
    (\<forall>w v b w' v' b'. Append w v b \<in># T \<longrightarrow> Append w' v' b' \<in># T \<longrightarrow> b = b')"

lemma order_inv_cong:
  assumes "order_inv e T H" and "queue e' = queue e"
    and "\<And>w v b. Append w v b \<in># T' \<Longrightarrow> Append w v b \<in># T"
  shows "order_inv e' T' H"
  using assms unfolding order_inv_def by metis

lemma order_inv_append:
  assumes ord: "order_inv e T H" and inv: "sched_inv e T R H" and T: "Append w v b \<in># T"
    and new: "queue e v = [] \<and> H' = H(v := H v @ [dep b w]) \<and> queue e' = queue e \<or>
         H' = H \<and> queue e' = (queue e)(v := queue e v @ [dep b w])"
  shows "order_inv e' (T - {#Append w v b#}) H'"
proof -
  let ?T = "T - {#Append w v b#}"
  have live: "live e R b" using finished_cnt(1) [OF inv] T by (metis count_eq_zero_iff)
  obtain D where D: "bdeps e b = D" "distinct (map fst D)" by (rule live_blk [OF inv live])
  have le1: "count T (Append w' v' b) \<le> of_bool ((v', w') \<in> set D)" for w' v'
    using live_cnt(1) [OF inv live, of w' v'] unfolding D(1) by linarith
  have other: "v' \<noteq> v" if "Append w' v' b' \<in># ?T" for w' v' b'
  proof
    assume "v' = v"
    have b: "b' = b" using ord in_diffD [OF that] T unfolding order_inv_def by blast
    have pos: "0 < count ?T (Append w' v b)" using that unfolding \<open>v' = v\<close> b count_greater_zero_iff .
    have in_D: "(v, w) \<in> set D" using le1 [of w v] T
      by (metis (full_types) count_eq_zero_iff le_zero_eq of_bool_eq(1))
    show False
    proof (cases "w' = w")
      case True
      have "count T (Append w v b) \<le> 1" using le1 [of w v] in_D by simp
      then have "count ?T (Append w v b) = 0" by simp
      with pos show False unfolding True by (metis less_irrefl)
    next
      case False
      then have "count ?T (Append w' v b) = count T (Append w' v b)" by (simp add: count_remove)
      with pos le1 [of w' v] have "(v, w') \<in> set D" by (metis (full_types) le_zero_eq less_irrefl of_bool_eq(1))
      with in_D False D(2) show False by (metis distinct_map fst_conv inj_onD snd_conv)
    qed
  qed
  have lt: "trigger x < b" if "x \<in> set (H v) \<union> set (queue e v)" for x
    using ord T that unfolding order_inv_def by blast
  have app: "Append w' v' b' \<in># T" if "Append w' v' b' \<in># ?T" for w' v' b' by (rule in_diffD [OF that])
  have 1: "sorted_wrt (<) (map trigger (queue e' u)) \<and>
     (\<forall>h\<in>set (H' u). \<forall>q\<in>set (queue e' u). trigger h < trigger q)" for u
    using ord lt new unfolding order_inv_def by (cases "u = v") (auto simp: sorted_wrt_append)
  have 2: "\<forall>x\<in>set (H' v') \<union> set (queue e' v'). trigger x < b'" if "Append w' v' b' \<in># ?T" for w' v' b'
    using ord app [OF that] other [OF that] new unfolding order_inv_def by auto
  have 3: "b1 = b2" if "Append w1 v1 b1 \<in># ?T" "Append w2 v2 b2 \<in># ?T" for w1 v1 b1 w2 v2 b2
    using ord app [OF that(1)] app [OF that(2)] unfolding order_inv_def by blast
  show ?thesis unfolding order_inv_def using 1 2 3 by blast
qed

lemma order_inv_complete:
  assumes ord: "order_inv e T H" and G: "queue e v = G @ queue e' v" "\<forall>u. u \<noteq> v \<longrightarrow> queue e' u = queue e u"
    and app: "\<And>w v b. Append w v b \<in># T' \<Longrightarrow> Append w v b \<in># T"
  shows "order_inv e' T' (H(v := remove1 r (H v) @ G))"
proof -
  let ?H = "H(v := remove1 r (H v) @ G)"
  have sub: "set (?H u) \<union> set (queue e' u) \<subseteq> set (H u) \<union> set (queue e u)" for u
    using G set_remove1_subset [of r "H v"] by (cases "u = v") auto
  have "sorted_wrt (<) (map trigger (queue e' u)) \<and>
     (\<forall>h\<in>set (?H u). \<forall>q\<in>set (queue e' u). trigger h < trigger q)" for u
  proof (cases "u = v")
    case True
    have "sorted_wrt (<) (map trigger (G @ queue e' v))" "\<forall>h\<in>set (H v). \<forall>q\<in>set (G @ queue e' v). trigger h < trigger q"
      using ord unfolding order_inv_def by (metis G(1))+
    then show ?thesis using True set_remove1_subset [of r "H v"] by (auto simp: sorted_wrt_append)
  next
    case False
    with ord G(2) show ?thesis unfolding order_inv_def by simp
  qed
  moreover have "\<forall>x\<in>set (?H v') \<union> set (queue e' v'). trigger x < b" if "Append w v' b \<in># T'" for w v' b
    using ord app [OF that] sub [of v'] unfolding order_inv_def by blast
  moreover have "b = b'" if "Append w u b \<in># T'" "Append w' u' b' \<in># T'" for w u b w' u' b'
    using ord app [OF that(1)] app [OF that(2)] unfolding order_inv_def by blast
  ultimately show ?thesis unfolding order_inv_def by blast
qed

lemma act_step:
  assumes inv: "sched_inv e T R H" and T: "a \<in># T" and ready: "action_ready a T"
  obtains e' bs H' where "act a e = Inr (e', bs)"
    and "sched_inv e' (T - {#a#} + mset (map Decr bs)) R H'"
    and "next_blk e' = next_blk e" and "live e' = live e"
    and "\<forall>c. live e R c \<longrightarrow> bdeps e' c = bdeps e c"
    and "order_inv e T H \<Longrightarrow> order_inv e' (T - {#a#} + mset (map Decr bs)) H'"
    and "\<forall>c. wc e' c \<le> wc e c"
    and "\<forall>b. a = PushEnd b \<or> a = Decr b \<longrightarrow> live e R b \<and> 0 < wc e b \<and> wc e' b < wc e b"
proof (cases a)
  case (Append w v b)
  have T': "Append w v b \<in># T" using T Append by simp
  obtain e' H' where s: "act (Append w v b) e = Inr (e', [])" "sched_inv e' (T - {#Append w v b#}) R H'"
    "queue e v = [] \<and> H' = H(v := H v @ [dep b w]) \<and> queue e' = queue e \<or>
         H' = H \<and> queue e' = (queue e)(v := queue e v @ [dep b w])"
    "next_blk e' = next_blk e" "live e' = live e" "bdeps e' = bdeps e" "\<forall>c. wc e' c \<le> wc e c"
    by (rule append_inv [OF inv T'])
  show ?thesis
    by (rule that [of e' "[]" H']) (use s Append order_inv_append [OF _ inv T' s(3)] in simp_all)
next
  case (PushEnd b)
  obtain e' where s: "decr_dispatch True b e = Inr e'" "sched_inv e' (T - {#a#}) R H" "lockv e' = lockv e"
    "next_blk e' = next_blk e" "live e' = live e" "bdeps e' = bdeps e"
    "live e R b" "0 < wc e b" "wc e' = (wc e)(b := wc e b - 1)"
    by (rule decr_dispatch_inv [OF inv T, of b]) (use PushEnd ready in \<open>auto simp: action_ready_def\<close>)
  have "queue e' = queue e" by (rule ext) (simp add: queue_def s(3))
  then show ?thesis
    by (intro that [of e' "[]" H]) (use s PushEnd in \<open>auto intro: order_inv_cong dest: in_diffD\<close>)
next
  case (Complete w v b)
  have T': "Complete w v b \<in># T" using T Complete by simp
  obtain e' G where s: "act (Complete w v b) e = Inr (e', map trigger G)"
    "sched_inv e' (T - {#Complete w v b#} + mset (map Decr (map trigger G))) R (H(v := remove1 (dep b w) (H v) @ G))"
    "queue e v = G @ queue e' v" "\<forall>u. u \<noteq> v \<longrightarrow> queue e' u = queue e u"
    "next_blk e' = next_blk e" "live e' = live e" "bdeps e' = bdeps e" "wc e' = wc e"
    by (rule complete_inv [OF inv T'])
  have app: "Append w' v' b' \<in># T" if "Append w' v' b' \<in># T - {#Complete w v b#} + mset (map Decr (map trigger G))" for w' v' b'
    using that by (auto dest: in_diffD)
  have "order_inv e' (T - {#Complete w v b#} + mset (map Decr (map trigger G)))
      (H(v := remove1 (dep b w) (H v) @ G))" if "order_inv e T H"
    by (rule order_inv_complete [OF that s(3,4)]) (rule app)
  then show ?thesis
    by (intro that [of e' "map trigger G" "H(v := remove1 (dep b w) (H v) @ G)"])
      (use s Complete in \<open>simp_all del: mset_map map_map\<close>)
next
  case (Decr b)
  obtain e' where s: "decr_dispatch False b e = Inr e'" "sched_inv e' (T - {#a#}) R H" "lockv e' = lockv e"
    "next_blk e' = next_blk e" "live e' = live e" "bdeps e' = bdeps e"
    "live e R b" "0 < wc e b" "wc e' = (wc e)(b := wc e b - 1)"
    by (rule decr_dispatch_inv [OF inv T, of b]) (use Decr in auto)
  have "queue e' = queue e" by (rule ext) (simp add: queue_def s(3))
  then show ?thesis
    by (intro that [of e' "[]" H]) (use s Decr in \<open>auto intro: order_inv_cong dest: in_diffD\<close>)
next
  case (OprEnd b oh tmp)
  have T': "OprEnd b oh tmp \<in># T" and none: "\<And>w v. Complete w v b \<notin># T"
    using T ready OprEnd by (auto simp: action_ready_def)
  obtain e' where s: "act (OprEnd b oh tmp) e = Inr (e', [])" "sched_inv e' (T - {#OprEnd b oh tmp#}) R H"
    "lockv e' = lockv e" "next_blk e' = next_blk e" "live e' = live e"
    "\<forall>c. live e R c \<longrightarrow> bdeps e' c = bdeps e c" "wc e' = wc e"
    by (rule opr_end_inv [OF inv T' none])
  have "queue e' = queue e" by (rule ext) (simp add: queue_def s(3))
  then show ?thesis
    by (intro that [of e' "[]" H]) (use s OprEnd in \<open>auto intro: order_inv_cong dest: in_diffD\<close>)
qed
section \<open>The invariant of the machine\<close>

abbreviation acts :: "mach \<Rightarrow> action multiset" where
  "acts s \<equiv> mset (concat (threads s))"

lemma acts_split:
  assumes "i < length ths" and "ths ! i = a # rest"
  obtains ths1 ths2 where "ths = ths1 @ (a # rest) # ths2"
    and "\<And>th. ths[i := th] = ths1 @ th # ths2"
  using assms id_take_nth_drop [OF assms(1)] upd_conv_take_nth_drop [OF assms(1)] by metis

lemma acts_update:
  assumes "i < length ths" and "ths ! i = a # rest"
  shows "mset (concat (ths[i := new @ rest])) = mset (concat ths) - {#a#} + mset new"
    and "a \<in># mset (concat ths)"
proof -
  obtain ths1 ths2 where s: "ths = ths1 @ (a # rest) # ths2" "\<And>th. ths[i := th] = ths1 @ th # ths2"
    by (rule acts_split [OF assms]) blast
  show "mset (concat (ths[i := new @ rest])) = mset (concat ths) - {#a#} + mset new"
    unfolding s(2) unfolding s(1) by simp
  show "a \<in># mset (concat ths)" unfolding s(1) by simp
qed

text \<open>The last action of a thread comes after all the others that belong to its block.\<close>

lemma thread_ready:
  assumes inv: "act_inv e (mset (concat ths)) R" and ok: "\<forall>th\<in>set ths. thread_ok th"
    and i: "i < length ths" "ths ! i = a # rest"
  shows "action_ready a (mset (concat ths))"
proof -
  obtain ths1 ths2 where s: "ths = ths1 @ (a # rest) # ths2" by (rule acts_split [OF i]) blast
  let ?others = "concat (ths1 @ ths2)"
  have T: "mset (concat ths) = mset (a # rest) + mset ?others" unfolding s by simp
  have ok1: "thread_ok (a # rest)" using ok unfolding s by simp
  have ok2: "thread_ok th" if "th \<in> set (ths1 @ ths2)" for th using ok that unfolding s by auto
  show ?thesis unfolding action_ready_def
  proof (intro conjI allI impI)
    fix b w v
    assume a: "a = PushEnd b"
    then have rest: "rest = []" using ok1 by (auto simp: thread_ok_def split: if_splits)
    show "Append w v b \<notin># mset (concat ths)"
    proof
      assume "Append w v b \<in># mset (concat ths)"
      then have "Append w v b \<in> set ?others" using a rest unfolding T by auto
      then obtain th where th: "th \<in> set (ths1 @ ths2)" "Append w v b \<in> set th" by auto
      then have "last th = PushEnd b"
        using ok2 [OF th(1)] by (cases th rule: rev_cases) (auto simp: thread_ok_def)
      then have "PushEnd b \<in> set th" using th(2) by (metis empty_iff last_in_set list.set(1))
      then have "PushEnd b \<in> set ?others" using th(1) by auto
      then have "0 < count (mset ?others) (PushEnd b)" by simp
      then have "1 < count (mset (concat ths)) (PushEnd b)" unfolding T using a by simp
      with act_invD(8) [OF inv, of b] show False by simp
    qed
  next
    fix b oh tmp w v
    assume a: "a = OprEnd b oh tmp"
    then have rest: "rest = []" using ok1 by (auto simp: thread_ok_def split: if_splits)
    show "Complete w v b \<notin># mset (concat ths)"
    proof
      assume "Complete w v b \<in># mset (concat ths)"
      then have "Complete w v b \<in> set ?others" using a rest unfolding T by auto
      then obtain th where th: "th \<in> set (ths1 @ ths2)" "Complete w v b \<in> set th" by auto
      then obtain oh' tmp' where "last th = OprEnd b oh' tmp'"
        using ok2 [OF th(1)] by (cases th rule: rev_cases) (auto simp: thread_ok_def)
      then have "OprEnd b oh' tmp' \<in> set th" using th(2) by (metis empty_iff last_in_set list.set(1))
      then have "OprEnd b oh' tmp' \<in> set ?others" using th(1) by auto
      then have "OprEnd b oh' tmp' \<in># filter_mset (is_end b) (mset ?others)" by simp
      then have "0 < size (filter_mset (is_end b) (mset ?others))" by (metis nonempty_has_size empty_iff set_mset_empty)
      then have "1 < size (filter_mset (is_end b) (mset (concat ths)))" unfolding T using a rest by simp
      with act_invD(4) [OF inv, of b] show False by (simp add: of_bool_def split: if_splits)
    qed
  qed
qed

lemma thread_ok_step:
  assumes "thread_ok (a # rest)" and "bs = [] \<or> (\<exists>w v b. a = Complete w v b)"
  shows "thread_ok (map Decr bs @ rest)"
  using assms by (cases rest rule: rev_cases) (auto simp: thread_ok_def butlast_append split: if_splits)

lemma act_triggers: "act a e = Inr (e', bs) \<Longrightarrow> bs = [] \<or> (\<exists>w v b. a = Complete w v b)"
  by (cases a) (auto simp: rbind_Inr_iff rmap_Inr_iff rcheck_Inr_iff Let_def split: if_splits prod.splits)
lemma thread_step_inv:
  assumes inv: "mach_inv s H" and i: "i < length (threads s)" "threads s ! i = a # rest"
  obtains e bs H' where "act a (eng s) = Inr (e, bs)"
    and "mach_inv (s\<lparr>eng := e, threads := (threads s)[i := map Decr bs @ rest]\<rparr>) H'"
    and "next_blk e = next_blk (eng s)" and "live e = live (eng s)"
    and "\<forall>c. live (eng s) (running s) c \<longrightarrow> bdeps e c = bdeps (eng s) c"
    and "order_inv (eng s) (acts s) H \<longrightarrow> order_inv e (mset (concat ((threads s)[i := map Decr bs @ rest]))) H'"
    and "\<forall>c. wc e c \<le> wc (eng s) c"
    and "\<forall>b. a = PushEnd b \<or> a = Decr b \<longrightarrow> live (eng s) (running s) b \<and> 0 < wc (eng s) b \<and> wc e b < wc (eng s) b"
proof -
  have sched: "sched_inv (eng s) (acts s) (running s) H" and ok: "\<forall>th\<in>set (threads s). thread_ok th"
    using inv by (simp_all add: mach_inv_def)
  have ready: "action_ready a (acts s)" by (rule thread_ready [OF sched_invD(5) [OF sched] ok i])
  obtain e bs H' where s: "act a (eng s) = Inr (e, bs)"
    "sched_inv e (acts s - {#a#} + mset (map Decr bs)) (running s) H'"
    "next_blk e = next_blk (eng s)" "live e = live (eng s)"
    "\<forall>c. live (eng s) (running s) c \<longrightarrow> bdeps e c = bdeps (eng s) c"
    "order_inv (eng s) (acts s) H \<Longrightarrow> order_inv e (acts s - {#a#} + mset (map Decr bs)) H'"
    "\<forall>c. wc e c \<le> wc (eng s) c"
    "\<forall>b. a = PushEnd b \<or> a = Decr b \<longrightarrow> live (eng s) (running s) b \<and> 0 < wc (eng s) b \<and> wc e b < wc (eng s) b"
    using act_step [OF sched acts_update(2) [OF i] ready] by metis
  have upd: "mset (concat ((threads s)[i := map Decr bs @ rest])) = acts s - {#a#} + mset (map Decr bs)"
    by (rule acts_update(1) [OF i])
  have "thread_ok (a # rest)" using ok i by (metis nth_mem)
  then have "thread_ok (map Decr bs @ rest)" using act_triggers [OF s(1)] by (rule thread_ok_step)
  then have "\<forall>th\<in>set ((threads s)[i := map Decr bs @ rest]). thread_ok th"
    using ok set_update_subset_insert [of "threads s" i "map Decr bs @ rest"] by blast
  then show ?thesis
    using s upd by (intro that [of e bs H']) (simp_all add: mach_inv_def del: mset_map map_map mset_concat)
qed

lemma thread_ok_push: "thread_ok (push_actions b t)"
  by (auto simp: thread_ok_def deps_actions butlast_append)

lemma thread_ok_complete: "thread_ok (complete_actions b oh t)"
  by (auto simp: thread_ok_def deps_actions butlast_append)

lemma take_block_views:
  "lockv (take_block p e) = lockv e" "oprv (take_block p e) = oprv e" "blks (take_block p e) = blks e"
  "next_blk (take_block p e) = next_blk e" "next_opr (take_block p e) = next_opr e"
  "next_var (take_block p e) = next_var e" "pending (take_block p e) = pending e"
  "wc (take_block p e) = wc e" "bdeps (take_block p e) = bdeps e" "queue (take_block p e) = queue e"
  "executing (take_block p e) = remove1 p (executing e)"
  by (simp_all add: take_block_def fun_eq_iff wc_def queue_def bdeps_cong)

lemma active_take_block:
  assumes "p \<in> set (executing e)"
  shows "mset (active (take_block p e) R) = mset (active e R) - {#fst p#}"
proof -
  have "mset (map fst (executing e)) = add_mset (fst p) (mset (map fst (remove1 p (executing e))))"
    using assms by (induction "executing e" arbitrary: e) (auto simp: image_mset_Diff)
  then show ?thesis by (simp add: active_def take_block_views)
qed

lemma run_inv:
  assumes inv: "sched_inv e T R H" and b: "(b, p) \<in> set (executing e)" and core: "same_core e e'"
    and k: "blks e' b = Some k" and t: "oprs e' (blk_opr k) = Some t"
  shows "sched_inv (note_error (blk_opr k) err (take_block (b, p) e'))
     (T + mset (complete_actions b (blk_opr k) t)) R H"
proof -
  note v = same_core_views [OF core]
  have inv': "sched_inv e' T R H" by (rule sched_inv_same_core [OF core inv])
  have b': "(b, p) \<in> set (executing e')" using b v by simp
  have act: "b \<in> set (active e' R)" using b' by (force simp: active_def)
  have "sched_inv (take_block (b, p) e') (T + mset (complete_actions b (blk_opr k) t)) R H"
    unfolding deps_actions
    by (rule finish_inv [OF inv' _ k, of _ _ "opr_fn t"])
      (use t act active_take_block [OF b', of R] in \<open>simp_all add: take_block_views oprv_def\<close>)
  then show ?thesis by (rule sched_inv_same_core [OF note_error_core])
qed

lemma start_block_inv:
  assumes inv: "sched_inv e T R H" and b: "(b, p) \<in> set (executing e)" and core: "same_core e e'"
  shows "sched_inv (take_block (b, p) e') T (R @ [b]) H"
proof -
  have b': "(b, p) \<in> set (executing e')" using b same_core_views [OF core] by simp
  have "mset (active (take_block (b, p) e') (R @ [b])) = mset (active e' R)"
    using active_take_block [OF b', of "R @ [b]"] b' by (simp add: active_def)
  then show ?thesis
    by (intro start_inv [OF sched_inv_same_core [OF core inv]]) (simp_all add: take_block_views)
qed

lemma callback_inv:
  assumes inv: "sched_inv e T R H" and b: "b \<in> set R"
    and k: "blks e b = Some k" and t: "oprs e (blk_opr k) = Some t"
  shows "sched_inv (note_error (blk_opr k) err e) (T + mset (complete_actions b (blk_opr k) t)) (remove1 b R) H"
proof -
  have "sched_inv e (T + mset (complete_actions b (blk_opr k) t)) (remove1 b R) H"
    unfolding deps_actions
    by (rule finish_inv [OF inv _ k, of _ _ "opr_fn t"])
      (use b t in \<open>auto simp: active_def oprv_def\<close>)
  then show ?thesis by (rule sched_inv_same_core [OF note_error_core])
qed

end
