(* ===== verification/MX_Serial.thy ===== *)
theory MX_Serial
  imports MX_Runs
begin

text \<open>
  Theorems on the runs of the dependency engine. In every reachable state the invariant holds,
  no check of the engine can fail and conflicting operations are never active together. In runs
  whose pushes are not interleaved with each other, conflicting operations start in the order
  they were pushed, the engine drains, and the results are those of running the operations one
  after the other in the order of the pushes. Two interleaved pushes can block each other for
  ever.
\<close>

section \<open>Reachable states\<close>

lemma mach_inv_init: "mach_inv mach0 (\<lambda>_. [])"
  by (simp add: mach_inv_def mach0_def ThreadedEngine_def sched_inv_def var_inv_def obj_inv_def dep_inv_def
      wait_inv_def act_inv_def lockv_def oprv_def queue_def live_def wc_def active_def)

lemma triggers_old:
  assumes inv: "sched_inv e T R H" and x: "x \<in> set (H v) \<union> set (queue e v)"
  shows "blks e (trigger x) \<noteq> None" and "trigger x < next_blk e"
    and "live e R (trigger x) \<or> (\<exists>w v. Complete w v (trigger x) \<in># T)"
proof -
  obtain b w where b: "x = dep b w" by (cases x) simp
  show live: "live e R (trigger x) \<or> (\<exists>w v. Complete w v (trigger x) \<in># T)"
  proof (rule disjCI)
    assume "\<nexists>w v. Complete w v (trigger x) \<in># T"
    then have "count T (Complete w v b) = 0" by (simp add: b count_eq_zero_iff)
    then have "0 < cnt (H v) b w + cnt (queue e v) b w"
      using x cnt_pos [of "H v" b w] cnt_pos [of "queue e v" b w] by (auto simp: b)
    moreover have "\<not> live e R b \<longrightarrow> cnt (H v) b w + cnt (queue e v) b w = 0"
      using finished_cnt(2,3) [OF inv, of b v w] \<open>count T (Complete w v b) = 0\<close> by simp
    ultimately show "live e R (trigger x)" unfolding b by (metis VersionedVarBlock.select_convs(1) less_irrefl)
  qed
  then show "blks e (trigger x) \<noteq> None"
    using live_blk [OF inv] act_invD(6) [OF sched_invD(5) [OF inv]] by (metis option.discI)
  then show "trigger x < next_blk e" using sched_invD(2) [OF inv] unfolding obj_inv_def by blast
qed

lemma order_inv_push:
  assumes ord: "order_inv e T H" and inv: "sched_inv e T R H" and "queue e' = queue e"
    and none: "\<And>b. PushEnd b \<notin># T"
  shows "order_inv e' (T + mset (push_actions (next_blk e) t)) H"
proof -
  have "Append w v b \<notin># T" for w v b using none act_invD(7) [OF sched_invD(5) [OF inv]] by blast
  then have "Append w v b \<in># T + mset (push_actions (next_blk e) t) \<Longrightarrow> b = next_blk e" for w v b
    by (auto simp: push_actions_def)
  then show ?thesis
    using ord triggers_old(2) [OF inv] assms(3) unfolding order_inv_def by metis
qed

text \<open>A push that starts when no other push is under way.\<close>

definition push_alone :: "mach \<Rightarrow> mach \<Rightarrow> bool" where
  "push_alone s s' \<longleftrightarrow> (next_blk (eng s') \<noteq> next_blk (eng s) \<longrightarrow> (\<forall>b. PushEnd b \<notin> set (concat (threads s))))"

text \<open>One step: the invariant with the grants after it, and what becomes of the order of the queues.\<close>

definition keeps :: "mach \<Rightarrow> mach \<Rightarrow> (nat \<Rightarrow> VersionedVarBlock list) \<Rightarrow> (nat \<Rightarrow> VersionedVarBlock list) \<Rightarrow> bool" where
  "keeps s s' H H' \<longleftrightarrow> mach_inv s' H' \<and>
    (push_alone s s' \<longrightarrow> order_inv (eng s) (acts s) H \<longrightarrow> order_inv (eng s') (acts s') H')"

lemma keeps_same:
  assumes "sched_inv (eng s') (acts s') (running s') H" and "\<forall>th\<in>set (threads s'). thread_ok th"
    and "queue (eng s') = queue (eng s)" and "\<And>w v b. Append w v b \<in># acts s' \<Longrightarrow> Append w v b \<in># acts s"
  shows "keeps s s' H H"
  using assms(1,2) order_inv_cong [OF _ assms(3,4)] unfolding keeps_def mach_inv_def by blast

lemma executing_ok:
  assumes sched: "sched_inv e T R H" and b: "(b, p) \<in> set (executing e)"
  obtains k e' r where "blks e b = Some k" and "execute_fn c b e = Inr (e', r)" and "same_core e e'"
proof -
  have "b \<in> set (active e R)" using b by (force simp: active_def)
  then obtain k where k: "blks e b = Some k" using act_invD(2) [OF sched_invD(5) [OF sched]] by blast
  then show ?thesis using execute_fn_core [OF sched_invD(2) [OF sched] k] that by metis
qed

lemma executing_core:
  assumes "sched_inv e T R H" and "(b, p) \<in> set (executing e)" and "execute_fn c b e = Inr (e', r)"
  shows "same_core e e'"
  using executing_ok [OF assms(1,2), of c] assms(3) by (metis Inr_inject fst_conv)

lemma estep_inv:
  assumes step: "estep c s s'" and inv: "mach_inv s H"
  shows "\<exists>H'. keeps s s' H H'"
proof -
  have sched: "sched_inv (eng s) (acts s) (running s) H" and ok: "\<forall>th\<in>set (threads s). thread_ok th"
    using inv by (simp_all add: mach_inv_def)
  from step show ?thesis
  proof cases
    case new_variable
    have "lockv (eng s) (next_var (eng s)) = None"
      using sched_invD(2) [OF sched] unfolding obj_inv_def by blast
    then have "queue (eng s') = queue (eng s)"
      by (auto simp: new_variable NewVariable_def queue_def lockv_def fun_eq_iff waiting_def ThreadedVar_def)
    then show ?thesis
      using keeps_same [of s' H s] new_variable new_variable_inv [OF sched] ok by auto
  next
    case (new_operator cs ms f pr w e oh tmp)
    have "lockv (eng s') = lockv (eng s)"
      using new_operator by (auto simp: NewOperator_def rbind_Inr_iff set_temporary_def lockv_def)
    then have "queue (eng s') = queue (eng s)" by (simp add: queue_def fun_eq_iff)
    then show ?thesis
      using keeps_same [of s' H s] new_operator new_operator_inv [OF sched new_operator(2-5) refl, of tmp] ok by auto
  next
    case (push oh ctx prio e b t)
    have acts': "acts s' = acts s + mset (push_actions b t)" using push by simp
    have fields: "lockv e = lockv (eng s)" "next_blk e = Suc (next_blk (eng s))"
      using push(2) by (auto simp: new_block_def rbind_Inr_iff lockv_def fun_eq_iff)
    then have "queue (eng s') = queue (eng s)" by (simp add: push queue_def fun_eq_iff)
    moreover have "sched_inv (eng s') (acts s') (running s') H"
      using push_inv [OF sched push(2,3)] unfolding acts' by (simp add: push deps_actions)
    moreover have "\<forall>th\<in>set (threads s'). thread_ok th" using ok thread_ok_push by (simp add: push)
    moreover have "order_inv (eng s') (acts s') H" if "push_alone s s'" "order_inv (eng s) (acts s) H"
      using order_inv_push [OF that(2) sched calculation(1), of t] that(1) push(2) fields
      unfolding acts' push_alone_def by (auto simp: push(1) new_block_def rbind_Inr_iff)
    ultimately show ?thesis unfolding keeps_def mach_inv_def by blast
  next
    case (thread i a rest e bs)
    obtain e' bs' H' where t: "act a (eng s) = Inr (e', bs')"
      "mach_inv (s\<lparr>eng := e', threads := (threads s)[i := map Decr bs' @ rest]\<rparr>) H'"
      "order_inv (eng s) (acts s) H \<longrightarrow> order_inv e' (mset (concat ((threads s)[i := map Decr bs' @ rest]))) H'"
      by (rule thread_step_inv [OF inv thread(2,3)])
    with thread have "e' = e" "bs' = bs" by simp_all
    with t show ?thesis unfolding keeps_def thread(1) by (intro exI [of _ H']) simp
  next
    case (run b p e err k t)
    have core: "same_core (eng s) e" by (rule executing_core [OF sched run(2,3)])
    note inv' = run_inv [OF sched run(2) core run(4,5), of err]
    have acts': "acts s' = acts s + mset (complete_actions b (blk_opr k) t)" using run by simp
    have "queue (eng s') = queue (eng s)"
      using same_core_views(1) [OF core] same_core_views(1) [OF note_error_core] by (simp add: run take_block_views)
    then show ?thesis
      using keeps_same [of s' H s] inv' ok thread_ok_complete unfolding acts'
      by (auto simp: run complete_actions_def)
  next
    case (start b p e)
    have core: "same_core (eng s) e" by (rule executing_core [OF sched start(2,3)])
    have "queue (eng s') = queue (eng s)" using same_core_views(1) [OF core] by (simp add: start take_block_views)
    then show ?thesis
      using keeps_same [of s' H s] start_block_inv [OF sched start(2) core] ok by (auto simp: start)
  next
    case (callback b k t err)
    have acts': "acts s' = acts s + mset (complete_actions b (blk_opr k) t)" using callback by simp
    have "queue (eng s') = queue (eng s)" using same_core_views(1) [OF note_error_core] by (simp add: callback)
    then show ?thesis
      using keeps_same [of s' H s] callback_inv [OF sched callback(2-4), of err] ok thread_ok_complete unfolding acts'
      by (auto simp: callback complete_actions_def)
  qed
qed

lemma reachable_inv: "reachable c s \<Longrightarrow> \<exists>H. mach_inv s H"
proof (induction rule: reachable.induct)
  case init
  show ?case using mach_inv_init by blast
next
  case (step s s')
  then show ?case using estep_inv unfolding keeps_def by blast
qed
section \<open>Safety\<close>

definition conflict :: "(nat \<times> bool) list \<Rightarrow> (nat \<times> bool) list \<Rightarrow> bool" where
  "conflict D D' \<longleftrightarrow> (\<exists>(v, w)\<in>set D. \<exists>(v', w')\<in>set D'. v' = v \<and> (w \<or> w'))"

lemma conflictI: "(v, w) \<in> set D \<Longrightarrow> (v, w') \<in> set D' \<Longrightarrow> w \<or> w' \<Longrightarrow> conflict D D'"
  unfolding conflict_def by blast

lemma conflict_sym: "conflict D D' \<longleftrightarrow> conflict D' D"
  unfolding conflict_def by blast

lemma var_rel_conflict:
  assumes "var_rel x H" and "dep b w \<in> set H" and "dep b' w' \<in> set H" and "w \<or> w'"
  shows "b = b'"
proof -
  have "\<not> all_reads H" using assms(2-4) by (force simp: all_reads_def)
  then obtain x where "H = [x]" using assms(1) by (auto simp: var_rel_def split: option.splits if_splits)
  with assms(2,3) have "dep b w = dep b' w'" by simp
  then show ?thesis by simp
qed

lemma holders_no_conflict:
  assumes inv: "sched_inv e T R H" and "dep b w \<in> set (H v)" "dep b' w' \<in> set (H v)" and "w \<or> w'"
  shows "b = b'"
proof -
  have "case lockv e v of None \<Rightarrow> H v = [] | Some x \<Rightarrow> var_rel x (H v) \<and> \<not> to_delete x"
    using sched_invD(1) [OF inv] by (simp add: var_inv_def)
  with assms show ?thesis by (cases "lockv e v") (auto intro: var_rel_conflict)
qed

lemma active_holds:
  assumes "sched_inv e T R H" and "b \<in> set (active e R)" and "(v, w) \<in> set (bdeps e b)"
  shows "dep b w \<in> set (H v)"
  using active_inv(3) [OF assms(1,2), of v w] assms(3) cnt_pos [of "H v" b w] by simp

lemma active_no_conflict:
  assumes inv: "sched_inv e T R H" and "b \<in> set (active e R)" "b' \<in> set (active e R)"
    and "conflict (bdeps e b) (bdeps e b')"
  shows "b = b'"
proof -
  obtain v w w' where "(v, w) \<in> set (bdeps e b)" "(v, w') \<in> set (bdeps e b')" "w \<or> w'"
    using assms(4) by (auto simp: conflict_def)
  then show ?thesis using active_holds [OF inv] assms(2,3) holders_no_conflict [OF inv] by metis
qed

text \<open>In a reachable state no action of a thread and no operation that a worker takes fails.\<close>

lemma reachable_no_fault:
  assumes "reachable c s"
  shows "\<forall>th\<in>set (threads s). th \<noteq> [] \<longrightarrow> is_ok (act (hd th) (eng s))"
    and "\<forall>(b, p)\<in>set (executing (eng s)). is_ok (execute_fn c b (eng s))"
proof -
  obtain H where inv: "mach_inv s H" using reachable_inv [OF assms] by blast
  show "\<forall>th\<in>set (threads s). th \<noteq> [] \<longrightarrow> is_ok (act (hd th) (eng s))"
  proof (intro ballI impI)
    fix th assume "th \<in> set (threads s)" "th \<noteq> []"
    then obtain i a rest where i: "i < length (threads s)" "threads s ! i = a # rest" "th = a # rest"
      by (metis in_set_conv_nth list.exhaust)
    obtain e bs where "act a (eng s) = Inr (e, bs)" by (rule thread_step_inv [OF inv i(1,2)])
    then show "is_ok (act (hd th) (eng s))" by (simp add: i(3) del: act.simps)
  qed
  have sched: "sched_inv (eng s) (acts s) (running s) H" using inv by (simp add: mach_inv_def)
  show "\<forall>(b, p)\<in>set (executing (eng s)). is_ok (execute_fn c b (eng s))"
    using executing_ok [OF sched, of _ _ c] by (auto simp: is_ok_iff) (metis)
qed

section \<open>Pushes that are not interleaved\<close>

text \<open>A step that pushes starts only when no other push is under way.\<close>

definition serial_step :: "client \<Rightarrow> mach \<Rightarrow> mach \<Rightarrow> bool" where
  "serial_step c s s' \<longleftrightarrow> estep c s s' \<and> push_alone s s'"

inductive serial_reachable :: "client \<Rightarrow> mach \<Rightarrow> bool" for c where
  init: "serial_reachable c mach0"
| step: "serial_reachable c s \<Longrightarrow> serial_step c s s' \<Longrightarrow> serial_reachable c s'"

lemma serial_reachable_reachable: "serial_reachable c s \<Longrightarrow> reachable c s"
  by (induction rule: serial_reachable.induct) (auto intro: reachable.intros simp: serial_step_def)

lemma serial_order:
  assumes "serial_reachable c s"
  shows "\<exists>H. mach_inv s H \<and> order_inv (eng s) (acts s) H"
  using assms
proof (induction rule: serial_reachable.induct)
  case init
  have "order_inv (eng mach0) (acts mach0) (\<lambda>_. [])"
    by (simp add: order_inv_def mach0_def ThreadedEngine_def queue_def lockv_def)
  with mach_inv_init show ?case by blast
next
  case (step s s')
  then obtain H where H: "mach_inv s H" "order_inv (eng s) (acts s) H" by blast
  have es: "estep c s s'" using step(2) by (simp add: serial_step_def)
  obtain H' where H': "keeps s s' H H'" using estep_inv [OF es H(1)] by blast
  with H step(2) show ?case unfolding keeps_def serial_step_def by blast
qed
section \<open>Progress\<close>

lemma order_invD:
  assumes "order_inv e T H"
  shows "h \<in> set (H v) \<Longrightarrow> q \<in> set (queue e v) \<Longrightarrow> trigger h < trigger q"
    and "Append w v b \<in># T \<Longrightarrow> h \<in> set (H v) \<Longrightarrow> trigger h < b"
  using assms unfolding order_inv_def by blast+

lemma queue_has_holder:
  assumes inv: "sched_inv e T R H" and "queue e v \<noteq> []"
  shows "H v \<noteq> []"
proof -
  have "case lockv e v of None \<Rightarrow> H v = [] | Some x \<Rightarrow> var_rel x (H v) \<and> \<not> to_delete x"
    using sched_invD(1) [OF inv] by (simp add: var_inv_def)
  with assms(2) show ?thesis
    by (cases "lockv e v") (auto simp: queue_def var_rel_def waiting_def split: option.splits if_splits)
qed

lemma serial_progress:
  assumes "serial_reachable c s" and "pending (eng s) \<noteq> 0"
  shows "concat (threads s) \<noteq> [] \<or> active (eng s) (running s) \<noteq> []"
proof (rule ccontr)
  let ?e = "eng s" and ?R = "running s"
  assume "\<not> ?thesis"
  then have T: "concat (threads s) = []" and A: "active ?e ?R = []" by auto
  obtain H where H: "mach_inv s H" "order_inv ?e (acts s) H" using serial_order [OF assms(1)] by blast
  then have sched: "sched_inv ?e {#} ?R H" using T by (simp add: mach_inv_def)
  have fin: "finite (dom (blks ?e))" and "pending ?e = int (card (dom (blks ?e)))"
    using sched_invD(2) [OF sched] unfolding obj_inv_def by blast+
  with assms(2) have ne: "dom (blks ?e) \<noteq> {}" by auto
  define b where "b = Min (dom (blks ?e))"
  have b: "blks ?e b \<noteq> None" using Min_in [OF fin ne] by (simp add: b_def dom_def)
  have live: "live ?e ?R c" if "blks ?e c \<noteq> None" for c
    using act_invD(4) [OF sched_invD(5) [OF sched], of c] that by simp
  have "0 < wc ?e b" using live [OF b] A by (simp add: live_def)
  then have "held ?e H b \<noteq> length (bdeps ?e b)"
    using sched_invD(4) [OF sched, unfolded wait_inv_def, rule_format, of b] live [OF b] by simp
  then obtain v w where vw: "(v, w) \<in> set (bdeps ?e b)" "cnt (H v) b w \<noteq> 1"
    using held_le(2) [OF sched live [OF b]] by auto
  have "cnt (queue ?e v) b w + cnt (H v) b w = 1" using live_cnt(1) [OF sched live [OF b], of w v] vw(1) by simp
  then have q: "dep b w \<in> set (queue ?e v)" using vw(2) cnt_pos [of "queue ?e v" b w] by linarith
  then have "H v \<noteq> []" by (intro queue_has_holder [OF sched]) auto
  then obtain h where h: "h \<in> set (H v)" using hd_in_set by blast
  have "trigger h < b" using order_invD(1) [OF H(2) h q] by simp
  moreover have "trigger h \<in> dom (blks ?e)" using triggers_old(1) [OF sched, of h v] h by auto
  ultimately show False using Min_le [OF fin] by (simp add: b_def leD)
qed

section \<open>The order in which operations start\<close>

definition in_order :: "(nat \<times> bool) list list \<Rightarrow> blk list \<Rightarrow> bool" where
  "in_order Ds xs \<longleftrightarrow>
    (\<forall>i<length xs. \<forall>b<xs ! i. conflict (Ds ! b) (Ds ! (xs ! i)) \<longrightarrow> b \<in> set (take i xs))"

lemma in_order_snoc:
  "in_order Ds (xs @ [x]) \<longleftrightarrow> in_order Ds xs \<and> (\<forall>b<x. conflict (Ds ! b) (Ds ! x) \<longrightarrow> b \<in> set xs)"
  by (auto simp: in_order_def nth_append less_Suc_eq)

lemma in_order_more:
  assumes "set xs \<subseteq> {..<length Ds}"
  shows "in_order (Ds @ [d]) xs \<longleftrightarrow> in_order Ds xs"
proof -
  have "xs ! i < length Ds" if "i < length xs" for i using assms nth_mem [OF that] by blast
  then have "(Ds @ [d]) ! (xs ! i) = Ds ! (xs ! i)" "\<And>b. b < xs ! i \<Longrightarrow> (Ds @ [d]) ! b = Ds ! b"
    if "i < length xs" for i using that by (force simp: nth_append)+
  then show ?thesis unfolding in_order_def by simp
qed

definition history_inv :: "mach \<Rightarrow> bool" where
  "history_inv s \<longleftrightarrow>
    distinct (started s) \<and> set (started s) = {b. b < next_blk (eng s) \<and> \<not> live (eng s) [] b} \<and>
    length (pushed s) = next_blk (eng s) \<and>
    (\<forall>b. live (eng s) (running s) b \<longrightarrow> bdeps (eng s) b = snd (pushed s ! b)) \<and>
    in_order (map snd (pushed s)) (started s)"

lemma history_cong:
  assumes "history_inv s" and "next_blk (eng s') = next_blk (eng s)" and "live (eng s') [] = live (eng s) []"
    and "\<And>b. live (eng s') (running s') b \<Longrightarrow> live (eng s) (running s) b \<and> bdeps (eng s') b = bdeps (eng s) b"
    and "started s' = started s" and "pushed s' = pushed s"
  shows "history_inv s'"
  using assms unfolding history_inv_def by auto

lemma live_more: "live e [] b \<Longrightarrow> live e R b"
  by (auto simp: live_def active_def)

text \<open>The earlier operations that conflict with a dispatched one have started.\<close>

lemma dispatched_after_conflicts:
  assumes inv: "sched_inv e T R H" and ord: "order_inv e T H"
    and b': "b' \<in> set (active e R)" and b: "b < b'" "live e R b" and conf: "conflict (bdeps e b) (bdeps e b')"
  shows False
proof -
  obtain v w w' where vw: "(v, w) \<in> set (bdeps e b)" "(v, w') \<in> set (bdeps e b')" "w \<or> w'"
    using conf by (auto simp: conflict_def)
  have h': "dep b' w' \<in> set (H v)" by (rule active_holds [OF inv b' vw(2)])
  have "count T (Append w v b) + cnt (queue e v) b w + cnt (H v) b w = 1"
    using live_cnt(1) [OF inv b(2), of w v] vw(1) by simp
  then consider "0 < count T (Append w v b)" | "0 < cnt (queue e v) b w" | "0 < cnt (H v) b w" by linarith
  then show False
  proof cases
    case 1
    then have "Append w v b \<in># T" by simp
    then have "b' < b" using order_invD(2) [OF ord _ h'] by simp
    with b(1) show False by simp
  next
    case 2
    then have "dep b w \<in> set (queue e v)" by (simp add: cnt_pos)
    then have "b' < b" using order_invD(1) [OF ord h'] by fastforce
    with b(1) show False by simp
  next
    case 3
    then have "dep b w \<in> set (H v)" by (simp add: cnt_pos)
    then have "b = b'" using holders_no_conflict [OF inv _ h'] vw(3) by blast
    with b(1) show False by simp
  qed
qed

lemma taken_block:
  assumes inv: "sched_inv e T R H" and b: "(b, p) \<in> set (executing e)"
  shows "b \<in> set (active e R)" and "b \<notin> set R" and "wc e b = 0"
    and "set (map fst (executing (take_block (b, p) e))) = set (map fst (executing e)) - {b}"
    and "live (take_block (b, p) e) R c \<longleftrightarrow> live e R c \<and> c \<noteq> b"
    and "live (take_block (b, p) e) [] c \<longleftrightarrow> live e [] c \<and> c \<noteq> b"
    and "live (take_block (b, p) e) (R @ [b]) c \<longleftrightarrow> live e R c"
proof -
  show act: "b \<in> set (active e R)" using b by (force simp: active_def)
  note A = sched_invD(5) [OF inv]
  show wc: "wc e b = 0" by (rule act_invD(3) [OF A act])
  have dist: "distinct (map fst (executing e))" using act_invD(1) [OF A] by (simp add: active_def)
  show R: "b \<notin> set R" using act_invD(1) [OF A] b by (force simp: active_def)
  have perm: "mset (map fst (executing (take_block (b, p) e))) = mset (remove1 b (map fst (executing e)))"
    using active_take_block [OF b, of "[]"] by (simp add: active_def)
  show ex: "set (map fst (executing (take_block (b, p) e))) = set (map fst (executing e)) - {b}"
    using mset_eq_setD [OF perm] set_remove1_eq [OF dist, of b] by simp
  have mem: "b \<in> set (map fst (executing e))" using b by force
  show "live (take_block (b, p) e) R c \<longleftrightarrow> live e R c \<and> c \<noteq> b"
    "live (take_block (b, p) e) [] c \<longleftrightarrow> live e [] c \<and> c \<noteq> b"
    "live (take_block (b, p) e) (R @ [b]) c \<longleftrightarrow> live e R c"
    using wc R mem unfolding live_def active_def set_append ex take_block_views(8) by auto
qed

lemma history_start:
  assumes hist: "history_inv s" and inv: "sched_inv (eng s) T (running s) H" and ord: "order_inv (eng s) T H"
    and b: "(b, p) \<in> set (executing (eng s))"
    and e': "next_blk (eng s') = next_blk (eng s)" "\<And>R. live (eng s') R = live (take_block (b, p) (eng s)) R"
      "bdeps (eng s') = bdeps (eng s)"
    and s': "started s' = started s @ [b]" "pushed s' = pushed s" "set (running s') \<subseteq> insert b (set (running s))"
  shows "history_inv s'"
proof -
  let ?e = "eng s"
  note tb = taken_block [OF inv b]
  note A = sched_invD(5) [OF inv] and act = tb(1)
  have live0: "live (eng s') [] c = (live ?e [] c \<and> c \<noteq> b)" for c
    unfolding e'(2) by (rule tb(6))
  have liveR: "live ?e (running s) c" if "live (eng s') (running s') c" for c
    using that tb(1,3,4) s'(3) by (auto simp: e'(2) live_def active_def take_block_views)
  have lb: "live ?e [] b" using b by (force simp: live_def active_def)
  have "blks ?e b \<noteq> None" by (rule act_invD(2) [OF A act])
  then have bn: "b < next_blk ?e" using sched_invD(2) [OF inv] unfolding obj_inv_def by blast
  have "c \<in> set (started s)" if c: "c < b" "conflict (map snd (pushed s) ! c) (map snd (pushed s) ! b)" for c
  proof (rule ccontr)
    assume "c \<notin> set (started s)"
    then have "live ?e [] c" using hist c(1) bn unfolding history_inv_def by auto
    then have "live ?e (running s) c" by (rule live_more)
    moreover have "live ?e (running s) b" using lb by (rule live_more)
    ultimately have "conflict (bdeps ?e c) (bdeps ?e b)"
      using hist c bn unfolding history_inv_def by auto
    with dispatched_after_conflicts [OF inv ord act c(1) \<open>live ?e (running s) c\<close>] show False by blast
  qed
  then have "in_order (map snd (pushed s')) (started s')"
    using hist unfolding history_inv_def s' in_order_snoc by blast
  then show ?thesis using hist lb bn live0 liveR e' s' unfolding history_inv_def by auto
qed
lemma bdeps_new_operator:
  assumes obj: "obj_inv e" and new: "NewOperator f cs ms pr w e = Inr (e1, oh)"
    and e': "e' = (if tmp then set_temporary oh e1 else e1)"
  shows "bdeps e' b = bdeps e b" and "live e' = live e" and "next_blk e' = next_blk e"
proof -
  have oh: "oh = next_opr e" using new by (auto simp: NewOperator_def rbind_Inr_iff)
  have fields: "oprv e' oh' = oprv e oh'" "blks e' = blks e" "executing e' = executing e" "next_blk e' = next_blk e"
    if "oh' \<noteq> oh" for oh'
    using new that unfolding e'
    by (auto simp: NewOperator_def rbind_Inr_iff set_temporary_def oprv_def)
  have f: "blks e' = blks e" "executing e' = executing e" "next_blk e' = next_blk e"
    using fields [of "Suc oh"] by simp_all
  then show "next_blk e' = next_blk e" "live e' = live e"
    by (simp_all add: fun_eq_iff live_def wc_def active_def)
  have "blk_opr k \<noteq> oh" if "blks e b = Some k" for k
    using obj that oh unfolding obj_inv_def by (metis order_refl)
  then show "bdeps e' b = bdeps e b" by (cases "blks e b") (simp_all add: bdeps_def f fields(1))
qed

lemma history_step:
  assumes step: "estep c s s'" and inv: "mach_inv s H" and ord: "order_inv (eng s) (acts s) H"
    and hist: "history_inv s"
  shows "history_inv s'"
proof -
  have sched: "sched_inv (eng s) (acts s) (running s) H" using inv by (simp add: mach_inv_def)
  from step show ?thesis
  proof cases
    case new_variable
    show ?thesis
      by (rule history_cong [OF hist])
        (simp_all add: new_variable NewVariable_def live_def wc_def active_def bdeps_cong fun_eq_iff)
  next
    case (new_operator cs ms f pr w e oh tmp)
    note n = bdeps_new_operator [OF sched_invD(2) [OF sched] new_operator(5), of _ tmp, OF refl]
    show ?thesis by (rule history_cong [OF hist]) (simp_all add: new_operator n)
  next
    case (push oh ctx prio e b t)
    have b: "b = next_blk (eng s)" and fields: "next_blk e = Suc b" "executing e = executing (eng s)"
      "oprv e = oprv (eng s)" "oprv e oh = Some (deps t, temporary t, opr_fn t)"
      and blks: "blks e b = Some k \<Longrightarrow> blk_opr k = oh \<and> 0 < wait k" "c \<noteq> b \<Longrightarrow> blks e c = blks (eng s) c"
      "blks e b \<noteq> None" for k c
      using push(2) by (auto simp: new_block_def the_opr_def oprv_def fun_eq_iff split: option.splits)
    have live: "live e R c = (if c = b then True else live (eng s) R c)" for R c
      using blks by (cases "c = b") (auto simp: live_def wc_def active_def fields)
    have deps: "bdeps e c = (if c = b then deps t else bdeps (eng s) c)" for c
    proof (cases "c = b")
      case True
      obtain k where k: "blks e b = Some k" using blks(3) by blast
      then show ?thesis using True fields(4) blks(1) [OF k] by (simp add: bdeps_def)
    next
      case False
      have "bdeps e c = bdeps (eng s) c" by (rule bdeps_cong [OF fields(3)]) (simp add: blks(2) [OF False])
      with False show ?thesis by simp
    qed
    have len: "length (pushed s) = b" "set (started s) \<subseteq> {..<length (map snd (pushed s))}"
      using hist b unfolding history_inv_def by auto
    have old: "c < b" if "live (eng s) (running s) c" "c \<noteq> b" for c
      using live_blk [OF sched that(1)] sched_invD(2) [OF sched] b unfolding obj_inv_def by metis
    have "in_order (map snd (pushed s')) (started s')"
      using in_order_more [OF len(2), of "deps t"] hist unfolding history_inv_def by (simp add: push)
    moreover have "set (started s') = {c. c < next_blk (eng s') \<and> \<not> live (eng s') [] c}"
      using hist b unfolding history_inv_def by (auto simp: push fields live less_Suc_eq)
    moreover have "\<forall>c. live (eng s') (running s') c \<longrightarrow> bdeps (eng s') c = snd (pushed s' ! c)"
      using hist len old unfolding history_inv_def by (auto simp: push live deps nth_append)
    ultimately show ?thesis using hist len unfolding history_inv_def by (simp add: push fields)
  next
    case (thread i a rest e bs)
    obtain e' bs' where t: "act a (eng s) = Inr (e', bs')"
      "next_blk e' = next_blk (eng s)" "live e' = live (eng s)"
      "\<forall>c. live (eng s) (running s) c \<longrightarrow> bdeps e' c = bdeps (eng s) c"
      by (rule thread_step_inv [OF inv thread(2,3)])
    with thread(4) show ?thesis by (intro history_cong [OF hist]) (simp_all add: thread(1))
  next
    case (run b p e err k t)
    have core: "same_core (eng s) e" by (rule executing_core [OF sched run(2,3)])
    note v = same_core_views [OF core] and v' = same_core_views [OF note_error_core]
    show ?thesis
      by (rule history_start [OF hist sched ord run(2)])
        (auto simp: run v' take_block_views v live_def active_def fun_eq_iff)
  next
    case (start b p e)
    have core: "same_core (eng s) e" by (rule executing_core [OF sched start(2,3)])
    note v = same_core_views [OF core]
    show ?thesis
      by (rule history_start [OF hist sched ord start(2)])
        (auto simp: start take_block_views v live_def active_def fun_eq_iff)
  next
    case (callback b k t err)
    note v' = same_core_views [OF note_error_core]
    show ?thesis
      by (rule history_cong [OF hist])
        (auto simp: callback v' live_def active_def dest: set_mp [OF set_remove1_subset])
  qed
qed

lemma serial_history:
  assumes "serial_reachable c s"
  shows "history_inv s"
  using assms
proof (induction rule: serial_reachable.induct)
  case init
  show ?case by (auto simp: history_inv_def mach0_def ThreadedEngine_def live_def wc_def active_def in_order_def)
next
  case (step s s')
  then show ?case using serial_order [OF step(1)] history_step unfolding serial_step_def by blast
qed
section \<open>Results\<close>

text \<open>
  What is assumed of operations: they change only the variables they write, and what they write
  depends only on the variables they read or write.
\<close>

locale op_effects =
  fixes touches :: "'op \<Rightarrow> (nat \<times> bool) list" and effect :: "'op \<Rightarrow> (nat \<Rightarrow> 'x) \<Rightarrow> nat \<Rightarrow> 'x"
  assumes writes_only: "(v, True) \<notin> set (touches f) \<Longrightarrow> effect f st v = st v"
    and reads_only: "(\<And>u w. (u, w) \<in> set (touches f) \<Longrightarrow> st u = st' u) \<Longrightarrow>
      (v, True) \<in> set (touches f) \<Longrightarrow> effect f st v = effect f st' v"
begin

lemma effect_commute_at:
  assumes nc: "\<not> conflict (touches f) (touches g)" and v: "(v, True) \<in> set (touches f)"
  shows "effect f (effect g st) v = effect g (effect f st) v"
proof -
  have "(u, w) \<in> set (touches f) \<Longrightarrow> (u, True) \<notin> set (touches g)" for u w
    using nc conflictI by blast
  then have "effect f (effect g st) v = effect f st v"
    using reads_only [of f "effect g st" st v] writes_only v by blast
  moreover have "(v, True) \<notin> set (touches g)" using nc v conflictI by blast
  ultimately show ?thesis using writes_only by simp
qed

lemma effect_commute:
  assumes nc: "\<not> conflict (touches f) (touches g)"
  shows "effect f (effect g st) = effect g (effect f st)"
proof
  fix v
  have nc': "\<not> conflict (touches g) (touches f)" using nc conflict_sym by blast
  show "effect f (effect g st) v = effect g (effect f st) v"
  proof (cases "(v, True) \<in> set (touches f) \<or> (v, True) \<in> set (touches g)")
    case True
    then show ?thesis
      using effect_commute_at [OF nc, of v st] effect_commute_at [OF nc', of v st] by metis
  next
    case False
    then show ?thesis using writes_only by simp
  qed
qed

lemma fold_insort:
  assumes "\<forall>y\<in>set ys. y < x \<longrightarrow> \<not> conflict (touches (ops ! y)) (touches (ops ! x))"
  shows "fold (\<lambda>b. effect (ops ! b)) (insort x ys) st = fold (\<lambda>b. effect (ops ! b)) (x # ys) st"
  using assms
proof (induction ys arbitrary: st)
  case (Cons y ys)
  then show ?case using effect_commute [of "ops ! y" "ops ! x"] by auto
qed simp

lemma fold_sort:
  assumes "sorted_wrt (\<lambda>a b. b < a \<longrightarrow> \<not> conflict (touches (ops ! b)) (touches (ops ! a))) xs"
  shows "fold (\<lambda>b. effect (ops ! b)) (sort xs) st = fold (\<lambda>b. effect (ops ! b)) xs st"
  using assms
proof (induction xs arbitrary: st)
  case (Cons x xs)
  then show ?case using fold_insort [of "sort xs" x ops st] by simp
qed simp

lemma fold_in_order:
  assumes "in_order (map touches ops) xs" and "distinct xs" and "set xs = {..<length ops}"
  shows "fold (\<lambda>b. effect (ops ! b)) xs st = fold effect ops st"
proof -
  have lt: "xs ! i < length ops" if "i < length xs" for i using assms(3) nth_mem [OF that] by blast
  have "\<not> conflict (touches (ops ! (xs ! j))) (touches (ops ! (xs ! i)))"
    if ij: "i < j" "j < length xs" and less: "xs ! j < xs ! i" for i j
  proof
    assume "conflict (touches (ops ! (xs ! j))) (touches (ops ! (xs ! i)))"
    then have "xs ! j \<in> set (take i xs)"
      using assms(1) ij less lt [of i] lt [of j] unfolding in_order_def by simp
    then obtain k where "k < i" "k < length xs" "xs ! k = xs ! j" by (auto simp: in_set_conv_nth)
    with assms(2) ij show False by (simp add: nth_eq_iff_index_eq)
  qed
  then have "sorted_wrt (\<lambda>a b. b < a \<longrightarrow> \<not> conflict (touches (ops ! b)) (touches (ops ! a))) xs"
    by (simp add: sorted_wrt_iff_nth_less)
  then have "fold (\<lambda>b. effect (ops ! b)) xs st = fold (\<lambda>b. effect (ops ! b)) (sort xs) st"
    by (simp add: fold_sort)
  also have "sort xs = [0..<length ops]"
    by (rule sorted_distinct_set_unique) (use assms(2,3) in \<open>auto simp: atLeast0LessThan\<close>)
  also have "fold (\<lambda>b. effect (ops ! b)) [0..<length ops] st = fold effect (map ((!) ops) [0..<length ops]) st"
    by (simp add: fold_map comp_def)
  finally show ?thesis by (simp only: map_nth)
qed

end

text \<open>
  The operations of a run: a function \<open>sem\<close> gives what an operation writes from the values of its
  variables.
\<close>

definition op_effect ::
  "(async_fn \<Rightarrow> 'x list \<Rightarrow> nat \<Rightarrow> 'x) \<Rightarrow> async_fn \<times> (nat \<times> bool) list \<Rightarrow> (nat \<Rightarrow> 'x) \<Rightarrow> nat \<Rightarrow> 'x" where
  "op_effect sem op st v =
    (if (v, True) \<in> set (snd op) then sem (fst op) (map (\<lambda>p. st (fst p)) (snd op)) v else st v)"

interpretation pushed_ops: op_effects snd "op_effect sem" for sem
proof
  show "op_effect sem f st v = st v" if "(v, True) \<notin> set (snd f)" for v f st
    using that by (simp add: op_effect_def)
  show "op_effect sem f st v = op_effect sem f st' v"
    if "\<And>u w. (u, w) \<in> set (snd f) \<Longrightarrow> st u = st' u" "(v, True) \<in> set (snd f)" for f st st' v
  proof -
    have "map (\<lambda>p. st (fst p)) (snd f) = map (\<lambda>p. st' (fst p)) (snd f)" using that(1) by auto
    then show ?thesis by (simp only: op_effect_def that(2) if_True)
  qed
qed

lemma serial_complete:
  assumes "serial_reachable c s" and "pending (eng s) = 0"
  shows "set (started s) = {..<length (pushed s)}"
proof -
  obtain H where "mach_inv s H" using serial_order [OF assms(1)] by blast
  then have sched: "sched_inv (eng s) (acts s) (running s) H" by (simp add: mach_inv_def)
  have "finite (dom (blks (eng s)))" "pending (eng s) = int (card (dom (blks (eng s))))"
    using sched_invD(2) [OF sched] unfolding obj_inv_def by blast+
  then have "dom (blks (eng s)) = {}" using assms(2) card_0_eq by simp
  then have "\<not> live (eng s) [] b" for b
    using live_blk [OF sched live_more] by (metis domI empty_iff)
  then show ?thesis using serial_history [OF assms(1)] by (auto simp: history_inv_def)
qed

lemma serial_results:
  assumes "serial_reachable c s" and "pending (eng s) = 0"
  shows "fold (\<lambda>b. op_effect sem (pushed s ! b)) (started s) st = fold (op_effect sem) (pushed s) st"
  using pushed_ops.fold_in_order [of "pushed s" "started s" sem st] serial_history [OF assms(1)]
    serial_complete [OF assms] by (simp add: history_inv_def)
section \<open>Scripted runs\<close>

text \<open>A run given by the threads that move, and a push of a new temporary operator by \<open>PushAsync\<close>.\<close>

fun schedule :: "nat list \<Rightarrow> mach \<Rightarrow> mach option" where
  "schedule [] s = Some s"
| "schedule (i # is) s =
    (if i < length (threads s) then
       (case threads s ! i of
          [] \<Rightarrow> None
        | a # rest \<Rightarrow> (case act a (eng s) of
            Inl _ \<Rightarrow> None
          | Inr (e, bs) \<Rightarrow> schedule is (s\<lparr>eng := e, threads := (threads s)[i := map Decr bs @ rest]\<rparr>)))
     else None)"

definition spawn :: "async_fn \<Rightarrow> nat list \<Rightarrow> nat list \<Rightarrow> mach \<Rightarrow> mach option" where
  "spawn f cs ms s =
    (if distinct (cs @ ms) \<and> (\<forall>v\<in>set (cs @ ms). vars (eng s) v \<noteq> None) \<and> \<not> deletes f
     then (case NewOperator f cs ms kNormal False (eng s) of
         Inl _ \<Rightarrow> None
       | Inr (e, oh) \<Rightarrow> (case new_block oh 0 0 (set_temporary oh e) of
           Inl _ \<Rightarrow> None
         | Inr (e, b, t) \<Rightarrow> Some (s\<lparr>eng := e, threads := threads s @ [push_actions b t],
             pushed := pushed s @ [(opr_fn t, deps t)]\<rparr>)))
     else None)"

definition add_variable :: "mach \<Rightarrow> mach" where
  "add_variable s = s\<lparr>eng := fst (NewVariable (eng s))\<rparr>"

lemma schedule_reachable: "reachable c s \<Longrightarrow> schedule is s = Some s' \<Longrightarrow> reachable c s'"
proof (induction "is" s rule: schedule.induct)
  case (2 i "is" s)
  then obtain a rest e bs where i: "i < length (threads s)" "threads s ! i = a # rest" "act a (eng s) = Inr (e, bs)"
    and rec: "schedule is (s\<lparr>eng := e, threads := (threads s)[i := map Decr bs @ rest]\<rparr>) = Some s'"
    by (auto split: if_splits list.splits sum.splits prod.splits)
  have "reachable c (s\<lparr>eng := e, threads := (threads s)[i := map Decr bs @ rest]\<rparr>)"
    by (rule reachable.step [OF "2.prems"(1) estep.thread [OF i]])
  with "2.IH" i rec show ?case by blast
qed simp

lemma spawn_cases:
  assumes "spawn f cs ms s = Some s'"
  obtains e1 oh e2 b t where "distinct (cs @ ms) \<and> (\<forall>v\<in>set (cs @ ms). vars (eng s) v \<noteq> None) \<and> \<not> deletes f"
    and "NewOperator f cs ms kNormal False (eng s) = Inr (e1, oh)"
    and "new_block oh 0 0 (set_temporary oh e1) = Inr (e2, b, t)"
    and "s' = s\<lparr>eng := e2, threads := threads s @ [push_actions b t], pushed := pushed s @ [(opr_fn t, deps t)]\<rparr>"
  using assms by (auto simp: spawn_def split: if_splits sum.splits prod.splits)

text \<open>A push of a new operator, in two steps.\<close>

lemma spawn_steps:
  assumes s: "reachable c s" and spawn: "spawn f cs ms s = Some s'"
  obtains s1 where "estep c s s1" and "estep c s1 s'" and "threads s1 = threads s" and "next_blk (eng s1) = next_blk (eng s)"
proof -
  obtain e1 oh e2 b t where vs: "distinct (cs @ ms) \<and> (\<forall>v\<in>set (cs @ ms). vars (eng s) v \<noteq> None) \<and> \<not> deletes f"
    and new: "NewOperator f cs ms kNormal False (eng s) = Inr (e1, oh)"
    and blk: "new_block oh 0 0 (set_temporary oh e1) = Inr (e2, b, t)"
    and s': "s' = s\<lparr>eng := e2, threads := threads s @ [push_actions b t], pushed := pushed s @ [(opr_fn t, deps t)]\<rparr>"
    by (rule spawn_cases [OF spawn])
  let ?s1 = "s\<lparr>eng := set_temporary oh e1\<rparr>"
  have "estep c s (s\<lparr>eng := (if True then set_temporary oh e1 else e1)\<rparr>)"
    by (rule estep.new_operator [OF _ _ _ new]) (use vs in auto)
  then have s1: "estep c s ?s1" by simp
  obtain H where "mach_inv s H" using reachable_inv [OF s] by blast
  then have obj: "obj_inv (eng s)" by (simp add: mach_inv_def sched_inv_def)
  have oh: "oh = next_opr (eng s)" "blks e1 = blks (eng s)" "next_blk e1 = next_blk (eng s)"
    using new by (auto simp: NewOperator_def rbind_Inr_iff)
  have "blk_opr k \<noteq> oh" if "blks (set_temporary oh e1) b' = Some k" for b' k
  proof -
    have "blks (eng s) b' = Some k" using that oh(2) by (simp add: set_temporary_def)
    then show ?thesis using obj oh(1) unfolding obj_inv_def by (metis order_refl)
  qed
  then have "estep c ?s1 (?s1\<lparr>eng := e2, threads := threads ?s1 @ [push_actions b t],
      pushed := pushed ?s1 @ [(opr_fn t, deps t)]\<rparr>)"
    using blk by (intro estep.push) auto
  with s1 s' show ?thesis by (intro that [of ?s1]) (simp_all add: set_temporary_def oh(3))
qed

lemma spawn_reachable: "reachable c s \<Longrightarrow> spawn f cs ms s = Some s' \<Longrightarrow> reachable c s'"
  by (metis spawn_steps reachable.step)

lemma add_variable_reachable: "reachable c s \<Longrightarrow> reachable c (add_variable s)"
  unfolding add_variable_def by (rule reachable.step [OF _ estep.new_variable])

text \<open>
  Two pushes that are interleaved: each appends the dependency that the other has still to
  append, in the opposite order.
\<close>

definition two_pushes :: "mach option" where
  "two_pushes =
    Option.bind (spawn (AsyncFn 0) [0] [1] (add_variable (add_variable mach0)))
      (spawn (AsyncFn 1) [1] [0])"

definition interleaved_pushes :: "mach option" where
  "interleaved_pushes = Option.bind two_pushes (schedule [0, 1, 0, 1, 0, 1])"

lemma interleaved_pushes_stuck:
  "\<exists>s. interleaved_pushes = Some s \<and> pending (eng s) = 2 \<and> concat (threads s) = [] \<and>
     active (eng s) (running s) = []"
proof -
  have "case interleaved_pushes of None \<Rightarrow> False
     | Some s \<Rightarrow> pending (eng s) = 2 \<and> concat (threads s) = [] \<and> active (eng s) (running s) = []"
    by code_simp
  then show ?thesis by (auto split: option.splits)
qed

lemma interleaved_pushes_reachable: "interleaved_pushes = Some s \<Longrightarrow> reachable c s"
  unfolding interleaved_pushes_def two_pushes_def bind_eq_Some_conv
  by (metis schedule_reachable spawn_reachable add_variable_reachable reachable.init)

section \<open>Every run drains\<close>

text \<open>
  The work that is left: the wait counters, the outstanding appends and completions, and for each
  block whose callback has not been called the actions that the callback will start.
\<close>

fun is_dep :: "action \<Rightarrow> bool" where
  "is_dep (Append w v b) = True"
| "is_dep (Complete w v b) = True"
| "is_dep (OprEnd b oh tmp) = True"
| "is_dep a = False"

definition block_work :: "engine \<Rightarrow> blk list \<Rightarrow> blk \<Rightarrow> nat" where
  "block_work e R b = nat (wc e b) + length (bdeps e b) + (if b \<in> set R then 2 else 3)"

definition work :: "engine \<Rightarrow> action multiset \<Rightarrow> blk list \<Rightarrow> nat" where
  "work e T R = size (filter_mset is_dep T) + (\<Sum>b\<in>{b. live e R b}. block_work e R b)"

lemma finite_live:
  assumes "sched_inv e T R H"
  shows "finite {b. live e R b}"
proof (rule finite_subset)
  show "{b. live e R b} \<subseteq> dom (blks e)" using live_blk [OF assms] by blast
  show "finite (dom (blks e))" using sched_invD(2) [OF assms] unfolding obj_inv_def by blast
qed

lemma size_Decr [simp]: "filter_mset is_dep (mset (map Decr bs)) = {#}"
  by (induction bs) simp_all

lemma work_act:
  assumes inv: "sched_inv e T R H" and a: "a \<in># T" and T': "T' = T - {#a#} + mset (map Decr bs)"
    and same: "live e' = live e" "\<forall>c. live e R c \<longrightarrow> bdeps e' c = bdeps e c" "\<forall>c. wc e' c \<le> wc e c"
    and dec: "\<forall>b. a = PushEnd b \<or> a = Decr b \<longrightarrow> live e R b \<and> 0 < wc e b \<and> wc e' b < wc e b"
  shows "work e' T' R < work e T R"
proof -
  have le: "block_work e' R c \<le> block_work e R c" if "live e R c" for c
    using that same(2,3) by (simp add: block_work_def nat_mono)
  have sum: "(\<Sum>b\<in>{b. live e R b}. block_work e' R b) \<le> (\<Sum>b\<in>{b. live e R b}. block_work e R b)"
    by (rule sum_mono) (use le in simp)
  have size: "filter_mset is_dep T' = filter_mset is_dep T - (if is_dep a then {#a#} else {#})"
    unfolding T' filter_union_mset size_Decr by (simp add: filter_diff_mset)
  show ?thesis
  proof (cases "is_dep a")
    case True
    then have "a \<in># filter_mset is_dep T" using a by simp
    then have "size (filter_mset is_dep T') < size (filter_mset is_dep T)"
      unfolding size using True by (simp add: size_Diff1_less)
    with sum show ?thesis unfolding work_def same(1) by linarith
  next
    case False
    then obtain b where "a = PushEnd b \<or> a = Decr b" by (cases a) auto
    with dec have b: "live e R b" "0 < wc e b" "wc e' b < wc e b" by blast+
    then have "block_work e' R b < block_work e R b" using same(2) by (simp add: block_work_def nat_mono)
    then have "(\<Sum>b\<in>{b. live e R b}. block_work e' R b) < (\<Sum>b\<in>{b. live e R b}. block_work e R b)"
      by (intro sum_strict_mono_ex1 [OF finite_live [OF inv]]) (use le b in auto)
    then show ?thesis unfolding work_def same(1) size using False by simp
  qed
qed

lemma work_finish:
  assumes inv: "sched_inv e T R H" and b: "b \<in> set (active e R)"
    and D: "bdeps e b = D" and T': "T' = T + mset (map (\<lambda>(v, w). Complete w v b) D @ [OprEnd b oh tmp])"
    and live: "\<And>c. live e' R' c \<longleftrightarrow> live e R c \<and> c \<noteq> b"
    and same: "bdeps e' = bdeps e" "wc e' = wc e" "\<And>c. c \<noteq> b \<Longrightarrow> c \<in> set R' \<longleftrightarrow> c \<in> set R"
  shows "work e' T' R' < work e T R"
proof -
  have "filter_mset is_dep (mset (map (\<lambda>(v, w). Complete w v b) D)) = mset (map (\<lambda>(v, w). Complete w v b) D)"
    by (induction D) auto
  then have size: "size (filter_mset is_dep T') = size (filter_mset is_dep T) + length D + 1"
    unfolding T' mset_append filter_union_mset by simp
  have lb: "b \<in> {b. live e R b}" using b by (simp add: live_def)
  have "{c. live e' R' c} = {c. live e R c} - {b}" using live by auto
  moreover have "block_work e' R' c = block_work e R c" if "c \<noteq> b" for c
    using same(3) [OF that] by (simp add: block_work_def same(1,2))
  ultimately have "(\<Sum>c\<in>{c. live e' R' c}. block_work e' R' c) = (\<Sum>c\<in>{c. live e R c} - {b}. block_work e R c)"
    by (auto intro: sum.cong)
  moreover have "(\<Sum>c\<in>{c. live e R c}. block_work e R c) =
      block_work e R b + (\<Sum>c\<in>{c. live e R c} - {b}. block_work e R c)"
    by (rule sum.remove [OF finite_live [OF inv] lb])
  moreover have "length D + 2 \<le> block_work e R b" by (simp add: block_work_def D)
  ultimately show ?thesis unfolding work_def size by linarith
qed

lemma work_start:
  assumes inv: "sched_inv e T R H" and b: "b \<in> set (active e R)" "b \<notin> set R"
    and live: "\<And>c. live e' (R @ [b]) c = live e R c" and same: "bdeps e' = bdeps e" "wc e' = wc e"
  shows "work e' T (R @ [b]) < work e T R"
proof -
  have "(\<Sum>c\<in>{c. live e R c}. block_work e' (R @ [b]) c) < (\<Sum>c\<in>{c. live e R c}. block_work e R c)"
    by (rule sum_strict_mono_ex1 [OF finite_live [OF inv]])
      (use b in \<open>auto simp: block_work_def same live_def\<close>)
  then show ?thesis unfolding work_def live by simp
qed

text \<open>A step of a thread or a worker, as opposed to one of a client.\<close>

definition engine_step :: "client \<Rightarrow> mach \<Rightarrow> mach \<Rightarrow> bool" where
  "engine_step c s s' \<longleftrightarrow> estep c s s' \<and> pushed s' = pushed s \<and>
     (threads s' \<noteq> threads s \<or> running s' \<noteq> running s)"

lemma engine_step_work:
  assumes "reachable c s" and "engine_step c s s'"
  shows "work (eng s') (acts s') (running s') < work (eng s) (acts s) (running s)"
proof -
  obtain H where inv: "mach_inv s H" using reachable_inv [OF assms(1)] by blast
  then have sched: "sched_inv (eng s) (acts s) (running s) H" by (simp add: mach_inv_def)
  note A = sched_invD(5) [OF sched]
  have "estep c s s'" and client: "pushed s' = pushed s" "threads s' \<noteq> threads s \<or> running s' \<noteq> running s"
    using assms(2) by (auto simp: engine_step_def)
  from this(1) show ?thesis
  proof cases
    case (thread i a rest e bs)
    obtain e' bs' where t: "act a (eng s) = Inr (e', bs')" "live e' = live (eng s)"
      "\<forall>c. live (eng s) (running s) c \<longrightarrow> bdeps e' c = bdeps (eng s) c" "\<forall>c. wc e' c \<le> wc (eng s) c"
      "\<forall>b. a = PushEnd b \<or> a = Decr b \<longrightarrow> live (eng s) (running s) b \<and> 0 < wc (eng s) b \<and> wc e' b < wc (eng s) b"
      by (rule thread_step_inv [OF inv thread(2,3)])
    with thread(4) have "e' = e" by simp
    with work_act [OF sched acts_update(2) [OF thread(2,3)] acts_update(1) [OF thread(2,3)] t(2-5)]
    show ?thesis by (simp add: thread(1))
  next
    case (run b p e err k t)
    have core: "same_core (eng s) e" by (rule executing_core [OF sched run(2,3)])
    note v = same_core_views [OF core] and v' = same_core_views [OF note_error_core]
    note tb = taken_block [OF sched run(2)]
    have eqs: "live (eng s') R' = live (take_block (b, p) (eng s)) R'" for R'
      by (simp add: fun_eq_iff run v' live_def active_def take_block_views v)
    have "bdeps e b = deps t" using run(4,5) by (simp add: bdeps_def oprv_def)
    then have D: "bdeps (eng s) b = deps t" by (simp add: v)
    have acts': "acts s' = acts s + mset (map (\<lambda>(v, w). Complete w v b) (deps t) @ [OprEnd b (blk_opr k) (temporary t)])"
      by (simp add: run deps_actions)
    show ?thesis
      by (rule work_finish [OF sched tb(1) D acts'])
        (use tb(5) in \<open>simp_all add: eqs\<close>, simp_all add: run v' v take_block_views)
  next
    case (start b p e)
    have core: "same_core (eng s) e" by (rule executing_core [OF sched start(2,3)])
    note v = same_core_views [OF core] and tb = taken_block [OF sched start(2)]
    have "live (take_block (b, p) e) (running s @ [b]) c' = live (eng s) (running s) c'" for c'
      using tb(7) by (simp add: live_def active_def take_block_views v)
    then show ?thesis
      using work_start [OF sched tb(1,2)] by (simp add: start take_block_views v)
  next
    case (callback b k t err)
    note v' = same_core_views [OF note_error_core]
    have dist: "distinct (active (eng s) (running s))" by (rule act_invD(1) [OF A])
    have b: "b \<in> set (active (eng s) (running s))" using callback(2) by (simp add: active_def)
    have D: "bdeps (eng s) b = deps t" using callback(3,4) by (simp add: bdeps_def oprv_def)
    have acts': "acts s' = acts s + mset (map (\<lambda>(v, w). Complete w v b) (deps t) @ [OprEnd b (blk_opr k) (temporary t)])"
      by (simp add: callback deps_actions)
    have "set (remove1 b (running s)) = set (running s) - {b}" "b \<notin> set (map fst (executing (eng s)))"
      using dist callback(2) by (auto simp: active_def set_remove1_eq)
    with act_invD(3) [OF A b] show ?thesis
      by (intro work_finish [OF sched b D acts']) (auto simp: callback v' live_def active_def)
  qed (use client in auto)
qed

lemma engine_step_enabled:
  assumes "serial_reachable c s" and "pending (eng s) \<noteq> 0"
  shows "\<exists>s'. engine_step c s s' \<and> serial_step c s s'"
proof -
  obtain H where inv: "mach_inv s H" using serial_order [OF assms(1)] by blast
  then have sched: "sched_inv (eng s) (acts s) (running s) H" by (simp add: mach_inv_def)
  have alone: "engine_step c s s' \<and> serial_step c s s'"
    if "estep c s s'" "pushed s' = pushed s" "next_blk (eng s') = next_blk (eng s)"
      "threads s' \<noteq> threads s \<or> running s' \<noteq> running s" for s'
    using that by (simp add: engine_step_def serial_step_def push_alone_def)
  have opr: "\<exists>k t. blks e b = Some k \<and> oprs e (blk_opr k) = Some t"
    if "b \<in> set (active (eng s) (running s))" "same_core (eng s) e" for b e
  proof -
    have "live e (running s) b" using that by (simp add: same_core_views live_def)
    then show ?thesis
      using live_blk [OF sched_inv_same_core [OF that(2) sched]] by (metis oprv_Some)
  qed
  have "concat (threads s) \<noteq> [] \<or> (\<exists>b p. (b, p) \<in> set (executing (eng s))) \<or> (\<exists>b. b \<in> set (running s))"
    using serial_progress [OF assms] unfolding active_def
    by (metis append_Nil list.set_intros(1) list.simps(8) neq_Nil_conv surj_pair)
  then consider "concat (threads s) \<noteq> []"
    | b p where "(b, p) \<in> set (executing (eng s))" | b where "b \<in> set (running s)"
    by blast
  then show ?thesis
  proof cases
    case 1
    then obtain i a rest where i: "i < length (threads s)" "threads s ! i = a # rest"
      by (metis concat_eq_Nil_conv in_set_conv_nth list.exhaust)
    obtain e bs where t: "act a (eng s) = Inr (e, bs)" "next_blk e = next_blk (eng s)"
      by (rule thread_step_inv [OF inv i])
    have "map Decr bs @ rest \<noteq> a # rest" using act_triggers [OF t(1)] by (cases bs) auto
    then have "(threads s)[i := map Decr bs @ rest] \<noteq> threads s" using i by (metis nth_list_update_eq)
    then show ?thesis using alone [OF estep.thread [OF i t(1)]] t(2) by auto
  next
    case b: (2 b p)
    note tb = taken_block [OF sched b]
    obtain k0 e r where e: "execute_fn c b (eng s) = Inr (e, r)" and core: "same_core (eng s) e"
      by (rule executing_ok [OF sched b, of c])
    show ?thesis
    proof (cases r)
      case None
      then show ?thesis
        using alone [OF estep.start [OF b e [unfolded None]]] same_core_views(7) [OF core]
        by (auto simp: take_block_views)
    next
      case (Some err)
      obtain k t where "blks e b = Some k" "oprs e (blk_opr k) = Some t" using opr [OF tb(1) core] by blast
      then show ?thesis
        using alone [OF estep.run [OF b e [unfolded Some]]] same_core_views(7) [OF core]
          same_core_views(7) [OF note_error_core] by (auto simp: take_block_views)
    qed
  next
    case (3 b)
    then have "b \<in> set (active (eng s) (running s))" by (simp add: active_def)
    then obtain k t where "blks (eng s) b = Some k" "oprs (eng s) (blk_opr k) = Some t"
      using opr same_core_refl by blast
    then show ?thesis
      using alone [OF estep.callback [OF 3]] same_core_views(7) [OF note_error_core] by auto
  qed
qed

text \<open>From every state of a run whose pushes are not interleaved the engine completes all operations.\<close>

lemma serial_drains:
  assumes "serial_reachable c s"
  shows "\<exists>s'. (engine_step c)\<^sup>*\<^sup>* s s' \<and> serial_reachable c s' \<and> pending (eng s') = 0 \<and> pushed s' = pushed s"
  using assms
proof (induction "work (eng s) (acts s) (running s)" arbitrary: s rule: less_induct)
  case less
  show ?case
  proof (cases "pending (eng s) = 0")
    case True
    with less.prems show ?thesis by blast
  next
    case False
    obtain s1 where s1: "engine_step c s s1" "serial_step c s s1"
      using engine_step_enabled [OF less.prems False] by blast
    have r1: "serial_reachable c s1" by (rule serial_reachable.step [OF less.prems s1(2)])
    have "work (eng s1) (acts s1) (running s1) < work (eng s) (acts s) (running s)"
      by (rule engine_step_work [OF serial_reachable_reachable [OF less.prems] s1(1)])
    from less.hyps [OF this r1] obtain s' where "(engine_step c)\<^sup>*\<^sup>* s1 s'" "serial_reachable c s'"
      "pending (eng s') = 0" "pushed s' = pushed s1" by blast
    moreover have "pushed s1 = pushed s" using s1(1) by (simp add: engine_step_def)
    ultimately show ?thesis using s1(1) by (metis converse_rtranclp_into_rtranclp)
  qed
qed

end
