(* ===== verification/MX_Exceptions.thy ===== *)
theory MX_Exceptions
  imports MX_Serial
begin

text \<open>
  Failures in the dependency engine.  An operation that throws leaves an exception reference in its
  \<^term>\<open>opr_exception\<close>; completing it hands the reference to every variable it writes, and an operation that
  starts on a variable with a live reference inherits it and is not run.  The theory shows that in every
  reachable state the live references of the variables are listed in the engine's global list, so that
  \<^term>\<open>WaitForAll\<close> reports a failure whenever a variable carries one and leaves every variable clean.
\<close>

section \<open>The references that are live\<close>

definition exc_inv :: "engine \<Rightarrow> bool" where
  "exc_inv e \<longleftrightarrow>
    (\<forall>v x r. vars e v = Some x \<longrightarrow> var_exception x = Some r \<longrightarrow>
       r < next_exc e \<and> (excs e r \<noteq> None \<longrightarrow> r \<in> set (global_exception_refs e))) \<and>
    (\<forall>oh t r. oprs e oh = Some t \<longrightarrow> opr_exception t = Some r \<longrightarrow> r < next_exc e)"

lemma exc_inv_cong:
  assumes "exc_inv e"
    and "\<And>v x. vars e' v = Some x \<Longrightarrow> var_exception x = None \<or>
      (\<exists>x'. vars e v = Some x' \<and> var_exception x' = var_exception x)"
    and "\<And>oh t. oprs e' oh = Some t \<Longrightarrow> opr_exception t = None \<or>
      (\<exists>t'. oprs e oh = Some t' \<and> opr_exception t' = opr_exception t)"
    and "excs e' = excs e" and "next_exc e' = next_exc e" and "global_exception_refs e' = global_exception_refs e"
  shows "exc_inv e'"
proof -
  have "r < next_exc e' \<and> (excs e' r \<noteq> None \<longrightarrow> r \<in> set (global_exception_refs e'))"
    if v: "vars e' v = Some x" "var_exception x = Some r" for v x r
    using assms(1) assms(2) [OF v(1)] v(2) assms(4-6) unfolding exc_inv_def by auto
  moreover have "r < next_exc e'" if t: "oprs e' oh = Some t" "opr_exception t = Some r" for oh t r
    using assms(1) assms(3) [OF t(1)] t(2) assms(5) unfolding exc_inv_def by auto
  ultimately show ?thesis unfolding exc_inv_def by blast
qed

lemma exc_inv_AddToGlobal: "exc_inv e \<Longrightarrow> exc_inv (AddToGlobalExceptions r e)"
  by (auto simp: exc_inv_def AddToGlobalExceptions_def split: option.split)

lemma exc_inv_set_opr:
  assumes "exc_inv e" and "\<And>r'. r = Some r' \<Longrightarrow> r' < next_exc e"
  shows "exc_inv (set_opr_exception oh r e)"
  using assms by (auto simp: exc_inv_def set_opr_exception_def split: if_splits)

lemma exc_inv_new_opr: "exc_inv e \<Longrightarrow> exc_inv (new_opr_exception oh x e)"
  unfolding new_opr_exception_def
  by (rule exc_inv_set_opr) (auto simp: exc_inv_def less_Suc_eq)

lemma exc_inv_note_error: "exc_inv e \<Longrightarrow> exc_inv (note_error oh err e)"
  by (cases err) (simp_all add: note_error_def exc_inv_new_opr)

lemma first_live_ref:
  assumes "first_live e vs = Inr (Some r)"
  shows "\<exists>v\<in>set vs. \<exists>x. vars e v = Some x \<and> var_exception x = Some r \<and> excs e r \<noteq> None"
  using assms
  by (induction vs) (auto simp: rbind_Inr_iff the_var_def live_exc_def split: option.splits if_splits)

lemma exc_inv_inherit:
  assumes "exc_inv e" and "inherit_exception oh vs e = Inr e'"
  shows "exc_inv e'"
proof -
  obtain r where r: "first_live e vs = Inr r"
    and e': "e' = (if r = None then e else AddToGlobalExceptions r (set_opr_exception oh r e))"
    using assms(2) by (auto simp: inherit_exception_def rbind_Inr_iff)
  have "r' < next_exc e" if "r = Some r'" for r'
    using first_live_ref [OF r [unfolded that]] assms(1) unfolding exc_inv_def by blast
  then show ?thesis
    using assms(1) unfolding e' by (simp add: exc_inv_AddToGlobal exc_inv_set_opr)
qed

lemma exc_inv_OnStart: "exc_inv e \<Longrightarrow> OnStart oh e = Inr e' \<Longrightarrow> exc_inv e'"
  by (auto simp: OnStart_def rbind_Inr_iff intro: exc_inv_inherit split: if_splits)

lemma exc_inv_call_fn: "exc_inv e \<Longrightarrow> exc_inv (fst (call_fn c f e))"
  by (cases f; rule exc_inv_cong) (auto simp: SetToDelete_def split: if_splits)

lemma exc_inv_run_fn:
  assumes "exc_inv e"
  shows "exc_inv (fst (run_fn c oh t e))"
proof -
  obtain e1 oc where e1: "call_fn c (opr_fn t) e = (e1, oc)" by fastforce
  with exc_inv_call_fn [OF assms, of c "opr_fn t"] have "exc_inv e1" by simp
  then show ?thesis by (cases oc) (simp_all add: run_fn_def e1 exc_inv_new_opr)
qed

lemma exc_inv_execute:
  assumes "exc_inv e" and "execute_fn c b e = Inr (e', r)"
  shows "exc_inv e'"
proof -
  have "e' = e \<or> (\<exists>oh e1 t. OnStart oh e = Inr e1 \<and> (e' = e1 \<or> e' = fst (run_fn c oh t e1)))"
    using assms(2) by (auto simp: execute_fn_def rbind_Inr_iff Let_def split: if_splits)
      (metis fst_conv)+
  then show ?thesis using assms(1) exc_inv_OnStart exc_inv_run_fn by blast
qed

lemma var_exception_kept:
  "AppendDependency w b x = Inr (x', t) \<Longrightarrow> var_exception x' = var_exception x"
  "CompleteReadDependency x = Inr (x', ts) \<Longrightarrow> var_exception x' = var_exception x"
  "CompleteWriteDependency x = Inr (x', ts, del) \<Longrightarrow> var_exception x' = var_exception x"
  by (auto simp: AppendDependency_def AppendReadDependency_def AppendWriteDependency_def
      CompleteReadDependency_def CompleteWriteDependency_def rcheck_Inr_iff Let_def
      split: option.splits if_splits prod.splits)

lemma exc_inv_upd [simp]:
  "exc_inv (e\<lparr>blks := bs\<rparr>) = exc_inv e" "exc_inv (e\<lparr>executing := xs\<rparr>) = exc_inv e"
  "exc_inv (e\<lparr>pending := n\<rparr>) = exc_inv e" "exc_inv (e\<lparr>next_blk := k\<rparr>) = exc_inv e"
  "exc_inv (e\<lparr>next_var := k\<rparr>) = exc_inv e" "exc_inv (e\<lparr>next_opr := k\<rparr>) = exc_inv e"
  by (simp_all add: exc_inv_def)

lemma exc_inv_decr_wait: "exc_inv e \<Longrightarrow> decr_wait b e = Inr (e', n) \<Longrightarrow> exc_inv e'"
  by (auto simp: decr_wait_def rbind_Inr_iff rcheck_Inr_iff Let_def)

lemma exc_inv_decr_dispatch: "exc_inv e \<Longrightarrow> decr_dispatch p b e = Inr e' \<Longrightarrow> exc_inv e'"
  by (auto simp: decr_dispatch_def rbind_Inr_iff PushToExecute_def dest: exc_inv_decr_wait)

lemma exc_inv_var:
  assumes "exc_inv e" and "vars e v = Some x" and "var_exception x' = var_exception x"
  shows "exc_inv (e\<lparr>vars := (vars e)(v \<mapsto> x')\<rparr>)"
  by (rule exc_inv_cong [OF assms(1)]) (use assms(2,3) in \<open>auto split: if_splits\<close>)

lemma exc_inv_mark:
  assumes "exc_inv e" and "mark_exception oh v e = Inr e'"
  shows "exc_inv e'"
proof -
  obtain t x where t: "oprs e oh = Some t" and x: "vars e v = Some x"
    and e': "e' = (if live_exc e (opr_exception t) then AddToGlobalExceptions (opr_exception t)
      (e\<lparr>vars := (vars e)(v \<mapsto> x\<lparr>var_exception := opr_exception t\<rparr>)\<rparr>) else e)"
    using assms(2) by (auto simp: mark_exception_def rbind_Inr_iff the_opr_def the_var_def split: option.splits if_splits)
  show ?thesis
  proof (cases "live_exc e (opr_exception t)")
    case True
    then obtain r where r: "opr_exception t = Some r" by (auto simp: live_exc_def split: option.splits)
    then have "r < next_exc e" using assms(1) t unfolding exc_inv_def by blast
    then show ?thesis
      using assms(1) r unfolding e' exc_inv_def AddToGlobalExceptions_def by auto
  qed (use assms(1) e' in simp)
qed

lemma the_Inr:
  "the_var v e = Inr x \<longleftrightarrow> vars e v = Some x" "the_opr oh e = Inr t \<longleftrightarrow> oprs e oh = Some t"
  "the_blk b e = Inr k \<longleftrightarrow> blks e b = Some k"
  by (auto simp: the_var_def the_opr_def the_blk_def split: option.splits)

lemma complete_write_cases:
  assumes "complete_write v b e = Inr (e', ts)"
  obtains k e1 x x' del where "blks e b = Some k" and "mark_exception (blk_opr k) v e = Inr e1"
    and "vars e1 v = Some x" and "CompleteWriteDependency x = Inr (x', ts, del)"
    and "e' = e1\<lparr>vars := (vars e1)(v := (if del then None else Some x'))\<rparr>"
proof -
  obtain k e1 x y where "blks e b = Some k" "mark_exception (blk_opr k) v e = Inr e1" "vars e1 v = Some x"
    "CompleteWriteDependency x = Inr y"
    and e': "(case y of (x, ts, del) \<Rightarrow> Inr (e1\<lparr>vars := (vars e1)(v := (if del then None else Some x))\<rparr>, ts)) =
      (Inr (e', ts) :: (engine \<times> blk list) res)"
    using assms unfolding complete_write_def rbind_Inr_iff the_Inr by blast
  moreover obtain x' ts' del where "y = (x', ts', del)" by (cases y)
  ultimately show ?thesis by (intro that [of k e1 x x' del]) auto
qed

lemma exc_inv_act:
  assumes inv: "exc_inv e" and act: "act a e = Inr (e', bs)"
  shows "exc_inv e'"
proof (cases a)
  case (Append w v b)
  then obtain x x' now where x: "vars e v = Some x" "AppendDependency w b x = Inr (x', now)"
    and e': "if now then \<exists>n. decr_wait b (e\<lparr>vars := (vars e)(v \<mapsto> x')\<rparr>) = Inr (e', n)
       else e' = e\<lparr>vars := (vars e)(v \<mapsto> x')\<rparr>"
    using act by (auto simp: rbind_Inr_iff rmap_Inr_iff the_var_def Let_def split: option.splits if_splits prod.splits)
  have "exc_inv (e\<lparr>vars := (vars e)(v \<mapsto> x')\<rparr>)"
    by (rule exc_inv_var [OF inv x(1) var_exception_kept(1) [OF x(2)]])
  with e' show ?thesis by (auto split: if_splits dest: exc_inv_decr_wait)
next
  case (Complete w v b)
  show ?thesis
  proof (cases w)
    case True
    then have "complete_write v b e = Inr (e', bs)" using act Complete by simp
    then obtain k e1 x x' del where "blks e b = Some k" and m: "mark_exception (blk_opr k) v e = Inr e1"
      and x: "vars e1 v = Some x" "CompleteWriteDependency x = Inr (x', bs, del)"
      and e': "e' = e1\<lparr>vars := (vars e1)(v := (if del then None else Some x'))\<rparr>"
      by (rule complete_write_cases)
    have inv1: "exc_inv e1" by (rule exc_inv_mark [OF inv m])
    show ?thesis
    proof (cases del)
      case True
      show ?thesis unfolding e' by (rule exc_inv_cong [OF inv1]) (use True in \<open>auto split: if_splits\<close>)
    next
      case False
      then show ?thesis using exc_inv_var [OF inv1 x(1) var_exception_kept(3) [OF x(2)]] e' by simp
    qed
  next
    case False
    then obtain x x' where x: "vars e v = Some x" "CompleteReadDependency x = Inr (x', bs)"
      and e': "e' = e\<lparr>vars := (vars e)(v \<mapsto> x')\<rparr>"
      using act Complete by (auto simp: rbind_Inr_iff rmap_Inr_iff the_var_def split: option.splits)
    then show ?thesis using exc_inv_var [OF inv x(1) var_exception_kept(2) [OF x(2)]] by simp
  qed
next
  case (OprEnd b oh tmp)
  then have "e' = e\<lparr>pending := pending e - 1, oprs := (if tmp then (oprs e)(oh := None) else oprs e),
     blks := (blks e)(b := None)\<rparr>"
    using act by (auto simp: rcheck_Inr_iff Let_def)
  then show ?thesis by (intro exc_inv_cong [OF inv]) (auto split: if_splits)
qed (use inv act in \<open>auto simp: rmap_Inr_iff dest: exc_inv_decr_dispatch\<close>)

lemma reachable_exc_inv: "reachable c s \<Longrightarrow> exc_inv (eng s)"
proof (induction rule: reachable.induct)
  case init
  show ?case by (simp add: mach0_def ThreadedEngine_def exc_inv_def)
next
  case (step s s')
  from step(2) show ?case
  proof cases
    case new_variable
    then show ?thesis
      by (intro exc_inv_cong [OF step.IH]) (auto simp: NewVariable_def ThreadedVar_def split: if_splits)
  next
    case (new_operator cs ms f pr w e oh tmp)
    then show ?thesis
      by (intro exc_inv_cong [OF step.IH])
        (auto simp: NewOperator_def rbind_Inr_iff set_temporary_def split: if_splits)
  next
    case (push oh ctx prio e b t)
    then show ?thesis using step.IH by (auto simp: new_block_def rbind_Inr_iff)
  next
    case (thread i a rest e bs)
    with exc_inv_act [OF step.IH] show ?thesis by simp
  next
    case (run b p e err k t)
    with exc_inv_execute [OF step.IH] show ?thesis by (auto simp: take_block_def intro: exc_inv_note_error)
  next
    case (start b p e)
    with exc_inv_execute [OF step.IH] show ?thesis by (auto simp: take_block_def)
  next
    case (callback b k t err)
    with step.IH show ?thesis by (simp add: exc_inv_note_error)
  qed
qed

section \<open>Waiting for all operations\<close>

lemma clear_exceptions_eq:
  "clear_exceptions rs e = e\<lparr>excs := (\<lambda>r. if r \<in> set rs then None else excs e r)\<rparr>"
  unfolding clear_exceptions_def
proof (induction rs arbitrary: e)
  case (Cons r rs)
  have *: "(\<lambda>r'. if r' \<in> set rs then None else excs (e\<lparr>excs := (excs e)(r := None)\<rparr>) r') =
      (\<lambda>r'. if r' \<in> set (r # rs) then None else excs e r')" by auto
  show ?case unfolding fold.simps comp_def Cons.IH * by simp
qed simp

lemma first_exception_None: "first_exception e rs = None \<longleftrightarrow> (\<forall>r\<in>set rs. excs e r = None)"
  by (induction rs) (auto split: option.splits)

lemma WaitForAll_clears:
  assumes inv: "exc_inv e" and wake: "WaitForAll_wake e = Some (e', x)"
  shows "\<forall>v y. vars e' v = Some y \<longrightarrow> ThrowException v e' = Inr (e', None)"
    and "(\<exists>v y. vars e v = Some y \<and> live_exc e (var_exception y)) \<Longrightarrow> x \<noteq> None"
    and "exc_inv e'"
proof -
  let ?rs = "global_exception_refs e"
  have e': "e' = e\<lparr>excs := (\<lambda>r. if r \<in> set ?rs then None else excs e r), global_exception_refs := []\<rparr>"
    and x: "x = first_exception e ?rs"
    using wake by (auto simp: WaitForAll_wake_def clear_exceptions_eq split: if_splits)
  have dead: "excs e' r = None" if "vars e v = Some y" "var_exception y = Some r" for v y r
    using inv that unfolding exc_inv_def e' by force
  then show "\<forall>v y. vars e' v = Some y \<longrightarrow> ThrowException v e' = Inr (e', None)"
    by (auto simp: ThrowException_def the_var_def e' split: option.splits)
  show "exc_inv e'" using inv dead unfolding exc_inv_def by (auto simp: e')
  assume "\<exists>v y. vars e v = Some y \<and> live_exc e (var_exception y)"
  then obtain v y r where "vars e v = Some y" "var_exception y = Some r" "excs e r \<noteq> None"
    by (auto simp: live_exc_def split: option.splits)
  then have "r \<in> set ?rs" "excs e r \<noteq> None" using inv unfolding exc_inv_def by blast+
  then show "x \<noteq> None" unfolding x by (simp add: first_exception_None) blast
qed

section \<open>Operations whose inputs have failed\<close>

lemma first_live_Some:
  assumes "\<forall>v\<in>set vs. vars e v \<noteq> None" and "v \<in> set vs" "vars e v = Some x" "live_exc e (var_exception x)"
  shows "\<exists>r. first_live e vs = Inr (Some r) \<and> excs e r \<noteq> None"
  using assms
  by (induction vs) (auto simp: the_var_def live_exc_def split: option.splits)

lemma inherit_sets:
  assumes t: "oprs e oh = Some t" and vs: "\<forall>v\<in>set vs. vars e v \<noteq> None"
  obtains e' t' where "inherit_exception oh vs e = Inr e'" and "oprs e' oh = Some t'"
    and "excs e' = excs e" and "vars e' = vars e" and "opr_mutable_vars t' = opr_mutable_vars t"
    and "opr_prop t' = opr_prop t" and "opr_wait t' = opr_wait t"
    and "live_exc e (opr_exception t) \<or> (\<exists>v\<in>set vs. \<exists>x. vars e v = Some x \<and> live_exc e (var_exception x))
      \<longrightarrow> live_exc e' (opr_exception t')"
proof -
  have "\<exists>r. first_live e vs = Inr r"
    using vs by (induction vs) (auto simp: the_var_def)
  then obtain r where r: "first_live e vs = Inr r" by blast
  show ?thesis
  proof (cases r)
    case None
    have "\<not> live_exc e (var_exception x)" if "v \<in> set vs" "vars e v = Some x" for v x
      using first_live_Some [OF vs that] r None by auto
    then show ?thesis using that [of e t] t r None by (auto simp: inherit_exception_def)
  next
    case (Some r')
    then have "excs e r' \<noteq> None" using first_live_ref r by blast
    then show ?thesis
      using that [of "AddToGlobalExceptions r (set_opr_exception oh r e)" "t\<lparr>opr_exception := r\<rparr>"] t r Some
      by (auto simp: inherit_exception_def AddToGlobalExceptions_def set_opr_exception_def live_exc_def)
  qed
qed

text \<open>An operation that finds a failed variable is not run; its own failure is live afterwards.\<close>

lemma execute_skips:
  assumes k: "blks e b = Some k" and t: "oprs e (blk_opr k) = Some t"
    and vs: "\<forall>v\<in>set (opr_const_vars t @ opr_mutable_vars t). vars e v \<noteq> None"
    and failed: "v \<in> set (opr_const_vars t @ opr_mutable_vars t)" "vars e v = Some x" "live_exc e (var_exception x)"
    and normal: "\<not> shutdown_phase e" "opr_prop t \<noteq> kNoSkip" "\<not> opr_wait t"
  shows "\<exists>e' t'. (\<forall>c. execute_fn c b e = Inr (e', Some None)) \<and> oprs e' (blk_opr k) = Some t' \<and>
    live_exc e' (opr_exception t') \<and> vars e' = vars e"
proof -
  obtain e1 t1 where 1: "inherit_exception (blk_opr k) (opr_const_vars t) e = Inr e1" "oprs e1 (blk_opr k) = Some t1"
    "excs e1 = excs e" "vars e1 = vars e" "opr_mutable_vars t1 = opr_mutable_vars t" "opr_prop t1 = opr_prop t"
    "opr_wait t1 = opr_wait t"
    "live_exc e (opr_exception t) \<or> (\<exists>v\<in>set (opr_const_vars t). \<exists>x. vars e v = Some x \<and> live_exc e (var_exception x))
      \<longrightarrow> live_exc e1 (opr_exception t1)"
    by (rule inherit_sets [OF t, of "opr_const_vars t"]) (use vs in auto)
  obtain e2 t2 where 2: "inherit_exception (blk_opr k) (opr_mutable_vars t1) e1 = Inr e2" "oprs e2 (blk_opr k) = Some t2"
    "vars e2 = vars e1" "opr_prop t2 = opr_prop t1" "opr_wait t2 = opr_wait t1"
    "live_exc e1 (opr_exception t1) \<or> (\<exists>v\<in>set (opr_mutable_vars t1). \<exists>x. vars e1 v = Some x \<and> live_exc e1 (var_exception x))
      \<longrightarrow> live_exc e2 (opr_exception t2)"
    by (rule inherit_sets [OF 1(2), of "opr_mutable_vars t1"]) (use vs 1 in auto)
  define e3 where "e3 = (if live_exc e1 (opr_exception t1) then e1 else e2)"
  define t3 where "t3 = (if live_exc e1 (opr_exception t1) then t1 else t2)"
  have start: "OnStart (blk_opr k) e = Inr e3"
    using t 1 2 by (simp add: OnStart_def the_opr_def e3_def)
  have "live_exc e1 (var_exception x)" using failed(3) 1(3) unfolding live_exc_def by (simp split: option.splits)
  then have live: "live_exc e3 (opr_exception t3)"
    using failed 1 2 unfolding e3_def t3_def by (cases "live_exc e1 (opr_exception t1)") auto
  have t3: "oprs e3 (blk_opr k) = Some t3" "opr_prop t3 \<noteq> kNoSkip" "\<not> opr_wait t3" "vars e3 = vars e"
    using 1 2 normal unfolding e3_def t3_def by (auto split: if_splits)
  have "\<forall>c. execute_fn c b e = Inr (e3, Some None)"
    using k t start t3 live normal by (simp add: execute_fn_def the_blk_def the_opr_def)
  with t3 live show ?thesis by blast
qed

text \<open>The variables that a failed operation writes carry its failure.\<close>

lemma complete_write_marks:
  assumes "act (Complete True v b) e = Inr (e', ts)" and "blks e b = Some k" and "oprs e (blk_opr k) = Some t"
    and "live_exc e (opr_exception t)" and "vars e' v = Some y"
  shows "var_exception y = opr_exception t" and "live_exc e' (var_exception y)"
    and "\<forall>r. opr_exception t = Some r \<longrightarrow> r \<in> set (global_exception_refs e')"
proof -
  have "complete_write v b e = Inr (e', ts)" using assms(1) by simp
  then obtain k' e1 x1 x2 del where k': "blks e b = Some k'" and m': "mark_exception (blk_opr k') v e = Inr e1"
    and x1: "vars e1 v = Some x1" "CompleteWriteDependency x1 = Inr (x2, ts, del)"
    and e': "e' = e1\<lparr>vars := (vars e1)(v := (if del then None else Some x2))\<rparr>"
    by (rule complete_write_cases)
  have m: "mark_exception (blk_opr k) v e = Inr e1" using m' k' assms(2) by simp
  obtain x where x: "vars e v = Some x"
    and e1: "e1 = AddToGlobalExceptions (opr_exception t) (e\<lparr>vars := (vars e)(v \<mapsto> x\<lparr>var_exception := opr_exception t\<rparr>)\<rparr>)"
    using m assms(3,4) by (auto simp: mark_exception_def rbind_Inr_iff the_Inr)
  have "x1 = x\<lparr>var_exception := opr_exception t\<rparr>"
    using x1(1) by (auto simp: e1 AddToGlobalExceptions_def split: option.splits if_splits)
  then have x2: "var_exception x2 = opr_exception t" using var_exception_kept(3) [OF x1(2)] by simp
  then show "var_exception y = opr_exception t" using assms(5) e' by (simp split: if_splits)
  then show "live_exc e' (var_exception y)"
    using assms(4) by (auto simp: e' e1 live_exc_def AddToGlobalExceptions_def split: option.splits)
  show "\<forall>r. opr_exception t = Some r \<longrightarrow> r \<in> set (global_exception_refs e')"
    by (auto simp: e' e1 AddToGlobalExceptions_def)
qed

end
