(* ===== verification/MX_Scripts.thy ===== *)
theory MX_Scripts
  imports MX_Serial
begin

text \<open>
  Runs of the dependency engine written as scripts, which evaluate to concrete reachable states, and the
  finiteness of the runs in which no client acts.
\<close>

section \<open>Scripted serial runs\<close>

fun is_push_end :: "action \<Rightarrow> bool" where
  "is_push_end (PushEnd b) = True"
| "is_push_end _ = False"

text \<open>
  A run written as a list of commands: a client makes a variable or pushes an operation by \<open>PushAsync\<close> when no other
  push is under way, a thread performs its next action, a worker runs the block at the front of the queue.
\<close>

datatype cmd = NewVar | Spawn async_fn "nat list" "nat list" | Move nat | Work

definition work_first :: "client \<Rightarrow> mach \<Rightarrow> mach option" where
  "work_first c s =
    (case executing (eng s) of
       [] \<Rightarrow> None
     | (b, p) # _ \<Rightarrow> (case execute_fn c b (eng s) of
         Inr (e, Some err) \<Rightarrow> (case blks e b of
           Some k \<Rightarrow> (case oprs e (blk_opr k) of
             Some t \<Rightarrow> Some (s\<lparr>eng := note_error (blk_opr k) err (take_block (b, p) e),
               threads := threads s @ [complete_actions b (blk_opr k) t], started := started s @ [b]\<rparr>)
           | None \<Rightarrow> None)
         | None \<Rightarrow> None)
       | _ \<Rightarrow> None))"

fun do_cmd :: "client \<Rightarrow> cmd \<Rightarrow> mach \<Rightarrow> mach option" where
  "do_cmd c NewVar s = Some (add_variable s)"
| "do_cmd c (Spawn f cs ms) s =
    (if \<exists>a\<in>set (concat (threads s)). is_push_end a then None else spawn f cs ms s)"
| "do_cmd c (Move i) s = schedule [i] s"
| "do_cmd c Work s = work_first c s"

fun do_cmds :: "client \<Rightarrow> cmd list \<Rightarrow> mach \<Rightarrow> mach option" where
  "do_cmds c [] s = Some s"
| "do_cmds c (x # xs) s = Option.bind (do_cmd c x s) (do_cmds c xs)"

lemma work_first_cases:
  assumes "work_first c s = Some s'"
  obtains b p e err k t where "(b, p) \<in> set (executing (eng s))" and "execute_fn c b (eng s) = Inr (e, Some err)"
    and "blks e b = Some k" and "oprs e (blk_opr k) = Some t"
    and "s' = s\<lparr>eng := note_error (blk_opr k) err (take_block (b, p) e),
       threads := threads s @ [complete_actions b (blk_opr k) t], started := started s @ [b]\<rparr>"
proof -
  obtain b p xs where ex: "executing (eng s) = (b, p) # xs"
    using assms by (cases "executing (eng s)") (auto simp: work_first_def)
  obtain e r where e: "execute_fn c b (eng s) = Inr (e, r)"
    using assms by (cases "execute_fn c b (eng s)") (auto simp: work_first_def ex)
  obtain err where r: "r = Some err" using assms by (cases r) (auto simp: work_first_def ex e)
  obtain k where k: "blks e b = Some k" using assms by (cases "blks e b") (auto simp: work_first_def ex e r)
  obtain t where t: "oprs e (blk_opr k) = Some t"
    using assms by (cases "oprs e (blk_opr k)") (auto simp: work_first_def ex e r k)
  show ?thesis by (rule that [OF _ e [unfolded r] k t]) (use assms ex e r k t in \<open>auto simp: work_first_def\<close>)
qed

lemma schedule_one:
  assumes "schedule [i] s = Some s'"
  obtains a rest e bs where "i < length (threads s)" and "threads s ! i = a # rest" and "act a (eng s) = Inr (e, bs)"
    and "s' = s\<lparr>eng := e, threads := (threads s)[i := map Decr bs @ rest]\<rparr>"
proof -
  have i: "i < length (threads s)" using assms by (auto split: if_splits)
  obtain a rest where a: "threads s ! i = a # rest" using assms i by (cases "threads s ! i") auto
  obtain e bs where e: "act a (eng s) = Inr (e, bs)"
    using assms i a by (cases "act a (eng s)") (auto simp del: act.simps)
  show ?thesis by (rule that [OF i a e]) (use assms i a e in \<open>simp del: act.simps\<close>)
qed

lemma execute_next_blk:
  assumes "reachable c s" "(b, p) \<in> set (executing (eng s))" "execute_fn c b (eng s) = Inr (e, r)"
  shows "next_blk e = next_blk (eng s)"
proof -
  obtain H where "sched_inv (eng s) (acts s) (running s) H"
    using reachable_inv [OF assms(1)] by (auto simp: mach_inv_def)
  from same_core_views(7) [OF executing_core [OF this assms(2,3)]] show ?thesis .
qed

text \<open>Only a push takes a new block.\<close>

lemma estep_next_blk:
  assumes "reachable c s" "estep c s s'" "pushed s' = pushed s"
  shows "next_blk (eng s') = next_blk (eng s)"
  using assms(2)
proof cases
  case (thread i a rest e bs)
  obtain H where "mach_inv s H" using reachable_inv [OF assms(1)] by blast
  from thread_step_inv [OF this thread(2,3)] obtain e' bs' where
    "act a (eng s) = Inr (e', bs')" "next_blk e' = next_blk (eng s)" by metis
  with thread show ?thesis by simp
next
  case (run b p e err k t)
  with execute_next_blk [OF assms(1) run(2,3)] same_core_views(7) [OF note_error_core] show ?thesis
    by (simp add: take_block_def)
next
  case (start b p e)
  with execute_next_blk [OF assms(1) start(2,3)] show ?thesis by (simp add: take_block_def)
next
  case (new_operator cs ms f pr w e oh tmp)
  then show ?thesis by (auto simp: NewOperator_def rbind_Inr_iff set_temporary_def)
qed (use assms(3) same_core_views(7) [OF note_error_core] in \<open>auto simp: NewVariable_def\<close>)

lemma quiet_step:
  assumes "serial_reachable c s" "estep c s s'" "pushed s' = pushed s"
  shows "serial_reachable c s'"
proof -
  have "next_blk (eng s') = next_blk (eng s)"
    by (rule estep_next_blk [OF serial_reachable_reachable [OF assms(1)] assms(2,3)])
  with assms show ?thesis by (intro serial_reachable.step [OF assms(1)]) (simp add: serial_step_def push_alone_def)
qed

lemma do_cmd_serial:
  assumes s: "serial_reachable c s" and cmd: "do_cmd c x s = Some s'"
  shows "serial_reachable c s'"
proof (cases x)
  case NewVar
  then have "s' = s\<lparr>eng := fst (NewVariable (eng s))\<rparr>" using cmd by (simp add: add_variable_def)
  then show ?thesis using quiet_step [OF s estep.new_variable] by simp
next
  case (Spawn f cs ms)
  then have sp: "spawn f cs ms s = Some s'" and quiet: "\<forall>a\<in>set (concat (threads s)). \<not> is_push_end a"
    using cmd by (auto split: if_splits)
  obtain s1 where s1: "estep c s s1" "estep c s1 s'" "threads s1 = threads s" "next_blk (eng s1) = next_blk (eng s)"
    by (rule spawn_steps [OF serial_reachable_reachable [OF s] sp])
  have r1: "serial_reachable c s1"
    using s1 by (intro serial_reachable.step [OF s]) (simp add: serial_step_def push_alone_def)
  have "PushEnd b \<notin> set (concat (threads s1))" for b using quiet s1(3) by fastforce
  then have "serial_step c s1 s'" using s1(2) by (simp add: serial_step_def push_alone_def)
  then show ?thesis by (rule serial_reachable.step [OF r1])
next
  case (Move i)
  obtain a rest e bs where i: "i < length (threads s)" "threads s ! i = a # rest" "act a (eng s) = Inr (e, bs)"
    and s': "s' = s\<lparr>eng := e, threads := (threads s)[i := map Decr bs @ rest]\<rparr>"
    by (rule schedule_one [OF cmd [unfolded Move do_cmd.simps]])
  show ?thesis using quiet_step [OF s estep.thread [OF i]] s' by simp
next
  case Work
  obtain b p e err k t where b: "(b, p) \<in> set (executing (eng s))" "execute_fn c b (eng s) = Inr (e, Some err)"
    "blks e b = Some k" "oprs e (blk_opr k) = Some t"
    and s': "s' = s\<lparr>eng := note_error (blk_opr k) err (take_block (b, p) e),
       threads := threads s @ [complete_actions b (blk_opr k) t], started := started s @ [b]\<rparr>"
    by (rule work_first_cases [OF cmd [unfolded Work do_cmd.simps]])
  show ?thesis using quiet_step [OF s estep.run [OF b]] s' by simp
qed

lemma do_cmds_serial: "serial_reachable c s \<Longrightarrow> do_cmds c xs s = Some s' \<Longrightarrow> serial_reachable c s'"
  by (induction xs arbitrary: s) (auto simp: bind_eq_Some_conv intro: do_cmd_serial simp del: do_cmd.simps)

section \<open>Runs of the engine are finite\<close>

lemma engine_step_serial:
  assumes "serial_reachable c s" "engine_step c s s'"
  shows "serial_reachable c s'"
  using quiet_step [OF assms(1)] assms(2) by (simp add: engine_step_def)

lemma engine_steps_serial:
  assumes "(engine_step c)\<^sup>*\<^sup>* s s'" "serial_reachable c s"
  shows "serial_reachable c s' \<and> pushed s' = pushed s"
  using assms by (induction rule: rtranclp_induct) (auto intro: engine_step_serial simp: engine_step_def)

lemma engine_steps_finite:
  assumes "reachable c (f 0)"
  shows "\<exists>i. \<not> engine_step c (f i) (f (Suc i))"
proof (rule ccontr)
  assume "\<not> ?thesis"
  then have all: "engine_step c (f i) (f (Suc i))" for i by blast
  have r: "reachable c (f i)" for i
    by (induction i) (use assms all in \<open>auto intro: reachable.step simp: engine_step_def\<close>)
  define W where "W i = work (eng (f i)) (acts (f i)) (running (f i))" for i
  have "W (Suc i) < W i" for i unfolding W_def by (rule engine_step_work [OF r all])
  then have dec: "W (Suc i) < W i" for i .
  have "W i + i \<le> W 0" for i
  proof (induction i)
    case (Suc i)
    with dec [of i] show ?case by linarith
  qed simp
  from this [of "Suc (W 0)"] show False by simp
qed

lemma stuck_after_interleaving:
  assumes "concat (threads s) = []" "active (eng s) (running s) = []"
  shows "\<not> engine_step c s s'"
proof
  assume "engine_step c s s'"
  then have e: "estep c s s'" "pushed s' = pushed s" "threads s' \<noteq> threads s \<or> running s' \<noteq> running s"
    by (auto simp: engine_step_def)
  from e(1) show False
  proof cases
    case (thread i a rest e bs)
    then show False using assms(1) nth_mem [OF thread(2)] by auto
  qed (use e(2,3) assms(2) in \<open>auto simp: active_def\<close>)
qed

end
