(* ===== verification/MX_Topology.thy ===== *)
theory MX_Topology
  imports NS_Float
begin

text \<open>
  The link topology of the GPUs of a machine (\<open>src/src/kvstore/gpu_topology.h\<close>, first half): the connectivity test, the
  weights of the links, the partitioning by Kernighan and Lin and the binary tree grown from a partition.
  Weights are single-precision floats (the only instance of the templates), a matrix is a vector in row order. Vectors are
  accessed with a range check, so that an access out of range is a fault. \<open>std::shuffle\<close> with its generator is a
  parameter, as is the order in which an \<open>unordered_set\<close> is iterated, and the performance rank that CUDA reports for a pair
  of devices.
\<close>

section \<open>Connectivity\<close>

text \<open>The body of the loop over the neighbours, and the loop over the work list.\<close>

definition visit_neighbour :: "fl list \<Rightarrow> nat \<Rightarrow> nat \<Rightarrow> nat \<Rightarrow> bool list \<times> nat list \<Rightarrow> (bool list \<times> nat list) res" where
  "visit_neighbour matrix num_gpus cur i st =
     (case st of (visited, work_list) \<Rightarrow>
      rbind (vec_at matrix (int (cur * num_gpus + i))) (\<lambda>x.
      rbind (int_of_fl x) (\<lambda>neighbour.
      rbind (vec_at visited (int i)) (\<lambda>seen.
        if i \<noteq> cur \<and> neighbour > 1 \<and> \<not> seen then Inr (visited[i := True], work_list @ [i]) else Inr st))))"

definition open_work :: "bool list \<times> nat list \<Rightarrow> nat" where
  "open_work st = 2 * length (filter Not (fst st)) + length (snd st)"

lemma filter_Not_update: "i < length v \<Longrightarrow> \<not> v ! i \<Longrightarrow> length (filter Not v) = Suc (length (filter Not (v[i := True])))"
  by (induction v arbitrary: i) (auto split: nat.splits simp: nth_Cons')

lemma visit_neighbour_work:
  "visit_neighbour m n c i st = Inr st' \<Longrightarrow> open_work st' \<le> open_work st"
  by (auto simp: visit_neighbour_def rbind_Inr_iff vec_at_def open_work_def dest: filter_Not_update
      split: prod.splits if_splits)

lemma visit_all_work: "rfold (visit_neighbour m n c) is st = Inr st' \<Longrightarrow> open_work st' \<le> open_work st"
  by (induction "is" arbitrary: st) (auto simp: rbind_Inr_iff dest!: visit_neighbour_work intro: order_trans)

function bfs :: "fl list \<Rightarrow> nat \<Rightarrow> nat list \<Rightarrow> bool list \<Rightarrow> bool list res" where
  "bfs matrix num_gpus [] visited = Inr visited"
| "bfs matrix num_gpus (cur # work_list) visited =
     rbind (rfold (visit_neighbour matrix num_gpus cur) [0..<num_gpus] (visited, work_list))
       (\<lambda>st. bfs matrix num_gpus (snd st) (fst st))"
  by pat_completeness auto
termination
  by (relation "measure (\<lambda>(m, n, w, v). open_work (v, w))") (auto dest!: visit_all_work simp: open_work_def)

definition IsConnected :: "fl list \<Rightarrow> nat \<Rightarrow> bool res" where
  "IsConnected matrix num_gpus =
     rbind (vec_set (replicate num_gpus False) 0 True) (\<lambda>visited.
     rmap (\<lambda>visited. \<forall>i < num_gpus. visited ! i) (bfs matrix num_gpus [0] visited))"

section \<open>Weights of the links\<close>

text \<open>
  \<open>rank\<close> is the performance rank \<open>cudaDeviceGetP2PAttribute\<close> reports for two devices. Where a connection known to be
  peer-to-peer has the weight of PCI-E, the reported ranks are not trusted.
\<close>

definition rank_weights :: "(int \<Rightarrow> int \<Rightarrow> int) \<Rightarrow> int list \<Rightarrow> fl list" where
  "rank_weights rank devs =
     concat (map (\<lambda>row. map (\<lambda>col. if row = col then Fin 0 else f32_add (fl_of_int (rank (devs ! row) (devs ! col))) (Fin 1))
       [0..<length devs]) [0..<length devs])"

fun matrix_correct :: "int list \<Rightarrow> fl list \<Rightarrow> bool res" where
  "matrix_correct [] m = Inr True"
| "matrix_correct (p # ps) [] = Inl (Out_of_range ''matrix'')"
| "matrix_correct (p # ps) (x # m) = (if p > 0 \<and> fl_eq x (Fin 1) then Inr False else matrix_correct ps m)"

definition p2p_fallback :: "int list \<Rightarrow> fl list \<Rightarrow> fl list" where
  "p2p_fallback p2p m = map (\<lambda>p. if p > 0 then Fin 2 else Fin 1) p2p @ drop (length p2p) m"

definition GetP2PWeight :: "(int \<Rightarrow> int \<Rightarrow> int) \<Rightarrow> int list \<Rightarrow> int list \<Rightarrow> fl list res" where
  "GetP2PWeight rank devs p2p_matrix =
     (let num_gpus = length devs; matrix = rank_weights rank devs in
      rbind (matrix_correct p2p_matrix matrix) (\<lambda>correct.
      rbind (if correct then Inr matrix
             else if length p2p_matrix > length matrix then Inl (Out_of_range ''matrix'')
             else Inr (p2p_fallback p2p_matrix matrix)) (\<lambda>matrix.
      rmap (\<lambda>connected.
        map (\<lambda>x. if fl_eq x (Fin 1)
          then (if connected then Fin 0 else fl_narrow rnd32 (fl_div rnd64 (Fin 1) (Fin (of_nat num_gpus)))) else x) matrix)
        (IsConnected matrix num_gpus))))"

section \<open>Partitioning\<close>

definition w_at :: "fl list \<Rightarrow> nat \<Rightarrow> int \<Rightarrow> int \<Rightarrow> fl res" where
  "w_at W n i j = vec_at W (i * int n + j)"

definition gemv_row :: "fl list \<Rightarrow> int list \<Rightarrow> nat \<Rightarrow> fl res" where
  "gemv_row A x row =
     rfold (\<lambda>col y. rmap (\<lambda>a. f32_add y (f32_mul a (fl_of_int (x ! col)))) (w_at A (length x) (int row) (int col)))
       [0..<length x] (Fin 0)"

definition gemv :: "fl list \<Rightarrow> int list \<Rightarrow> fl list res" where
  "gemv A x = rmap_list (gemv_row A x) [0..<length x]"

definition ewisemult :: "int list \<Rightarrow> fl \<Rightarrow> fl list \<Rightarrow> fl list" where
  "ewisemult u alpha w = map2 (\<lambda>u w. f32_mul w (f32_mul alpha (fl_of_int u))) u w"

text \<open>The differences between external and internal cost, from the current partition.\<close>

definition costs :: "fl list \<Rightarrow> int list \<Rightarrow> fl list res" where
  "costs W P = rmap (ewisemult P (Fin (- 1))) (gemv W P)"

definition try_move ::
  "fl list \<Rightarrow> int list \<Rightarrow> fl list \<Rightarrow> nat \<Rightarrow> nat \<Rightarrow> int \<times> int \<times> fl \<Rightarrow> (int \<times> int \<times> fl) res" where
  "try_move W P D row col best =
     (case best of (a, b, g) \<Rightarrow>
      if P ! col = 0 \<or> P ! row = P ! col then Inr best
      else rbind (vec_at D (int row)) (\<lambda>dr. rbind (vec_at D (int col)) (\<lambda>dc.
        rmap (\<lambda>w. let cost = f32_sub (f32_add dr dc) (f32_mul (Fin 2) w) in
            if fl_less g cost then (int row, int col, cost) else best)
          (w_at W (length P) (int row) (int col)))))"

definition FindBestMove :: "fl list \<Rightarrow> int list \<Rightarrow> fl list \<Rightarrow> int list \<Rightarrow> (int \<times> int \<times> fl) res" where
  "FindBestMove W P D used =
     rfold (\<lambda>row best.
       if P ! row = 0 \<or> int row \<in> set used then Inr best
       else rfold (try_move W P D row) [Suc row..<length P] best)
       [0..<length P] (- 1, - 1, Fin 0)"

text \<open>
  The moves of one pass: the moves with their gains, the partition and the differences afterwards, and whether the loop
  was left early, which resets \<open>g_max\<close>.
\<close>

fun kl_moves ::
  "fl list \<Rightarrow> nat \<Rightarrow> int list \<Rightarrow> fl list \<Rightarrow> int list \<Rightarrow> ((int \<times> int \<times> fl) list \<times> bool) res" where
  "kl_moves W 0 P D used = Inr ([], False)"
| "kl_moves W (Suc k) P D used =
     rbind (FindBestMove W P D used) (\<lambda>(a, b, g).
     if \<not> fl_less (Fin 0) g then Inr ([], True)
     else rbind (vec_at P a) (\<lambda>pa. rbind (vec_set P a (- pa)) (\<lambda>P.
          rbind (vec_at P b) (\<lambda>pb. rbind (vec_set P b (- pb)) (\<lambda>P.
          rbind (costs W P) (\<lambda>D.
          rbind (vec_set D a (Fin 0)) (\<lambda>D. rbind (vec_set D b (Fin 0)) (\<lambda>D.
          rmap (\<lambda>(ms, early). ((a, b, g) # ms, early)) (kl_moves W k P D (b # a # used))))))))))"

text \<open>The scan over the accumulated gains: the largest gain and the number of moves that gives it.\<close>

fun kl_scan :: "fl list \<Rightarrow> nat \<Rightarrow> fl \<Rightarrow> fl \<times> int \<Rightarrow> fl \<times> int" where
  "kl_scan [] k acc best = best"
| "kl_scan (g # gs) k acc best =
     (let acc = (if k > 0 then f32_add g acc else g) in
      kl_scan gs (Suc k) acc (if fl_less (fst best) acc then (acc, int k + 1) else best))"

definition kl_swap :: "int list \<Rightarrow> nat \<Rightarrow> nat \<Rightarrow> int list" where
  "kl_swap P a b = P[a := P ! b, b := P ! a]"

definition kl_commit :: "(int \<times> int \<times> fl) list \<Rightarrow> int \<Rightarrow> int list \<Rightarrow> int list res" where
  "kl_commit ms g_k P =
     rfold (\<lambda>i P. rbind (vec_at ms i) (\<lambda>(a, b, g).
         rbind (vec_at P a) (\<lambda>_. rbind (vec_at P b) (\<lambda>_. Inr (kl_swap P (nat a) (nat b))))))
       (map int [0..<nat g_k]) P"

text \<open>The passes until there is no gain, at most one more than there are devices.\<close>

fun kl_passes :: "fl list \<Rightarrow> nat \<Rightarrow> nat \<Rightarrow> fl \<times> int \<Rightarrow> int list \<Rightarrow> int list res" where
  "kl_passes W half 0 best P = Inr P"
| "kl_passes W half (Suc k) best P =
     rbind (costs W P) (\<lambda>D.
     rbind (kl_moves W half P D []) (\<lambda>(ms, early).
     let (g_max, g_k) = kl_scan (map (\<lambda>m. snd (snd m)) ms) 0 (Fin 0) (if early then Fin 0 else fst best, snd best) in
     if fl_less (Fin 0) g_max
     then rbind (kl_commit ms g_k P) (\<lambda>P. kl_passes W half k (g_max, g_k) P)
     else Inr P))"

text \<open>
  \<open>P_temp\<close> is not cleared between the partitions of one call: an entry of another partition is set to 0 for every device
  outside the cluster, so that only the cluster counts.
\<close>

definition kl_start :: "nat list \<Rightarrow> nat \<Rightarrow> nat \<Rightarrow> int list" where
  "kl_start shuffled n half =
     fold (\<lambda>(k, c) P. P[c := (if k < half then 1 else - 1)])
       (zip [0..<length shuffled] shuffled) (replicate n 0)"

definition kl_split ::
  "(nat list \<Rightarrow> 'g \<Rightarrow> nat list \<times> 'g) \<Rightarrow> fl list \<Rightarrow> int list \<Rightarrow> int \<Rightarrow> int \<Rightarrow> int \<Rightarrow> 'g \<Rightarrow> (int list \<times> 'g) res" where
  "kl_split shuf W P color partition_size num_partitions gen =
     (let half = nat (partition_size div 2);
          (shuffled, gen) = shuf (filter (\<lambda>i. P ! i = color) [0..<length P]) gen in
      rmap (\<lambda>Q. (map2 (\<lambda>p q. if q = - 1 then num_partitions else p) P Q, gen))
        (kl_passes W half (Suc (length P)) (Fin 0, - 1) (kl_start shuffled (length P) half)))"

record 'g kl =
  kl_P :: "int list"
  kl_num :: int
  kl_pairs :: "(int \<times> int) list"
  kl_stop :: bool
  kl_gen :: 'g

definition kl_color ::
  "(nat list \<Rightarrow> 'g \<Rightarrow> nat list \<times> 'g) \<Rightarrow> fl list \<Rightarrow> int \<times> int \<Rightarrow> 'g kl \<Rightarrow> 'g kl res" where
  "kl_color shuf W cs s =
     (case cs of (color, partition_size) \<Rightarrow>
      if partition_size \<le> 2 then Inr (s\<lparr>kl_pairs := kl_pairs s @ [(color, - partition_size)]\<rparr>)
      else rmap (\<lambda>(P, gen). s\<lparr>kl_P := P, kl_gen := gen, kl_stop := False,
          kl_pairs := kl_pairs s @ [(color, kl_num s)], kl_num := kl_num s + 1\<rparr>)
        (kl_split shuf W (kl_P s) color partition_size (kl_num s) (kl_gen s)))"

definition kl_histogram :: "int list \<Rightarrow> int \<Rightarrow> int list res" where
  "kl_histogram P num =
     rfold (\<lambda>p h. rbind (vec_at h p) (\<lambda>c. vec_set h p (c + 1))) P (replicate (nat num) 0)"

definition KernighanLin ::
  "(nat list \<Rightarrow> 'g \<Rightarrow> nat list \<times> 'g) \<Rightarrow> fl list \<Rightarrow> int list \<Rightarrow> int \<Rightarrow> (int \<times> int) list \<Rightarrow> 'g \<Rightarrow> 'g kl res" where
  "KernighanLin shuf W P num pairs gen =
     rbind (kl_histogram P num) (\<lambda>histogram.
       rfold (kl_color shuf W) (zip (map int [0..<length histogram]) histogram)
         \<lparr>kl_P = P, kl_num = num, kl_pairs = pairs, kl_stop = True, kl_gen = gen\<rparr>)"

section \<open>The tree of a partition\<close>

text \<open>\<open>iter\<close> is the order in which the set of roots is iterated.\<close>

fun GetRoot_in :: "int list \<Rightarrow> int \<Rightarrow> int list \<Rightarrow> int res" where
  "GetRoot_in P color [] = Inr (- 1)"
| "GetRoot_in P color (r # rs) = rbind (vec_at P r) (\<lambda>p. if p = color then Inr r else GetRoot_in P color rs)"

definition GetRoot :: "(int list \<Rightarrow> int list) \<Rightarrow> int list \<Rightarrow> int \<Rightarrow> int list \<Rightarrow> int res" where
  "GetRoot iter P color roots = GetRoot_in P color (iter roots)"

definition GetChild :: "int list \<Rightarrow> int \<Rightarrow> int \<Rightarrow> int" where
  "GetChild P color parent =
     (case List.find (\<lambda>i. P ! i = color \<and> int i \<noteq> parent) [0..<length P] of None \<Rightarrow> - 1 | Some i \<Rightarrow> int i)"

definition FindBestEdge :: "fl list \<Rightarrow> int list \<Rightarrow> int \<Rightarrow> int \<Rightarrow> (int list \<times> fl) res" where
  "FindBestEdge W P parent dest_cluster =
     rfold (\<lambda>col st. case st of (b, g) \<Rightarrow>
       if int col = parent \<or> P ! col \<noteq> dest_cluster then Inr st
       else rmap (\<lambda>cost.
           let b = (if fl_less g cost then [] else b) in
           if fl_less g cost \<or> fl_eq g cost then (b @ [int col], cost) else (b, g))
         (w_at W (length P) parent (int col)))
       [0..<length P] ([- 1], Fin 0)"

text \<open>The parent and the child of a pair of clusters, and the roots it adds; \<open>None\<close> for a reset.\<close>

definition tree_edge ::
  "(int list \<Rightarrow> int list) \<Rightarrow> (int list \<Rightarrow> 'g \<Rightarrow> int list \<times> 'g) \<Rightarrow> fl list \<Rightarrow> int list \<Rightarrow> int list \<Rightarrow> int \<times> int \<Rightarrow> 'g \<Rightarrow>
   ((int \<times> int \<times> int list) option \<times> 'g) res" where
  "tree_edge iter shuf W P roots pair gen =
     (case pair of (first, second) \<Rightarrow>
      if second = - 2 \<or> second = - 1 then
        rmap (\<lambda>parent. if parent = - 1 then (None, gen)
            else (Some (parent, if second = - 2 then GetChild P first parent else parent, []), gen))
          (GetRoot iter P first roots)
      else
        rbind (GetRoot iter P first roots) (\<lambda>r1.
        let color = (if r1 = - 1 then second else first) in
        rbind (if r1 = - 1 then GetRoot iter P color roots else Inr r1) (\<lambda>parent.
        let dest_cluster = (if color = first then second else first) in
        rbind (FindBestEdge W P parent dest_cluster) (\<lambda>(candidates, weight).
        let (shuffled, gen) = (if hd candidates \<noteq> - 1 then shuf candidates gen else (candidates, gen)) in
        Inr (if hd candidates \<noteq> - 1 \<and> hd shuffled \<noteq> - 1 then Some (parent, hd shuffled, [parent, hd shuffled]) else None, gen)))))"

fun tree_edges ::
  "(int list \<Rightarrow> int list) \<Rightarrow> (int list \<Rightarrow> 'g \<Rightarrow> int list \<times> 'g) \<Rightarrow> fl list \<Rightarrow> int list \<Rightarrow> int list \<Rightarrow> (int \<times> int) list \<Rightarrow>
   int list \<times> (int \<rightharpoonup> int) \<Rightarrow> 'g \<Rightarrow> ((int list \<times> (int \<rightharpoonup> int)) option \<times> 'g) res" where
  "tree_edges iter shuf W P roots [] acc gen = Inr (Some acc, gen)"
| "tree_edges iter shuf W P roots (pr # prs) acc gen =
     rbind (tree_edge iter shuf W P roots pr gen) (\<lambda>(e, gen).
       case e of None \<Rightarrow> Inr (None, gen)
       | Some (parent, child, new_roots) \<Rightarrow>
           tree_edges iter shuf W P roots prs (fst acc @ new_roots, (snd acc)(parent \<mapsto> child)) gen)"

text \<open>The next level of the tree: a device that repeats its left neighbour sends to itself; a missing entry of the map is 0.\<close>

definition tree_level :: "(int \<rightharpoonup> int) \<Rightarrow> int list \<Rightarrow> int list" where
  "tree_level new_topo lvl =
     concat (map (\<lambda>i. let parent = lvl ! i in
        [parent, if i \<noteq> 0 \<and> parent = lvl ! (i - 1) then parent else (case new_topo parent of None \<Rightarrow> 0 | Some c \<Rightarrow> c)])
      [0..<length lvl])"

text \<open>
  \<open>topo_row\<close> and \<open>scan_row\<close> are given up by the caller after a reset, the pairs and roots as well; the value \<open>None\<close> is the
  reset.
\<close>

record kltree =
  kt_roots :: "int list"
  kt_topo :: "int list"
  kt_scan :: "int list"

definition KLGenerateBinaryTree ::
  "(int list \<Rightarrow> int list) \<Rightarrow> (int list \<Rightarrow> 'g \<Rightarrow> int list \<times> 'g) \<Rightarrow> fl list \<Rightarrow> int list \<Rightarrow> (int \<times> int) list \<Rightarrow>
   kltree \<Rightarrow> 'g \<Rightarrow> (kltree option \<times> 'g) res" where
  "KLGenerateBinaryTree iter shuf W P pairs t gen =
     (let scan = (if pairs = [] then kt_scan t else kt_scan t @ [int (length (kt_topo t))]) in
      rbind (tree_edges iter shuf W P (kt_roots t) pairs ([], Map.empty) gen) (\<lambda>(r, gen).
      case r of
        None \<Rightarrow> Inr (None, gen)
      | Some (new_roots, new_topo) \<Rightarrow>
          rbind (vec_at scan (int (length scan) - 2)) (\<lambda>start. rbind (vec_at scan (int (length scan) - 1)) (\<lambda>end1.
          Inr (Some \<lparr>kt_roots = remdups new_roots,
             kt_topo = kt_topo t @ tree_level new_topo (take (nat (end1 - start)) (drop (nat start) (kt_topo t))),
             kt_scan = scan\<rparr>, gen)))))"

section \<open>The connectivity test is reachability\<close>

definition nvlink :: "fl list \<Rightarrow> nat \<Rightarrow> nat \<Rightarrow> nat \<Rightarrow> bool" where
  "nvlink m n i j \<longleftrightarrow> i < n \<and> j < n \<and> i \<noteq> j \<and> (\<exists>k. int_of_fl (m ! (i * n + j)) = Inr k \<and> 1 < k)"

definition link_matrix :: "fl list \<Rightarrow> nat \<Rightarrow> bool" where
  "link_matrix m n \<longleftrightarrow> length m = n * n \<and> (\<forall>x \<in> set m. is_ok (int_of_fl x))"

lemma matrix_index: "i < n \<Longrightarrow> j < n \<Longrightarrow> i * n + j < n * (n :: nat)"
  using mult_le_mono1 [of "Suc i" n n] by simp

lemma link_matrix_at:
  assumes "link_matrix m n" "i < n" "j < n"
  shows "\<exists>k. vec_at m (int (i * n + j)) = Inr (m ! (i * n + j)) \<and> int_of_fl (m ! (i * n + j)) = Inr k"
  using assms matrix_index [OF assms(2,3)] by (auto simp: link_matrix_def vec_at_def is_ok_iff simp flip: of_nat_mult of_nat_add)

lemma visit_neighbour_eq:
  assumes "link_matrix m n" "c < n" "i < n" "length v = n"
  shows "visit_neighbour m n c i (v, w) = Inr (if nvlink m n c i \<and> \<not> v ! i then (v[i := True], w @ [i]) else (v, w))"
proof -
  obtain k where "vec_at m (int (c * n + i)) = Inr (m ! (c * n + i))" "int_of_fl (m ! (c * n + i)) = Inr k"
    using link_matrix_at [OF assms(1-3)] by blast
  with assms(2-4) show ?thesis by (auto simp: visit_neighbour_def nvlink_def vec_at_def)
qed

lemma visit_all_eq:
  assumes "link_matrix m n" "c < n" "set is \<subseteq> {..<n}" "length v = n"
  shows "\<exists>v' new. rfold (visit_neighbour m n c) is (v, w) = Inr (v', w @ new) \<and> length v' = n \<and>
    (\<forall>j < n. v' ! j \<longleftrightarrow> v ! j \<or> (j \<in> set is \<and> nvlink m n c j)) \<and> (\<forall>j < n. j \<in> set new \<longleftrightarrow> v' ! j \<and> \<not> v ! j) \<and> set new \<subseteq> {..<n}"
  using assms(3,4)
proof (induction "is" arbitrary: v w)
  case Nil
  then show ?case by (intro exI [of _ v] exI [of _ "[]"]) auto
next
  case (Cons i "is")
  then have i: "i < n" by simp
  note step = visit_neighbour_eq [OF assms(1,2) i Cons.prems(2), of w]
  show ?case
  proof (cases "nvlink m n c i \<and> \<not> v ! i")
    case True
    from Cons.IH [of "v[i := True]" "w @ [i]"] Cons.prems obtain v' new where
      r: "rfold (visit_neighbour m n c) is (v[i := True], (w @ [i])) = Inr (v', (w @ [i]) @ new)" "length v' = n"
      "\<forall>j < n. v' ! j \<longleftrightarrow> v[i := True] ! j \<or> (j \<in> set is \<and> nvlink m n c j)"
      "\<forall>j < n. j \<in> set new \<longleftrightarrow> v' ! j \<and> \<not> v[i := True] ! j" "set new \<subseteq> {..<n}" by auto
    have "\<forall>j < n. v' ! j \<longleftrightarrow> v ! j \<or> (j \<in> set (i # is) \<and> nvlink m n c j)"
      "\<forall>j < n. j \<in> set (i # new) \<longleftrightarrow> v' ! j \<and> \<not> v ! j"
      using r(3,4) True i Cons.prems(2) by (auto simp: nth_list_update)
    with r step True i show ?thesis by (intro exI [of _ v'] exI [of _ "i # new"]) auto
  next
    case False
    then have keep: "visit_neighbour m n c i (v, w) = Inr (v, w)" using step by simp
    from Cons.IH [of v w] Cons.prems obtain v' new where
      r: "rfold (visit_neighbour m n c) is (v, w) = Inr (v', w @ new)" "length v' = n"
      "\<forall>j < n. v' ! j \<longleftrightarrow> v ! j \<or> (j \<in> set is \<and> nvlink m n c j)"
      "\<forall>j < n. j \<in> set new \<longleftrightarrow> v' ! j \<and> \<not> v ! j" "set new \<subseteq> {..<n}" by auto
    with keep False show ?thesis by (intro exI [of _ v'] exI [of _ new]) auto
  qed
qed

lemma bfs_reaches:
  assumes "link_matrix m n" "length v = n" "\<forall>i \<in> set w. i < n \<and> v ! i"
    and "\<forall>i < n. v ! i \<longrightarrow> i \<notin> set w \<longrightarrow> (\<forall>j. nvlink m n i j \<longrightarrow> v ! j)"
  shows "\<exists>v'. bfs m n w v = Inr v' \<and> length v' = n \<and> (\<forall>i < n. v ! i \<longrightarrow> v' ! i) \<and>
    (\<forall>i < n. v' ! i \<longrightarrow> (\<forall>j. nvlink m n i j \<longrightarrow> v' ! j)) \<and>
    (\<forall>i < n. v' ! i \<longrightarrow> (\<exists>k < n. v ! k \<and> (nvlink m n)\<^sup>*\<^sup>* k i))"
  using assms
proof (induction m n w v rule: bfs.induct)
  case (1 m n v)
  then show ?case by auto
next
  case (2 m n c w v)
  then have c: "c < n" "v ! c" by auto
  from visit_all_eq [OF "2.prems"(1) c(1) _ "2.prems"(2), of "[0..<n]" w] obtain v1 new where
    r: "rfold (visit_neighbour m n c) [0..<n] (v, w) = Inr (v1, w @ new)" "length v1 = n"
    "\<forall>j < n. v1 ! j \<longleftrightarrow> v ! j \<or> nvlink m n c j" "\<forall>j < n. j \<in> set new \<longleftrightarrow> v1 ! j \<and> \<not> v ! j" "set new \<subseteq> {..<n}"
    by (auto simp: atLeast0LessThan)
  have w: "\<forall>i \<in> set (w @ new). i < n \<and> v1 ! i" using r(3-5) "2.prems"(3) by auto
  have closed: "\<forall>i < n. v1 ! i \<longrightarrow> i \<notin> set (w @ new) \<longrightarrow> (\<forall>j. nvlink m n i j \<longrightarrow> v1 ! j)"
  proof (intro allI impI)
    fix i j assume i: "i < n" "v1 ! i" "i \<notin> set (w @ new)" "nvlink m n i j"
    then have "v ! i" "j < n" using r(4) by (auto simp: nvlink_def)
    show "v1 ! j"
    proof (cases "i = c")
      case True
      then show ?thesis using i(4) \<open>j < n\<close> r(3) by blast
    next
      case False
      then have "v ! j" using i \<open>v ! i\<close> "2.prems"(4) by (metis Un_iff set_append set_ConsD)
      then show ?thesis using \<open>j < n\<close> r(3) by blast
    qed
  qed
  from "2.IH" [OF r(1)] r(2) w closed "2.prems"(1) obtain v' where
    v': "bfs m n (w @ new) v1 = Inr v'" "length v' = n" "\<forall>i < n. v1 ! i \<longrightarrow> v' ! i"
    "\<forall>i < n. v' ! i \<longrightarrow> (\<forall>j. nvlink m n i j \<longrightarrow> v' ! j)" "\<forall>i < n. v' ! i \<longrightarrow> (\<exists>k < n. v1 ! k \<and> (nvlink m n)\<^sup>*\<^sup>* k i)"
    by auto
  have "\<exists>k < n. v ! k \<and> (nvlink m n)\<^sup>*\<^sup>* k i" if i: "i < n" "v' ! i" for i
  proof -
    obtain k where k: "k < n" "v1 ! k" "(nvlink m n)\<^sup>*\<^sup>* k i" using v'(5) i by blast
    then consider "v ! k" | "nvlink m n c k" using r(3) by blast
    then show ?thesis using k c by cases (blast, meson converse_rtranclp_into_rtranclp)
  qed
  with v' r(1,3) show ?case by auto
qed

lemma IsConnected_reaches:
  assumes "link_matrix m n" "0 < n"
  shows "IsConnected m n = Inr (\<forall>j < n. (nvlink m n)\<^sup>*\<^sup>* 0 j)"
proof -
  let ?v = "(replicate n False)[0 := True]"
  have "\<exists>v'. bfs m n [0] ?v = Inr v' \<and> length v' = n \<and> (\<forall>i < n. ?v ! i \<longrightarrow> v' ! i) \<and>
    (\<forall>i < n. v' ! i \<longrightarrow> (\<forall>j. nvlink m n i j \<longrightarrow> v' ! j)) \<and> (\<forall>i < n. v' ! i \<longrightarrow> (\<exists>k < n. ?v ! k \<and> (nvlink m n)\<^sup>*\<^sup>* k i))"
    by (rule bfs_reaches [OF assms(1)]) (use assms(2) in \<open>auto simp: nth_list_update split: if_splits\<close>)
  then obtain v' where v': "bfs m n [0] ?v = Inr v'" "\<forall>i < n. ?v ! i \<longrightarrow> v' ! i"
    "\<forall>i < n. v' ! i \<longrightarrow> (\<forall>j. nvlink m n i j \<longrightarrow> v' ! j)" "\<forall>i < n. v' ! i \<longrightarrow> (\<exists>k < n. ?v ! k \<and> (nvlink m n)\<^sup>*\<^sup>* k i)"
    by blast
  have "j < n \<and> v' ! j" if "(nvlink m n)\<^sup>*\<^sup>* 0 j" for j
    using that
  proof induction
    case base
    show ?case using v'(2) assms(2) by simp
  next
    case (step y z)
    then show ?case using v'(3) unfolding nvlink_def by blast
  qed
  moreover have "(nvlink m n)\<^sup>*\<^sup>* 0 j" if "j < n" "v' ! j" for j
    using v'(4) that by (auto simp: nth_list_update split: if_splits)
  ultimately have "v' ! j \<longleftrightarrow> (nvlink m n)\<^sup>*\<^sup>* 0 j" if "j < n" for j using that by blast
  with v'(1) assms(2) show ?thesis by (simp add: IsConnected_def vec_set_def)
qed

section \<open>Partitions are balanced\<close>

lemma w_at_ok:
  assumes "length W = n * n" "i < n" "j < n"
  shows "w_at W n (int i) (int j) = Inr (W ! (i * n + j))"
  using assms matrix_index [OF assms(2,3)] by (simp add: w_at_def vec_at_def nat_int_add flip: of_nat_mult of_nat_add)

lemma gemv_ok:
  assumes "length W = length P * length P"
  shows "\<exists>y. gemv W P = Inr y \<and> length y = length P"
proof -
  have "\<exists>y. gemv_row W P row = Inr y" if "row < length P" for row
  proof -
    let ?g = "\<lambda>col y. f32_add y (f32_mul (W ! (row * length P + col)) (fl_of_int (P ! col)))"
    have "rfold (\<lambda>col y. rmap (\<lambda>a. f32_add y (f32_mul a (fl_of_int (P ! col)))) (w_at W (length P) (int row) (int col)))
        [0..<length P] (Fin 0) = Inr (fold ?g [0..<length P] (Fin 0))"
      by (rule rfold_total) (simp add: w_at_ok [OF assms that])
    then show ?thesis by (simp add: gemv_row_def)
  qed
  then obtain y where "\<forall>row < length P. gemv_row W P row = Inr (y row)" by metis
  then have "gemv W P = Inr (map y [0..<length P])" unfolding gemv_def by (intro rmap_list_total) simp
  then show ?thesis by simp
qed

lemma costs_ok: "length W = length P * length P \<Longrightarrow> \<exists>D. costs W P = Inr D \<and> length D = length P"
  using gemv_ok [of W P] by (auto simp: costs_def ewisemult_def)

text \<open>A move that is worth making exchanges two devices of the cluster.\<close>

definition good_move :: "int list \<Rightarrow> int \<times> int \<times> fl \<Rightarrow> bool" where
  "good_move P m = (case m of (a, b, g) \<Rightarrow> 0 \<le> a \<and> nat a < length P \<and> 0 \<le> b \<and> nat b < length P \<and> P ! nat a \<noteq> 0 \<and> P ! nat b \<noteq> 0)"

definition move_or_none :: "int list \<Rightarrow> int \<times> int \<times> fl \<Rightarrow> bool" where
  "move_or_none P m \<longleftrightarrow> m = (- 1, - 1, Fin 0) \<or> good_move P m"

lemma rfold_safe:
  assumes "\<And>x s. x \<in> set xs \<Longrightarrow> Q s \<Longrightarrow> \<exists>s'. f x s = Inr s' \<and> Q s'" and "Q s"
  shows "\<exists>s'. rfold f xs s = Inr s' \<and> Q s'"
  using assms
proof (induction xs arbitrary: s)
  case (Cons x xs)
  from Cons.prems(1) [of x s] Cons.prems(2) obtain s1 where "f x s = Inr s1" "Q s1" by auto
  with Cons.IH [of s1] Cons.prems(1) show ?case by auto
qed simp

lemma FindBestMove_ok:
  assumes W: "length W = length P * length P" and D: "length D = length P"
  shows "\<exists>m. FindBestMove W P D used = Inr m \<and> move_or_none P m"
proof -
  have step: "\<exists>m'. try_move W P D row col m = Inr m' \<and> move_or_none P m'"
    if "row < length P" "col < length P" "P ! row \<noteq> 0" "move_or_none P m" for row col m
    using that D by (cases m) (auto simp: try_move_def w_at_ok [OF W] vec_at_def Let_def move_or_none_def good_move_def)
  have row: "\<exists>m'. (if P ! row = 0 \<or> int row \<in> set used then Inr m else rfold (try_move W P D row) [Suc row..<length P] m) = Inr m' \<and>
      move_or_none P m'" if "row < length P" "move_or_none P m" for row m
  proof (cases "P ! row = 0 \<or> int row \<in> set used")
    case False
    have "\<exists>m'. rfold (try_move W P D row) [Suc row..<length P] m = Inr m' \<and> move_or_none P m'"
      by (rule rfold_safe) (use that False step in auto)
    with False show ?thesis by simp
  qed (use that in simp)
  show ?thesis unfolding FindBestMove_def
    by (rule rfold_safe) (use row in \<open>auto simp: move_or_none_def\<close>)
qed

text \<open>Two vectors are alike if one permutes the other and both are zero outside the same cluster.\<close>

definition alike :: "int list \<Rightarrow> int list \<Rightarrow> bool" where
  "alike P Q \<longleftrightarrow> mset Q = mset P \<and> (\<forall>i < length P. Q ! i = 0 \<longleftrightarrow> P ! i = 0)"

lemma alike_length: "alike P Q \<Longrightarrow> length Q = length P"
  by (metis alike_def size_mset)

lemma alike_trans: "alike P Q \<Longrightarrow> alike Q R \<Longrightarrow> alike P R"
  using alike_length [of P Q] by (auto simp: alike_def)

definition same_zeros :: "int list \<Rightarrow> int list \<Rightarrow> bool" where
  "same_zeros P Q \<longleftrightarrow> length Q = length P \<and> (\<forall>i < length P. Q ! i = 0 \<longleftrightarrow> P ! i = 0)"

lemma same_zeros_move: "same_zeros P Q \<Longrightarrow> good_move Q m \<longleftrightarrow> good_move P m"
  by (auto simp: good_move_def same_zeros_def split: prod.splits)

lemma kl_moves_ok:
  assumes "length W = length P * length P" "length D = length P"
  shows "\<exists>ms early. kl_moves W k P D used = Inr (ms, early) \<and> (\<forall>m \<in> set ms. good_move P m) \<and>
    length ms \<le> k \<and> (\<not> early \<longrightarrow> length ms = k)"
  using assms
proof (induction k arbitrary: P D used)
  case 0
  show ?case by (intro exI [of _ "[]"] exI [of _ False]) simp
next
  case (Suc k)
  obtain a b g where f: "FindBestMove W P D used = Inr (a, b, g)" and ok: "move_or_none P (a, b, g)"
    using FindBestMove_ok [OF Suc.prems, of used] by (metis prod_cases3)
  show ?case
  proof (cases "fl_less (Fin 0) g")
    case True
    then have m: "good_move P (a, b, g)" using ok by (auto simp: move_or_none_def)
    then have r: "0 \<le> a" "nat a < length P" "0 \<le> b" "nat b < length P" by (auto simp: good_move_def)
    let ?P1 = "P[nat a := - (P ! nat a)]"
    let ?P2 = "?P1[nat b := - (?P1 ! nat b)]"
    have z: "same_zeros P ?P2" using r by (cases "nat a = nat b") (auto simp: same_zeros_def nth_list_update)
    from costs_ok [of W ?P2] Suc.prems obtain D2 where D2: "costs W ?P2 = Inr D2" "length D2 = length P" by auto
    from Suc.IH [of ?P2 "D2[nat a := Fin 0, nat b := Fin 0]" "b # a # used"] Suc.prems D2(2) obtain ms early where
      ms: "kl_moves W k ?P2 (D2[nat a := Fin 0, nat b := Fin 0]) (b # a # used) = Inr (ms, early)"
        "\<forall>m \<in> set ms. good_move ?P2 m" "length ms \<le> k" "\<not> early \<longrightarrow> length ms = k" by auto
    have "kl_moves W (Suc k) P D used = Inr ((a, b, g) # ms, early)"
      using f True r D2 ms(1) by (simp add: vec_at_def vec_set_def nat_less_iff)
    with m ms(2-4) same_zeros_move [OF z] show ?thesis by auto
  next
    case False
    then have "kl_moves W (Suc k) P D used = Inr ([], True)" using f by simp
    then show ?thesis by (intro exI [of _ "[]"] exI [of _ True]) (simp del: kl_moves.simps)
  qed
qed

lemma kl_scan_bound:
  "kl_scan gs k acc best = best \<or> (int k < snd (kl_scan gs k acc best) \<and> snd (kl_scan gs k acc best) \<le> int (k + length gs))"
proof (induction gs arbitrary: k acc best)
  case (Cons g gs)
  let ?acc = "if k > 0 then f32_add g acc else g"
  let ?b = "if fl_less (fst best) ?acc then (?acc, int k + 1) else best"
  from Cons [of "Suc k" ?acc ?b] show ?case by (auto simp: Let_def split: if_splits)
qed simp

lemma kl_commit_ok:
  assumes "\<forall>m \<in> set ms. good_move P m" "g_k \<le> int (length ms)"
  shows "\<exists>Q. kl_commit ms g_k P = Inr Q \<and> alike P Q"
  unfolding kl_commit_def
proof (rule rfold_safe)
  show "alike P P" by (simp add: alike_def)
  fix i Q assume i: "i \<in> set (map int [0..<nat g_k])" and Q: "alike P Q"
  then have ir: "0 \<le> i" "nat i < length ms" using assms(2) by auto
  obtain a b g where m: "ms ! nat i = (a, b, g)" by (cases "ms ! nat i")
  have "good_move P (a, b, g)" using assms(1) ir m by (metis nth_mem)
  then have gm: "good_move Q (a, b, g)"
    using same_zeros_move [of P Q] alike_length [OF Q] Q by (auto simp: same_zeros_def alike_def)
  then have r: "0 \<le> a" "nat a < length Q" "0 \<le> b" "nat b < length Q" "Q ! nat a \<noteq> 0" "Q ! nat b \<noteq> 0"
    by (auto simp: good_move_def)
  have "alike Q (kl_swap Q (nat a) (nat b))"
    using r mset_swap [of "nat b" Q "nat a"] by (cases "nat a = nat b") (auto simp: alike_def kl_swap_def nth_list_update)
  with Q have "alike P (kl_swap Q (nat a) (nat b))" by (rule alike_trans)
  with m r ir show "\<exists>s'. rbind (vec_at ms i) (\<lambda>(a, b, g). rbind (vec_at Q a) (\<lambda>_. rbind (vec_at Q b) (\<lambda>_. Inr (kl_swap Q (nat a) (nat b))))) =
      Inr s' \<and> alike P s'" by (simp add: vec_at_def nat_less_iff)
qed

lemma kl_passes_ok:
  assumes "length W = length P * length P" "snd best \<le> int half" "\<not> fl_less (Fin 0) (fst best) \<or> 0 \<le> half"
  shows "\<exists>Q. kl_passes W half k best P = Inr Q \<and> alike P Q"
  using assms
proof (induction k arbitrary: P best)
  case 0
  then show ?case by (simp add: alike_def)
next
  case (Suc k)
  obtain D where D: "costs W P = Inr D" "length D = length P" using costs_ok [OF Suc.prems(1)] by blast
  obtain ms early where ms: "kl_moves W half P D [] = Inr (ms, early)" "\<forall>m \<in> set ms. good_move P m" "length ms \<le> half"
    "\<not> early \<longrightarrow> length ms = half" using kl_moves_ok [OF Suc.prems(1) D(2)] by blast
  let ?b = "(if early then Fin 0 else fst best, snd best)"
  obtain g_max g_k where sc: "kl_scan (map (\<lambda>m. snd (snd m)) ms) 0 (Fin 0) ?b = (g_max, g_k)" by fastforce
  have bound: "(g_max, g_k) = ?b \<or> g_k \<le> int (length ms)"
    using kl_scan_bound [of "map (\<lambda>m. snd (snd m)) ms" 0 "Fin 0" ?b] sc by auto
  then have half: "g_k \<le> int half" using ms(3) Suc.prems(2) by auto
  show ?case
  proof (cases "fl_less (Fin 0) g_max")
    case True
    then have "g_k \<le> int (length ms)" using bound ms(4) Suc.prems(2) by (cases early) auto
    from kl_commit_ok [OF ms(2) this] obtain Q where Q: "kl_commit ms g_k P = Inr Q" "alike P Q" by blast
    from Suc.IH [of Q "(g_max, g_k)"] Suc.prems(1) half alike_length [OF Q(2)] obtain R where
      "kl_passes W half k (g_max, g_k) Q = Inr R" "alike Q R" by auto
    with D ms(1) sc True Q alike_trans [OF Q(2)] show ?thesis by auto
  next
    case False
    then show ?thesis using D ms(1) sc by (auto simp: alike_def)
  qed
qed

lemma fold_update_nth:
  assumes "distinct cs" "set cs \<subseteq> {..<length Q}"
  shows "length (fold (\<lambda>(k, c) P. P[c := f k]) (zip [0..<length cs] cs) Q) = length Q \<and>
    (\<forall>k < length cs. fold (\<lambda>(k, c) P. P[c := f k]) (zip [0..<length cs] cs) Q ! (cs ! k) = f k) \<and>
    (\<forall>i < length Q. i \<notin> set cs \<longrightarrow> fold (\<lambda>(k, c) P. P[c := f k]) (zip [0..<length cs] cs) Q ! i = Q ! i)"
  using assms
proof (induction cs rule: rev_induct)
  case (snoc c cs)
  then have "cs ! k \<noteq> c" if "k < length cs" for k using nth_mem [OF that] by auto
  with snoc show ?case by (auto simp: nth_list_update nth_append less_Suc_eq)
qed simp

lemma count_list_card: "count_list xs x = card {i. i < length xs \<and> xs ! i = x}"
  by (simp add: count_list_eq_length_filter length_filter_conv_card eq_commute [of x])

lemma kl_start_ok:
  assumes "distinct cs" "set cs \<subseteq> {..<n}" "half \<le> length cs"
  shows "length (kl_start cs n half) = n" "\<forall>i < n. kl_start cs n half ! i = 0 \<longleftrightarrow> i \<notin> set cs"
    "count_list (kl_start cs n half) (- 1) = length cs - half"
proof -
  let ?S = "kl_start cs n half"
  note start = fold_update_nth [of cs "replicate n (0 :: int)" "\<lambda>k. if k < half then 1 else - 1", folded kl_start_def, simplified, OF assms(1,2)]
  then show len: "length ?S = n" by blast
  show zero: "\<forall>i < n. ?S ! i = 0 \<longleftrightarrow> i \<notin> set cs"
    using start by (metis in_set_conv_nth zero_neq_neg_one zero_neq_one)
  have "{i. i < n \<and> ?S ! i = - 1} = set (drop half cs)"
  proof (intro set_eqI iffI)
    fix i assume "i \<in> {i. i < n \<and> ?S ! i = - 1}"
    then have i: "i < n" "?S ! i = - 1" by auto
    with zero have "i \<in> set cs" by force
    then obtain k where "k < length cs" "cs ! k = i" by (auto simp: in_set_conv_nth)
    moreover from this start i have "\<not> k < half" by force
    ultimately show "i \<in> set (drop half cs)" by (auto simp: in_set_conv_nth intro: exI [of _ "k - half"])
  next
    fix i assume "i \<in> set (drop half cs)"
    then obtain k where "k < length cs - half" "i = cs ! (half + k)" by (auto simp: in_set_conv_nth)
    moreover from this have "i \<in> set cs" by simp
    then have "i < n" using assms(2) by blast
    ultimately show "i \<in> {i. i < n \<and> ?S ! i = - 1}" using start by auto
  qed
  then show "count_list ?S (- 1) = length cs - half"
    using assms(1) len by (simp add: count_list_card distinct_card)
qed

lemma kl_split_balanced:
  assumes W: "length W = length P * length P" and shuf: "mset (fst (shuf (filter (\<lambda>i. P ! i = color) [0..<length P]) gen)) =
      mset (filter (\<lambda>i. P ! i = color) [0..<length P])"
    and size: "partition_size = int (count_list P color)" and new: "num \<notin> set P" "color \<noteq> num"
  shows "\<exists>P' gen'. kl_split shuf W P color partition_size num gen = Inr (P', gen') \<and> length P' = length P \<and>
    (\<forall>i < length P. P' ! i = P ! i \<or> (P ! i = color \<and> P' ! i = num)) \<and>
    count_list P' color = count_list P color div 2 \<and>
    count_list P' num = count_list P color - count_list P color div 2"
proof -
  let ?c = "filter (\<lambda>i. P ! i = color) [0..<length P]" and ?n = "count_list P color"
  obtain cs gen' where sh: "shuf ?c gen = (cs, gen')" by fastforce
  then have ms: "mset cs = mset ?c" using shuf by simp
  have "distinct ?c" by simp
  then have cs: "distinct cs" "set cs = {i. i < length P \<and> P ! i = color}"
    using mset_eq_imp_distinct_iff [OF ms] mset_eq_setD [OF ms] by (blast, simp)
  have cs_n: "length cs = ?n"
    using cs(1) by (simp add: count_list_card distinct_card flip: cs(2))
  let ?S = "kl_start cs (length P) (?n div 2)"
  have S: "length ?S = length P" "\<forall>i < length P. ?S ! i = 0 \<longleftrightarrow> i \<notin> set cs" "count_list ?S (- 1) = ?n - ?n div 2"
    using kl_start_ok [of cs "length P" "?n div 2"] cs cs_n by auto
  obtain Q where Q: "kl_passes W (?n div 2) (Suc (length P)) (Fin 0, - 1) ?S = Inr Q" "alike ?S Q"
    using kl_passes_ok [of W ?S "(Fin 0, - 1)" "?n div 2" "Suc (length P)"] W S(1) by auto
  define P' where "P' = map2 (\<lambda>p q. if q = - 1 then num else p) P Q"
  have r: "kl_split shuf W P color partition_size num gen = Inr (P', gen')"
    using Q(1) sh size by (simp add: P'_def kl_split_def Let_def nat_div_distrib del: kl_passes.simps)
  have len: "length Q = length P" using alike_length [OF Q(2)] S(1) by simp
  then have P': "P' ! i = (if Q ! i = - 1 then num else P ! i)" if "i < length P" for i
    using that by (simp add: P'_def)
  have lenP: "length P' = length P" using len by (simp add: P'_def)
  have old: "P ! i \<noteq> num" if "i < length P" for i using new(1) that nth_mem by blast
  have new_at: "{i. i < length P \<and> P' ! i = num} = {i. i < length P \<and> Q ! i = - 1}"
    using P' old by (metis (lifting))
  have moved: "P ! i = color" if "i < length P" "Q ! i = - 1" for i
    using Q(2) that S(1,2) cs(2) by (force simp: alike_def)
  have "count_list Q (- 1) = ?n - ?n div 2"
    using Q(2) S(3) unfolding alike_def by (metis count_mset)
  then have num: "count_list P' num = ?n - ?n div 2"
    using len lenP new_at by (simp add: count_list_card)
  have "P ! i = color \<longleftrightarrow> P' ! i = color \<or> P' ! i = num" if "i < length P" for i
    using P' [OF that] old [OF that] moved [OF that] new(2) by (cases "Q ! i = - 1") auto
  then have "{i. i < length P \<and> P ! i = color} = {i. i < length P \<and> P' ! i = color} \<union> {i. i < length P \<and> P' ! i = num}"
    by blast
  moreover have "{i. i < length P \<and> P' ! i = color} \<inter> {i. i < length P \<and> P' ! i = num} = {}" using new(2) by blast
  ultimately have "?n = count_list P' color + count_list P' num"
    using lenP by (simp add: count_list_card card_Un_disjoint)
  with num have "count_list P' color = ?n div 2" by linarith
  moreover have "P' ! i = P ! i \<or> (P ! i = color \<and> P' ! i = num)" if "i < length P" for i
    using P' [OF that] moved [OF that] by (cases "Q ! i = - 1") auto
  ultimately show ?thesis using r num lenP by blast
qed

end
