(* ===== verification/MX_Backtrack.thy ===== *)
theory MX_Backtrack
  imports MX_Topology
begin

text \<open>
  The second half of \<open>src/src/kvstore/gpu_topology.h\<close>: the search for a binary tree over the GPUs of a machine by backtracking,
  its iterative and its recursive version, and the computation of a tree for every root.
  A tree is a vector of leaves; the node above the leaves \<open>j, ..., j + 2 ^ i - 1\<close> is the device of leaf \<open>j\<close>.
  \<open>num_elements\<close>, the rows and the positions of the search are natural numbers. Logging is left out.
\<close>

section \<open>Loops\<close>

text \<open>The indices a loop visits that starts at 0 and advances by \<open>d\<close> while it is below \<open>n\<close>.\<close>

definition every :: "nat \<Rightarrow> nat \<Rightarrow> nat list" where
  "every d n = filter (\<lambda>j. j mod d = 0) [0..<n]"

text \<open>A loop that returns \<open>false\<close> at the first element that fails, and one that is left when its body says so.\<close>

fun rall :: "('x \<Rightarrow> bool res) \<Rightarrow> 'x list \<Rightarrow> bool res" where
  "rall f [] = Inr True"
| "rall f (x # xs) = rbind (f x) (\<lambda>b. if b then rall f xs else Inr False)"

fun until_stop :: "('x \<Rightarrow> 's \<Rightarrow> ('s \<times> bool) res) \<Rightarrow> 'x list \<Rightarrow> 's \<Rightarrow> ('s \<times> bool) res" where
  "until_stop f [] s = Inr (s, False)"
| "until_stop f (x # xs) s = rbind (f x s) (\<lambda>(s, stop). if stop then Inr (s, True) else until_stop f xs s)"

text \<open>A loop without bound: \<open>Inl\<close> goes on, \<open>Inr\<close> leaves it; the value \<open>None\<close> is a loop that never ends.\<close>

partial_function (option) rloop :: "('s \<Rightarrow> ('s + 'r) res) \<Rightarrow> 's \<Rightarrow> 'r res option" where
  "rloop step s =
     (case step s of
        Inl e \<Rightarrow> Some (Inl e)
      | Inr (Inl s') \<Rightarrow> rloop step s'
      | Inr (Inr r) \<Rightarrow> Some (Inr r))"

declare rloop.simps [code]

section \<open>Trees in a vector of leaves\<close>

fun ComputeDepth_from :: "nat \<Rightarrow> nat list \<Rightarrow> nat" where
  "ComputeDepth_from n [] = 0"
| "ComputeDepth_from n (depth # ds) = (if n \<le> 2 * 2 ^ depth then depth + 1 else ComputeDepth_from n ds)"

definition ComputeDepth :: "nat \<Rightarrow> nat" where
  "ComputeDepth n = ComputeDepth_from n [0..<16]"

text \<open>The links of the tree that are fixed once the first \<open>row\<close> leaves are placed.\<close>

definition valid_link :: "fl list \<Rightarrow> int list \<Rightarrow> nat \<Rightarrow> nat \<Rightarrow> nat \<Rightarrow> bool res" where
  "valid_link W state n stride j =
     rbind (vec_at state (int j)) (\<lambda>from1. rbind (vec_at state (int (j + stride))) (\<lambda>dest.
     rmap (\<lambda>w. \<not> (fl_eq w (Fin 0) \<and> from1 \<noteq> dest)) (w_at W n from1 dest)))"

definition valid_links :: "fl list \<Rightarrow> int list \<Rightarrow> nat \<Rightarrow> nat \<Rightarrow> nat \<Rightarrow> bool res" where
  "valid_links W state n row depth =
     rall (\<lambda>i. rall (valid_link W state n (2 ^ i)) (every (2 * 2 ^ i) (row - 2 ^ i))) [0..<depth]"

text \<open>The devices placed so far; \<open>None\<close> if an entry is no device.\<close>

fun found_in :: "nat \<Rightarrow> int list \<Rightarrow> int list \<Rightarrow> int list option res" where
  "found_in n [] found = Inr (Some found)"
| "found_in n (val # vals) found =
     (if val = - 1 then found_in n vals found
      else if val < int n then
        (if val \<in> set found then found_in n vals found
         else if val < 0 then Inl (Out_of_range ''found_vec'')
         else found_in n vals (found @ [val]))
      else Inr None)"

definition IsValid :: "fl list \<Rightarrow> int list \<Rightarrow> nat \<Rightarrow> nat \<Rightarrow> nat \<Rightarrow> bool res" where
  "IsValid W state num_elements row depth =
     rbind (valid_links W state num_elements row depth) (\<lambda>links.
     if \<not> links then Inr False
     else rmap (\<lambda>r. case r of
         None \<Rightarrow> False
       | Some found \<Rightarrow>
           let modifier = 2 ^ depth - int num_elements; num_found = int (length found) in
           if row < num_elements then \<not> (num_found > int row \<or> num_found < int row - modifier)
           else if row = length state then \<forall>i < num_elements. int i \<in> set found
           else True)
       (found_in num_elements state []))"

text \<open>The number of times each device occurs at the given indices.\<close>

definition histogram_at :: "nat \<Rightarrow> int list \<Rightarrow> nat list \<Rightarrow> int list res" where
  "histogram_at n result is =
     rfold (\<lambda>i h. rbind (vec_at result (int i)) (\<lambda>v. rbind (vec_at h v) (\<lambda>c. vec_set h v (c + 1)))) is (replicate n 0)"

definition post_node :: "nat \<Rightarrow> int list \<Rightarrow> nat \<Rightarrow> int list \<times> int list \<Rightarrow> (int list \<times> int list) res" where
  "post_node stride histogram_above i st =
     (case st of (result, histogram) \<Rightarrow>
      rbind (vec_at result (int i)) (\<lambda>from1. rbind (vec_at result (int i - int stride)) (\<lambda>dest.
      rbind (vec_at histogram from1) (\<lambda>h. rbind (vec_at histogram_above from1) (\<lambda>a.
        if (h > 1 \<or> a \<ge> 1) \<and> from1 \<noteq> dest
        then rbind (vec_set result (int i) dest) (\<lambda>result. rmap (\<lambda>histogram. (result, histogram)) (vec_set histogram from1 (h - 1)))
        else Inr st)))))"

definition post_indices :: "nat \<Rightarrow> nat \<Rightarrow> nat list" where
  "post_indices size1 stride = rev (filter (\<lambda>i. (size1 - stride - i) mod (2 * stride) = 0) [stride..<Suc size1 - stride])"

definition post_level :: "nat \<Rightarrow> nat \<Rightarrow> int list \<Rightarrow> int list res" where
  "post_level n level result =
     (let stride = 2 ^ level in
      rbind (histogram_at n result (every (2 * stride) (length result))) (\<lambda>histogram_above.
      rbind (histogram_at n result (every stride (length result))) (\<lambda>histogram.
      rmap fst (rfold (post_node stride histogram_above) (post_indices (length result) stride) (result, histogram)))))"

definition Postprocess :: "int list \<Rightarrow> nat \<Rightarrow> nat \<Rightarrow> int list res" where
  "Postprocess result num_elements depth = rfold (post_level num_elements) (rev [0..<depth]) result"

record weighing =
  wg_weight :: fl
  wg_links :: "int list"
  wg_nodes :: "bool list"

definition weigh_node :: "fl list \<Rightarrow> int list \<Rightarrow> nat \<Rightarrow> nat \<Rightarrow> bool \<Rightarrow> nat \<Rightarrow> weighing \<Rightarrow> weighing res" where
  "weigh_node W result n i penalty j s =
     rbind (vec_at result (int j)) (\<lambda>from1. rbind (vec_at result (int (j + 2 ^ i))) (\<lambda>dest.
     rbind (if from1 = dest then Inr s
            else rmap (\<lambda>w.
              let weight = f32_add (wg_weight s) w; link = from1 * int n + dest;
                  weight = (if link \<in> set (wg_links s) \<and> penalty then f32_sub weight (Fin 100) else weight) in
              s\<lparr>wg_weight := weight, wg_links := (dest * int n + from1) # link # wg_links s\<rparr>)
              (w_at W n from1 dest)) (\<lambda>s.
     rbind (vec_set (wg_nodes s) from1 True) (\<lambda>nodes.
     rbind (vec_at nodes dest) (\<lambda>used.
     rmap (\<lambda>nodes'. s\<lparr>wg_nodes := nodes',
         wg_weight := (if i > 0 \<and> used \<and> penalty then f32_sub (wg_weight s) (Fin 10) else wg_weight s)\<rparr>)
       (vec_set nodes dest True))))))"

definition ComputeTreeWeight :: "fl list \<Rightarrow> int list \<Rightarrow> nat \<Rightarrow> nat \<Rightarrow> bool \<Rightarrow> fl res" where
  "ComputeTreeWeight W result num_elements depth penalty =
     rmap wg_weight
       (rfold (\<lambda>i s. rfold (weigh_node W result num_elements i penalty) (every (2 * 2 ^ i) (length result - 2 ^ i))
            (s\<lparr>wg_nodes := replicate num_elements False\<rparr>))
         [0..<depth] \<lparr>wg_weight = Fin 0, wg_links = [], wg_nodes = []\<rparr>)"

text \<open>\<open>None\<close> if a leaf of the result was never placed. An index is a leaf of the result, so it is in range.\<close>

definition FormTopology :: "int list \<Rightarrow> int list \<Rightarrow> int list \<Rightarrow> nat \<Rightarrow> (int list \<times> int list) option" where
  "FormTopology result topo_row scan_row depth =
     (if - 1 \<in> set result then None
      else let (topo, scan) = fold (\<lambda>i (topo, scan).
            let topo = topo @ map (\<lambda>j. result ! j) (every (2 ^ i) (length result)) in (topo, scan @ [int (length topo)]))
          (rev [1..<Suc depth]) (topo_row, scan_row @ [int (length topo_row)]);
        topo = topo @ result in
      Some (topo, scan @ [int (length topo)]))"
section \<open>Backtracking\<close>

text \<open>A solution replaces the best one if it weighs more.\<close>

definition solution :: "fl list \<Rightarrow> nat \<Rightarrow> nat \<Rightarrow> int list \<Rightarrow> int list \<times> fl \<Rightarrow> (int list \<times> fl) res" where
  "solution W n depth state best =
     rbind (Postprocess state n depth) (\<lambda>result.
     rmap (\<lambda>weight. if fl_less (snd best) weight then (result, weight) else best) (ComputeTreeWeight W result n depth True))"

text \<open>
  The recursion is on the number of rows that are left, \<open>state->size() - row\<close>. It yields the state, the best result
  with its weight and whether to stop.
\<close>

primrec RecursiveBacktrack ::
  "fl list \<Rightarrow> nat \<Rightarrow> nat \<Rightarrow> bool \<Rightarrow> nat \<Rightarrow> int list \<times> (int list \<times> fl) \<Rightarrow> ((int list \<times> (int list \<times> fl)) \<times> bool) res" where
  "RecursiveBacktrack W n depth optimal 0 sb =
     rmap (\<lambda>best. ((fst sb, best), \<not> optimal)) (solution W n depth (fst sb) (snd sb))"
| "RecursiveBacktrack W n depth optimal (Suc k) sb =
     (let row = length (fst sb) - Suc k in
      until_stop (\<lambda>j (state, best).
        rbind (vec_set state (int row) (int j)) (\<lambda>state.
        rbind (IsValid W state n (row + 1) depth) (\<lambda>valid.
        rbind (if valid then RecursiveBacktrack W n depth optimal k (state, best) else Inr ((state, best), False)) (\<lambda>((state, best), stop).
        rmap (\<lambda>state. ((state, best), stop)) (vec_set state (int row) (- 1))))))
      [0..<n] sb)"

text \<open>The variables of the loop; the stack has its top first.\<close>

record backtrack =
  bt_row :: nat
  bt_pos :: nat
  bt_stack :: "nat list"
  bt_state :: "int list"
  bt_best :: "int list \<times> fl"

fun unwind :: "nat \<Rightarrow> nat list \<Rightarrow> nat \<Rightarrow> nat \<Rightarrow> int list \<Rightarrow> (nat list \<times> nat \<times> nat \<times> int list) res" where
  "unwind n [] pos row state = Inr ([], pos, row, state)"
| "unwind n (top1 # stack) pos row state =
     (if pos \<ge> n
      then rbind (vec_set state (int (length stack) + 1) (- 1)) (\<lambda>state. unwind n stack (top1 + 1) (row - 1) state)
      else Inr (top1 # stack, pos, row, state))"

text \<open>The end of an iteration: a solution is found when every row has its device.\<close>

definition backtrack_found :: "fl list \<Rightarrow> nat \<Rightarrow> nat \<Rightarrow> bool \<Rightarrow> backtrack \<Rightarrow> (backtrack + int list \<times> fl) res" where
  "backtrack_found W n depth optimal s =
     (if bt_row s \<noteq> length (bt_state s) then Inr (Inl s)
      else rbind (solution W n depth (bt_state s) (bt_best s)) (\<lambda>best.
        if \<not> optimal then Inr (Inr best)
        else case bt_stack s of
            [] \<Rightarrow> Inl (Undefined ''top of an empty stack'')
          | top1 # stack \<Rightarrow>
              rmap (\<lambda>state. Inl \<lparr>bt_row = bt_row s - 1, bt_pos = top1 + 1, bt_stack = stack, bt_state = state, bt_best = best\<rparr>)
                (vec_set (bt_state s) (int (length stack)) (- 1))))"

definition backtrack_place ::
  "fl list \<Rightarrow> nat \<Rightarrow> nat \<Rightarrow> bool \<Rightarrow> int list \<times> fl \<Rightarrow> nat list \<times> nat \<times> nat \<times> int list \<Rightarrow> (backtrack + int list \<times> fl) res" where
  "backtrack_place W n depth optimal best u =
     (case u of (stack, pos, row, state) \<Rightarrow>
      if stack = [] then Inr (Inr best)
      else rbind (vec_set state (int row) (int pos)) (\<lambda>state.
        rbind (IsValid W state n (row + 1) depth) (\<lambda>valid.
        if valid
        then backtrack_found W n depth optimal \<lparr>bt_row = row + 1, bt_pos = 0, bt_stack = pos # stack, bt_state = state, bt_best = best\<rparr>
        else rbind (vec_set state (int row) (- 1)) (\<lambda>state.
          backtrack_found W n depth optimal \<lparr>bt_row = row, bt_pos = pos + 1, bt_stack = stack, bt_state = state, bt_best = best\<rparr>))))"

definition backtrack_step :: "fl list \<Rightarrow> nat \<Rightarrow> nat \<Rightarrow> bool \<Rightarrow> backtrack \<Rightarrow> (backtrack + int list \<times> fl) res" where
  "backtrack_step W n depth optimal s =
     rbind (unwind n (bt_stack s) (bt_pos s) (bt_row s) (bt_state s)) (backtrack_place W n depth optimal (bt_best s))"

definition IterativeBacktrack ::
  "fl list \<Rightarrow> int list \<Rightarrow> int list \<times> fl \<Rightarrow> nat \<Rightarrow> nat \<Rightarrow> bool \<Rightarrow> (int list \<times> fl) res option" where
  "IterativeBacktrack W state best n depth optimal =
     rloop (backtrack_step W n depth optimal)
       \<lparr>bt_row = 1, bt_pos = 0, bt_stack = [0], bt_state = state, bt_best = best\<rparr>"

text \<open>The links of the tree get a penalty, in both directions. \<open>i < topo_row.size() - 1\<close> wraps around on an empty vector.\<close>

definition UpdateWeight_link :: "nat \<Rightarrow> fl \<Rightarrow> int list \<Rightarrow> nat \<Rightarrow> fl list \<Rightarrow> fl list res" where
  "UpdateWeight_link n alpha topo i W =
     rbind (vec_at topo (int i)) (\<lambda>parent. rbind (vec_at topo (int i + 1)) (\<lambda>child.
     let parent = parent mod 2 ^ 32; child = child mod 2 ^ 32 in
     if \<not> (parent \<ge> int (n * n) \<or> child \<ge> int (n * n)) \<and> parent \<noteq> child
     then rbind (w_at W n parent child) (\<lambda>w. rbind (vec_set W (parent * int n + child) (f32_mul w alpha)) (\<lambda>W.
          rbind (w_at W n child parent) (\<lambda>w. vec_set W (child * int n + parent) (f32_mul w alpha))))
     else Inr W))"

definition UpdateWeight :: "fl list \<Rightarrow> int list \<Rightarrow> nat \<Rightarrow> fl \<Rightarrow> fl list res" where
  "UpdateWeight W topo n alpha =
     (if topo = [] then Inl (Out_of_range ''topo_row'')
      else rfold (UpdateWeight_link n alpha topo) (filter odd [1..<length topo - 1]) W)"

text \<open>The lowest single-precision number.\<close>

definition f32_lowest :: fl where
  "f32_lowest = Fin (- ((2 ^ 24 - 1) * 2 ^ 104))"

definition BacktrackGenerateBinaryTree :: "fl list \<Rightarrow> nat \<Rightarrow> int \<Rightarrow> (int list \<times> int list) option res option" where
  "BacktrackGenerateBinaryTree W num_elements root_gpu =
     (let depth = ComputeDepth num_elements; depth_leaves = 2 ^ depth; result = replicate depth_leaves (- 1) in
      map_option (rmap (\<lambda>(result, weight). FormTopology result [] [] depth))
        (IterativeBacktrack W (result[0 := root_gpu]) (result, f32_lowest) num_elements depth (depth \<le> 3)))"

section \<open>The trees of every root\<close>

text \<open>The variables of the loop over the levels of the partition, with the copies a reset rewinds.\<close>

record 'g kl_search =
  ks_P :: "int list"
  ks_num :: int
  ks_tree :: kltree
  ks_reset :: bool
  ks_level :: nat
  ks_stop :: bool
  ks_gen :: 'g

definition kl_search_step ::
  "(int list \<Rightarrow> int list) \<Rightarrow> (nat list \<Rightarrow> 'g \<Rightarrow> nat list \<times> 'g) \<Rightarrow> (int list \<Rightarrow> 'g \<Rightarrow> int list \<times> 'g) \<Rightarrow> fl list \<Rightarrow> nat \<Rightarrow> kltree \<Rightarrow>
   'g kl_search \<Rightarrow> ('g kl_search + 'g kl_search) res" where
  "kl_search_step iter shuf shuf_int W n tree0 s =
     (if ks_stop s \<and> \<not> ks_reset s then Inr (Inr s)
      else let s = (if ks_reset s then s\<lparr>ks_P := replicate n 0, ks_num := 1, ks_tree := tree0\<rparr> else s) in
        rbind (KernighanLin shuf W (ks_P s) (ks_num s) [] (ks_gen s)) (\<lambda>k.
        rmap (\<lambda>(r, gen).
          let s = s\<lparr>ks_P := kl_P k, ks_num := kl_num k, ks_stop := kl_stop k, ks_gen := gen,
              ks_tree := (case r of None \<Rightarrow> ks_tree s | Some t \<Rightarrow> t), ks_reset := (r = None),
              ks_level := (if r = None then ks_level s + 1 else ks_level s)\<rparr> in
          if ks_level s > 10 then Inr s else Inl s)
          (KLGenerateBinaryTree iter shuf_int W (kl_P k) (kl_pairs k) (ks_tree s) (kl_gen k))))"

definition kl_search ::
  "(int list \<Rightarrow> int list) \<Rightarrow> (nat list \<Rightarrow> 'g \<Rightarrow> nat list \<times> 'g) \<Rightarrow> (int list \<Rightarrow> 'g \<Rightarrow> int list \<times> 'g) \<Rightarrow> 'g \<Rightarrow> fl list \<Rightarrow> nat \<Rightarrow> int \<Rightarrow> bool \<Rightarrow>
   int list \<Rightarrow> int list \<Rightarrow> 'g kl_search res option" where
  "kl_search iter shuf shuf_int gen W n root_gpu backtrack1 topo scan =
     (let tree0 = \<lparr>kt_roots = [root_gpu], kt_topo = topo, kt_scan = scan\<rparr>;
          s = \<lparr>ks_P = [], ks_num = 0, ks_tree = tree0, ks_reset = True, ks_level = 0, ks_stop = False, ks_gen = gen\<rparr> in
      if backtrack1 then Some (Inr s)
      else rloop (kl_search_step iter shuf shuf_int W n tree0) s)"

text \<open>The tree from a root and the weights afterwards.\<close>

definition ComputeTreesFromRoot ::
  "(int list \<Rightarrow> int list) \<Rightarrow> (nat list \<Rightarrow> 'g \<Rightarrow> nat list \<times> 'g) \<Rightarrow> (int list \<Rightarrow> 'g \<Rightarrow> int list \<times> 'g) \<Rightarrow> 'g \<Rightarrow> fl list \<Rightarrow> nat \<Rightarrow> int \<Rightarrow> fl \<Rightarrow> bool \<Rightarrow>
   int list \<Rightarrow> int list \<Rightarrow> (fl list \<times> int list \<times> int list) res option" where
  "ComputeTreesFromRoot iter shuf shuf_int gen W n root_gpu alpha backtrack1 topo scan =
     (case kl_search iter shuf shuf_int gen W n root_gpu backtrack1 topo scan of
        None \<Rightarrow> None
      | Some (Inl e) \<Rightarrow> Some (Inl e)
      | Some (Inr s) \<Rightarrow>
          map_option (\<lambda>r. rbind r (\<lambda>tree.
              case tree of
                None \<Rightarrow> Inl (Fatal ''No valid binary tree found'')
              | Some (topo, scan) \<Rightarrow> rmap (\<lambda>W. (W, topo, scan)) (UpdateWeight W topo n alpha)))
            (if ks_reset s then BacktrackGenerateBinaryTree W n root_gpu
             else let topo = kt_topo (ks_tree s) in Some (Inr (Some (topo, kt_scan (ks_tree s) @ [int (length topo)])))))"

fun trees_from ::
  "(fl list \<Rightarrow> nat \<Rightarrow> (fl list \<times> int list \<times> int list) res option) \<Rightarrow> nat list \<Rightarrow> fl list \<Rightarrow> (int list \<times> int list) list res option" where
  "trees_from f [] W = Some (Inr [])"
| "trees_from f (i # is) W =
     (case f W i of
        None \<Rightarrow> None
      | Some (Inl e) \<Rightarrow> Some (Inl e)
      | Some (Inr (W, tree)) \<Rightarrow> map_option (rmap (\<lambda>ts. tree # ts)) (trees_from f is W))"

text \<open>The use of each link by the trees, which is only printed; a link outside the matrix is an exception of \<open>at\<close>.\<close>

definition adj_link :: "nat \<Rightarrow> int list \<Rightarrow> nat \<Rightarrow> int list \<Rightarrow> int list res" where
  "adj_link n topo col adj =
     rbind (vec_at topo (int col)) (\<lambda>x. rbind (vec_at topo (int col + 1)) (\<lambda>y.
     let from1 = min x y; dest = max x y in
     if from1 = dest then Inr adj
     else rbind (vec_at adj (from1 * int n + dest)) (\<lambda>c. rbind (vec_set adj (from1 * int n + dest) (c + 1)) (\<lambda>adj.
          rbind (vec_at adj (dest * int n + from1)) (\<lambda>c. vec_set adj (dest * int n + from1) (c + 1))))))"

definition link_usage :: "nat \<Rightarrow> nat \<Rightarrow> int list list \<Rightarrow> int list res" where
  "link_usage n size1 topos =
     rfold (\<lambda>topo adj. rfold (adj_link n topo) (filter odd [1..<length (hd topos)]) adj) topos (replicate size1 0)"

definition ComputeTrees ::
  "(int list \<Rightarrow> int list) \<Rightarrow> (nat list \<Rightarrow> 'g \<Rightarrow> nat list \<times> 'g) \<Rightarrow> (int list \<Rightarrow> 'g \<Rightarrow> int list \<times> 'g) \<Rightarrow> 'g \<Rightarrow> fl list \<Rightarrow> nat \<Rightarrow> fl \<Rightarrow> bool \<Rightarrow>
   (int list \<times> int list) list res option" where
  "ComputeTrees iter shuf shuf_int gen W n alpha backtrack1 =
     map_option (\<lambda>r. rbind r (\<lambda>trees. rmap (\<lambda>_. trees) (link_usage n (length W) (map fst trees))))
       (trees_from (\<lambda>W i. ComputeTreesFromRoot iter shuf shuf_int gen W n (int i) alpha backtrack1 [int i] [0]) [0..<n] W)"

section \<open>The iterative search is the recursive one\<close>

definition unplaced :: "nat \<Rightarrow> int list \<Rightarrow> bool" where
  "unplaced row state \<longleftrightarrow> (\<forall>i. row \<le> i \<longrightarrow> i < length state \<longrightarrow> state ! i = - 1)"

lemma unplaced_update: "unplaced row state \<Longrightarrow> state[row := - 1] = state"
  by (cases "row < length state") (auto simp: unplaced_def list_update_same_conv list_update_beyond)

lemma unplaced_place: "unplaced row state \<Longrightarrow> unplaced (Suc row) (state[row := v])"
  by (auto simp: unplaced_def)

text \<open>The loop over the devices of a row, as the recursion runs it.\<close>

definition try_device ::
  "fl list \<Rightarrow> nat \<Rightarrow> nat \<Rightarrow> bool \<Rightarrow> nat \<Rightarrow> nat \<Rightarrow> nat \<Rightarrow> int list \<times> (int list \<times> fl) \<Rightarrow> ((int list \<times> (int list \<times> fl)) \<times> bool) res" where
  "try_device W n depth optimal k row j sb =
     rbind (vec_set (fst sb) (int row) (int j)) (\<lambda>state.
     rbind (IsValid W state n (row + 1) depth) (\<lambda>valid.
     rbind (if valid then RecursiveBacktrack W n depth optimal k (state, snd sb) else Inr ((state, snd sb), False)) (\<lambda>((state, best), stop).
     rmap (\<lambda>state. ((state, best), stop)) (vec_set state (int row) (- 1)))))"

lemma RecursiveBacktrack_Suc:
  "RecursiveBacktrack W n depth optimal (Suc k) sb =
     until_stop (try_device W n depth optimal k (length (fst sb) - Suc k)) [0..<n] sb"
  by (simp add: Let_def try_device_def [abs_def] case_prod_unfold cong: if_cong)

lemma until_stop_invariant:
  assumes "until_stop f xs s = Inr (s', stop)" "P s"
    and "\<And>x s s' stop. x \<in> set xs \<Longrightarrow> P s \<Longrightarrow> f x s = Inr (s', stop) \<Longrightarrow> P s'"
  shows "P s'"
  using assms by (induction xs arbitrary: s) (auto simp: rbind_Inr_iff split: if_splits prod.splits, blast)

text \<open>The recursion leaves the state as it was.\<close>

lemma RecursiveBacktrack_restores:
  assumes "RecursiveBacktrack W n depth optimal k (state, best) = Inr ((state', best'), stop)"
    and "k \<le> length state" "unplaced (length state - k) state"
  shows "state' = state"
  using assms
proof (induction k arbitrary: state best state' best' stop)
  case (Suc k)
  let ?row = "length state - Suc k"
  have row: "?row < length state" "length state - k = Suc ?row" using Suc.prems(2) by auto
  have "fst s' = state" if "fst s = state" "try_device W n depth optimal k ?row j s = Inr (s', stop)" for s s' j stop
  proof -
    let ?st = "state[?row := int j]"
    from that row(1) obtain valid st2 b2 stop2 where v: "IsValid W ?st n (?row + 1) depth = Inr valid"
      "(if valid then RecursiveBacktrack W n depth optimal k (?st, snd s) else Inr ((?st, snd s), False)) = Inr ((st2, b2), stop2)"
      "rmap (\<lambda>state. ((state, b2), stop2)) (vec_set st2 (int ?row) (- 1)) = Inr (s', stop)"
      by (auto simp: try_device_def rbind_Inr_iff simp del: split_paired_All split_paired_Ex)
    have "st2 = ?st"
    proof (cases valid)
      case True
      then show ?thesis using v(2) Suc.IH [of ?st "snd s" st2 b2 stop2] Suc.prems(2) row(2) unplaced_place [OF Suc.prems(3), of "int j"] by simp
    qed (use v(2) in simp)
    with v(3) row(1) unplaced_update [OF Suc.prems(3)] show ?thesis by auto
  qed
  then show ?case
    using until_stop_invariant [of _ "[0..<n]" "(state, best)" "(state', best')" stop "\<lambda>s. fst s = state"] Suc.prems(1)
    unfolding RecursiveBacktrack_Suc by fastforce
qed (auto simp: rmap_Inr_iff)

lemma rloop_step_eq: "step s = step s' \<Longrightarrow> rloop step s = rloop step s'"
  by (subst (1 2) rloop.simps) simp

text \<open>What the loop does with the result of an iteration.\<close>

definition rloop_cont :: "('s \<Rightarrow> ('s + 'r) res) \<Rightarrow> ('s + 'r) res \<Rightarrow> 'r res option" where
  "rloop_cont step r = (case r of Inl e \<Rightarrow> Some (Inl e) | Inr (Inl s) \<Rightarrow> rloop step s | Inr (Inr x) \<Rightarrow> Some (Inr x))"

lemma rloop_cont_simps [simp]:
  "rloop_cont step (Inl e) = Some (Inl e)"
  "rloop_cont step (Inr (Inl s)) = rloop step s"
  "rloop_cont step (Inr (Inr x)) = Some (Inr x)"
  by (simp_all add: rloop_cont_def)

lemma rloop_unfold: "rloop step s = rloop_cont step (step s)"
  by (subst rloop.simps) (simp add: rloop_cont_def)

text \<open>The loop at the head of a row, and its continuation after the recursion has explored the rows below.\<close>

definition at_row :: "fl list \<Rightarrow> nat \<Rightarrow> nat \<Rightarrow> bool \<Rightarrow> nat list \<Rightarrow> nat \<Rightarrow> int list \<Rightarrow> int list \<times> fl \<Rightarrow> (int list \<times> fl) res option" where
  "at_row W n depth optimal stack pos state best =
     rloop (backtrack_step W n depth optimal)
       \<lparr>bt_row = length stack, bt_pos = pos, bt_stack = stack, bt_state = state, bt_best = best\<rparr>"

definition after_rows ::
  "fl list \<Rightarrow> nat \<Rightarrow> nat \<Rightarrow> bool \<Rightarrow> nat list \<Rightarrow> nat \<Rightarrow> ((int list \<times> (int list \<times> fl)) \<times> bool) res \<Rightarrow> (int list \<times> fl) res option" where
  "after_rows W n depth optimal stack pos r =
     (case r of
        Inl e \<Rightarrow> Some (Inl e)
      | Inr ((state, best), stop) \<Rightarrow> if stop then Some (Inr best) else at_row W n depth optimal stack pos state best)"

text \<open>A stack that is unwound has the state of the row above; the entry of the row itself does not matter.\<close>

lemma at_row_pop:
  assumes "length stack + 1 < length state"
  shows "at_row W n depth optimal (p # stack) n state best =
    at_row W n depth optimal stack (Suc p) (state[Suc (length stack) := - 1]) best"
proof -
  have "vec_set state (int (length stack) + 1) (- 1) = Inr (state[Suc (length stack) := - 1])"
    using assms vec_set_int [of "Suc (length stack)" state "- 1"] by (simp add: add.commute)
  then show ?thesis unfolding at_row_def by (intro rloop_step_eq) (simp add: backtrack_step_def)
qed

lemma at_row_forget:
  assumes "stack \<noteq> []" "length stack < length state"
  shows "at_row W n depth optimal stack pos (state[length stack := v]) best = at_row W n depth optimal stack pos state best"
proof -
  obtain p stack' where s: "stack = p # stack'" using assms(1) by (cases stack) auto
  have set: "vec_set st (1 + int (length stack')) x = Inr (st[Suc (length stack') := x])" if "length st = length state" for st x
    using assms(2) s that vec_set_int [of "Suc (length stack')" st x] by simp
  show ?thesis unfolding at_row_def
    by (intro rloop_step_eq) (simp add: backtrack_step_def s set add.commute backtrack_place_def)
qed

lemma at_row_end: "at_row W n depth optimal [] pos state best = Some (Inr best)"
  by (simp add: at_row_def rloop_unfold backtrack_step_def backtrack_place_def)

lemma row_explores:
  assumes stack: "stack \<noteq> []" and len: "length state = length stack + Suc k" and un: "unplaced (length stack) state"
    and placed: "\<And>p best. rloop_cont (backtrack_step W n depth optimal) (backtrack_found W n depth optimal
        \<lparr>bt_row = Suc (length stack), bt_pos = 0, bt_stack = p # stack, bt_state = state[length stack := int p], bt_best = best\<rparr>) =
      after_rows W n depth optimal stack (Suc p) (RecursiveBacktrack W n depth optimal k (state[length stack := int p], best))"
    and "pos \<le> n"
  shows "at_row W n depth optimal stack pos state best =
    after_rows W n depth optimal stack n (until_stop (try_device W n depth optimal k (length stack)) [pos..<n] (state, best))"
  using \<open>pos \<le> n\<close>
proof (induction "n - pos" arbitrary: pos best)
  case 0
  then show ?case by (simp add: after_rows_def)
next
  case (Suc d)
  then have pos: "pos < n" "d = n - Suc pos" "Suc pos \<le> n" by auto
  let ?r = "length stack" and ?st = "state[length stack := int pos]"
  have r: "?r < length state" using len by simp
  have undo: "?st[?r := - 1] = state" using unplaced_update [OF un] by simp
  note IH = Suc.hyps(1) [OF pos(2,3)]
  have unw: "unwind n stack pos ?r state = Inr (stack, pos, ?r, state)" using stack pos(1) by (cases stack) auto
  have row: "at_row W n depth optimal stack pos state best = rloop_cont (backtrack_step W n depth optimal)
      (backtrack_place W n depth optimal best (stack, pos, ?r, state))"
    by (simp add: at_row_def rloop_unfold [of "backtrack_step W n depth optimal"] backtrack_step_def unw)
  consider (fault) e where "IsValid W ?st n (Suc ?r) depth = Inl e" | (no) "IsValid W ?st n (Suc ?r) depth = Inr False"
    | (yes) "IsValid W ?st n (Suc ?r) depth = Inr True" by (cases "IsValid W ?st n (Suc ?r) depth") auto
  then show ?case
  proof cases
    case fault
    then show ?thesis using row stack r pos(1) by (simp add: backtrack_place_def upt_conv_Cons try_device_def after_rows_def)
  next
    case no
    then have "at_row W n depth optimal stack pos state best = at_row W n depth optimal stack (Suc pos) state best"
      using row stack r undo by (simp add: backtrack_place_def backtrack_found_def at_row_def)
    moreover from no have "try_device W n depth optimal k ?r pos (state, best) = Inr ((state, best), False)"
      using r undo by (simp add: try_device_def)
    ultimately show ?thesis using IH [of best] pos(1) by (simp add: upt_conv_Cons)
  next
    case yes
    then have go: "at_row W n depth optimal stack pos state best =
        after_rows W n depth optimal stack (Suc pos) (RecursiveBacktrack W n depth optimal k (?st, best))"
      using row stack r placed [of pos best] by (simp add: backtrack_place_def)
    show ?thesis
    proof (cases "RecursiveBacktrack W n depth optimal k (?st, best)")
      case (Inl e)
      then show ?thesis using go yes r pos(1) by (simp add: upt_conv_Cons try_device_def after_rows_def)
    next
      case (Inr x)
      obtain st b stop where x: "x = ((st, b), stop)" by (metis surj_pair)
      have "st = ?st"
        using RecursiveBacktrack_restores [of W n depth optimal k ?st best st b stop] Inr x len unplaced_place [OF un, of "int pos"] by simp
      then have "try_device W n depth optimal k ?r pos (state, best) = Inr ((state, b), stop)"
        using Inr x yes r undo by (simp add: try_device_def)
      then show ?thesis
        using go Inr x \<open>st = ?st\<close> IH [of b] pos(1) at_row_forget [OF stack r]
        by (cases stop) (simp_all add: upt_conv_Cons after_rows_def)
    qed
  qed
qed

lemma placed_explores:
  assumes "length state = length stack + Suc k" "unplaced (Suc (length stack)) state" "stack \<noteq> []"
  shows "rloop_cont (backtrack_step W n depth optimal) (backtrack_found W n depth optimal
      \<lparr>bt_row = Suc (length stack), bt_pos = 0, bt_stack = p # stack, bt_state = state, bt_best = best\<rparr>) =
    after_rows W n depth optimal stack (Suc p) (RecursiveBacktrack W n depth optimal k (state, best))"
  using assms
proof (induction k arbitrary: state stack p best)
  case 0
  then have "at_row W n depth optimal stack (Suc p) (state[length stack := - 1]) b = at_row W n depth optimal stack (Suc p) state b" for b
    by (intro at_row_forget) auto
  with 0 show ?case
    by (cases "solution W n depth state best") (auto simp: backtrack_found_def after_rows_def at_row_def)
next
  case (Suc k)
  have len: "length state = length (p # stack) + Suc k" using Suc.prems(1) by simp
  have placed: "rloop_cont (backtrack_step W n depth optimal) (backtrack_found W n depth optimal
        \<lparr>bt_row = Suc (length (p # stack)), bt_pos = 0, bt_stack = q # p # stack, bt_state = state[length (p # stack) := int q], bt_best = b\<rparr>) =
      after_rows W n depth optimal (p # stack) (Suc q) (RecursiveBacktrack W n depth optimal k (state[length (p # stack) := int q], b))" for q b
    using Suc.IH [of "state[length (p # stack) := int q]" "p # stack" q b] len unplaced_place [OF Suc.prems(2), of "int q"] by simp
  have row: "at_row W n depth optimal (p # stack) 0 state best = after_rows W n depth optimal (p # stack) n
      (RecursiveBacktrack W n depth optimal (Suc k) (state, best))"
    using row_explores [OF _ len _ placed, of 0 best] Suc.prems len unfolding RecursiveBacktrack_Suc by simp
  have "after_rows W n depth optimal (p # stack) n (RecursiveBacktrack W n depth optimal (Suc k) (state, best)) =
      after_rows W n depth optimal stack (Suc p) (RecursiveBacktrack W n depth optimal (Suc k) (state, best))"
  proof (cases "RecursiveBacktrack W n depth optimal (Suc k) (state, best)")
    case (Inr x)
    obtain st b stop where x: "x = ((st, b), stop)" by (metis surj_pair)
    have "st = state"
      using RecursiveBacktrack_restores [of W n depth optimal "Suc k" state best st b stop] Inr x Suc.prems(1,2) by simp
    then show ?thesis
      using Inr x at_row_pop [of stack state W n depth optimal p b] unplaced_update [OF Suc.prems(2)] Suc.prems(1)
      by (simp add: after_rows_def)
  qed (simp add: after_rows_def)
  with row Suc.prems(1) show ?case by (simp add: backtrack_found_def at_row_def)
qed

lemma IterativeBacktrack_recursive:
  assumes "length state = k + 2" "unplaced 1 state"
  shows "IterativeBacktrack W state best n depth optimal =
    Some (rmap (\<lambda>r. snd (fst r)) (RecursiveBacktrack W n depth optimal (Suc k) (state, best)))"
proof -
  have "rloop_cont (backtrack_step W n depth optimal) (backtrack_found W n depth optimal
        \<lparr>bt_row = Suc (length [0 :: nat]), bt_pos = 0, bt_stack = q # [0], bt_state = state[length [0 :: nat] := int q], bt_best = b\<rparr>) =
      after_rows W n depth optimal [0] (Suc q) (RecursiveBacktrack W n depth optimal k (state[length [0 :: nat] := int q], b))" for q b
    using assms unplaced_place [OF assms(2), of "int q"] by (intro placed_explores) auto
  from row_explores [OF _ _ _ this, of 0 best] assms
  have "IterativeBacktrack W state best n depth optimal =
      after_rows W n depth optimal [0] n (RecursiveBacktrack W n depth optimal (Suc k) (state, best))"
    unfolding RecursiveBacktrack_Suc by (simp add: IterativeBacktrack_def at_row_def)
  moreover have "at_row W n depth optimal [0] n st b = Some (Inr b)" if "length st = length state" for st b
    using at_row_pop [of "[]" st W n depth optimal 0 b] that assms(1) by (simp add: at_row_end)
  moreover have "length st = length state" if "RecursiveBacktrack W n depth optimal (Suc k) (state, best) = Inr ((st, b), stop)" for st b stop
    using RecursiveBacktrack_restores [OF that] assms by simp
  ultimately show ?thesis
    by (cases "RecursiveBacktrack W n depth optimal (Suc k) (state, best)") (auto simp: after_rows_def simp del: RecursiveBacktrack.simps)
qed

section \<open>Redundant sends are merged without losing a device\<close>

lemma set_every: "set (every d n) = {i. i < n \<and> i mod d = 0}"
  by (auto simp: every_def)

definition devices :: "nat \<Rightarrow> int list \<Rightarrow> bool" where
  "devices n xs \<longleftrightarrow> (\<forall>x \<in> set xs. 0 \<le> x \<and> x < int n)"

lemma devices_nth: "devices n xs \<Longrightarrow> i < length xs \<Longrightarrow> 0 \<le> xs ! i \<and> xs ! i < int n"
  by (auto simp: devices_def)

lemma histogram_fold:
  assumes "devices n r" "set is \<subseteq> {..<length r}" "length h = n"
  shows "\<exists>h'. rfold (\<lambda>i h. rbind (vec_at r (int i)) (\<lambda>v. rbind (vec_at h v) (\<lambda>c. vec_set h v (c + 1)))) is h = Inr h' \<and>
    length h' = n \<and> (\<forall>v < n. h' ! v = h ! v + int (length (filter (\<lambda>i. r ! i = int v) is)))"
  using assms(2,3)
proof (induction "is" arbitrary: h)
  case (Cons i "is")
  then have i: "i < length r" by simp
  note v = devices_nth [OF assms(1) i]
  let ?h = "h[nat (r ! i) := h ! nat (r ! i) + 1]"
  from Cons.IH [of ?h] Cons.prems obtain h' where
    h': "rfold (\<lambda>i h. rbind (vec_at r (int i)) (\<lambda>v. rbind (vec_at h v) (\<lambda>c. vec_set h v (c + 1)))) is ?h = Inr h'" "length h' = n"
      "\<forall>v < n. h' ! v = ?h ! v + int (length (filter (\<lambda>i. r ! i = int v) is))" by auto
  have "\<forall>w < n. h' ! w = h ! w + int (length (filter (\<lambda>i. r ! i = int w) (i # is)))"
    using h'(3) v Cons.prems(2) by (auto simp: nth_list_update)
  with h' i v Cons.prems(2) show ?case by (auto simp: vec_at_def vec_set_def)
qed simp

lemma histogram_at_ok:
  assumes "devices n r" "set is \<subseteq> {..<length r}"
  shows "\<exists>h. histogram_at n r is = Inr h \<and> length h = n \<and> (\<forall>v < n. h ! v = int (length (filter (\<lambda>i. r ! i = int v) is)))"
  using histogram_fold [OF assms, of "replicate n 0"] by (auto simp: histogram_at_def)

lemma post_indices_odd:
  assumes "i \<in> set (post_indices N stride)" "2 * stride dvd N" "0 < stride"
  shows "i < N \<and> stride \<le> i \<and> i mod stride = 0 \<and> i mod (2 * stride) = stride"
proof -
  have i: "stride \<le> i" "i \<le> N - stride" "i < N" "2 * stride dvd N - stride - i"
    using assms(1,3) by (auto simp: post_indices_def dvd_eq_mod_eq_0)
  then have "2 * stride dvd N - (N - stride - i)" using assms(2) by (meson dvd_diff_nat)
  then have "2 * stride dvd i + stride" using i by (simp add: add.commute)
  then obtain q where q: "i + stride = 2 * stride * q" by (auto elim: dvdE)
  then have "q \<noteq> 0" using assms(3) by (cases q) auto
  then obtain p where "q = Suc p" by (cases q) auto
  then have e: "i = 2 * stride * p + stride" using q by simp
  have "i mod (2 * stride) = stride" using assms(3) unfolding e by simp
  moreover have "i mod stride = 0" unfolding e by (simp add: mod_simps)
  ultimately show ?thesis using i by simp
qed

text \<open>
  What the loop over a level keeps: the devices, the nodes of the level above, and that the histogram is not more than the
  number of nodes of the level that have the device.
\<close>

definition level_count :: "nat \<Rightarrow> int list \<Rightarrow> int \<Rightarrow> nat" where
  "level_count stride r v = card {i. i < length r \<and> i mod stride = 0 \<and> r ! i = v}"

definition level_inv :: "nat \<Rightarrow> nat \<Rightarrow> int list \<Rightarrow> int list \<times> int list \<Rightarrow> bool" where
  "level_inv n stride r0 st \<longleftrightarrow> (case st of (r, h) \<Rightarrow> length r = length r0 \<and> set r = set r0 \<and> length h = n \<and>
     (\<forall>i < length r0. i mod (2 * stride) = 0 \<longrightarrow> r ! i = r0 ! i) \<and>
     (\<forall>v < n. h ! v \<le> int (level_count stride r (int v))))"

lemma level_count_update:
  assumes "i < length r" "i mod stride = 0" "r ! i \<noteq> x"
  shows "level_count stride r v \<le> level_count stride (r[i := x]) v + (if v = r ! i then 1 else 0)"
proof -
  have "{j. j < length r \<and> j mod stride = 0 \<and> r ! j = v} \<subseteq>
      {j. j < length (r[i := x]) \<and> j mod stride = 0 \<and> r[i := x] ! j = v} \<union> (if v = r ! i then {i} else {})"
    using assms by (auto simp: nth_list_update)
  from card_mono [OF _ this] card_Un_le [of "{j. j < length (r[i := x]) \<and> j mod stride = 0 \<and> r[i := x] ! j = v}" "if v = r ! i then {i} else {}"]
  show ?thesis by (simp add: level_count_def split: if_splits)
qed

lemma set_update_kept:
  assumes "i < length r" "x \<in> set r" "j < length r" "j \<noteq> i" "r ! j = r ! i"
  shows "set (r[i := x]) = set r"
proof
  show "set (r[i := x]) \<subseteq> set r" using set_update_subset_insert [of r i x] assms(2) by auto
  show "set r \<subseteq> set (r[i := x])"
  proof
    fix y assume "y \<in> set r"
    then obtain k where k: "k < length r" "r ! k = y" by (auto simp: in_set_conv_nth)
    then have "r[i := x] ! (if k = i then j else k) = y" using assms by auto
    with k(1) assms(3) show "y \<in> set (r[i := x])" by (metis length_list_update nth_mem)
  qed
qed

lemma post_node_ok:
  assumes inv: "level_inv n stride r0 st" and dev: "devices n r0" and i: "i < length r0" "0 < stride" "stride \<le> i" "i mod stride = 0" "i mod (2 * stride) = stride"
    and above: "length a = n" "\<forall>v < n. a ! v \<ge> 1 \<longrightarrow> (\<exists>j < length r0. j mod (2 * stride) = 0 \<and> r0 ! j = int v)"
  shows "\<exists>st'. post_node stride a i st = Inr st' \<and> level_inv n stride r0 st'"
proof -
  obtain r h where st: "st = (r, h)" by fastforce
  have I: "length r = length r0" "set r = set r0" "length h = n" "\<forall>i < length r0. i mod (2 * stride) = 0 \<longrightarrow> r ! i = r0 ! i"
    "\<forall>v < n. h ! v \<le> int (level_count stride r (int v))" using inv by (auto simp: level_inv_def st)
  have dev': "devices n r" using dev I(2) by (simp add: devices_def)
  let ?f = "r ! i" and ?d = "r ! (i - stride)"
  have f: "0 \<le> ?f" "?f < int n" using devices_nth [OF dev'] i(1) I(1) by auto
  have "vec_at r (int i - int stride) = Inr ?d" using i(1,3) I(1) vec_at_int [of "i - stride" r] by (simp add: of_nat_diff)
  then have node: "post_node stride a i st = Inr (if (h ! nat ?f > 1 \<or> a ! nat ?f \<ge> 1) \<and> ?f \<noteq> ?d
      then (r[i := ?d], h[nat ?f := h ! nat ?f - 1]) else st)"
    using f I(1,3) above(1) i(1) by (simp add: post_node_def st vec_at_def vec_set_def)
  show ?thesis
  proof (cases "(h ! nat ?f > 1 \<or> a ! nat ?f \<ge> 1) \<and> ?f \<noteq> ?d")
    case True
    have "\<exists>j < length r. j \<noteq> i \<and> r ! j = ?f"
    proof (cases "a ! nat ?f \<ge> 1")
      case True
      then obtain j where "j < length r0" "j mod (2 * stride) = 0" "r0 ! j = ?f"
        using above(2) [rule_format, of "nat ?f"] f by (auto simp: nat_less_iff)
      with I i show ?thesis by (metis less_numeral_extra(3))
    next
      case False
      then have "2 \<le> level_count stride r ?f"
        using True I(5) [rule_format, of "nat ?f"] f by (simp add: nat_less_iff)
      then have "\<not> {j. j < length r \<and> j mod stride = 0 \<and> r ! j = ?f} \<subseteq> {i}"
        unfolding level_count_def using card_mono [of "{i}" "{j. j < length r \<and> j mod stride = 0 \<and> r ! j = ?f}"] by fastforce
      then show ?thesis by blast
    qed
    then have s: "set (r[i := ?d]) = set r0" using set_update_kept [of i r ?d] i(1) I(1,2) by fastforce
    have "\<forall>v < n. h[nat ?f := h ! nat ?f - 1] ! v \<le> int (level_count stride (r[i := ?d]) (int v))"
    proof (intro allI impI)
      fix v assume v: "v < n"
      have "level_count stride r (int v) \<le> level_count stride (r[i := ?d]) (int v) + (if int v = ?f then 1 else 0)"
        using True i I(1) by (intro level_count_update) auto
      moreover have "h[nat ?f := h ! nat ?f - 1] ! v = h ! v - (if int v = ?f then 1 else 0)"
        using f v I(3) by (auto simp: nth_list_update)
      ultimately show "h[nat ?f := h ! nat ?f - 1] ! v \<le> int (level_count stride (r[i := ?d]) (int v))"
        using I(5) [rule_format, OF v] by (simp split: if_splits)
    qed
    moreover have "\<forall>j < length r0. j mod (2 * stride) = 0 \<longrightarrow> r[i := ?d] ! j = r0 ! j"
      using I(4) i(2,5) by (metis less_numeral_extra(3) nth_list_update_neq)
    ultimately show ?thesis using node True s I(1,3) by (simp add: level_inv_def)
  next
    case False
    with node inv show ?thesis by auto
  qed
qed

lemma post_level_ok:
  assumes "devices n r" "2 * 2 ^ level dvd length r"
  shows "\<exists>r'. post_level n level r = Inr r' \<and> length r' = length r \<and> set r' = set r \<and> (r \<noteq> [] \<longrightarrow> r' ! 0 = r ! 0)"
proof -
  let ?s = "2 ^ level :: nat"
  obtain a where a: "histogram_at n r (every (2 * ?s) (length r)) = Inr a" "length a = n"
    "\<forall>v < n. a ! v = int (length (filter (\<lambda>i. r ! i = int v) (every (2 * ?s) (length r))))"
    using histogram_at_ok [OF assms(1), of "every (2 * ?s) (length r)"] by (auto simp: set_every)
  obtain h where h: "histogram_at n r (every ?s (length r)) = Inr h" "length h = n"
    "\<forall>v < n. h ! v = int (length (filter (\<lambda>i. r ! i = int v) (every ?s (length r))))"
    using histogram_at_ok [OF assms(1), of "every ?s (length r)"] by (auto simp: set_every)
  have up: "\<forall>v < n. a ! v \<ge> 1 \<longrightarrow> (\<exists>j < length r. j mod (2 * ?s) = 0 \<and> r ! j = int v)"
  proof (intro allI impI)
    fix v assume "v < n" "a ! v \<ge> 1"
    then have "filter (\<lambda>i. r ! i = int v) (every (2 * ?s) (length r)) \<noteq> []" using a(3) by auto
    then obtain j where "j \<in> set (every (2 * ?s) (length r))" "r ! j = int v" by (auto simp: filter_empty_conv)
    then show "\<exists>j < length r. j mod (2 * ?s) = 0 \<and> r ! j = int v" by (auto simp: set_every)
  qed
  have "h ! v = int (level_count ?s r (int v))" if "v < n" for v
  proof -
    have "distinct (filter (\<lambda>i. r ! i = int v) (every ?s (length r)))" by (simp add: every_def)
    from distinct_card [OF this] show ?thesis using h(3) that by (simp add: level_count_def set_every conj_assoc)
  qed
  then have start: "level_inv n ?s r (r, h)" using h(2) by (simp add: level_inv_def)
  have "\<exists>st. rfold (post_node ?s a) (post_indices (length r) ?s) (r, h) = Inr st \<and> level_inv n ?s r st"
  proof (rule rfold_safe)
    show "level_inv n ?s r (r, h)" by (rule start)
    fix i st assume "i \<in> set (post_indices (length r) ?s)" and inv: "level_inv n ?s r st"
    then have "i < length r \<and> ?s \<le> i \<and> i mod ?s = 0 \<and> i mod (2 * ?s) = ?s"
      using assms(2) by (intro post_indices_odd) auto
    then show "\<exists>st'. post_node ?s a i st = Inr st' \<and> level_inv n ?s r st'"
      by (intro post_node_ok [OF inv assms(1) _ _ _ _ _ a(2) up]) auto
  qed
  then obtain r' h' where "rfold (post_node ?s a) (post_indices (length r) ?s) (r, h) = Inr (r', h')" "level_inv n ?s r (r', h')"
    by auto
  with a(1) h(1) show ?thesis by (auto simp: post_level_def Let_def level_inv_def)
qed

lemma Postprocess_ok:
  assumes "devices n r" "length r = 2 ^ depth"
  shows "\<exists>r'. Postprocess r n depth = Inr r' \<and> length r' = length r \<and> set r' = set r \<and> r' ! 0 = r ! 0"
  unfolding Postprocess_def
proof (rule rfold_safe)
  fix level r' assume "level \<in> set (rev [0..<depth])" and r': "length r' = length r \<and> set r' = set r \<and> r' ! 0 = r ! 0"
  then have "2 * 2 ^ level dvd length r'" using assms(2) le_imp_power_dvd [of "Suc level" depth "2 :: nat"] by simp
  moreover have "devices n r'" "r' \<noteq> []" using assms r' by (auto simp: devices_def)
  ultimately show "\<exists>s'. post_level n level r' = Inr s' \<and> length s' = length r \<and> set s' = set r \<and> s' ! 0 = r ! 0"
    using post_level_ok [of n r' level] r' by auto
qed simp
text \<open>
  Merging a redundant send can use a link that does not exist: leaf 6 gets GPU 4 instead of GPU 2, and GPU 4 has no link to GPU 3, the
  device of leaf 7.
\<close>

lemma Postprocess_breaks_link:
  defines "W \<equiv> map Fin [0, 0, 1, 0, 1,  0, 0, 0, 0, 1,  1, 0, 0, 1, 1,  0, 0, 1, 0, 0,  1, 1, 1, 0, 0]"
  shows "IsValid W [0, 0, 2, 0, 4, 1, 2, 3] 5 8 3 = Inr True"
    and "Postprocess [0, 0, 2, 0, 4, 1, 2, 3] 5 3 = Inr [0, 0, 2, 2, 4, 1, 4, 3]"
    and "valid_links W [0, 0, 2, 2, 4, 1, 4, 3] 5 8 3 = Inr False"
  unfolding W_def by code_simp+

section \<open>The search finds spanning trees\<close>

lemma rall_ok: "(\<And>x. x \<in> set xs \<Longrightarrow> \<exists>b. f x = Inr b) \<Longrightarrow> \<exists>b. rall f xs = Inr b"
  by (induction xs) (auto, metis rbind_simps(2))

lemma until_stop_safe:
  assumes "\<And>x s. x \<in> set xs \<Longrightarrow> Q s \<Longrightarrow> \<exists>s' stop. f x s = Inr (s', stop) \<and> Q s'" and "Q s"
  shows "\<exists>s' stop. until_stop f xs s = Inr (s', stop) \<and> Q s'"
  using assms
proof (induction xs arbitrary: s)
  case (Cons x xs)
  from Cons.prems(1) [of x s] Cons.prems(2) obtain s1 stop where s1: "f x s = Inr (s1, stop)" "Q s1" by auto
  from Cons.IH [OF Cons.prems(1) s1(2)] s1 show ?case by (cases stop) auto
qed auto

definition placed_upto :: "nat \<Rightarrow> nat \<Rightarrow> int list \<Rightarrow> bool" where
  "placed_upto n row state \<longleftrightarrow> row \<le> length state \<and> devices n (take row state) \<and> unplaced row state"

lemma placed_upto_nth: "placed_upto n row state \<Longrightarrow> i < row \<Longrightarrow> 0 \<le> state ! i \<and> state ! i < int n"
  using devices_nth [of n "take row state" i] by (auto simp: placed_upto_def)

lemma placed_upto_place:
  assumes "placed_upto n row state" "j < n" "row < length state"
  shows "placed_upto n (Suc row) (state[row := int j])"
  using assms unplaced_place [of row state "int j"] by (auto simp: placed_upto_def devices_def take_Suc_conv_app_nth)

lemma placed_upto_entry: "placed_upto n row state \<Longrightarrow> v \<in> set state \<Longrightarrow> v = - 1 \<or> (0 \<le> v \<and> v < int n)"
  by (metis in_set_conv_nth not_le placed_upto_def placed_upto_nth unplaced_def)

lemma valid_links_ok:
  assumes "length W = n * n" "placed_upto n row state"
  shows "\<exists>b. valid_links W state n row depth = Inr b"
proof -
  have "\<exists>b. valid_link W state n (2 ^ i) j = Inr b" if "j \<in> set (every (2 * 2 ^ i) (row - 2 ^ i))" for i j
  proof -
    have j: "j < row" "j + 2 ^ i < row" "row \<le> length state" using that assms(2) by (auto simp: set_every placed_upto_def)
    obtain a b where "state ! j = int a" "a < n" "state ! (j + 2 ^ i) = int b" "b < n"
      using placed_upto_nth [OF assms(2) j(1)] placed_upto_nth [OF assms(2) j(2)] by (metis nonneg_int_cases of_nat_less_iff)
    with j w_at_ok [OF assms(1)] show ?thesis by (simp add: valid_link_def vec_at_int del: of_nat_add)
  qed
  then show ?thesis unfolding valid_links_def by (intro rall_ok) auto
qed

lemma found_in_ok:
  assumes "\<forall>v \<in> set vs. v = - 1 \<or> (0 \<le> v \<and> v < int n)"
  shows "\<exists>f'. found_in n vs f = Inr (Some f') \<and> set f' \<subseteq> set f \<union> set vs"
  using assms
proof (induction vs arbitrary: f)
  case (Cons v vs)
  then show ?case using Cons.IH [of f] Cons.IH [of "f @ [v]"] by fastforce
qed simp

lemma IsValid_ok:
  assumes "length W = n * n" "placed_upto n row state"
  shows "\<exists>b. IsValid W state n row depth = Inr b \<and> (b \<longrightarrow> row = length state \<longrightarrow> n \<le> row \<longrightarrow> int ` {..<n} \<subseteq> set state)"
proof -
  obtain l where l: "valid_links W state n row depth = Inr l" using valid_links_ok [OF assms] by blast
  obtain f where f: "found_in n state [] = Inr (Some f)" "set f \<subseteq> set state"
    using found_in_ok [of state n "[]"] placed_upto_entry [OF assms(2)] by auto
  show ?thesis using l f by (auto simp: IsValid_def Let_def)
qed

lemma weigh_node_ok:
  assumes "length W = n * n" "devices n r" "j + 2 ^ i < length r" "length (wg_nodes s) = n"
  shows "\<exists>s'. weigh_node W r n i penalty j s = Inr s' \<and> length (wg_nodes s') = n"
proof -
  obtain a b where "r ! j = int a" "a < n" "r ! (j + 2 ^ i) = int b" "b < n"
    using devices_nth [OF assms(2), of j] devices_nth [OF assms(2), of "j + 2 ^ i"] assms(3) by (metis add_lessD1 nonneg_int_cases of_nat_less_iff)
  with assms w_at_ok [OF assms(1)] show ?thesis
    by (simp add: weigh_node_def vec_at_int vec_set_int Let_def del: of_nat_add)
qed

lemma ComputeTreeWeight_ok:
  assumes "length W = n * n" "devices n r"
  shows "\<exists>w. ComputeTreeWeight W r n depth penalty = Inr w"
proof -
  let ?s = "\<lparr>wg_weight = Fin 0, wg_links = [], wg_nodes = []\<rparr>"
  have level: "\<exists>s'. rfold (weigh_node W r n i penalty) (every (2 * 2 ^ i) (length r - 2 ^ i)) s = Inr s' \<and> length (wg_nodes s') = n"
    if "length (wg_nodes s) = n" for i s
    by (rule rfold_safe) (use weigh_node_ok [OF assms] that in \<open>auto simp: set_every\<close>)
  have "\<exists>s. rfold (\<lambda>i s. rfold (weigh_node W r n i penalty) (every (2 * 2 ^ i) (length r - 2 ^ i)) (s\<lparr>wg_nodes := replicate n False\<rparr>))
      [0..<depth] ?s = Inr s \<and> True"
  proof (rule rfold_safe)
    fix i :: nat and s :: weighing
    show "\<exists>s'. rfold (weigh_node W r n i penalty) (every (2 * 2 ^ i) (length r - 2 ^ i)) (s\<lparr>wg_nodes := replicate n False\<rparr>) = Inr s' \<and> True"
      using level [of "s\<lparr>wg_nodes := replicate n False\<rparr>" i] by auto
  qed simp
  then show ?thesis by (auto simp: ComputeTreeWeight_def)
qed

text \<open>The best result so far is none or a spanning tree.\<close>

definition spanning :: "nat \<Rightarrow> nat \<Rightarrow> int \<Rightarrow> int list \<Rightarrow> bool" where
  "spanning n depth root_gpu r \<longleftrightarrow> length r = 2 ^ depth \<and> r ! 0 = root_gpu \<and> set r = int ` {..<n}"

definition none_or_spanning :: "nat \<Rightarrow> nat \<Rightarrow> int \<Rightarrow> int list \<times> fl \<Rightarrow> bool" where
  "none_or_spanning n depth root_gpu b \<longleftrightarrow> fst b = replicate (2 ^ depth) (- 1) \<or> spanning n depth root_gpu (fst b)"

lemma solution_ok:
  assumes "length W = n * n" "spanning n depth root_gpu state" "none_or_spanning n depth root_gpu best"
  shows "\<exists>b. solution W n depth state best = Inr b \<and> none_or_spanning n depth root_gpu b"
proof -
  have dev: "devices n state" using assms(2) by (auto simp: spanning_def devices_def)
  obtain r where r: "Postprocess state n depth = Inr r" "length r = length state" "set r = set state" "r ! 0 = state ! 0"
    using Postprocess_ok [OF dev] assms(2) by (auto simp: spanning_def)
  have "devices n r" using dev r(3) by (simp add: devices_def)
  then obtain w where "ComputeTreeWeight W r n depth True = Inr w" using ComputeTreeWeight_ok [OF assms(1)] by blast
  with r assms(2,3) show ?thesis by (auto simp: solution_def none_or_spanning_def spanning_def)
qed

lemma RecursiveBacktrack_ok:
  assumes W: "length W = n * n" and N: "length state = 2 ^ depth" "n \<le> 2 ^ depth" and "k < length state"
    and "placed_upto n (length state - k) state" "state ! 0 = root_gpu" "none_or_spanning n depth root_gpu best"
    and "k = 0 \<Longrightarrow> int ` {..<n} \<subseteq> set state"
  shows "\<exists>b stop. RecursiveBacktrack W n depth optimal k (state, best) = Inr ((state, b), stop) \<and> none_or_spanning n depth root_gpu b"
  using assms(2-)
proof (induction k arbitrary: state best)
  case 0
  then have "devices n state" by (simp add: placed_upto_def)
  then have "set state \<subseteq> int ` {..<n}" unfolding devices_def by (metis image_eqI lessThan_iff nonneg_int_cases of_nat_less_iff subsetI)
  then have "spanning n depth root_gpu state" using 0 by (simp add: spanning_def)
  from solution_ok [OF W this "0.prems"(6)] show ?case by auto
next
  case (Suc k)
  define row where "row = length state - Suc k"
  have row: "row < length state" "0 < row" "length state - k = Suc row" "placed_upto n row state"
    using Suc.prems(3,4) by (auto simp: row_def)
  have "\<exists>s' stop. try_device W n depth optimal k row j s = Inr (s', stop) \<and> fst s' = state \<and> none_or_spanning n depth root_gpu (snd s')"
    if j: "j < n" and s: "fst s = state" "none_or_spanning n depth root_gpu (snd s)" for j s
  proof -
    let ?st = "state[row := int j]"
    have pl: "placed_upto n (Suc row) ?st" using placed_upto_place [OF row(4) j row(1)] .
    have undo: "?st[row := - 1] = state" using unplaced_update [of row state] row(4) by (simp add: placed_upto_def)
    obtain v where v: "IsValid W ?st n (Suc row) depth = Inr v" "v \<longrightarrow> Suc row = length ?st \<longrightarrow> n \<le> Suc row \<longrightarrow> int ` {..<n} \<subseteq> set ?st"
      using IsValid_ok [OF W pl] by blast
    show ?thesis
    proof (cases v)
      case True
      have "\<exists>b stop. RecursiveBacktrack W n depth optimal k (?st, snd s) = Inr ((?st, b), stop) \<and> none_or_spanning n depth root_gpu b"
      proof (rule Suc.IH)
        show "int ` {..<n} \<subseteq> set ?st" if "k = 0" using v(2) True that row(3) Suc.prems(1,2) by simp
      qed (use Suc.prems row pl s in auto)
      with v True row s undo show ?thesis by (auto simp: try_device_def)
    next
      case False
      with v row s undo show ?thesis by (auto simp: try_device_def)
    qed
  qed
  then have "\<exists>s' stop. until_stop (try_device W n depth optimal k row) [0..<n] (state, best) = Inr (s', stop) \<and>
      (fst s' = state \<and> none_or_spanning n depth root_gpu (snd s'))"
    by (intro until_stop_safe) (use Suc.prems(6) in auto)
  then show ?case unfolding RecursiveBacktrack_Suc row_def by (metis fst_conv prod.collapse snd_conv)
qed

section \<open>The tree as an array\<close>

lemma ComputeDepth_from_ok:
  assumes "n \<le> 2 * 2 ^ d" "d \<in> set ds" "sorted ds"
  shows "\<exists>e \<in> set ds. ComputeDepth_from n ds = Suc e \<and> n \<le> 2 ^ Suc e \<and> (\<forall>c \<in> set ds. c < e \<longrightarrow> 2 ^ Suc c < n)"
  using assms(2,3)
proof (induction ds)
  case (Cons c ds)
  show ?case
  proof (cases "n \<le> 2 * 2 ^ c")
    case True
    then show ?thesis using Cons.prems(2) by (intro bexI [of _ c]) auto
  next
    case False
    then have "d \<in> set ds" using assms(1) Cons.prems(1) by auto
    from Cons.IH [OF this] Cons.prems(2) False show ?thesis by (auto simp: not_le)
  qed
qed simp

lemma ComputeDepth_least:
  assumes "n \<le> 2 ^ 16"
  shows "0 < ComputeDepth n" "n \<le> 2 ^ ComputeDepth n" "2 < n \<Longrightarrow> 2 ^ (ComputeDepth n - 1) < n"
proof -
  obtain e where e: "ComputeDepth n = Suc e" "n \<le> 2 ^ Suc e" "\<forall>c < e. c < 16 \<longrightarrow> 2 ^ Suc c < n" "e < 16"
    using ComputeDepth_from_ok [of n 15 "[0..<16]"] assms unfolding ComputeDepth_def by (auto simp: sorted_upt)
  then show "0 < ComputeDepth n" "n \<le> 2 ^ ComputeDepth n" by simp_all
  show "2 ^ (ComputeDepth n - 1) < n" if "2 < n"
    using e that by (cases e) auto
qed

text \<open>The nodes of a level of the tree.\<close>

definition tree_nodes :: "int list \<Rightarrow> nat \<Rightarrow> nat \<Rightarrow> int list" where
  "tree_nodes r depth l = map (\<lambda>p. r ! (p * 2 ^ (depth - l))) [0..<2 ^ l]"

lemma every_Suc: "0 < d \<Longrightarrow> every d (d * m) = map (\<lambda>p. p * d) [0..<m]"
proof (induction m)
  case (Suc m)
  have "filter (\<lambda>j. j mod d = 0) [d * m..<d * Suc m] = [d * m]"
  proof -
    have "filter (\<lambda>j. j mod d = 0) [Suc (d * m)..<d * Suc m] = []"
      unfolding filter_empty_conv
    proof (intro ballI notI)
      fix j assume j: "j \<in> set [Suc (d * m)..<d * Suc m]" and "j mod d = 0"
      from \<open>j mod d = 0\<close> obtain q where q: "j = d * q" by (auto elim: dvdE)
      have "d * m < j" "j < d * Suc m" using j by simp_all
      then have "m < q" "q < Suc m" unfolding q by (simp_all del: mult_Suc_right)
      then show False by simp
    qed
    moreover have "[d * m..<d * Suc m] = d * m # [Suc (d * m)..<d * Suc m]" using Suc.prems by (simp add: upt_conv_Cons)
    ultimately show ?thesis by simp
  qed
  moreover have "[0..<d * Suc m] = [0..<d * m] @ [d * m..<d * Suc m]" using upt_add_eq_append [of 0 "d * m" d] by (simp add: add.commute)
  ultimately show ?case using Suc by (simp add: every_def mult.commute)
qed (simp add: every_def)

lemma tree_nodes_every:
  assumes "length r = 2 ^ depth" "l \<le> depth"
  shows "map (\<lambda>j. r ! j) (every (2 ^ (depth - l)) (length r)) = tree_nodes r depth l"
proof -
  have "length r = 2 ^ (depth - l) * 2 ^ l" using assms by (simp flip: power_add)
  then show ?thesis by (simp add: every_Suc tree_nodes_def)
qed

lemma length_levels: "length (concat (map (tree_nodes r depth) [0..<m])) = 2 ^ m - 1"
  by (induction m) (auto simp: tree_nodes_def)

lemma nth_levels:
  assumes "l < m" "p < 2 ^ l"
  shows "concat (map (tree_nodes r depth) [0..<m]) ! (2 ^ l - 1 + p) = r ! (p * 2 ^ (depth - l))"
  using assms
proof (induction m)
  case (Suc m)
  show ?case
  proof (cases "l = m")
    case True
    let ?up = "concat (map (tree_nodes r depth) [0..<m])"
    have "(?up @ tree_nodes r depth m) ! (length ?up + p) = r ! (p * 2 ^ (depth - m))"
      using Suc.prems(2) True unfolding nth_append_length_plus by (simp add: tree_nodes_def)
    then show ?thesis using True unfolding length_levels by simp
  next
    case False
    then have lm: "l < m" using Suc.prems(1) by simp
    have "(2 :: nat) ^ l - 1 + p < 2 ^ m - 1"
    proof -
      have "(2 :: nat) ^ Suc l \<le> 2 ^ m" using lm by (intro power_increasing) auto
      then show ?thesis using Suc.prems(2) by simp
    qed
    with Suc.IH [OF lm Suc.prems(2)] show ?thesis by (simp add: nth_append length_levels)
  qed
qed simp

lemma FormTopology_fold:
  assumes "length r = 2 ^ depth" "m \<le> depth"
  shows "fold (\<lambda>l (topo, scan). let topo = topo @ map (\<lambda>j. r ! j) (every (2 ^ (depth - l)) (length r)) in (topo, scan @ [int (length topo)]))
      [0..<m] ([], [0]) = (concat (map (tree_nodes r depth) [0..<m]), map (\<lambda>l. 2 ^ l - 1) [0..<Suc m])"
  using assms(2)
proof (induction m)
  case (Suc m)
  have e: "map (\<lambda>j. r ! j) (every (2 ^ (depth - m)) (length r)) = tree_nodes r depth m"
    using tree_nodes_every [OF assms(1)] Suc.prems by simp
  then have "length (every (2 ^ (depth - m)) (length r)) = 2 ^ m" by (metis length_map length_upt diff_zero tree_nodes_def)
  with Suc e show ?case by (simp add: length_levels of_nat_diff)
qed simp

lemma FormTopology_levels:
  assumes "length r = 2 ^ depth" "- 1 \<notin> set r"
  shows "FormTopology r [] [] depth =
    Some (concat (map (tree_nodes r depth) [0..<Suc depth]), map (\<lambda>l. 2 ^ l - 1) [0..<depth + 2])"
proof -
  have rv: "rev [1..<Suc depth] = map (\<lambda>l. depth - l) [0..<depth]"
    by (rule nth_equalityI) (auto simp: rev_nth simp del: upt_Suc)
  have leaves: "tree_nodes r depth depth = r" by (rule nth_equalityI) (auto simp: tree_nodes_def assms(1))
  have "int (length (concat (map (tree_nodes r depth) [0..<Suc depth]))) = 2 ^ Suc depth - 1"
    using length_levels [of r depth "Suc depth"] by (simp add: of_nat_diff)
  with assms FormTopology_fold [OF assms(1) order_refl] leaves show ?thesis
    unfolding FormTopology_def rv by (simp add: fold_map comp_def Let_def)
qed

lemma node_level: "\<exists>l p. q = 2 ^ l - 1 + p \<and> p < (2 :: nat) ^ l"
proof -
  obtain l where "2 ^ l \<le> q + 1" "q + 1 < 2 ^ (l + 1)" using ex_power_ivl1 [of 2 "q + 1"] by auto
  then show ?thesis by (intro exI [of _ l] exI [of _ "q + 1 - 2 ^ l"]) auto
qed

text \<open>
  A tree in an array: the children of node \<open>q\<close> are \<open>2 * q + 1\<close> and \<open>2 * q + 2\<close>, the first child is the device of the node itself,
  the root is the given one, and the leaves are all the devices.
\<close>

definition tree_array :: "nat \<Rightarrow> nat \<Rightarrow> int \<Rightarrow> int list \<Rightarrow> bool" where
  "tree_array n depth root_gpu topo \<longleftrightarrow> length topo = 2 ^ Suc depth - 1 \<and> topo ! 0 = root_gpu \<and>
     (\<forall>q < 2 ^ depth - 1. topo ! (2 * q + 1) = topo ! q) \<and> set (drop (2 ^ depth - 1) topo) = int ` {..<n} \<and> set topo = int ` {..<n}"

lemma tree_array_levels:
  assumes "spanning n depth root_gpu r"
  shows "tree_array n depth root_gpu (concat (map (tree_nodes r depth) [0..<Suc depth]))"
proof -
  let ?t = "concat (map (tree_nodes r depth) [0..<Suc depth])"
  have r: "length r = 2 ^ depth" "r ! 0 = root_gpu" "set r = int ` {..<n}" using assms by (auto simp: spanning_def)
  have leaves: "tree_nodes r depth depth = r" by (rule nth_equalityI) (auto simp: tree_nodes_def r(1))
  have "?t ! (2 * q + 1) = ?t ! q" if q: "q < 2 ^ depth - 1" for q
  proof -
    obtain l p where lp: "q = 2 ^ l - 1 + p" "p < 2 ^ l" using node_level by blast
    have "(2 :: nat) ^ l < 2 ^ depth" using lp(1) q by linarith
    then have l: "l < depth" by simp
    have "2 * q + 1 = 2 ^ Suc l - 1 + 2 * p" 
      using lp(1) one_le_power [of "2 :: nat" l] unfolding power_Suc by linarith
    moreover have "2 * p * 2 ^ (depth - Suc l) = p * 2 ^ (depth - l)"
      using l by (simp flip: power_Suc add: Suc_diff_Suc)
    moreover have "?t ! (2 ^ Suc l - 1 + 2 * p) = r ! (2 * p * 2 ^ (depth - Suc l))" using l lp(2) by (intro nth_levels) auto
    moreover have "?t ! (2 ^ l - 1 + p) = r ! (p * 2 ^ (depth - l))" using l lp(2) by (intro nth_levels) auto
    ultimately show ?thesis unfolding lp(1) by argo
  qed
  moreover have "drop (2 ^ depth - 1) ?t = r" using leaves length_levels [of r depth depth] by simp
  moreover have "?t ! 0 = root_gpu" using nth_levels [of 0 "Suc depth" 0 r depth] r(2) by simp
  moreover have nodes: "set (tree_nodes r depth l) \<subseteq> set r" if "l \<le> depth" for l
  proof -
    have "p * 2 ^ (depth - l) < 2 ^ depth" if "p < 2 ^ l" for p :: nat
      using mult_strict_right_mono [OF that, of "2 ^ (depth - l)"] \<open>l \<le> depth\<close> by (simp flip: power_add)
    then show ?thesis using r(1) by (auto simp: tree_nodes_def)
  qed
  moreover have sub: "set ?t \<subseteq> set r"
  proof
    fix x assume "x \<in> set ?t"
    then obtain l where "l \<in> set [0..<Suc depth]" "x \<in> set (tree_nodes r depth l)" unfolding set_concat set_map by blast
    then show "x \<in> set r" using nodes [of l] by auto
  qed
  moreover have "set r \<subseteq> set ?t" using leaves by simp
  ultimately show ?thesis using length_levels [of r depth "Suc depth"] r(3) unfolding tree_array_def
    by (intro conjI allI impI subset_antisym) simp_all
qed

lemma BacktrackGenerateBinaryTree_ok:
  assumes "length W = n * n" "n \<le> 2 ^ 16" "root_gpu < n"
  shows "\<exists>t. BacktrackGenerateBinaryTree W n (int root_gpu) = Some (Inr t) \<and>
    (\<forall>topo scan. t = Some (topo, scan) \<longrightarrow> tree_array n (ComputeDepth n) (int root_gpu) topo \<and>
      scan = map (\<lambda>l. 2 ^ l - 1) [0..<ComputeDepth n + 2])"
proof -
  let ?d = "ComputeDepth n" and ?none = "replicate (2 ^ ComputeDepth n) (- 1 :: int)"
  note d = ComputeDepth_least [OF assms(2)]
  let ?st = "?none[0 := int root_gpu]"
  have pos: "(2 :: nat) \<le> 2 ^ ?d" using d(1) by (cases ?d) auto
  from le_Suc_ex [OF pos] obtain k :: nat where "2 ^ ?d = 2 + k" by blast
  then have k: "2 ^ ?d = k + 2" by simp
  have un: "unplaced 1 ?st" by (auto simp: unplaced_def)
  have pl: "placed_upto n 1 ?st" 
    using un assms(3) pos by (auto simp: placed_upto_def devices_def take_Suc_conv_app_nth [of 0 ?st, simplified])
  have "\<exists>b stop. RecursiveBacktrack W n ?d (?d \<le> 3) (Suc k) (?st, (?none, f32_lowest)) = Inr ((?st, b), stop) \<and>
      none_or_spanning n ?d (int root_gpu) b"
  proof (rule RecursiveBacktrack_ok [OF assms(1)])
    show "length ?st = 2 ^ ?d" by simp
    show "n \<le> 2 ^ ?d" by (rule d(2))
    show "Suc k < length ?st" using k by simp
    show "placed_upto n (length ?st - Suc k) ?st" using pl k by simp
    show "?st ! 0 = int root_gpu" by simp
    show "none_or_spanning n ?d (int root_gpu) (?none, f32_lowest)" by (simp add: none_or_spanning_def)
  qed simp
  then obtain b stop where rb: "RecursiveBacktrack W n ?d (?d \<le> 3) (Suc k) (?st, (?none, f32_lowest)) = Inr ((?st, b), stop)"
    "none_or_spanning n ?d (int root_gpu) b" by blast
  have "length ?st = k + 2" using k by simp
  from IterativeBacktrack_recursive [OF this un] rb(1) have it: "BacktrackGenerateBinaryTree W n (int root_gpu) = Some (Inr (FormTopology (fst b) [] [] ?d))"
    by (simp add: BacktrackGenerateBinaryTree_def Let_def case_prod_unfold del: RecursiveBacktrack.simps)
  show ?thesis
  proof (cases "spanning n ?d (int root_gpu) (fst b)")
    case True
    then have "- 1 \<notin> set (fst b)" "length (fst b) = 2 ^ ?d" by (auto simp: spanning_def)
    with it FormTopology_levels [of "fst b" ?d] tree_array_levels [OF True] show ?thesis by (simp del: upt_Suc)
  next
    case False
    then have "fst b = ?none" using rb(2) by (simp add: none_or_spanning_def)
    then have "FormTopology (fst b) [] [] ?d = None" by (simp add: FormTopology_def)
    with it show ?thesis by simp
  qed
qed

section \<open>The trees of all roots\<close>

lemma tree_device: "set topo = int ` {..<n} \<Longrightarrow> i < length topo \<Longrightarrow> \<exists>a < n. topo ! i = int a"
  using nth_mem [of i topo] by auto

lemma UpdateWeight_ok:
  assumes W: "length W = n * n" and t: "set topo = int ` {..<n}" "0 < n" "n \<le> 2 ^ 16"
  shows "\<exists>W'. UpdateWeight W topo n alpha = Inr W' \<and> length W' = n * n"
proof -
  have "topo \<noteq> []" using t(1,2) by auto
  moreover have "\<exists>W'. rfold (UpdateWeight_link n alpha topo) (filter odd [1..<length topo - 1]) W = Inr W' \<and> length W' = n * n"
  proof (rule rfold_safe)
    fix i and V :: "fl list" assume i: "i \<in> set (filter odd [1..<length topo - 1])" and V: "length V = n * n"
    then have i': "i < length topo" "Suc i < length topo" by auto
    then obtain a b where ab: "topo ! i = int a" "a < n" "topo ! Suc i = int b" "b < n"
      using tree_device [OF t(1)] by metis
    have at: "vec_at topo (int i) = Inr (int a)" "vec_at topo (int i + 1) = Inr (int b)"
      using i' ab vec_at_int [of i topo] vec_at_int [of "Suc i" topo] by (simp_all add: add.commute)
    have small: "int a mod 2 ^ 32 = int a" "int b mod 2 ^ 32 = int b" using ab t(3) by simp_all
    define V' where "V' = V[a * n + b := f32_mul (V ! (a * n + b)) alpha]"
    have V': "length V' = n * n" using V by (simp add: V'_def)
    have lt: "a * n + b < n * n" "b * n + a < n * n" using ab matrix_index by auto
    have s1: "vec_set V (int a * int n + int b) x = Inr (V[a * n + b := x])" for x
      using lt(1) V vec_set_int [of "a * n + b" V x] by simp
    have s2: "vec_set V' (int b * int n + int a) x = Inr (V'[b * n + a := x])" for x
      using lt(2) V' vec_set_int [of "b * n + a" V' x] by simp
    have "\<not> (int (n * n) \<le> int a \<or> int (n * n) \<le> int b)" using lt by (simp del: of_nat_mult)
    then have "UpdateWeight_link n alpha topo i V = Inr (if a = b then V else V'[b * n + a := f32_mul (V' ! (b * n + a)) alpha])"
      unfolding UpdateWeight_link_def Let_def at rbind_simps small
      using s1 s2 w_at_ok [OF V ab(2,4)] w_at_ok [OF V' ab(4,2)] by (simp flip: V'_def)
    then show "\<exists>s'. UpdateWeight_link n alpha topo i V = Inr s' \<and> length s' = n * n" using V V' by simp
  qed (rule W)
  ultimately show ?thesis by (simp add: UpdateWeight_def)
qed

lemma adj_link_ok:
  assumes "set topo = int ` {..<n}" "Suc col < length topo" "length adj = n * n"
  shows "\<exists>adj'. adj_link n topo col adj = Inr adj' \<and> length adj' = n * n"
proof -
  obtain a b where ab: "topo ! col = int a" "a < n" "topo ! Suc col = int b" "b < n"
    using tree_device [OF assms(1), of col] tree_device [OF assms(1), of "Suc col"] assms(2) by auto
  have at: "vec_at topo (int col) = Inr (int a)" "vec_at topo (int col + 1) = Inr (int b)"
    using assms(2) ab vec_at_int [of col topo] vec_at_int [of "Suc col" topo] by (simp_all add: add.commute)
  let ?l = "min a b" and ?h = "max a b"
  have lt: "?l * n + ?h < n * n" "?h * n + ?l < n * n" using ab by (intro matrix_index; simp)+
  have idx: "min (int a) (int b) * int n + max (int a) (int b) = int (?l * n + ?h)"
    "max (int a) (int b) * int n + min (int a) (int b) = int (?h * n + ?l)" by (simp_all add: of_nat_min of_nat_max)
  have "vec_at v (int (?l * n + ?h)) = Inr (v ! (?l * n + ?h))" "vec_at v (int (?h * n + ?l)) = Inr (v ! (?h * n + ?l))"
    "vec_set v (int (?l * n + ?h)) x = Inr (v[?l * n + ?h := x])" "vec_set v (int (?h * n + ?l)) x = Inr (v[?h * n + ?l := x])"
    if "length v = n * n" for v :: "int list" and x using that lt by (auto intro: vec_at_int vec_set_int simp del: of_nat_add of_nat_mult)
  with assms(3) show ?thesis
    unfolding adj_link_def Let_def at rbind_simps idx by (simp del: of_nat_add of_nat_mult of_nat_min of_nat_max)
qed

lemma link_usage_ok:
  assumes "\<forall>topo \<in> set topos. set topo = int ` {..<n} \<and> length topo = L" "odd L"
  shows "\<exists>adj. link_usage n (n * n) topos = Inr adj"
proof -
  have "\<exists>adj. link_usage n (n * n) topos = Inr adj \<and> length adj = n * n"
    unfolding link_usage_def
  proof (rule rfold_safe)
    fix topo and adj :: "int list" assume topo: "topo \<in> set topos" and adj: "length adj = n * n"
    then have L: "length (hd topos) = L" "set topo = int ` {..<n}" "length topo = L" using assms(1) hd_in_set [of topos] by (metis length_pos_if_in_set less_numeral_extra(3) list.size(3), blast, blast)
    show "\<exists>adj'. rfold (adj_link n topo) (filter odd [1..<length (hd topos)]) adj = Inr adj' \<and> length adj' = n * n"
    proof (rule rfold_safe)
      fix col and v :: "int list" assume col: "col \<in> set (filter odd [1..<length (hd topos)])" and v: "length v = n * n"
      then have "odd col" "col < L" using L by auto
      then have "Suc col < length topo" using assms(2) L(3) by (metis Suc_lessI even_Suc)
      then show "\<exists>adj'. adj_link n topo col v = Inr adj' \<and> length adj' = n * n" using adj_link_ok [OF L(2)] v by blast
    qed (rule adj)
  qed simp
  then show ?thesis by blast
qed

text \<open>Backtracking from every root: the search ends, and its only fault is that there is no tree from a root.\<close>

lemma ComputeTreesFromRoot_backtrack:
  assumes "length W = n * n" "n \<le> 2 ^ 16" "i < n"
  shows "\<exists>r. ComputeTreesFromRoot iter shuf shuf_int gen W n (int i) alpha True topo0 scan0 = Some r \<and>
    (r = Inl (Fatal ''No valid binary tree found'') \<or>
     (\<exists>W' topo scan. r = Inr (W', topo, scan) \<and> length W' = n * n \<and> tree_array n (ComputeDepth n) (int i) topo))"
proof -
  obtain t where t: "BacktrackGenerateBinaryTree W n (int i) = Some (Inr t)"
    "\<forall>topo scan. t = Some (topo, scan) \<longrightarrow> tree_array n (ComputeDepth n) (int i) topo"
    using BacktrackGenerateBinaryTree_ok [OF assms] by blast
  show ?thesis
  proof (cases t)
    case None
    then show ?thesis using t(1) by (simp add: ComputeTreesFromRoot_def kl_search_def Let_def)
  next
    case (Some ts)
    obtain topo scan where ts: "ts = (topo, scan)" by fastforce
    then have tree: "tree_array n (ComputeDepth n) (int i) topo" using t(2) Some by blast
    then have "set topo = int ` {..<n}" by (simp add: tree_array_def)
    then obtain W' where "UpdateWeight W topo n alpha = Inr W'" "length W' = n * n"
      using UpdateWeight_ok [OF assms(1) _ _ assms(2)] assms(3) by blast
    with t(1) Some ts tree show ?thesis by (simp add: ComputeTreesFromRoot_def kl_search_def Let_def)
  qed
qed

lemma trees_from_backtrack:
  assumes "\<And>W i. length W = N \<Longrightarrow> i < n \<Longrightarrow> \<exists>r. f W i = Some r \<and>
      (r = Inl e \<or> (\<exists>W' topo scan. r = Inr (W', topo, scan) \<and> length W' = N \<and> P i topo))"
    and "set is \<subseteq> {..<n}" "length W = N"
  shows "\<exists>r. trees_from f is W = Some r \<and> (r = Inl e \<or> (\<exists>ts. r = Inr ts \<and> length ts = length is \<and> (\<forall>k < length is. P (is ! k) (fst (ts ! k)))))"
  using assms(2,3)
proof (induction "is" arbitrary: W)
  case (Cons i "is")
  obtain r where r: "f W i = Some r" "r = Inl e \<or> (\<exists>W' topo scan. r = Inr (W', topo, scan) \<and> length W' = N \<and> P i topo)"
    using assms(1) [of W i] Cons.prems by auto
  from r(2) show ?case
  proof
    assume "\<exists>W' topo scan. r = Inr (W', topo, scan) \<and> length W' = N \<and> P i topo"
    then obtain W' topo scan where w: "r = Inr (W', topo, scan)" "length W' = N" "P i topo" by blast
    from Cons.IH [of W'] Cons.prems(1) w(2) obtain q where
      q: "trees_from f is W' = Some q" "q = Inl e \<or> (\<exists>ts. q = Inr ts \<and> length ts = length is \<and> (\<forall>k < length is. P (is ! k) (fst (ts ! k))))"
      by auto
    from q(2) show ?thesis
    proof
      assume "\<exists>ts. q = Inr ts \<and> length ts = length is \<and> (\<forall>k < length is. P (is ! k) (fst (ts ! k)))"
      then obtain ts where "q = Inr ts" "length ts = length is" "\<forall>k < length is. P (is ! k) (fst (ts ! k))" by blast
      with r(1) w q(1) show ?thesis by (auto simp: nth_Cons split: nat.splits)
    qed (use r(1) w q(1) in simp)
  qed (use r(1) in simp)
qed simp

lemma ComputeTrees_backtrack:
  assumes "length W = n * n" "n \<le> 2 ^ 16"
  shows "\<exists>r. ComputeTrees iter shuf shuf_int gen W n alpha True = Some r \<and>
    (r = Inl (Fatal ''No valid binary tree found'') \<or>
     (\<exists>trees. r = Inr trees \<and> length trees = n \<and> (\<forall>i < n. tree_array n (ComputeDepth n) (int i) (fst (trees ! i)))))"
proof -
  let ?f = "\<lambda>W i. ComputeTreesFromRoot iter shuf shuf_int gen W n (int i) alpha True [int i] [0]"
  have "\<exists>r. trees_from ?f [0..<n] W = Some r \<and> (r = Inl (Fatal ''No valid binary tree found'') \<or>
      (\<exists>ts. r = Inr ts \<and> length ts = length [0..<n] \<and>
        (\<forall>k < length [0..<n]. tree_array n (ComputeDepth n) (int ([0..<n] ! k)) (fst (ts ! k)))))"
    by (rule trees_from_backtrack [OF ComputeTreesFromRoot_backtrack [OF _ assms(2)]]) (use assms(1) in auto)
  then obtain r where r: "trees_from ?f [0..<n] W = Some r" "r = Inl (Fatal ''No valid binary tree found'') \<or>
      (\<exists>ts. r = Inr ts \<and> length ts = n \<and> (\<forall>k < n. tree_array n (ComputeDepth n) (int k) (fst (ts ! k))))" by auto
  from r(2) show ?thesis
  proof
    assume "\<exists>ts. r = Inr ts \<and> length ts = n \<and> (\<forall>k < n. tree_array n (ComputeDepth n) (int k) (fst (ts ! k)))"
    then obtain ts where ts: "r = Inr ts" "length ts = n" "\<forall>k < n. tree_array n (ComputeDepth n) (int k) (fst (ts ! k))" by blast
    have "\<forall>topo \<in> set (map fst ts). set topo = int ` {..<n} \<and> length topo = 2 ^ Suc (ComputeDepth n) - 1"
    proof (intro ballI)
      fix topo assume "topo \<in> set (map fst ts)"
      then obtain k where "k < n" "topo = fst (ts ! k)" using ts(2) by (auto simp: in_set_conv_nth)
      then show "set topo = int ` {..<n} \<and> length topo = 2 ^ Suc (ComputeDepth n) - 1" using ts(3) unfolding tree_array_def by blast
    qed
    from link_usage_ok [OF this] obtain adj where "link_usage n (n * n) (map fst ts) = Inr adj" by auto
    with r(1) ts assms(1) show ?thesis by (simp add: ComputeTrees_def)
  qed (use r(1) in \<open>simp add: ComputeTrees_def\<close>)
qed

end
