(* ===== verification/MX_Tree.thy ===== *)
theory MX_Tree
  imports MX_Comm MX_Backtrack
begin

text \<open>
  Reduction and broadcast along the trees of the GPUs (\<open>src/kvstore/comm_tree.h\<close>, \<open>CommDeviceTree\<close>). Arrays are lists of
  elements with an addition \<open>pl\<close>; GPUs have their indices \<open>0, 1, ...\<close> in \<open>devs_\<close>, contexts are a type of their own. The buffers of one
  key and one slice are a record of the merged array and the receive buffer of every GPU; \<open>None\<close> is memory that was never
  written, and reading it is a fault. \<open>kBranch\<close> is 2, so a GPU has one receive buffer. The operations of the engine run in
  program order on each array.
\<close>

section \<open>Buffers\<close>

record 'e treebuf =
  tb_merged :: "'e list option list"
  tb_copy :: "'e list option list"

text \<open>The arrays collected for a GPU: its own buffer or its receive buffer.\<close>

datatype handle = Merged int | Received int

definition written :: "'e list option \<Rightarrow> 'e list res" where
  "written v = (case v of None \<Rightarrow> Inl (Undefined ''array was never written'') | Some x \<Rightarrow> Inr x)"

definition handle_value :: "'e treebuf \<Rightarrow> handle \<Rightarrow> 'e list res" where
  "handle_value b hd1 = (case hd1 of
       Merged i \<Rightarrow> rbind (vec_at (tb_merged b) i) written
     | Received i \<Rightarrow> rbind (vec_at (tb_copy b) i) written)"

text \<open>The nodes of a level.\<close>

definition level_nodes :: "int list \<Rightarrow> int list \<Rightarrow> nat \<Rightarrow> int list res" where
  "level_nodes topology scan level =
     rbind (vec_at scan (int level)) (\<lambda>start. rbind (vec_at scan (int level + 1)) (\<lambda>end1.
     rmap_list (vec_at topology) [start..end1 - 1]))"

section \<open>Reduction\<close>

definition copy_in :: "'c list \<Rightarrow> int list \<Rightarrow> ('c \<times> 'e list) list \<Rightarrow> 'e list option list \<Rightarrow> 'e list option list res" where
  "copy_in devs leaves src merged =
     rfold (\<lambda>(ctx, v). rfold (\<lambda>topo_id m. rbind (vec_at devs topo_id) (\<lambda>d. if d = ctx then vec_set m topo_id (Some v) else Inr m)) leaves)
       src merged"

text \<open>The first loop over a level: the receiver of a pair of nodes collects its own buffer and the copy of the other.\<close>

definition collect_node ::
  "int \<Rightarrow> nat \<times> int \<times> handle list list \<times> 'e treebuf \<Rightarrow> (nat \<times> int \<times> handle list list \<times> 'e treebuf) res" where
  "collect_node topo_id s =
     (case s of (is_dest, dest_id, reduce, b) \<Rightarrow>
      let dest_id = (if is_dest = 0 then topo_id else dest_id); next1 = (if is_dest = 1 then 0 else is_dest + 1) in
      rbind (vec_at reduce dest_id) (\<lambda>r. rbind (vec_at (tb_merged b) dest_id) (\<lambda>_. rbind (vec_at (tb_merged b) topo_id) (\<lambda>v.
      if is_dest = 0 then
        rmap (\<lambda>reduce. (next1, dest_id, reduce, b)) (if r = [] then vec_set reduce dest_id [Merged dest_id] else Inr reduce)
      else if dest_id \<noteq> topo_id then
        rbind (written v) (\<lambda>x. rbind (vec_set (tb_copy b) dest_id (Some x)) (\<lambda>c.
        rmap (\<lambda>reduce. (next1, dest_id, reduce, b\<lparr>tb_copy := c\<rparr>)) (vec_set reduce dest_id (r @ [Received dest_id]))))
      else Inr (next1, dest_id, reduce, b)))))"

text \<open>The second loop, over the nodes of the level above; \<open>source\<close> is the index of the first node of the level.\<close>

definition sum_node ::
  "('e \<Rightarrow> 'e \<Rightarrow> 'e) \<Rightarrow> int list \<Rightarrow> int \<Rightarrow> handle list list \<Rightarrow> nat \<times> int \<Rightarrow> 'e treebuf \<Rightarrow> 'e treebuf res" where
  "sum_node pl topology source reduce x b =
     (case x of (i, gpu_id) \<Rightarrow>
      rbind (vec_at topology (source + 2 * int i)) (\<lambda>dest_id. rbind (vec_at topology (source + 2 * int i + 1)) (\<lambda>from_id.
      rbind (vec_at reduce gpu_id) (\<lambda>r.
      if length r > 1 \<and> dest_id \<noteq> from_id
      then rbind (rmap_list (handle_value b) r) (\<lambda>vs.
        rmap (\<lambda>m. b\<lparr>tb_merged := m\<rparr>) (vec_set (tb_merged b) gpu_id (Some (ElementwiseSum pl vs))))
      else Inr b))))"

definition reduce_level :: "('e \<Rightarrow> 'e \<Rightarrow> 'e) \<Rightarrow> int list \<Rightarrow> int list \<Rightarrow> nat \<Rightarrow> nat \<Rightarrow> 'e treebuf \<Rightarrow> 'e treebuf res" where
  "reduce_level pl topology scan num_devs level b =
     rbind (level_nodes topology scan level) (\<lambda>nodes.
     rbind (rfold collect_node nodes (0, 0, replicate num_devs [], b)) (\<lambda>(_, _, reduce, b).
     rbind (level_nodes topology scan (level - 1)) (\<lambda>parents.
     rbind (vec_at scan (int level)) (\<lambda>source.
       rfold (sum_node pl topology source reduce) (List.enumerate 0 parents) b))))"

definition ReduceInner ::
  "('e \<Rightarrow> 'e \<Rightarrow> 'e) \<Rightarrow> 'c list \<Rightarrow> int list \<Rightarrow> int list \<Rightarrow> nat \<Rightarrow> ('c \<times> 'e list) list \<Rightarrow> 'e treebuf \<Rightarrow> ('e list \<times> 'e treebuf) res" where
  "ReduceInner pl devs topology scan depth src b =
     rbind (if src = [] then Inr [] else level_nodes topology scan depth) (\<lambda>leaves.
     rbind (copy_in devs leaves src (tb_merged b)) (\<lambda>merged.
     rbind (rfold (reduce_level pl topology scan (length devs)) (rev [1..<Suc depth]) (b\<lparr>tb_merged := merged\<rparr>)) (\<lambda>b.
     rbind (vec_at topology 0) (\<lambda>root_id. rbind (vec_at (tb_merged b) root_id) (\<lambda>v. rmap (\<lambda>x. (x, b)) (written v))))))"

section \<open>Broadcast\<close>

text \<open>The variables of the loop over a level: the toggle, the sender, the destinations and the arrays that are there (\<open>temp\<close>).\<close>

definition send_node ::
  "int \<Rightarrow> nat \<times> int \<times> 'e list option list \<times> 'e list option list \<Rightarrow> (nat \<times> int \<times> 'e list option list \<times> 'e list option list) res" where
  "send_node topo_id s =
     (case s of (is_src, src_id, dests, temp) \<Rightarrow>
      let src_id = (if is_src = 0 then topo_id else src_id); next1 = (if is_src = 1 then 0 else is_src + 1) in
      if is_src \<noteq> 0 \<and> src_id \<noteq> topo_id
      then rbind (vec_at temp src_id) (\<lambda>v. rbind (written v) (\<lambda>x. rbind (vec_set dests topo_id (Some x)) (\<lambda>dests.
           rmap (\<lambda>temp. (next1, src_id, dests, temp)) (vec_set temp topo_id (Some x)))))
      else Inr (next1, src_id, dests, temp))"

definition broadcast_level ::
  "int list \<Rightarrow> int list \<Rightarrow> nat \<Rightarrow> 'e list option list \<times> 'e list option list \<Rightarrow> ('e list option list \<times> 'e list option list) res" where
  "broadcast_level topology scan level dt =
     rbind (level_nodes topology scan level) (\<lambda>nodes.
     rmap (\<lambda>(_, _, dests, temp). (dests, temp)) (rfold send_node nodes (0, 0, fst dt, snd dt)))"

text \<open>\<open>copy\<close> says whether the array is first copied to the root (\<open>merged_row == -1\<close>).\<close>

definition BroadcastInner ::
  "int list \<Rightarrow> int list \<Rightarrow> nat \<Rightarrow> nat \<Rightarrow> bool \<Rightarrow> 'e list \<Rightarrow> 'e list option list \<Rightarrow> 'e list option list res" where
  "BroadcastInner topology scan depth num_devs copy src dests =
     rbind (vec_at topology 0) (\<lambda>gpu_id.
     rbind (if copy then vec_set dests gpu_id (Some src) else Inr dests) (\<lambda>dests.
     rbind (vec_at dests gpu_id) (\<lambda>v.
     rbind (vec_set (replicate num_devs None) gpu_id v) (\<lambda>temp.
     rmap fst (rfold (broadcast_level topology scan) [1..<Suc depth] (dests, temp))))))"

section \<open>Whole arrays\<close>

text \<open>
  A large array is cut along its first dimension into one slice per GPU; \<open>first_size\<close> is the first dimension, \<open>row_len\<close> the product of
  the others.
\<close>

definition slice_bound :: "nat \<Rightarrow> nat \<Rightarrow> nat \<Rightarrow> nat" where
  "slice_bound num_devs first_size i = (if i = num_devs then first_size else i * (first_size div num_devs))"

definition Slice :: "nat \<Rightarrow> nat \<Rightarrow> nat \<Rightarrow> 'e list \<Rightarrow> 'e list" where
  "Slice row_len lo hi v = take ((hi - lo) * row_len) (drop (lo * row_len) v)"

definition sliced :: "nat \<Rightarrow> nat \<Rightarrow> nat \<Rightarrow> nat \<Rightarrow> bool" where
  "sliced gpuarray_bound num_devs first_size row_len \<longleftrightarrow> first_size * row_len > gpuarray_bound \<and> first_size \<ge> 2 * num_devs"

text \<open>The lengths of the slices that \<open>InitMergeBufferTree\<close> allocates.\<close>

definition merged_size :: "nat \<Rightarrow> nat \<Rightarrow> nat \<Rightarrow> nat" where
  "merged_size num_devs first_size row =
     (if row = num_devs - 1 then first_size - (num_devs - 1) * (first_size div num_devs) else first_size div num_devs)"

text \<open>
  The sums of the slices, each over the tree of its own root, which are then sent to the other GPUs. The buffers of a slice are an element of
  \<open>bufs\<close>, the trees an element of \<open>trees\<close>.
\<close>

definition reduce_slice ::
  "('e \<Rightarrow> 'e \<Rightarrow> 'e) \<Rightarrow> 'c list \<Rightarrow> (int list \<times> int list) list \<Rightarrow> nat \<Rightarrow> nat \<Rightarrow> nat \<Rightarrow> ('c \<times> 'e list) list \<Rightarrow> nat \<Rightarrow>
   'e treebuf list \<Rightarrow> 'e treebuf list res" where
  "reduce_slice pl devs trees depth first_size row_len src i bufs =
     rbind (vec_at trees (int i)) (\<lambda>(topology, scan). rbind (vec_at bufs (int i)) (\<lambda>b.
     rmap (\<lambda>(v, b). bufs[i := b])
       (ReduceInner pl devs topology scan depth
         (map (\<lambda>(c, v). (c, Slice row_len (slice_bound (length devs) first_size i) (slice_bound (length devs) first_size (Suc i)) v)) src) b)))"

definition broadcast_slice :: "(int list \<times> int list) list \<Rightarrow> nat \<Rightarrow> nat \<Rightarrow> nat \<Rightarrow> 'e treebuf list \<Rightarrow> 'e treebuf list res" where
  "broadcast_slice trees depth num_devs i bufs =
     rbind (vec_at trees (int i)) (\<lambda>(topology, scan). rbind (vec_at bufs (int i)) (\<lambda>b.
     rbind (vec_at (tb_merged b) (int i)) (\<lambda>v. rbind (written v) (\<lambda>x.
     rmap (\<lambda>dests. bufs[i := b\<lparr>tb_merged := dests\<rparr>]) (BroadcastInner topology scan depth num_devs False x (tb_merged b))))))"

text \<open>\<open>Reduce\<close> of dense arrays without compression, once the buffers exist: the array it returns, which for a sliced array is an input.\<close>

definition tree_Reduce ::
  "('e \<Rightarrow> 'e \<Rightarrow> 'e) \<Rightarrow> nat \<Rightarrow> 'c list \<Rightarrow> (int list \<times> int list) list \<Rightarrow> nat \<Rightarrow> nat \<Rightarrow> nat \<Rightarrow> ('c \<times> 'e list) list \<Rightarrow>
   'e treebuf list \<Rightarrow> ('e list \<times> 'e treebuf list) res" where
  "tree_Reduce pl gpuarray_bound devs trees depth first_size row_len src bufs =
     (if length src = 1 then Inr (snd (hd src), bufs)
      else if sliced gpuarray_bound (length devs) first_size row_len then
        rbind (if length src < length devs then Inl (Undefined ''src is shorter than devs'') else Inr (take (length devs) src)) (\<lambda>slices.
        rbind (rfold (reduce_slice pl devs trees depth first_size row_len slices) [0..<length devs] bufs) (\<lambda>bufs.
        rbind (rfold (broadcast_slice trees depth (length devs)) [0..<length devs] bufs) (\<lambda>bufs.
        rmap (\<lambda>s. (snd s, bufs)) (vec_at src 0))))
      else
        rbind (vec_at trees 0) (\<lambda>(topology, scan). rbind (vec_at bufs 0) (\<lambda>b.
        rbind (ReduceInner pl devs topology scan depth src b) (\<lambda>(v, b).
        rbind (vec_at (tb_merged b) 0) (\<lambda>r. rmap (\<lambda>x. (x, bufs[0 := b])) (written r))))))"

text \<open>\<open>Broadcast\<close> after the buffers exist. The destinations are the arrays of the GPUs in order.\<close>

definition gather_slices :: "'e treebuf list \<Rightarrow> nat \<Rightarrow> nat \<Rightarrow> 'e list res" where
  "gather_slices bufs num_devs gpu_id =
     rmap concat (rmap_list (\<lambda>i. rbind (vec_at bufs (int i)) (\<lambda>b. rbind (vec_at (tb_merged b) (int gpu_id)) written)) [0..<num_devs])"

definition tree_Broadcast ::
  "nat \<Rightarrow> nat \<Rightarrow> (int list \<times> int list) list \<Rightarrow> nat \<Rightarrow> nat \<Rightarrow> nat \<Rightarrow> 'e list \<Rightarrow> 'e treebuf list \<Rightarrow> 'e list option list \<Rightarrow> 'e list option list res" where
  "tree_Broadcast gpuarray_bound num_devs trees depth first_size row_len src bufs dests =
     (if sliced gpuarray_bound num_devs first_size row_len
      then rmap (map Some) (rmap_list (gather_slices bufs num_devs) [0..<length dests])
      else rbind (vec_at trees 0) (\<lambda>(topology, scan). BroadcastInner topology scan depth num_devs True src dests))"

section \<open>The reduction adds along the tree\<close>

text \<open>The sum of the leaves below a node, added in the shape of the tree.\<close>

fun tree_sum :: "('e \<Rightarrow> 'e \<Rightarrow> 'e) \<Rightarrow> int list \<Rightarrow> (nat \<Rightarrow> 'e list) \<Rightarrow> nat \<Rightarrow> nat \<Rightarrow> 'e list" where
  "tree_sum pl topo val 0 q = val (nat (topo ! q))"
| "tree_sum pl topo val (Suc h) q = map2 pl (tree_sum pl topo val h (2 * q + 1)) (tree_sum pl topo val h (2 * q + 2))"

definition level_scan :: "nat \<Rightarrow> int list" where
  "level_scan depth = map (\<lambda>l. 2 ^ l - 1) [0..<depth + 2]"

lemma level_scan_at: "l \<le> depth + 1 \<Longrightarrow> vec_at (level_scan depth) (int l) = Inr (2 ^ l - 1)"
  by (simp add: level_scan_def vec_at_def del: upt_Suc)

lemma level_nodes_tree:
  assumes "length topo = 2 ^ Suc depth - 1" "l \<le> depth"
  shows "level_nodes topo (level_scan depth) l = Inr (map (\<lambda>p. topo ! (2 ^ l - 1 + p)) [0..<2 ^ l])"
proof -
  have le: "(2 :: nat) ^ Suc l \<le> 2 ^ Suc depth" using assms(2) by (intro power_increasing) auto
  have "vec_at (level_scan depth) (int l + 1) = Inr (2 ^ Suc l - 1)"
    using level_scan_at [of "Suc l" depth] assms(2) by (simp add: add.commute)
  moreover have idx: "[2 ^ l - 1..2 ^ Suc l - 1 - 1 :: int] = map (\<lambda>p. int (2 ^ l - 1 + p)) [0..<2 ^ l]"
  proof (rule nth_equalityI)
    fix i assume "i < length [2 ^ l - 1..2 ^ Suc l - 1 - 1 :: int]"
    then have "i < 2 ^ l" by (simp add: nat_power_eq)
    moreover from this have i: "int i < 2 ^ l" by simp
    have "[2 ^ l - 1..2 ^ Suc l - 1 - 1 :: int] ! i = 2 ^ l - 1 + int i"
      by (rule nth_upto) (use i in \<open>unfold power_Suc, linarith\<close>)
    ultimately show "[2 ^ l - 1..2 ^ Suc l - 1 - 1 :: int] ! i = map (\<lambda>p. int (2 ^ l - 1 + p)) [0..<2 ^ l] ! i"
      by (simp add: of_nat_diff)
  qed (simp add: nat_power_eq)
  moreover have "vec_at topo (int (2 ^ l - 1 + p)) = Inr (topo ! (2 ^ l - 1 + p))" if "p < 2 ^ l" for p
    by (rule vec_at_int) (use that le assms(1) in \<open>unfold power_Suc, linarith\<close>)
  then have "rmap_list (vec_at topo) (map (\<lambda>p. int (2 ^ l - 1 + p)) [0..<2 ^ l]) = Inr (map (\<lambda>p. topo ! (2 ^ l - 1 + p)) [0..<2 ^ l])"
    unfolding rmap_list_Inr_iff by simp
  ultimately show ?thesis unfolding level_nodes_def using level_scan_at [of l depth] assms(2) by simp
qed

lemma pairs_of_level: "map f [0..<2 * m] = concat (map (\<lambda>p. [f (2 * p), f (2 * p + 1)]) [0..<m])"
  by (induction m) auto

text \<open>The two loops of a level, on nodes in pairs of receiver and sender.\<close>

definition pair_ok :: "nat \<Rightarrow> int \<times> int \<Rightarrow> bool" where
  "pair_ok n p \<longleftrightarrow> 0 \<le> fst p \<and> fst p < int n \<and> 0 \<le> snd p \<and> snd p < int n \<and> fst p \<noteq> snd p"

lemma collect_pair:
  assumes "pair_ok n (a, c)" "length reduce = n" "length (tb_merged b) = n" "length (tb_copy b) = n"
    and "reduce ! nat a = []" "tb_merged b ! nat c = Some x"
  shows "rfold collect_node [a, c] (0, d, reduce, b) =
    Inr (0, a, reduce[nat a := [Merged a, Received a]], b\<lparr>tb_copy := (tb_copy b)[nat a := Some x]\<rparr>)"
  using assms by (simp add: collect_node_def pair_ok_def vec_at_def vec_set_def written_def Let_def nat_less_iff)

lemma collect_pairs:
  assumes "distinct (map fst prs)" "\<forall>p \<in> set prs. pair_ok n p" "length reduce = n" "length (tb_merged b) = n" "length (tb_copy b) = n"
    and "\<forall>p \<in> set prs. reduce ! nat (fst p) = [] \<and> tb_merged b ! nat (snd p) = Some (f (snd p))"
  shows "\<exists>d' reduce' c. rfold collect_node (concat (map (\<lambda>(a, c). [a, c]) prs)) (0, d, reduce, b) = Inr (0, d', reduce', b\<lparr>tb_copy := c\<rparr>) \<and>
    length reduce' = n \<and> length c = n \<and>
    (\<forall>p \<in> set prs. reduce' ! nat (fst p) = [Merged (fst p), Received (fst p)] \<and> c ! nat (fst p) = Some (f (snd p))) \<and>
    (\<forall>i < n. int i \<notin> fst ` set prs \<longrightarrow> reduce' ! i = reduce ! i \<and> c ! i = tb_copy b ! i)"
  using assms
proof (induction prs arbitrary: d reduce b)
  case Nil
  then show ?case by (intro exI [of _ d] exI [of _ reduce] exI [of _ "tb_copy b"]) simp
next
  case (Cons p prs)
  obtain a s where p: "p = (a, s)" by fastforce
  have ok: "pair_ok n (a, s)" using Cons.prems(2) p by simp
  then have a: "0 \<le> a" "nat a < n" by (auto simp: pair_ok_def)
  let ?r = "reduce[nat a := [Merged a, Received a]]" and ?b = "b\<lparr>tb_copy := (tb_copy b)[nat a := Some (f s)]\<rparr>"
  have ne: "nat a \<noteq> nat (fst q)" if "q \<in> set prs" for q
    using Cons.prems(1,2) that p a by (force simp: pair_ok_def)
  have keep: "\<forall>q \<in> set prs. ?r ! nat (fst q) = [] \<and> tb_merged ?b ! nat (snd q) = Some (f (snd q))"
    using Cons.prems(6) ne by simp
  have first: "rfold collect_node [a, s] (0, d, reduce, b) = Inr (0, a, ?r, ?b)"
    using Cons.prems p by (intro collect_pair [OF ok]) auto
  have "\<exists>d' reduce' c. rfold collect_node (concat (map (\<lambda>(a, c). [a, c]) prs)) (0, a, ?r, ?b) = Inr (0, d', reduce', ?b\<lparr>tb_copy := c\<rparr>) \<and>
      length reduce' = n \<and> length c = n \<and>
      (\<forall>p \<in> set prs. reduce' ! nat (fst p) = [Merged (fst p), Received (fst p)] \<and> c ! nat (fst p) = Some (f (snd p))) \<and>
      (\<forall>i < n. int i \<notin> fst ` set prs \<longrightarrow> reduce' ! i = ?r ! i \<and> c ! i = tb_copy ?b ! i)"
    by (rule Cons.IH) (use Cons.prems keep in simp_all)
  then obtain d' reduce' c where r: "rfold collect_node (concat (map (\<lambda>(a, c). [a, c]) prs)) (0, a, ?r, ?b) = Inr (0, d', reduce', ?b\<lparr>tb_copy := c\<rparr>)"
    "length reduce' = n" "length c = n"
    "\<forall>p \<in> set prs. reduce' ! nat (fst p) = [Merged (fst p), Received (fst p)] \<and> c ! nat (fst p) = Some (f (snd p))"
    "\<forall>i < n. int i \<notin> fst ` set prs \<longrightarrow> reduce' ! i = ?r ! i \<and> c ! i = tb_copy ?b ! i" by blast
  have "a \<notin> fst ` set prs" using Cons.prems(1) p by simp
  then have here: "reduce' ! nat a = [Merged a, Received a]" "c ! nat a = Some (f s)"
    using r(5) [rule_format, of "nat a"] a Cons.prems(3,5) by auto
  have "rfold collect_node (concat (map (\<lambda>(a, c). [a, c]) (p # prs))) (0, d, reduce, b) = Inr (0, d', reduce', b\<lparr>tb_copy := c\<rparr>)"
    using rfold_append [of collect_node "[a, s]" "concat (map (\<lambda>(a, c). [a, c]) prs)" "(0, d, reduce, b)"] first r(1) p by simp
  moreover have "\<forall>i < n. int i \<notin> fst ` set (p # prs) \<longrightarrow> reduce' ! i = reduce ! i \<and> c ! i = tb_copy b ! i"
    using r(5) a p by (auto simp: nth_list_update)
  ultimately show ?case using r(2-4) here p by (intro exI [of _ d'] exI [of _ reduce'] exI [of _ c]) auto
qed

lemma sum_pair:
  assumes "pair_ok n (a, s)" "length (tb_merged b) = n" "length (tb_copy b) = n" "length reduce = n"
    and "reduce ! nat a = [Merged a, Received a]" "tb_merged b ! nat a = Some x" "tb_copy b ! nat a = Some y"
    and "vec_at topo (source + 2 * int i) = Inr a" "vec_at topo (source + 2 * int i + 1) = Inr s"
  shows "sum_node pl topo source reduce (i, a) b = Inr (b\<lparr>tb_merged := (tb_merged b)[nat a := Some (map2 pl x y)]\<rparr>)"
  using assms by (simp add: sum_node_def pair_ok_def vec_at_def [of reduce] vec_set_def handle_value_def
      vec_at_def [of "tb_merged b"] vec_at_def [of "tb_copy b"] written_def)

lemma sum_pairs:
  assumes "distinct (map fst prs)" "\<forall>p \<in> set prs. pair_ok n p" "length (tb_merged b) = n" "length (tb_copy b) = n" "length reduce = n"
    and "\<forall>p \<in> set prs. reduce ! nat (fst p) = [Merged (fst p), Received (fst p)] \<and> tb_merged b ! nat (fst p) = Some (f (fst p)) \<and>
      tb_copy b ! nat (fst p) = Some (f (snd p))"
    and "\<forall>i < length prs. vec_at topo (source + 2 * int (k + i)) = Inr (fst (prs ! i)) \<and>
      vec_at topo (source + 2 * int (k + i) + 1) = Inr (snd (prs ! i))"
  shows "\<exists>m. rfold (sum_node pl topo source reduce) (List.enumerate k (map fst prs)) b = Inr (b\<lparr>tb_merged := m\<rparr>) \<and> length m = n \<and>
    (\<forall>p \<in> set prs. m ! nat (fst p) = Some (map2 pl (f (fst p)) (f (snd p))))"
proof -
  have "\<exists>m. rfold (sum_node pl topo source reduce) (List.enumerate k (map fst prs)) b = Inr (b\<lparr>tb_merged := m\<rparr>) \<and> length m = n \<and>
    (\<forall>p \<in> set prs. m ! nat (fst p) = Some (map2 pl (f (fst p)) (f (snd p)))) \<and>
    (\<forall>i < n. int i \<notin> fst ` set prs \<longrightarrow> m ! i = tb_merged b ! i)"
    using assms
  proof (induction prs arbitrary: k b)
    case Nil
    then show ?case by (intro exI [of _ "tb_merged b"]) simp
  next
    case (Cons p prs)
    obtain a s where p: "p = (a, s)" by fastforce
    have ok: "pair_ok n (a, s)" using Cons.prems(2) p by simp
    then have a: "0 \<le> a" "nat a < n" by (auto simp: pair_ok_def)
    have ne: "nat a \<noteq> nat (fst q)" if "q \<in> set prs" for q
      using Cons.prems(1,2) that p a by (force simp: pair_ok_def)
    let ?b = "b\<lparr>tb_merged := (tb_merged b)[nat a := Some (map2 pl (f a) (f s))]\<rparr>"
    have first: "sum_node pl topo source reduce (k, a) b = Inr ?b"
      using Cons.prems(3-7) p by (intro sum_pair [OF ok]) force+
    have at: "\<forall>i < length prs. vec_at topo (source + 2 * int (Suc k + i)) = Inr (fst (prs ! i)) \<and>
        vec_at topo (source + 2 * int (Suc k + i) + 1) = Inr (snd (prs ! i))"
      using Cons.prems(7) [rule_format, of "Suc i" for i] by simp
    have "\<exists>m. rfold (sum_node pl topo source reduce) (List.enumerate (Suc k) (map fst prs)) ?b = Inr (?b\<lparr>tb_merged := m\<rparr>) \<and> length m = n \<and>
        (\<forall>p \<in> set prs. m ! nat (fst p) = Some (map2 pl (f (fst p)) (f (snd p)))) \<and>
        (\<forall>i < n. int i \<notin> fst ` set prs \<longrightarrow> m ! i = tb_merged ?b ! i)"
      by (rule Cons.IH) (use Cons.prems(1-6) ne at in simp_all)
    then obtain m where m: "rfold (sum_node pl topo source reduce) (List.enumerate (Suc k) (map fst prs)) ?b = Inr (?b\<lparr>tb_merged := m\<rparr>)"
      "length m = n" "\<forall>p \<in> set prs. m ! nat (fst p) = Some (map2 pl (f (fst p)) (f (snd p)))"
      "\<forall>i < n. int i \<notin> fst ` set prs \<longrightarrow> m ! i = tb_merged ?b ! i" by blast
    have "a \<notin> fst ` set prs" using Cons.prems(1) p by simp
    then have "m ! nat a = Some (map2 pl (f a) (f s))" using m(4) [rule_format, of "nat a"] a Cons.prems(3) by simp
    moreover have "\<forall>i < n. int i \<notin> fst ` set (p # prs) \<longrightarrow> m ! i = tb_merged b ! i"
      using m(4) a p by (auto simp: nth_list_update)
    ultimately show ?case using first m(1-3) p by (intro exI [of _ m]) simp
  qed
  then show ?thesis by blast
qed

section \<open>Trees with as many leaves as devices\<close>

lemma child_index:
  "2 * (2 ^ l - 1 + p) + 1 = 2 ^ Suc l - 1 + 2 * (p :: nat)" "2 * (2 ^ l - 1 + p) + 2 = 2 ^ Suc l - 1 + (2 * (p :: nat) + 1)"
proof -
  obtain k where k: "(2 :: nat) ^ l = Suc k" by (cases "(2 :: nat) ^ l") auto
  show "2 * (2 ^ l - 1 + p) + 1 = 2 ^ Suc l - 1 + 2 * p" by (simp add: k)
  show "2 * (2 ^ l - 1 + p) + 2 = 2 ^ Suc l - 1 + (2 * p + 1)" by (simp add: k)
qed

lemma inner_index: "l < depth \<Longrightarrow> p < 2 ^ l \<Longrightarrow> 2 ^ l - 1 + p < 2 ^ depth - (1 :: nat)"
proof -
  assume "l < depth" "p < 2 ^ l"
  moreover have "(1 :: nat) \<le> 2 ^ l" by simp
  moreover have "(2 :: nat) ^ Suc l \<le> 2 ^ depth" using \<open>l < depth\<close> by (intro power_increasing) auto
  ultimately show ?thesis unfolding power_Suc by linarith
qed

lemma first_child:
  assumes "tree_array n depth root_gpu topo" "l < depth" "p < 2 ^ l"
  shows "topo ! (2 ^ l - 1 + p) = topo ! (2 ^ Suc l - 1 + 2 * p)"
  using assms(1) inner_index [OF assms(2,3)] unfolding tree_array_def child_index(1) [symmetric] by metis

text \<open>A node has the device of its first leaf; if every device is one leaf, the nodes of a level are different.\<close>

lemma node_leaf:
  assumes "tree_array n depth root_gpu topo" "l \<le> depth" "p < 2 ^ l"
  shows "topo ! (2 ^ l - 1 + p) = topo ! (2 ^ depth - 1 + p * 2 ^ (depth - l))"
  using assms(2,3)
proof (induction "depth - l" arbitrary: l p)
  case (Suc d)
  then have l: "l < depth" "d = depth - Suc l" "Suc l \<le> depth" by auto
  have "topo ! (2 ^ l - 1 + p) = topo ! (2 ^ Suc l - 1 + 2 * p)" by (rule first_child [OF assms(1) l(1) Suc.prems(2)])
  also have "\<dots> = topo ! (2 ^ depth - 1 + 2 * p * 2 ^ (depth - Suc l))" using Suc.prems(2) by (intro Suc.hyps(1) l) auto
  also have "2 * p * 2 ^ (depth - Suc l) = p * 2 ^ (depth - l)" using l(1) by (simp flip: power_Suc add: Suc_diff_Suc)
  finally show ?case .
qed simp

lemma level_distinct:
  assumes "tree_array n depth root_gpu topo" "n = 2 ^ depth" "l \<le> depth"
  shows "distinct (map (\<lambda>p. topo ! (2 ^ l - 1 + p)) [0..<2 ^ l])"
proof -
  have t: "length topo = 2 ^ Suc depth - 1" "set (drop (2 ^ depth - 1) topo) = int ` {..<n}" using assms(1) by (auto simp: tree_array_def)
  have "card (set (drop (2 ^ depth - 1) topo)) = length (drop (2 ^ depth - 1) topo)"
    unfolding t(2) using t(1) assms(2) by (simp add: card_image)
  then have d: "distinct (drop (2 ^ depth - 1) topo)" by (rule card_distinct)
  have leaf: "topo ! (2 ^ depth - 1 + i) = drop (2 ^ depth - 1) topo ! i" if "i < 2 ^ depth" for i using t(1) that by simp
  have small: "p * 2 ^ (depth - l) < 2 ^ depth" if "p < 2 ^ l" for p :: nat
    using mult_strict_right_mono [OF that, of "2 ^ (depth - l)"] assms(3) by (simp flip: power_add)
  have "p = q" if pq: "p < 2 ^ l" "q < 2 ^ l" "topo ! (2 ^ l - 1 + p) = topo ! (2 ^ l - 1 + q)" for p q
  proof -
    have "drop (2 ^ depth - 1) topo ! (p * 2 ^ (depth - l)) = drop (2 ^ depth - 1) topo ! (q * 2 ^ (depth - l))"
      using pq node_leaf [OF assms(1,3)] leaf [OF small] by metis
    then have "p * 2 ^ (depth - l) = q * 2 ^ (depth - l)"
      using d small pq(1,2) t(1) by (subst (asm) nth_eq_iff_index_eq) auto
    then show ?thesis by simp
  qed
  then show ?thesis by (auto simp: distinct_map inj_on_def)
qed

text \<open>What holds when the levels below \<open>l\<close> are done.\<close>

definition level_done :: "('e \<Rightarrow> 'e \<Rightarrow> 'e) \<Rightarrow> int list \<Rightarrow> (nat \<Rightarrow> 'e list) \<Rightarrow> nat \<Rightarrow> nat \<Rightarrow> nat \<Rightarrow> 'e treebuf \<Rightarrow> bool" where
  "level_done pl topo val n depth l b \<longleftrightarrow> length (tb_merged b) = n \<and> length (tb_copy b) = n \<and>
     (\<forall>p < 2 ^ l. tb_merged b ! nat (topo ! (2 ^ l - 1 + p)) = Some (tree_sum pl topo val (depth - l) (2 ^ l - 1 + p)))"

lemma reduce_level_ok:
  assumes tree: "tree_array n depth root_gpu topo" and n: "n = 2 ^ depth" and l: "l < depth"
    and inv: "level_done pl topo val n depth (Suc l) b"
  shows "\<exists>b'. reduce_level pl topo (level_scan depth) n (Suc l) b = Inr b' \<and> level_done pl topo val n depth l b'"
proof -
  define node where "node = (\<lambda>p. topo ! (2 ^ Suc l - 1 + p))"
  let ?prs = "map (\<lambda>p. (node (2 * p), node (2 * p + 1))) [0..<2 ^ l]"
  have t: "length topo = 2 ^ Suc depth - 1" "set topo = int ` {..<n}" using tree by (auto simp: tree_array_def)
  have le: "(2 :: nat) ^ Suc (Suc l) \<le> 2 ^ Suc depth" using l by (intro power_increasing) auto
  have idx: "2 ^ Suc l - 1 + p < length topo" if "p < 2 ^ Suc l" for p using that le t(1) unfolding power_Suc by linarith
  have dist: "distinct (map node [0..<2 ^ Suc l])" unfolding node_def using level_distinct [OF tree n, of "Suc l"] l by simp
  have node_eq: "node p = node q \<longleftrightarrow> p = q" if "p < 2 ^ Suc l" "q < 2 ^ Suc l" for p q
    using dist that by (auto simp: distinct_map inj_on_def simp del: power_Suc)
  have dev: "0 \<le> node p \<and> node p < int n" if "p < 2 ^ Suc l" for p using tree_device [OF t(2) idx [OF that]] by (auto simp: node_def)
  have even: "2 * p < 2 ^ Suc l" "2 * p + 1 < 2 ^ Suc l" if "p < 2 ^ l" for p :: nat using that by auto
  have ok: "\<forall>x \<in> set ?prs. pair_ok n x" using dev node_eq even by (auto simp: pair_ok_def simp del: power_Suc)
  have dfst: "distinct (map fst ?prs)" using node_eq even by (auto simp: distinct_map inj_on_def comp_def simp del: power_Suc)
  have nodes: "level_nodes topo (level_scan depth) (Suc l) = Inr (concat (map (\<lambda>(a, c). [a, c]) ?prs))"
    using level_nodes_tree [OF t(1), of "Suc l"] l pairs_of_level [of node "2 ^ l"] by (simp add: comp_def node_def)
  have par: "topo ! (2 ^ l - 1 + p) = node (2 * p)" if "p < 2 ^ l" for p
    unfolding node_def by (rule first_child [OF tree l that])
  then have parents: "level_nodes topo (level_scan depth) l = Inr (map fst ?prs)"
    using level_nodes_tree [OF t(1), of l] l by (simp add: comp_def)
  define f where "f = (\<lambda>x. the (tb_merged b ! nat x))"
  have val: "tb_merged b ! nat (node p) = Some (f (node p))" "f (node p) = tree_sum pl topo val (depth - Suc l) (2 ^ Suc l - 1 + p)"
    if "p < 2 ^ Suc l" for p using inv that by (auto simp: level_done_def f_def node_def)
  have lens: "length (tb_merged b) = n" "length (tb_copy b) = n" using inv by (auto simp: level_done_def)
  have "\<exists>d' reduce' c. rfold collect_node (concat (map (\<lambda>(a, c). [a, c]) ?prs)) (0, 0, replicate n [], b) = Inr (0, d', reduce', b\<lparr>tb_copy := c\<rparr>) \<and>
      length reduce' = n \<and> length c = n \<and>
      (\<forall>p \<in> set ?prs. reduce' ! nat (fst p) = [Merged (fst p), Received (fst p)] \<and> c ! nat (fst p) = Some (f (snd p))) \<and>
      (\<forall>i < n. int i \<notin> fst ` set ?prs \<longrightarrow> reduce' ! i = replicate n [] ! i \<and> c ! i = tb_copy b ! i)"
    by (rule collect_pairs [OF dfst ok]) (use lens val even ok in \<open>auto simp: pair_ok_def nat_less_iff simp del: power_Suc\<close>)
  then obtain d' red c where col: "rfold collect_node (concat (map (\<lambda>(a, c). [a, c]) ?prs)) (0, 0, replicate n [], b) = Inr (0, d', red, b\<lparr>tb_copy := c\<rparr>)"
    "length red = n" "length c = n" "\<forall>p \<in> set ?prs. red ! nat (fst p) = [Merged (fst p), Received (fst p)] \<and> c ! nat (fst p) = Some (f (snd p))"
    by blast
  have tn: "vec_at topo (2 ^ Suc l - 1 + int p) = Inr (node p)" if "p < 2 ^ Suc l" for p
  proof -
    have "int (2 ^ Suc l - 1) = 2 ^ Suc l - 1" by (simp add: of_nat_diff del: power_Suc)
    then have "int (2 ^ Suc l - 1 + p) = 2 ^ Suc l - 1 + int p" by linarith
    then show ?thesis using vec_at_int [OF idx [OF that]] unfolding node_def by metis
  qed
  have "\<exists>m. rfold (sum_node pl topo (2 ^ Suc l - 1) red) (List.enumerate 0 (map fst ?prs)) (b\<lparr>tb_copy := c\<rparr>) = Inr (b\<lparr>tb_copy := c\<rparr>\<lparr>tb_merged := m\<rparr>) \<and>
      length m = n \<and> (\<forall>p \<in> set ?prs. m ! nat (fst p) = Some (map2 pl (f (fst p)) (f (snd p))))"
  proof (rule sum_pairs [OF dfst ok])
    show "\<forall>i < length ?prs. vec_at topo (2 ^ Suc l - 1 + 2 * int (0 + i)) = Inr (fst (?prs ! i)) \<and>
        vec_at topo (2 ^ Suc l - 1 + 2 * int (0 + i) + 1) = Inr (snd (?prs ! i))"
      using tn [of "2 * i" for i] tn [of "2 * i + 1" for i] even by (auto simp: algebra_simps simp del: power_Suc)
    show "\<forall>p \<in> set ?prs. red ! nat (fst p) = [Merged (fst p), Received (fst p)] \<and>
        tb_merged (b\<lparr>tb_copy := c\<rparr>) ! nat (fst p) = Some (f (fst p)) \<and> tb_copy (b\<lparr>tb_copy := c\<rparr>) ! nat (fst p) = Some (f (snd p))"
      using col(4) val(1) even by (auto simp del: power_Suc)
  qed (use col lens in simp_all)
  then obtain m where m: "rfold (sum_node pl topo (2 ^ Suc l - 1) red) (List.enumerate 0 (map fst ?prs)) (b\<lparr>tb_copy := c\<rparr>) =
      Inr (b\<lparr>tb_copy := c\<rparr>\<lparr>tb_merged := m\<rparr>)" "length m = n" "\<forall>p \<in> set ?prs. m ! nat (fst p) = Some (map2 pl (f (fst p)) (f (snd p)))"
    by blast
  have src: "vec_at (level_scan depth) (int (Suc l)) = Inr (2 ^ Suc l - 1)" using level_scan_at [of "Suc l" depth] l by simp
  have "reduce_level pl topo (level_scan depth) n (Suc l) b = Inr (b\<lparr>tb_copy := c\<rparr>\<lparr>tb_merged := m\<rparr>)"
    unfolding reduce_level_def nodes rbind_simps col(1) prod.case diff_Suc_1 parents src m(1) by (rule refl)
  moreover have "m ! nat (topo ! (2 ^ l - 1 + p)) = Some (tree_sum pl topo val (depth - l) (2 ^ l - 1 + p))" if p: "p < 2 ^ l" for p
  proof -
    have "depth - l = Suc (depth - Suc l)" using l by simp
    then show ?thesis
      using m(3) p val(2) [OF even(1) [OF p]] val(2) [OF even(2) [OF p]] child_index [of l p] unfolding par [OF p] by simp
  qed
  ultimately show ?thesis using m(2) col(3) by (auto simp: level_done_def)
qed

section \<open>Reduction and broadcast\<close>

lemma copy_in_one:
  assumes "distinct devs" "k < length devs" "set leaves \<subseteq> int ` {..<length devs}" "length m = length devs"
  shows "rfold (\<lambda>topo_id m. rbind (vec_at devs topo_id) (\<lambda>d. if d = devs ! k then vec_set m topo_id (Some v) else Inr m)) leaves m =
    Inr (if int k \<in> set leaves then m[k := Some v] else m)"
  using assms(3,4)
proof (induction leaves arbitrary: m)
  case (Cons t ts)
  then obtain j where j: "t = int j" "j < length devs" by auto
  have eq: "devs ! j = devs ! k \<longleftrightarrow> j = k" using assms(1,2) j(2) by (simp add: nth_eq_iff_index_eq)
  show ?case using Cons j eq by (cases "j = k") auto
qed simp

lemma copy_in_ok:
  assumes "distinct devs" "set leaves = int ` {..<length devs}" "length m = length devs"
  shows "\<exists>m'. copy_in devs leaves (map (\<lambda>k. (devs ! k, val k)) [0..<length devs]) m = Inr m' \<and> length m' = length devs \<and>
    (\<forall>k < length devs. m' ! k = Some (val k))"
proof -
  have "\<exists>m'. copy_in devs leaves (map (\<lambda>k. (devs ! k, val k)) [0..<j]) m = Inr m' \<and> length m' = length devs \<and>
    (\<forall>k < j. m' ! k = Some (val k))" if "j \<le> length devs" for j
    using that
  proof (induction j)
    case 0
    then show ?case using assms(3) by (simp add: copy_in_def)
  next
    case (Suc j)
    then obtain m' where m': "copy_in devs leaves (map (\<lambda>k. (devs ! k, val k)) [0..<j]) m = Inr m'" "length m' = length devs"
      "\<forall>k < j. m' ! k = Some (val k)" by auto
    have "copy_in devs leaves (map (\<lambda>k. (devs ! k, val k)) [0..<Suc j]) m = Inr (m'[j := Some (val j)])"
      using m'(1) copy_in_one [OF assms(1), of j leaves m' "val j"] Suc.prems assms(2) m'(2)
      by (simp add: copy_in_def rfold_append)
    then show ?case using m'(2,3) Suc.prems by (auto simp: nth_list_update less_Suc_eq)
  qed
  then show ?thesis by blast
qed

lemma reduce_levels_ok:
  assumes "tree_array n depth root_gpu topo" "n = 2 ^ depth" "l \<le> depth" "level_done pl topo val n depth l b"
  shows "\<exists>b'. rfold (reduce_level pl topo (level_scan depth) n) (rev [1..<Suc l]) b = Inr b' \<and> level_done pl topo val n depth 0 b'"
  using assms(3,4)
proof (induction l arbitrary: b)
  case (Suc l)
  from reduce_level_ok [OF assms(1,2) _ Suc.prems(2)] Suc.prems(1) obtain b1 where
    b1: "reduce_level pl topo (level_scan depth) n (Suc l) b = Inr b1" "level_done pl topo val n depth l b1" by auto
  from Suc.IH [OF _ b1(2)] Suc.prems(1) obtain b2 where
    "rfold (reduce_level pl topo (level_scan depth) n) (rev [1..<Suc l]) b1 = Inr b2" "level_done pl topo val n depth 0 b2" by auto
  with b1(1) show ?case by auto
qed simp

lemma ReduceInner_sums:
  assumes tree: "tree_array n depth root_gpu topo" and n: "n = 2 ^ depth"
    and devs: "distinct devs" "length devs = n" and b: "length (tb_merged b) = n" "length (tb_copy b) = n"
  shows "\<exists>b'. ReduceInner pl devs topo (level_scan depth) depth (map (\<lambda>k. (devs ! k, val k)) [0..<n]) b =
    Inr (tree_sum pl topo val depth 0, b')"
proof -
  have t: "length topo = 2 ^ Suc depth - 1" "set (drop (2 ^ depth - 1) topo) = int ` {..<n}" "set topo = int ` {..<n}"
    using tree by (auto simp: tree_array_def)
  let ?leaves = "map (\<lambda>p. topo ! (2 ^ depth - 1 + p)) [0..<2 ^ depth]"
  have leaves: "?leaves = drop (2 ^ depth - 1) topo" using t(1) by (intro nth_equalityI) auto
  obtain m where m: "copy_in devs ?leaves (map (\<lambda>k. (devs ! k, val k)) [0..<n]) (tb_merged b) = Inr m" "length m = n" "\<forall>k < n. m ! k = Some (val k)"
    using copy_in_ok [OF devs(1), of ?leaves "tb_merged b" val] t(2) devs(2) b(1) unfolding leaves by auto
  have idx: "2 ^ depth - 1 + p < length topo" if "p < 2 ^ depth" for p using that t(1) by simp
  have start: "level_done pl topo val n depth depth (b\<lparr>tb_merged := m\<rparr>)"
    unfolding level_done_def using m(2,3) b(2) tree_device [OF t(3) idx] by (auto simp: split: prod.splits) force?
  then obtain b' where b': "rfold (reduce_level pl topo (level_scan depth) n) (rev [1..<Suc depth]) (b\<lparr>tb_merged := m\<rparr>) = Inr b'"
    "level_done pl topo val n depth 0 b'" using reduce_levels_ok [OF tree n order_refl] by blast
  have "0 < n" using n by simp
  have root: "vec_at topo 0 = Inr (topo ! 0)" using vec_at_int [of 0 topo] t(3) \<open>0 < n\<close> by (cases topo) auto
  obtain r where r: "topo ! 0 = int r" "r < n" using tree_device [OF t(3), of 0] t(3) \<open>0 < n\<close> by (cases topo) auto
  have "vec_at (tb_merged b') (topo ! 0) = Inr (Some (tree_sum pl topo val depth 0))"
    using b'(2) r by (auto simp: level_done_def vec_at_def)
  then show ?thesis
    unfolding ReduceInner_def level_nodes_tree [OF t(1) order_refl]
    using m(1) b'(1) root devs(2) \<open>0 < n\<close> by (simp add: written_def del: upt_Suc)
qed

text \<open>The devices that have the array, as destination and for further sends.\<close>

definition has_array :: "nat \<Rightarrow> 'e list \<Rightarrow> int set \<Rightarrow> 'e list option list \<Rightarrow> 'e list option list \<Rightarrow> bool" where
  "has_array n v S dests temp \<longleftrightarrow> length dests = n \<and> length temp = n \<and> S \<subseteq> int ` {..<n} \<and>
     (\<forall>d \<in> S. dests ! nat d = Some v \<and> temp ! nat d = Some v)"

lemma has_array_mono: "S' \<subseteq> S \<Longrightarrow> has_array n v S dests temp \<Longrightarrow> has_array n v S' dests temp"
  by (auto simp: has_array_def)

lemma send_pairs:
  assumes "has_array n v S dests temp" "\<forall>p \<in> set prs. fst p \<in> S \<and> snd p \<in> int ` {..<n}"
  shows "\<exists>s' dests' temp'. rfold send_node (concat (map (\<lambda>(a, c). [a, c]) prs)) (0, s, dests, temp) = Inr (0, s', dests', temp') \<and>
    has_array n v (S \<union> snd ` set prs) dests' temp'"
  using assms
proof (induction prs arbitrary: s dests temp S)
  case Nil
  then show ?case by simp
next
  case (Cons p prs)
  obtain a c where p: "p = (a, c)" by fastforce
  have a: "a \<in> S" "temp ! nat a = Some v" and c: "c \<in> int ` {..<n}" and lens: "length dests = n" "length temp = n" "S \<subseteq> int ` {..<n}"
    using Cons.prems p by (auto simp: has_array_def)
  then have ar: "0 \<le> a" "a < int n" "0 \<le> c" "c < int n" by auto
  let ?d = "if a = c then dests else dests[nat c := Some v]" and ?t = "if a = c then temp else temp[nat c := Some v]"
  have first: "rfold send_node [a, c] (0, s, dests, temp) = Inr (0, a, ?d, ?t)"
    using a ar lens by (simp add: send_node_def Let_def vec_at_def vec_set_def written_def)
  have "has_array n v (insert c S) ?d ?t"
    using Cons.prems(1) a ar c by (auto simp: has_array_def nth_list_update)
  moreover have "\<forall>q \<in> set prs. fst q \<in> insert c S \<and> snd q \<in> int ` {..<n}" using Cons.prems(2) by auto
  ultimately obtain s' d' t' where r: "rfold send_node (concat (map (\<lambda>(a, c). [a, c]) prs)) (0, a, ?d, ?t) = Inr (0, s', d', t')"
    "has_array n v (insert c S \<union> snd ` set prs) d' t'" using Cons.IH [of "insert c S" ?d ?t a] by blast
  have "rfold send_node (concat (map (\<lambda>(a, c). [a, c]) (p # prs))) (0, s, dests, temp) = Inr (0, s', d', t')"
    using rfold_append [of send_node "[a, c]" "concat (map (\<lambda>(a, c). [a, c]) prs)" "(0, s, dests, temp)"] first r(1) p by simp
  with r(2) p show ?case by auto
qed

lemma broadcast_level_ok:
  assumes tree: "tree_array n depth root_gpu topo" and l: "l < depth"
    and inv: "has_array n v (set (take (2 ^ Suc l - 1) topo)) dests temp"
  shows "\<exists>dests' temp'. broadcast_level topo (level_scan depth) (Suc l) (dests, temp) = Inr (dests', temp') \<and>
    has_array n v (set (take (2 ^ Suc (Suc l) - 1) topo)) dests' temp'"
proof -
  define node where "node = (\<lambda>p. topo ! (2 ^ Suc l - 1 + p))"
  let ?prs = "map (\<lambda>p. (node (2 * p), node (2 * p + 1))) [0..<2 ^ l]"
  have t: "length topo = 2 ^ Suc depth - 1" "set topo = int ` {..<n}" using tree by (auto simp: tree_array_def)
  have le: "(2 :: nat) ^ Suc (Suc l) \<le> 2 ^ Suc depth" using l by (intro power_increasing) auto
  have one: "(1 :: nat) \<le> 2 ^ l" by simp
  have idx: "2 ^ Suc l - 1 + p < length topo" if "p < 2 ^ Suc l" for p using that le t(1) unfolding power_Suc by linarith
  have nodes: "level_nodes topo (level_scan depth) (Suc l) = Inr (concat (map (\<lambda>(a, c). [a, c]) ?prs))"
    using level_nodes_tree [OF t(1), of "Suc l"] l pairs_of_level [of node "2 ^ l"] by (simp add: comp_def node_def)
  have par: "node (2 * p) \<in> set (take (2 ^ Suc l - 1) topo)" if "p < 2 ^ l" for p
  proof -
    have i: "2 ^ l - 1 + p < 2 ^ Suc l - 1" using that one unfolding power_Suc by linarith
    then have "take (2 ^ Suc l - 1) topo ! (2 ^ l - 1 + p) = node (2 * p)" using first_child [OF tree l that] by (simp add: node_def)
    moreover have "2 ^ l - 1 + p < length (take (2 ^ Suc l - 1) topo)" using i le t(1) unfolding length_take power_Suc by linarith
    ultimately show ?thesis by (metis nth_mem)
  qed
  have in_range: "node p \<in> int ` {..<n}" if "p < 2 ^ Suc l" for p using idx [OF that] t(2) nth_mem unfolding node_def by blast
  have even: "2 * p + 1 < 2 ^ Suc l" if "p < 2 ^ l" for p :: nat using that by auto
  have "\<forall>p \<in> set ?prs. fst p \<in> set (take (2 ^ Suc l - 1) topo) \<and> snd p \<in> int ` {..<n}"
  proof
    fix x assume "x \<in> set ?prs"
    then obtain p where p: "p < 2 ^ l" "x = (node (2 * p), node (2 * p + 1))" by auto
    show "fst x \<in> set (take (2 ^ Suc l - 1) topo) \<and> snd x \<in> int ` {..<n}"
      unfolding p(2) fst_conv snd_conv by (rule conjI [OF par [OF p(1)] in_range [OF even [OF p(1)]]])
  qed
  from send_pairs [OF inv this, of 0] obtain s' d' t' where r: "rfold send_node (concat (map (\<lambda>(a, c). [a, c]) ?prs)) (0, 0, dests, temp) = Inr (0, s', d', t')"
    "has_array n v (set (take (2 ^ Suc l - 1) topo) \<union> snd ` set ?prs) d' t'"
    by blast
  have "set (take (2 ^ Suc (Suc l) - 1) topo) \<subseteq> set (take (2 ^ Suc l - 1) topo) \<union> snd ` set ?prs"
  proof
    fix x assume "x \<in> set (take (2 ^ Suc (Suc l) - 1) topo)"
    then obtain i where i: "i < 2 ^ Suc (Suc l) - 1" "i < length topo" "x = topo ! i" by (auto simp: in_set_conv_nth)
    show "x \<in> set (take (2 ^ Suc l - 1) topo) \<union> snd ` set ?prs"
    proof (cases "i < 2 ^ Suc l - 1")
      case True
      then have "x \<in> set (take (2 ^ Suc l - 1) topo)" using i(2,3) nth_mem [of i "take (2 ^ Suc l - 1) topo"] by (simp del: power_Suc)
      then show ?thesis by (rule UnI1)
    next
      case False
      define p where "p = i - (2 ^ Suc l - 1)"
      have p: "p < 2 ^ Suc l" "x = node p" using False i unfolding p_def node_def power_Suc by (linarith, simp)
      then have h: "p div 2 < 2 ^ l" by simp
      show ?thesis
      proof (cases "even p")
        case True
        then have "x = node (2 * (p div 2))" using p(2) by simp
        then show ?thesis using par [OF h] by (simp only: UnI1)
      next
        case False
        then have "x = node (2 * (p div 2) + 1)" using p(2) by simp
        then have "x = snd (node (2 * (p div 2)), node (2 * (p div 2) + 1))" by (simp only: snd_conv)
        then show ?thesis using h by (intro UnI2 image_eqI) auto
      qed
    qed
  qed
  then have "has_array n v (set (take (2 ^ Suc (Suc l) - 1) topo)) d' t'" using r(2) by (rule has_array_mono)
  with nodes r(1) show ?thesis by (simp add: broadcast_level_def)
qed

lemma BroadcastInner_reaches:
  assumes tree: "tree_array n depth root_gpu topo" and dests: "length dests = n" and src: "\<not> copy \<Longrightarrow> dests ! nat root_gpu = Some v" and "0 < n"
  shows "BroadcastInner topo (level_scan depth) depth n copy v dests = Inr (replicate n (Some v))"
proof -
  have t: "length topo = 2 ^ Suc depth - 1" "set topo = int ` {..<n}" "topo ! 0 = root_gpu" using tree by (auto simp: tree_array_def)
  have ne: "topo \<noteq> []" using t(2) \<open>0 < n\<close> by auto
  obtain r where r: "root_gpu = int r" "r < n" using tree_device [OF t(2), of 0] t(3) ne by auto
  let ?d = "if copy then dests[r := Some v] else dests"
  have first: "?d ! r = Some v" "length ?d = n" using src dests r by auto
  let ?t = "(replicate n None)[r := Some v]"
  have one: "take (2 ^ Suc 0 - 1) topo = [root_gpu]" using t(3) ne by (cases topo) auto
  have start: "has_array n v (set (take (2 ^ Suc 0 - 1) topo)) ?d ?t" unfolding one using first r by (auto simp: has_array_def)
  have "\<exists>d' t'. rfold (broadcast_level topo (level_scan depth)) [1..<Suc l] (?d, ?t) = Inr (d', t') \<and> has_array n v (set (take (2 ^ Suc l - 1) topo)) d' t'"
    if "l \<le> depth" for l
    using that
  proof (induction l)
    case 0
    then show ?case using start by simp
  next
    case (Suc l)
    then obtain d' t' where "rfold (broadcast_level topo (level_scan depth)) [1..<Suc l] (?d, ?t) = Inr (d', t')"
      "has_array n v (set (take (2 ^ Suc l - 1) topo)) d' t'" by auto
    with broadcast_level_ok [OF tree, of l v d' t'] Suc.prems show ?case
      by (auto simp: rfold_append upt_Suc_append simp del: upt_Suc power_Suc)
  qed
  from this [OF order_refl] obtain d' t' where d': "rfold (broadcast_level topo (level_scan depth)) [1..<Suc depth] (?d, ?t) = Inr (d', t')"
    "has_array n v (set topo) d' t'" using t(1) by (auto simp del: upt_Suc power_Suc)
  have "d' = replicate n (Some v)" using d'(2) t(2) by (intro nth_equalityI) (auto simp: has_array_def)
  moreover have "vec_at topo 0 = Inr root_gpu" using vec_at_int [of 0 topo] ne t(3) by simp
  ultimately show ?thesis
    using d'(1) r first dests by (simp add: BroadcastInner_def del: upt_Suc split del: if_split) (cases copy; simp del: upt_Suc)?
qed

text \<open>With a commutative addition the sum along the tree is the sum over the devices.\<close>

lemma tree_sum_length:
  assumes "\<And>k. length (val k) = m"
  shows "length (tree_sum pl topo val h q) = m"
  using assms by (induction h arbitrary: q) auto

lemma tree_sum_leaves:
  fixes val :: "nat \<Rightarrow> 'e :: comm_monoid_add list"
  assumes "\<And>k. length (val k) = m" "i < m" "l + h = depth"
  shows "tree_sum (+) topo val h (2 ^ l - 1 + p) ! i = (\<Sum>j = p * 2 ^ h..<Suc p * 2 ^ h. val (nat (topo ! (2 ^ depth - 1 + j))) ! i)"
  using assms(3)
proof (induction h arbitrary: l p)
  case (Suc h)
  then have l: "Suc l + h = depth" by simp
  have "tree_sum (+) topo val (Suc h) (2 ^ l - 1 + p) ! i =
      tree_sum (+) topo val h (2 ^ Suc l - 1 + 2 * p) ! i + tree_sum (+) topo val h (2 ^ Suc l - 1 + (2 * p + 1)) ! i"
    using assms(2) tree_sum_length [OF assms(1)] unfolding tree_sum.simps child_index by simp
  also have "\<dots> = (\<Sum>j = 2 * p * 2 ^ h..<Suc (2 * p) * 2 ^ h. val (nat (topo ! (2 ^ depth - 1 + j))) ! i) +
      (\<Sum>j = (2 * p + 1) * 2 ^ h..<Suc (2 * p + 1) * 2 ^ h. val (nat (topo ! (2 ^ depth - 1 + j))) ! i)"
    unfolding Suc.IH [OF l] by (rule refl)
  also have "\<dots> = (\<Sum>j = 2 * p * 2 ^ h..<Suc (2 * p + 1) * 2 ^ h. val (nat (topo ! (2 ^ depth - 1 + j))) ! i)"
    unfolding Suc_eq_plus1 [of "2 * p", symmetric] by (rule sum.atLeastLessThan_concat) simp_all
  also have "2 * p * 2 ^ h = p * 2 ^ Suc h" by simp
  also have "Suc (2 * p + 1) * 2 ^ h = Suc p * 2 ^ Suc h" by (simp add: algebra_simps)
  finally show ?case .
qed simp

lemma tree_sum_devices:
  fixes val :: "nat \<Rightarrow> 'e :: comm_monoid_add list"
  assumes tree: "tree_array n depth root_gpu topo" and n: "n = 2 ^ depth" and val: "\<And>k. length (val k) = m" "i < m"
  shows "tree_sum (+) topo val depth 0 ! i = (\<Sum>k < n. val k ! i)"
proof -
  let ?leaf = "\<lambda>j. topo ! (2 ^ depth - 1 + j)"
  have t: "length topo = 2 ^ Suc depth - 1" "set (drop (2 ^ depth - 1) topo) = int ` {..<n}" using tree by (auto simp: tree_array_def)
  have leaves: "map ?leaf [0..<2 ^ depth] = drop (2 ^ depth - 1) topo" using t(1) by (intro nth_equalityI) auto
  have inj: "inj_on ?leaf {..<n}" using level_distinct [OF tree n order_refl] n by (simp add: distinct_map atLeast0LessThan)
  have img: "?leaf ` {..<n} = int ` {..<n}"
    using arg_cong [OF leaves, of set] t(2) n by (simp add: atLeast0LessThan)
  have "bij_betw (\<lambda>j. nat (?leaf j)) {..<n} {..<n}"
  proof (rule bij_betw_imageI)
    show "(\<lambda>j. nat (?leaf j)) ` {..<n} = {..<n}" using arg_cong [OF img, of "image nat"] by (simp add: image_image)
    show "inj_on (\<lambda>j. nat (?leaf j)) {..<n}"
    proof (rule inj_onI)
      fix x y assume xy: "x \<in> {..<n}" "y \<in> {..<n}" "nat (?leaf x) = nat (?leaf y)"
      then have "0 \<le> ?leaf x" "0 \<le> ?leaf y" using img by (metis image_iff of_nat_0_le_iff)+
      then have "?leaf x = ?leaf y" using xy(3) by linarith
      then show "x = y" using inj xy(1,2) by (simp add: inj_on_def)
    qed
  qed
  then have "(\<Sum>j < n. val (nat (?leaf j)) ! i) = (\<Sum>k < n. val k ! i)" by (rule sum.reindex_bij_betw)
  moreover have "tree_sum (+) topo val depth 0 ! i = (\<Sum>j < n. val (nat (?leaf j)) ! i)"
    using tree_sum_leaves [of val m i 0 depth depth topo 0] val n by (simp add: atLeast0LessThan)
  ultimately show ?thesis by simp
qed

lemma all_reduce:
  fixes val :: "nat \<Rightarrow> 'e :: comm_monoid_add list"
  assumes "tree_array n depth root_gpu topo" "n = 2 ^ depth" "distinct devs" "length devs = n"
    and "length (tb_merged b) = n" "length (tb_copy b) = n" "length dests = n" "\<And>k. length (val k) = m"
  shows "\<exists>s b'. ReduceInner (+) devs topo (level_scan depth) depth (map (\<lambda>k. (devs ! k, val k)) [0..<n]) b = Inr (s, b') \<and>
    s = map (\<lambda>i. \<Sum>k < n. val k ! i) [0..<m] \<and>
    BroadcastInner topo (level_scan depth) depth n True s dests = Inr (replicate n (Some s))"
proof -
  let ?s = "tree_sum (+) topo val depth 0"
  have s: "?s = map (\<lambda>i. \<Sum>k < n. val k ! i) [0..<m]"
    using tree_sum_length [OF assms(8)] tree_sum_devices [OF assms(1,2,8)] by (intro nth_equalityI) auto
  have "BroadcastInner topo (level_scan depth) depth n True ?s dests = Inr (replicate n (Some ?s))"
    using BroadcastInner_reaches [OF assms(1,7), of True ?s] assms(2) by simp
  with ReduceInner_sums [OF assms(1-6), of "(+)" val] s show ?thesis by auto
qed

text \<open>
  The form of the tree is not enough when a device occurs in two pairs of a level: the second copy overwrites the first in the
  receive buffer, and is added twice, by each of the two sums.
\<close>

lemma repeated_receiver_miscounts:
  "rmap fst (ReduceInner (+) [10, 11, 12 :: int] [0, 0, 0, 0, 1, 0, 2] (level_scan 2) 2 [(10, [1 :: int]), (11, [2]), (12, [4])]
     \<lparr>tb_merged = replicate 3 None, tb_copy = replicate 3 None\<rparr>) = Inr [17]"
  by code_simp

end
