(* ===== verification/Spec2Isabelle.thy ===== *)
theory Spec2Isabelle
  imports NS_Control NS_KvApp MX_Pull MX_Store MX_Exceptions MX_Scripts MX_Tree
begin

text \<open>
  Verification of NetStorm, a parameter server whose aggregation follows computed routes over an overlay network.
  The repository is MXNet with its key-value store, and \<open>3rdparty/ps-lite\<close>, the messaging layer with the routing
  of NetStorm.

  \<^bold>\<open>The program.\<close>
  A scheduler collects the speeds of the links between the servers (\<open>van.cc\<close>: \<open>ProcessSpeedReportCommand\<close>), searches
  the paths between them (\<open>find_trace\<close>), selects routes (\<open>add_route\<close>), rates every server as root of an aggregation
  tree (\<open>compute_performance\<close>), derives the trees (\<open>PolicyDecision\<close>) and releases routes and trees to the servers
  (\<open>ProcessRouteReleaseCommand\<close>). A van sends messages hop by hop along the routes; a post office keeps node ids,
  barriers and customers; customers count responses; a resender repeats what was not acknowledged. On top of it
  \<open>kv_app.h\<close> slices key-value lists over servers. The distributed store (\<open>kvstore_dist.h\<close>, \<open>kvstore_dist_server.h\<close>)
  divides arrays into segments, pushes them, and the servers sum them along the trees. The local store
  (\<open>kvstore_local.h\<close>, \<open>comm.h\<close>) sums the arrays of the devices of one machine, with trees over the links between
  GPUs (\<open>gpu_topology.h\<close>), and every operation on arrays is scheduled by the dependency engine
  (\<open>threaded_engine.cc\<close>).

  \<^bold>\<open>Theories of the messaging layer.\<close>
  \<^item> \<open>NS_Prelude\<close>: results with faults (failed checks, accesses out of range, undefined behaviour, divergence), vectors
    with checked access, folds over fallible steps. \<open>NS_Float\<close>: IEEE single and double precision as rounded rationals
    with infinities and NaN. \<open>NS_Message\<close>: nodes, control information, messages (\<open>message.h\<close>).
  \<^item> \<open>NS_Postoffice\<close> (\<open>postoffice.cc\<close>), \<open>NS_Queue\<close> (\<open>threadsafe_queue.h\<close>, \<open>threadsafe_pqueue.h\<close>, on the binary heap of
    \<open>std::priority_queue\<close>), \<open>NS_Customer\<close> (\<open>customer.cc\<close>), \<open>NS_Resender\<close> (\<open>resender.h\<close>, with a lossy network as step relation).
  \<^item> \<open>NS_Paths\<close>, \<open>NS_Routes\<close>, \<open>NS_Roots\<close>, \<open>NS_Trees\<close>, \<open>NS_Release\<close>: path search, route selection, rating of the roots,
    aggregation trees, and the encoding of routes and trees in messages (all in \<open>van.cc\<close>).
  \<^item> \<open>NS_Node\<close>, \<open>NS_Transfer\<close>, \<open>NS_Wire\<close>, \<open>NS_Control\<close>: the state of a van (a record of the members of \<open>Van\<close> and \<open>ZMQVan\<close>),
    sending and queues, forwarding and receipts, packing of messages and frames, and the handlers of control messages.
    What a node sends is appended to the field \<open>outbox\<close>, what it hands to a customer to \<open>accepted\<close>.
  \<^item> \<open>NS_Slicer\<close>, \<open>NS_KvApp\<close>: \<open>kv_app.h\<close> and \<open>simple_app.h\<close>.

  \<^bold>\<open>Theories of the stores and the engine.\<close>
  \<^item> \<open>MX_Ndarray\<close>, \<open>MX_Compress\<close>, \<open>MX_Server\<close>, \<open>MX_Dist\<close>: arrays as bytes with type and shape, 2-bit gradient compression,
    the server of the distributed store, the division of values at the worker. \<open>MX_Pull\<close>: initialisation, push and pull of the worker
    over the arrays of its devices.
  \<^item> \<open>MX_Reduce\<close>, \<open>MX_Comm\<close>, \<open>MX_Local\<close>, \<open>MX_Store\<close>: sums of dense and row-sparse arrays, the communicators of \<open>comm.h\<close> on an
    explicit heap of arrays (the code shares arrays), the local store, and its theorems over the contracts
    \<open>device_comm\<close>, \<open>task_order\<close> and \<open>key_sort\<close>.
  \<^item> \<open>MX_Topology\<close>: the first half of \<open>gpu_topology.h\<close>, connectivity, link weights, the partitioning by Kernighan and Lin and the tree of
    a partition. \<open>MX_Backtrack\<close>: the second half, the search for a tree by backtracking and the trees of all roots. \<open>MX_Tree\<close>: reduction
    and broadcast along these trees (\<open>comm_tree.h\<close>).
  \<^item> \<open>MX_Var\<close>, \<open>MX_Engine\<close>: variables and the operations of the engine, in the units in which threads interleave
    (\<open>act\<close>). \<open>MX_Sched\<close>: the step relation \<open>estep\<close> of clients, threads and workers, with the scheduling invariant;
    \<open>MX_Runs\<close> and \<open>MX_Serial\<close>: its preservation and the theorems on runs; \<open>MX_Scripts\<close>: runs as scripts, finiteness;
    \<open>MX_Exceptions\<close>: exceptions.

  \<^bold>\<open>Errors, integers, loops.\<close>
  A \<open>CHECK\<close>, an index out of range and undefined behaviour are values \<open>Inl\<close> of the result type; a call that would wait is
  \<open>None\<close>. Keys and signatures are 64-bit words, \<open>int\<close> is an integer with its range checked or wrapped as the code does.
  Loops are recursive functions with a measure or folds over the index range; the two loops of \<open>gpu_topology.h\<close> without a bound are
  \<open>rloop\<close>, for which \<open>None\<close> is a loop that never ends. Fuel is used in two places: \<open>journey\<close> takes
  as many hops as there are nodes, which the route property shows to be enough; \<open>skip_full\<close> turns once over all servers, after
  which the loop of the code repeats itself (lemma \<open>skip_full_ends\<close>).

  \<^bold>\<open>Parameters.\<close>
  What the sources call and do not contain is an argument of the definitions: the arithmetic of array elements
  (\<open>ndops\<close>), \<open>std::sort\<close>, \<open>std::shuffle\<close>, the order in which parallel tasks run, random numbers, clocks, the functions
  clients give to the engine (\<open>client\<close>), the answers of the servers to a pull.

  \<^bold>\<open>What is shown.\<close>
  C1--C9 routing: the paths found, cheapest and disjoint routes, loop-free trees, round trips of the release.
  C10 push and pull at a worker of the distributed store. C11--C15 post office, queues, customers. C16, C18 and C19 resending and wire format.
  C17 reduction and broadcast along a tree of GPUs. C20--C22 delivery along the routes,
  slicing, balance of the merge buffers. C23--C30 the dependency engine: no conflicting operations at the same time, no failed
  check, results as in sequential execution, completion, a deadlock of interleaved pushes, variables as fair locks,
  propagation of exceptions. C31--C36 the stores: sums, compression, aggregation at a server, division, string keys.
  C37--C40 the topology of the GPUs: connectivity as reachability, even partitions, the iterative search as the recursive one,
  spanning trees of least depth.

  \<^bold>\<open>Not modelled.\<close>
  Sockets, threads and environment variables of \<open>Van::Start\<close>, \<open>Init_eth_group\<close> and \<open>Stop\<close>; profiling and CUDA calls in engine
  and communicators; the thread pools behind \<open>PushToExecute\<close>; functions that delete variables or operators in the
  interleaved runs of the engine (the operations themselves are modelled); in \<open>comm_tree.h\<close>
  the access of GPUs to each other's memory, the CUDA queries, and the broadcast before the buffers exist.
  The operators, the graph executor, the imperative runtime, IO, the C API and the language bindings are the unmodified tensor library
  around the store: they are not part of the system described here and have no counterpart in the model.
\<close>

section \<open>Example objects\<close>

text \<open>Concrete objects at which the witnesses apply the theorems.\<close>

definition demo_po :: postoffice where
  "demo_po = Postoffice\<lparr>node_ids := (\<lambda>_. [8, 10])\<rparr>"

definition demo_customer :: customer where
  "demo_customer = \<lparr>cu_app_id = 0, cu_customer_id = 0, recv_queue = [], tracker = [], joined = False\<rparr>"

definition demo_response :: message where
  "demo_response = upd_meta (\<lambda>a. a\<lparr>timestamp := 0, priority := 1\<rparr>) Message"

definition demo_message :: message where
  "demo_message = upd_meta (\<lambda>a. a\<lparr>app_id := 0, timestamp := 1, recver := 10\<rparr>) Message"

text \<open>A server with rank 0 of two workers, connected to nobody yet.\<close>

definition demo_node :: nstate where
  "demo_node =
    \<lparr>vnt = \<lparr>my_node = Node\<lparr>n_id := 8\<rparr>, my_node_group = [], my_container_id = 0, vsenders = [], connected_nodes = Map.empty,
       shared_node_mapping = Map.empty, vnum_servers = 0, vnum_workers = 0, node_container_id = (\<lambda>_. 0), eth_sort = [],
       eth_node = [], num_report_eth = 0, neighbors = [], nodes_meta = Meta, recovery_meta = Meta, barrier_count = [],
       vready = True\<rparr>,
     vrt = \<lparr>sched_route = [], route0 = [], vtps = [], vperf = [], perf_update_flag = False, vmid_tp = Fin 0, vparents = [8],
       vsons = [[9, 11]], vparents_temp = [], vsons_temp = [], viters = 0, init_flag = True, change_flag = False,
       notify_count = 0\<rparr>,
     vsd = \<lparr>send_queue_group = [], send_queue_map = [], receive_flag = [], sending_threads = [], vspeeds = [],
       cache_count = 0, enable_send = 1, key_timestamp = (\<lambda>_. 0)\<rparr>,
     cfg = \<lparr>cf_second_queue_limit = 0, cf_size_msg_report = 0, cf_size_cache = 0, cf_num_msg_report = 0,
       cf_report_rate = Fin 0, cf_update_rate = Fin 0, cf_enable_random = False, cf_enable_muti_trace = False,
       cf_num_enable_server = 1, cf_heartbeat_timeout = 0, cf_container_id = None\<rparr>,
     npo = Postoffice\<lparr>num_workers := 2, num_servers := 1\<rparr>, vtimestamp = 0, vresender = None, now_ms = 0,
     now_sec = Fin 0, now_time = 0, env_rank = None, outbox = [], accepted = []\<rparr>"

definition demo_server :: kvserver where
  "demo_server = \<lparr>ks_cust = demo_customer, ks_parents = [8], ks_sons = [[9, 11]], ks_iters = 0\<rparr>"

definition demo_push :: "int \<Rightarrow> kvmeta" where
  "demo_push w = \<lparr>km_cmd = 0, km_push = True, km_sender = w, km_timestamp = 0, km_customer_id = 0, km_version = 0,
     km_num_merge = 1, km_tree = Some 0\<rparr>"

text \<open>Byte arithmetic that stands for the arithmetic of the array library.\<close>

definition demo_ops :: ndops where
  "demo_ops = \<lparr>op_plus = (\<lambda>ty. map2 (+)), op_cast = (\<lambda>_ _ b. b)\<rparr>"

text \<open>One key with two bytes; the arrays 0 and 1 of the devices, the buffer 2 and the stored array 3.\<close>

definition demo_array :: "bytes \<Rightarrow> ndarray" where
  "demo_array b = \<lparr>nd_dtype = 3, nd_shape = [2], nd_data = Some b, nd_rows = None\<rparr>"

definition demo_heap :: heap where
  "demo_heap = [demo_array [1, 2], demo_array [10, 20], demo_array [0, 0], demo_array [7, 7]]"

definition demo_comm :: commcpu where
  "demo_comm = set_buf 5 \<lparr>cb_merged = Some 2, cb_sparse = None, cb_copy = []\<rparr> (CommCPU 1000 4 False)"

definition demo_store :: klocal where
  "demo_store = KVStoreLocal\<lparr>local_store := [5 \<mapsto> 3]\<rparr>"

definition demo_client :: client where
  "demo_client = \<lparr>async_run = (\<lambda>n. if n = 9 then Throws ''boom'' else Returns), sync_run = (\<lambda>_. None)\<rparr>"

text \<open>Two operations that exchange their variables, pushed one after the other; then both are worked off.\<close>

definition demo_pushes :: "mach option" where
  "demo_pushes = do_cmds demo_client [NewVar, NewVar, Spawn (AsyncFn 0) [0] [1], Move 0, Move 0, Move 0,
     Spawn (AsyncFn 1) [1] [0], Move 1, Move 1, Move 1] mach0"

definition demo_done :: "mach option" where
  "demo_done = Option.bind demo_pushes (do_cmds demo_client [Work, Move 2, Move 2, Move 2, Move 2, Move 2,
     Work, Move 3, Move 3, Move 3])"

text \<open>Two readers of one variable, both ready to run.\<close>

definition demo_readers :: "mach option" where
  "demo_readers = do_cmds demo_client [NewVar, NewVar, NewVar, Spawn (AsyncFn 0) [0] [1], Move 0, Move 0, Move 0,
     Spawn (AsyncFn 1) [0] [2], Move 1, Move 1, Move 1] mach0"

text \<open>An operation has thrown and its completion has reached the variable it writes.\<close>

definition demo_failed :: "mach option" where
  "demo_failed = do_cmds demo_client [NewVar, Spawn (AsyncFn 9) [] [0], Move 0, Move 0, Work, Move 1, Move 1] mach0"

definition demo_skipped :: "mach option" where
  "demo_skipped = Option.bind demo_failed (do_cmds demo_client [Spawn (AsyncFn 1) [0] [], Move 2, Move 2])"

section \<open>Routing\<close>

text \<open>
  C1. \<open>find_trace\<close> started at \<open>a\<close> collects exactly the simple paths of the overlay from \<open>a\<close> to
  \<open>b\<close>, each once, and the cost at every index is the accumulated cost of the path there.
\<close>

theorem find_trace_enumerates:
  assumes "a \<noteq> b" "a < num_nodes"
  shows "set (snd (find_trace tps a b c [a] ([], []))) = {t. simple_path num_nodes tps a b t} \<and>
    distinct (snd (find_trace tps a b c [a] ([], []))) \<and>
    fst (find_trace tps a b c [a] ([], [])) =
      map (path_cost tps c) (snd (find_trace tps a b c [a] ([], [])))"
  using find_trace_traces [OF assms] find_trace_distinct [OF assms(1)] find_trace_costs by auto

theorem find_trace_enumerates_witness:
  "set (snd (find_trace initial_tps 0 8 (Fin 0) [0] ([], []))) = {t. simple_path num_nodes initial_tps 0 8 t} \<and>
   distinct (snd (find_trace initial_tps 0 8 (Fin 0) [0] ([], [])))"
  using find_trace_enumerates [of 0 8 initial_tps "Fin 0"] by (simp add: num_nodes_def)

text \<open>
  C2. On a connected overlay, deterministic route computation succeeds, and the first route of
  every pair is a simple path no other simple path undercuts.
\<close>

theorem add_route_succeeds_cheapest:
  assumes "overlay_connected tps"
  shows "\<exists>tab. add_route False em rand tps = Inr tab \<and> square tab \<and>
    (\<forall>i < num_nodes. \<forall>j < num_nodes. i \<noteq> j \<longrightarrow>
       (\<exists>r rs. route_at tab i j = r # rs \<and> cheapest tps i j r))"
  using add_route_connected [OF assms, of em rand] add_route_square [of False em rand tps]
    add_route_first_cheapest [OF assms, of em rand] by blast

theorem add_route_succeeds_cheapest_witness:
  "\<exists>tab. add_route False True (\<lambda>_. 0) initial_tps = Inr tab \<and> square tab \<and>
    (\<exists>r rs. route_at tab 0 8 = r # rs \<and> cheapest initial_tps 0 8 r)"
  using add_route_succeeds_cheapest [OF connected_initial, of True "\<lambda>_. 0"]
  by (force simp: num_nodes_def)

text \<open>
  C3. Whatever the options, the routes a successful computation keeps for a pair are simple
  paths between its nodes, all different, and no two share an intermediate node.
\<close>

theorem routes_simple_disjoint:
  assumes "add_route er em rand tps = Inr tab" "i < num_nodes" "j < num_nodes" "i \<noteq> j"
  shows "(\<forall>t \<in> set (nonempty (route_at tab i j)). simple_path num_nodes tps i j t) \<and>
    pairwise_disjoint (nonempty (route_at tab i j))"
  using add_route_disjoint [OF assms] by (simp add: nonempty_def)

theorem routes_simple_disjoint_witness:
  "\<exists>tab. add_route False True (\<lambda>_. 0) initial_tps = Inr tab \<and>
    pairwise_disjoint (nonempty (route_at tab 0 8))"
proof -
  obtain tab where t: "add_route False True (\<lambda>_. 0) initial_tps = Inr tab"
    using add_route_connected [OF connected_initial] by blast
  with routes_simple_disjoint [OF t, of 0 8] show ?thesis by (auto simp: num_nodes_def)
qed

text \<open>
  C4. \<open>compute_performance\<close> keeps the performance of exactly \<open>n\<close> roots, every kept one at least
  as good as every dropped one, and zeroes the rest, when the performances are below the
  start value of \<open>min\<close>.
\<close>

theorem compute_performance_keeps_best:
  assumes "rmap_list (perf_of tps tab) [0..<num_nodes] = Inr perf"
    and "\<forall>p \<in> set perf. fl_less p (Fin 100000000)" and "0 \<le> n" "n \<le> int num_nodes"
  shows "\<exists>K \<subseteq> {..<num_nodes}. card K = nat n \<and>
    compute_performance tps tab n = Inr (map (\<lambda>i. if i \<in> K then perf ! i else Fin 0) [0..<num_nodes]) \<and>
    (\<forall>k \<in> K. \<forall>d < num_nodes. d \<notin> K \<longrightarrow> \<not> fl_less (perf ! k) (perf ! d))"
  by (rule compute_performance_roots [OF assms])

theorem compute_performance_keeps_best_witness:
  "\<exists>K \<subseteq> {..<num_nodes}. card K = 3 \<and>
    compute_performance mesh_tps mesh_table 3 =
      Inr (map (\<lambda>i. if i \<in> K then replicate num_nodes (Fin 1) ! i else Fin 0) [0..<num_nodes])"
proof -
  have "\<forall>p \<in> set (replicate num_nodes (Fin 1)). fl_less p (Fin 100000000)" by simp
  from compute_performance_keeps_best [OF mesh_perf this, of 3] show ?thesis
    by (auto simp: num_nodes_def)
qed

text \<open>
  C5. On a connected overlay with speeds below the bound of \<open>min\<close>, the performance of every
  root is defined: no index leaves its vector and no level is empty where it is read.
\<close>

theorem performance_defined:
  assumes "overlay_connected tps" "speeds_small tps" "add_route False em rand tps = Inr tab"
  shows "\<exists>perf. rmap_list (perf_of tps tab) [0..<num_nodes] = Inr perf \<and> length perf = num_nodes"
  by (rule perf_list_ok [OF assms(2) add_route_complete [OF assms(1,3)]])

theorem performance_defined_witness:
  "\<exists>tab perf. add_route False False (\<lambda>_. 0) initial_tps = Inr tab \<and>
     rmap_list (perf_of initial_tps tab) [0..<num_nodes] = Inr perf \<and> length perf = num_nodes"
  using add_route_connected [OF connected_initial, of False "\<lambda>_. 0"]
    performance_defined [OF connected_initial speeds_small_initial, of False "\<lambda>_. 0"] by blast



text \<open>
  C7. A server decodes from a route release exactly the routes the scheduler encoded, with node
  ranks turned into server ids and the empty routes dropped.
\<close>

theorem route_release_round_trip:
  assumes "\<forall>rs \<in> set rows. \<forall>r \<in> set rs. \<forall>n \<in> set r. n < 2 ^ 20"
  shows "\<exists>tab. decode_routes (encode_routes mid rows) = Inr (mid, tab) \<and>
    (\<forall>j < length rows. nonempty (rows ! j) \<noteq> [] \<longrightarrow>
       j < length tab \<and> tab ! j = map (map server_id) (nonempty (rows ! j)))"
  using decode_encode_routes [OF assms] server_routes_lookup by blast

theorem route_release_round_trip_witness:
  "\<exists>tab. decode_routes (encode_routes (Fin 1) [[[0, 1]], [], [[0, 2, 3], [], [0, 4, 3]]]) = Inr (Fin 1, tab) \<and>
    tab ! 2 = [[8, 12, 14], [8, 16, 14]]"
  using route_release_round_trip [of "[[[0, 1]], [], [[0, 2, 3], [], [0, 4, 3]]]" "Fin 1"]
  by (force simp: nonempty_def)

text \<open>
  C8. A server decodes from its policy the performances, its parent under every root and the
  workers of its children, with its own worker last.
\<close>

theorem policy_release_round_trip:
  assumes "hops_ok nh" "j < num_nodes" "length perf = num_nodes"
  shows "decode_policy (server_id j) (policy_of perf nh j) =
    Inr (perf, map (exp_parent perf nh j) [0..<num_nodes],
         map (\<lambda>i. exp_sons perf nh j i @ [worker_id j]) [0..<num_nodes])"
  by (rule decode_policy_of [OF assms])

theorem policy_release_round_trip_witness:
  "\<exists>nh. hops_ok nh \<and> decode_policy (server_id 3) (policy_of (replicate num_nodes (Fin 1)) nh 3) =
    Inr (replicate num_nodes (Fin 1), map (exp_parent (replicate num_nodes (Fin 1)) nh 3) [0..<num_nodes],
         map (\<lambda>i. exp_sons (replicate num_nodes (Fin 1)) nh 3 i @ [worker_id 3]) [0..<num_nodes])"
proof -
  obtain nh where "hops_ok nh"
    using add_route_connected [OF connected_initial]
      PolicyDecision_complete [OF add_route_complete [OF connected_initial]] by blast
  with policy_release_round_trip [OF this, of 3 "replicate num_nodes (Fin 1)"] show ?thesis
    by (auto simp: num_nodes_def)
qed



text \<open>
  Unchanged speeds never trigger a route update: the average of no differences is not a
  number, and no threshold is below it.
\<close>

theorem unchanged_speeds_no_update:
  assumes "\<forall>i < num_nodes. \<forall>j < num_nodes. not_nan (tpa tps i j)"
  shows "\<not> fl_less update_rate (check_change tps tps)"
  using check_change_same [OF assms] by (cases update_rate) auto

theorem unchanged_speeds_no_update_witness:
  "\<not> fl_less (Fin (1 / 10)) (check_change initial_tps initial_tps)"
proof (rule unchanged_speeds_no_update, intro allI impI)
  fix i j assume "i < num_nodes" "j < num_nodes"
  from tpa_initial [OF this] show "not_nan (tpa initial_tps i j)" by auto
qed

section \<open>Post office, queues and customers\<close>

text \<open>
  Ranks and ids of servers and workers are inverse, and the two kinds of ids are disjoint
  from each other and from the scheduler and the group ids.
\<close>

theorem ids_and_ranks:
  assumes "0 \<le> r"
  shows "IDtoRank (ServerRankToID r) = r \<and> IDtoRank (WorkerRankToID r) = r \<and>
    ServerRankToID r \<noteq> WorkerRankToID r' \<and>
    ServerRankToID r \<notin> {0..kScheduler + kServerGroup + kWorkerGroup} \<and>
    WorkerRankToID r \<notin> {0..kScheduler + kServerGroup + kWorkerGroup}"
  using IDtoRank_server [OF assms] IDtoRank_worker [OF assms] assms
  by (simp add: id_defs) presburger

theorem ids_and_ranks_witness:
  "IDtoRank (ServerRankToID 3) = 3 \<and> IDtoRank (WorkerRankToID 3) = 3"
  using ids_and_ranks [of 3 0] by simp

text \<open>
  After a fresh start the node groups hold exactly the ids of their roles, workers before
  servers before the scheduler, and every node is the only member of its own group.
\<close>

theorem started_groups:
  assumes "po_start_nodes env atoi Postoffice = Inr po"
  shows "node_ids po kServerGroup = map ServerRankToID [0..num_servers po - 1] \<and>
    node_ids po kWorkerGroup = map WorkerRankToID [0..num_workers po - 1] \<and>
    node_ids po kScheduler = [kScheduler] \<and>
    node_ids po (kWorkerGroup + kServerGroup + kScheduler) =
      map WorkerRankToID [0..num_workers po - 1] @ map ServerRankToID [0..num_servers po - 1] @ [kScheduler] \<and>
    (\<forall>r. 0 \<le> r \<and> r < num_servers po \<longrightarrow> node_ids po (ServerRankToID r) = [ServerRankToID r])"
proof -
  have po: "node_ids po = init_node_ids (num_workers po) (num_servers po) (\<lambda>_. [])"
    using assms by (auto simp: po_start_nodes_def Postoffice_def InitEnvironment_def split: option.splits)
  show ?thesis
    unfolding po using group_members [OF refl, of "num_workers po" "num_servers po"]
      own_group_server [of _ "num_servers po" "num_workers po"] by blast
qed

theorem started_groups_witness:
  "\<exists>po. po_start_nodes [''DMLC_NUM_WORKER'' \<mapsto> ''9'', ''DMLC_NUM_SERVER'' \<mapsto> ''9'', ''DMLC_ROLE'' \<mapsto> ''server'',
      ''DMLC_NUM_GROUP'' \<mapsto> ''1''] (\<lambda>s. if s = ''9'' then 9 else 1) Postoffice = Inr po \<and>
     node_ids po kServerGroup = map ServerRankToID [0..8]"
proof -
  let ?e = "[''DMLC_NUM_WORKER'' \<mapsto> ''9'', ''DMLC_NUM_SERVER'' \<mapsto> ''9'', ''DMLC_ROLE'' \<mapsto> ''server'',
      ''DMLC_NUM_GROUP'' \<mapsto> ''1'']"
  obtain po where po: "po_start_nodes ?e (\<lambda>s. if s = ''9'' then 9 else 1) Postoffice = Inr po" "num_servers po = 9"
    by (simp add: po_start_nodes_def Postoffice_def InitEnvironment_def)
  with started_groups [OF po(1)] show ?thesis by auto
qed



text \<open>
  C12. A barrier response releases every customer of the application: the loop over the map
  ends although it inserts into the map, and every entry is then set.
\<close>

theorem barrier_response_releases_all:
  assumes "cmd_of m = BARRIER" "\<not> request (meta m)"
    and "distinct (map fst (barrier_done po (app_id (meta m))))"
    and "\<forall>k \<in> fst ` set (barrier_done po (app_id (meta m))). 0 \<le> k"
  shows "\<exists>po'. Manage po m = Some (Inr po') \<and>
    (\<forall>k \<in> fst ` set (barrier_done po (app_id (meta m))).
       map_of (barrier_done po' (app_id (meta m))) k = Some True)"
proof -
  let ?al = "barrier_done po (app_id (meta m))"
  have "manage_inv 0 ?al" using assms(3,4) by (auto simp: manage_inv_def)
  moreover have "\<forall>k \<in> set (map fst ?al). k \<le> Max (insert 0 (fst ` set ?al))" by simp
  ultimately obtain al where "Manage_loop 0 ?al = Some al" "set (map fst ?al) \<subseteq> set (map fst al)"
    "\<forall>k \<in> set (map fst al). map_of al k = Some True"
    using Manage_loop_total by blast
  with assms(1,2) show ?thesis by (fastforce simp: Manage_def control_empty_def)
qed

theorem barrier_response_releases_all_witness:
  "let m = upd_meta (\<lambda>a. (set_cmd BARRIER a)\<lparr>app_id := 0\<rparr>) Message;
       po = Postoffice\<lparr>barrier_done := (\<lambda>_. [(3, False), (0, False)])\<rparr>
   in \<exists>po'. Manage po m = Some (Inr po') \<and> map_of (barrier_done po' 0) 3 = Some True"
proof -
  let ?m = "upd_meta (\<lambda>a. (set_cmd BARRIER a)\<lparr>app_id := 0\<rparr>) Message"
  let ?po = "Postoffice\<lparr>barrier_done := (\<lambda>_. [(3, False), (0, False)])\<rparr>"
  have m: "app_id (meta ?m) = 0" "cmd_of ?m = BARRIER" "\<not> request (meta ?m)" by (simp_all add: Message_def Meta_def)
  show ?thesis
    unfolding Let_def using barrier_response_releases_all [OF m(2,3), of ?po] unfolding m(1) by auto
qed

text \<open>
  C13. A message queue hands out what was pushed, every message once, in order of falling
  priority, whatever the order of the pushes.
\<close>

theorem queue_drains_by_priority:
  "mset (drain WaitAndPop (length ms) (fold (\<lambda>m q. Push q m) ms [])) = mset ms \<and>
   sorted_wrt (\<lambda>x y. prio_of y \<le> prio_of x) (drain WaitAndPop (length ms) (fold (\<lambda>m q. Push q m) ms []))"
proof -
  have ok: "queue_ok (fold (\<lambda>m q. Push q m) ms q)" and
    c: "mset (fold (\<lambda>m q. Push q m) ms q) = mset ms + mset q" if "queue_ok q" for q
    using that by (induction ms arbitrary: q) (auto simp: mq.ok_push mq.contents_push)
  show ?thesis
    using mq.drain_sorted [OF ok [OF queue_ok_empty], of "length ms"] c [OF queue_ok_empty] by simp
qed

text \<open>
  C14. The wait for a request is over exactly when as many responses were counted as the
  receiver group has nodes, whatever other requests, messages and responses interleave.
\<close>

theorem wait_request_iff_all_responses:
  assumes "NewRequest po r c = Inr (ts, c1)" "GetNodeIDs po r = Inr ids"
    and "customer_run po h es (c1, s) = Inr (l, c2, s2)"
  shows "WaitRequest c2 ts = Inr (int (length ids) = responses ts l + sum_list (map (added ts) es))"
proof -
  from NewRequest_starts [OF assms(1)] assms(2) have
    t: "ts = int (length (tracker c))" "tracks (length (tracker c)) (int (length ids)) 0 c1" by auto
  from tracks_WaitRequest [OF customer_run_tracks [OF assms(3) t(2)]] t(1) show ?thesis by simp
qed

theorem wait_request_iff_all_responses_witness:
  "\<exists>c1 l c2 s2. NewRequest demo_po 2 demo_customer = Inr (0, c1) \<and>
     customer_run demo_po (\<lambda>m s. Inr (Suc s)) [Accept_msg demo_response, Receive] (c1, 0) = Inr (l, c2, s2) \<and>
     WaitRequest c2 0 = Inr False"
proof -
  let ?c = "demo_customer\<lparr>tracker := [(2, 0)]\<rparr>"
  let ?run = "customer_run demo_po (\<lambda>m s. Inr (Suc s)) [Accept_msg demo_response, Receive] (?c, 0)"
  have n: "NewRequest demo_po 2 demo_customer = Inr (0, ?c)" and g: "GetNodeIDs demo_po 2 = Inr [8, 10]"
    by (simp_all add: NewRequest_def GetNodeIDs_def demo_po_def demo_customer_def)
  have "rmap fst ?run = Inr [demo_response]" by code_simp
  then obtain c2 s2 where r: "?run = Inr ([demo_response], c2, s2)" by (auto simp: rmap_Inr_iff)
  have "responses 0 [demo_response] \<le> 1" by simp
  with wait_request_iff_all_responses [OF n g r] have "WaitRequest c2 0 = Inr False" by simp
  with n r show ?thesis by blast
qed

text \<open>
  C15. The receiving thread works off its queue: with a handler that does not fail and
  responses for known requests, one step per waiting message empties the queue, hands every
  message to the handler once, and counts every response.
\<close>

theorem receiving_drains_queue:
  assumes "drainable c" "handles_all h" "tracks ts n k c"
  shows "\<exists>l c' s'. customer_run po h (replicate (length (recv_queue c)) Receive) (c, s) = Inr (l, c', s') \<and>
    recv_queue c' = [] \<and> mset l = mset (recv_queue c) \<and>
    tracks ts n (k + responses (int ts) (recv_queue c)) c'"
proof -
  obtain l c' s' where l: "customer_run po h (replicate (length (recv_queue c)) Receive) (c, s) = Inr (l, c', s')"
    "recv_queue c' = []" "mset l = mset (recv_queue c)"
    using drain_all [OF assms(1,2)] by blast
  have "sum_list (map (added (int ts)) (replicate (length (recv_queue c)) Receive)) = 0"
    by (simp add: sum_list_replicate)
  with customer_run_tracks [OF l(1) assms(3)] responses_mset [OF l(3)] l show ?thesis by auto
qed

theorem receiving_drains_queue_witness:
  "\<exists>l c' s'. customer_run demo_po (\<lambda>m s. Inr (Suc s)) [Receive]
      (demo_customer\<lparr>recv_queue := [demo_response], tracker := [(1, 0)]\<rparr>, 0) = Inr (l, c', s') \<and>
     recv_queue c' = [] \<and> tracks 0 1 1 c'"
proof -
  let ?c = "demo_customer\<lparr>recv_queue := [demo_response], tracker := [(1, 0)]\<rparr>"
  have "drainable ?c"
    by (simp add: drainable_def demo_customer_def demo_response_def queue_ok_def heap_def Message_def
        Meta_def Control_def INT_MAX_def)
  moreover have "handles_all (\<lambda>m s. Inr (Suc s))" by (simp add: handles_all_def)
  moreover have "tracks 0 1 0 ?c" by (simp add: tracks_def)
  moreover have "responses 0 [demo_response] = 1"
    by (simp add: is_response_def demo_response_def Message_def Meta_def)
  ultimately show ?thesis
    using receiving_drains_queue [of ?c "\<lambda>m s. Inr (Suc s)" 0 1 0 demo_po 0] by auto
qed

text \<open>
  Destroying a customer overtakes its waiting messages: TERMINATE has the empty marker as
  priority, the receiving thread stops at once, and the waiting messages are not handled.
\<close>

theorem destroy_overtakes_waiting:
  assumes "queue_ok (recv_queue c)" "\<not> joined c"
    and "\<forall>m \<in> set (recv_queue c). priority (meta m) < kEmpty"
    and "Customer_destroy c po = (c', po')"
  shows "\<exists>q. Receiving_step h c' s = Inr ([], c'\<lparr>recv_queue := q, joined := True\<rparr>, s) \<and>
    mset q = mset (recv_queue c)"
  by (rule terminate_overtakes [OF assms])

theorem destroy_overtakes_waiting_witness:
  "\<exists>c' q. Receiving_step (\<lambda>m s. Inr (Suc s)) c' 0 = Inr ([], c'\<lparr>recv_queue := q, joined := True\<rparr>, 0) \<and>
     mset q = {# demo_response #}"
proof -
  let ?c = "demo_customer\<lparr>recv_queue := [demo_response]\<rparr>"
  obtain c' po' where d: "Customer_destroy ?c demo_po = (c', po')" by fastforce
  have "queue_ok (recv_queue ?c)" "\<not> joined ?c" "\<forall>m \<in> set (recv_queue ?c). priority (meta m) < kEmpty"
    by (simp_all add: demo_customer_def demo_response_def queue_ok_def heap_def)
  from destroy_overtakes_waiting [OF this d, of "\<lambda>m s. Inr (Suc s)" 0] show ?thesis by auto
qed

section \<open>Reliable sending and the wire\<close>



text \<open>
  The signature of a message determines application, sender, receiver, timestamp and
  request flag, as long as the ids fit the bits they are given.
\<close>

theorem signature_injective:
  assumes "GetKey i m = Inr k" "GetKey i' m' = Inr k"
    and "app_id (meta m) \<in> {0..<2 ^ 16}" "app_id (meta m') \<in> {0..<2 ^ 16}"
    and "eff_sender i m \<in> {0..<2 ^ 8}" "eff_sender i' m' \<in> {0..<2 ^ 8}"
    and "recver (meta m) \<in> {0..<2 ^ 8}" "recver (meta m') \<in> {0..<2 ^ 8}"
  shows "app_id (meta m) = app_id (meta m') \<and> eff_sender i m = eff_sender i' m' \<and>
    recver (meta m) = recver (meta m') \<and> timestamp (meta m) = timestamp (meta m') \<and>
    request (meta m) = request (meta m')"
proof -
  note k = assms(1,2) [unfolded GetKey_Inr_iff]
  have "(of_int (app_id (meta m)) :: 16 word) = of_int (app_id (meta m')) \<and>
      (of_int (eff_sender i m) :: 8 word) = of_int (eff_sender i' m') \<and>
      (of_int (recver (meta m)) :: 8 word) = of_int (recver (meta m')) \<and>
      timestamp (meta m) = timestamp (meta m') \<and> request (meta m) = request (meta m')"
    using k by (intro sig_word_inject) auto
  then show ?thesis using assms(3-8) by (auto dest!: of_int_inject_range)
qed

theorem signature_injective_witness:
  "\<exists>k. GetKey 8 demo_message = Inr k \<and> GetKey 10 (stamp 8 10 demo_message) = Inr k \<and>
     timestamp (meta demo_message) = timestamp (meta (stamp 8 10 demo_message))"
proof -
  have p: "payload 8 10 demo_message"
    by (simp add: payload_def demo_message_def Message_def Meta_def Control_def)
  obtain k where k: "GetKey 8 demo_message = Inr k"
    by (simp add: GetKey_def demo_message_def)
  moreover have "GetKey 10 (stamp 8 10 demo_message) = Inr k" using GetKey_stamp [OF p] k by simp
  ultimately show ?thesis
    using signature_injective [of 8 demo_message k 10 "stamp 8 10 demo_message"]
    by (simp add: demo_message_def eff_sender_def stamp_def Message_def Meta_def)
qed



text \<open>
  C19. A message arrives as it was sent: the frames of \<open>SendMsg\<close>, received under the identity of
  the sender, give back its data and its meta data, with sender and receiver set by the
  transport and the barrier group and signature kept only for the commands that use them.
\<close>

theorem message_round_trip:
  assumes "prs (ser (PackMeta (meta m))) = Some (PackMeta (meta m))"
    and "\<forall>t \<in> set (tree (meta m)). \<bar>t\<bar> < 2 ^ 24"
    and "0 \<le> sid" "sid + 48 \<le> INT_MAX"
    and "SendMsg ser senders m = Inr (Some fs)"
  shows "RecvMsg prs rid (identity sid) fs =
    Inr (upd_meta (\<lambda>a. a\<lparr>sender := sid, recver := rid, control := wire_control (control a)\<rparr>) m)"
  using RecvMsg_SendMsg [of prs ser m sid senders fs rid] assms by blast

theorem message_round_trip_witness:
  "\<exists>fs. SendMsg (\<lambda>pb. pb) [10] demo_message = Inr (Some fs) \<and>
     RecvMsg Some 10 (identity 8) fs = Inr (stamp 8 10 demo_message)"
proof -
  obtain fs where f: "SendMsg (\<lambda>pb. pb) [10] demo_message = Inr (Some fs)"
    by (simp add: SendMsg_def demo_message_def)
  have "\<forall>t \<in> set (tree (meta demo_message)). \<bar>t\<bar> < 2 ^ 24"
    by (simp add: demo_message_def Message_def Meta_def)
  with message_round_trip [of Some "\<lambda>pb. pb" demo_message 8 "[10]" fs 10] f
  have "RecvMsg Some 10 (identity 8) fs = Inr (upd_meta (\<lambda>a. a\<lparr>sender := 8, recver := 10,
      control := wire_control (control a)\<rparr>) demo_message)"
    by (simp add: INT_MAX_def)
  moreover have "wire_control (control (meta demo_message)) = control (meta demo_message)"
    by (simp add: demo_message_def Message_def Meta_def Control_def wire_control_def control_empty_def)
  ultimately show ?thesis using f by (simp add: stamp_def upd_meta_def)
qed

section \<open>Messages on their way\<close>



text \<open>
  C21. Slicing a key-value list over the key ranges of the servers loses and duplicates nothing: the
  slices, put together in the order of the servers, are the keys, values and lengths of the list,
  and every key is in the slice of the server whose range holds it.
\<close>

theorem slices_join_to_list:
  assumes "kv_wf send" "contiguous 0 rs" "rs \<noteq> []" "\<forall>x \<in> set (kv_keys send). x < snd (last rs)"
  shows "\<exists>sl. DefaultSlicer send rs = Inr sl \<and> length sl = length rs \<and>
    concat (map (kv_keys \<circ> snd) sl) = kv_keys send \<and> concat (map (kv_vals \<circ> snd) sl) = kv_vals send \<and>
    concat (map (kv_lens \<circ> snd) sl) = kv_lens send \<and>
    (\<forall>i < length rs. set (kv_keys (snd (sl ! i))) = {x \<in> set (kv_keys send). fst (rs ! i) \<le> x \<and> x < snd (rs ! i)})"
proof -
  let ?b = "below (kv_keys send)"
  obtain sl where sl: "DefaultSlicer send rs = Inr sl" "sl = map (\<lambda>r. slice_of send (?b (fst r)) (?b (snd r))) rs"
    using DefaultSlicer_slices [OF assms] by simp
  have "sorted (kv_keys send)" using assms(1) by (simp add: kv_wf_def)
  then have "set (kv_keys (snd (sl ! i))) = {x \<in> set (kv_keys send). fst (rs ! i) \<le> x \<and> x < snd (rs ! i)}" if "i < length rs" for i
    using slice_keys [of "kv_keys send" "fst (rs ! i)" "snd (rs ! i)"] contiguous_le [OF assms(2) that] that
    by (simp add: sl(2) slice_of_uncut(1))
  with sl DefaultSlicer_joins [OF assms sl(1)] show ?thesis by auto
qed

theorem slices_join_to_list_witness:
  "\<exists>sl. DefaultSlicer \<lparr>kv_keys = [1, 5, 150], kv_vals = [1, 2, 3, 4, 5, 6], kv_lens = [1, 2, 3]\<rparr> [(0, 100), (100, 200)] = Inr sl \<and>
     concat (map (kv_vals \<circ> snd) sl) = [1, 2, 3, 4, 5, 6] \<and> set (kv_keys (snd (sl ! 1))) = {150}"
proof -
  let ?send = "\<lparr>kv_keys = [1, 5, 150], kv_vals = [1, 2, 3, 4, 5, 6], kv_lens = [1, 2, 3]\<rparr>"
  let ?rs = "[(0, 100), (100, 200)] :: krange list"
  have wf: "kv_wf ?send" by (simp add: kv_wf_def)
  have rs: "contiguous 0 [(0, 100), (100, 200 :: key)]" "[(0, 100), (100, 200)] \<noteq> ([] :: krange list)"
    "\<forall>x \<in> set (kv_keys ?send). x < snd (last [(0, 100), (100, 200 :: key)])" by simp_all
  obtain sl where sl: "DefaultSlicer ?send ?rs = Inr sl" "concat (map (kv_vals \<circ> snd) sl) = kv_vals ?send"
    "\<forall>i < length ?rs. set (kv_keys (snd (sl ! i))) = {x \<in> set (kv_keys ?send). fst (?rs ! i) \<le> x \<and> x < snd (?rs ! i)}"
    using slices_join_to_list [OF wf rs] by (elim exE conjE) (rule that)
  have "set (kv_keys (snd (sl ! 1))) = set (filter (\<lambda>x. 100 \<le> x \<and> x < 200) (kv_keys ?send))"
    using spec [OF sl(3), of 1] unfolding set_filter by simp
  also have "\<dots> = {150}" by code_simp
  finally have "set (kv_keys (snd (sl ! 1))) = {150}" .
  with sl(1,2) show ?thesis by (intro exI [of _ sl]) simp
qed



lemma demo_run:
  assumes "do_cmds c xs mach0 = Some s"
  shows "serial_reachable c s" and "reachable c s"
  using do_cmds_serial [OF serial_reachable.init assms] serial_reachable_reachable by blast+

lemma demo_done_run:
  assumes "demo_done = Some s"
  shows "serial_reachable demo_client s"
  using assms do_cmds_serial demo_run(1) unfolding demo_done_def demo_pushes_def bind_eq_Some_conv by blast

section \<open>The dependency engine\<close>

text \<open>
  C23. In every reachable state of the engine, whatever the interleaving of clients, threads and
  workers, two different operations that are dispatched or running do not conflict: no variable that
  one of them writes is used by the other.
\<close>

theorem running_operations_compatible:
  assumes "reachable c s" "b \<in> set (active (eng s) (running s))" "b' \<in> set (active (eng s) (running s))" "b \<noteq> b'"
  shows "\<not> conflict (bdeps (eng s) b) (bdeps (eng s) b')"
proof -
  obtain H where "sched_inv (eng s) (acts s) (running s) H"
    using reachable_inv [OF assms(1)] by (auto simp: mach_inv_def)
  from active_no_conflict [OF this assms(2,3)] assms(4) show ?thesis by blast
qed

theorem running_operations_compatible_witness:
  "\<exists>s. demo_readers = Some s \<and> 0 \<in> set (active (eng s) (running s)) \<and> 1 \<in> set (active (eng s) (running s)) \<and>
     \<not> conflict (bdeps (eng s) 0) (bdeps (eng s) 1)"
proof -
  have "case demo_readers of None \<Rightarrow> False
     | Some s \<Rightarrow> 0 \<in> set (active (eng s) (running s)) \<and> 1 \<in> set (active (eng s) (running s))"
    by code_simp
  then obtain s where s: "demo_readers = Some s" "0 \<in> set (active (eng s) (running s))"
    "1 \<in> set (active (eng s) (running s))" by (auto split: option.splits)
  have "reachable demo_client s" using demo_run(2) s(1) unfolding demo_readers_def by blast
  from running_operations_compatible [OF this s(2,3)] s show ?thesis by auto
qed

text \<open>
  C24. In every reachable state no check of the engine fails: the next action of every thread, with
  the counters of the variables and of the blocks it touches, and the start of every dispatched
  operation go through.
\<close>

theorem engine_checks_hold:
  assumes "reachable c s"
  shows "(\<forall>th \<in> set (threads s). th \<noteq> [] \<longrightarrow> is_ok (act (hd th) (eng s))) \<and>
    (\<forall>(b, p) \<in> set (executing (eng s)). is_ok (execute_fn c b (eng s)))"
  using reachable_no_fault [OF assms] by blast

theorem engine_checks_hold_witness:
  "\<exists>s. interleaved_pushes = Some s \<and> (\<forall>th \<in> set (threads s). th \<noteq> [] \<longrightarrow> is_ok (act (hd th) (eng s)))"
proof -
  obtain s where s: "interleaved_pushes = Some s" using interleaved_pushes_stuck by blast
  from engine_checks_hold [OF interleaved_pushes_reachable [OF s]] s show ?thesis by blast
qed

text \<open>
  C25. When pushes are not interleaved with each other and all operations have completed, every
  pushed operation was started exactly once, and the values of the variables are those of running
  the operations one after the other in the order of the pushes, whatever the operations compute
  from their variables.
\<close>

theorem results_as_in_push_order:
  assumes "serial_reachable c s" "pending (eng s) = 0"
  shows "mset (started s) = mset [0..<length (pushed s)] \<and>
    fold (\<lambda>b. op_effect sem (pushed s ! b)) (started s) st = fold (op_effect sem) (pushed s) st"
proof
  have "distinct (started s)" using serial_history [OF assms(1)] by (simp add: history_inv_def)
  with serial_complete [OF assms] show "mset (started s) = mset [0..<length (pushed s)]"
    by (intro iffD1 [OF set_eq_iff_mset_eq_distinct]) (auto simp: atLeast0LessThan)
qed (rule serial_results [OF assms])

theorem results_as_in_push_order_witness:
  "\<exists>s. demo_done = Some s \<and> mset (started s) = {#0, 1#} \<and>
     (\<forall>sem :: async_fn \<Rightarrow> int list \<Rightarrow> nat \<Rightarrow> int.
        fold (\<lambda>b. op_effect sem (pushed s ! b)) (started s) (\<lambda>_. 0) = fold (op_effect sem) (pushed s) (\<lambda>_. 0))"
proof -
  have "case demo_done of None \<Rightarrow> False | Some s \<Rightarrow> pending (eng s) = 0 \<and> length (pushed s) = 2" by code_simp
  then obtain s where s: "demo_done = Some s" "pending (eng s) = 0" "length (pushed s) = 2"
    by (auto split: option.splits)
  from results_as_in_push_order [OF demo_done_run [OF s(1)] s(2)] s(1,3) show ?thesis
    by (auto simp: numeral_2_eq_2)
qed

text \<open>
  C26. When pushes are not interleaved with each other, every run of the engine's threads and
  workers is finite, and where it cannot go on all operations have completed.
\<close>

theorem engine_runs_to_completion:
  assumes "serial_reachable c s"
  shows "(\<forall>f. f 0 = s \<longrightarrow> (\<exists>i. \<not> engine_step c (f i) (f (Suc i)))) \<and>
    (\<forall>s'. (engine_step c)\<^sup>*\<^sup>* s s' \<longrightarrow> (\<nexists>s''. engine_step c s' s'') \<longrightarrow> pending (eng s') = 0 \<and> pushed s' = pushed s)"
proof (intro conjI allI impI)
  show "\<exists>i. \<not> engine_step c (f i) (f (Suc i))" if "f 0 = s" for f
    by (rule engine_steps_finite) (simp add: that serial_reachable_reachable [OF assms])
  fix s' assume "(engine_step c)\<^sup>*\<^sup>* s s'" and stuck: "\<nexists>s''. engine_step c s' s''"
  from engine_steps_serial [OF this(1) assms] have s': "serial_reachable c s'" "pushed s' = pushed s" by auto
  from engine_step_enabled [OF s'(1)] stuck s' show "pending (eng s') = 0" "pushed s' = pushed s" by blast+
qed

theorem engine_runs_to_completion_witness:
  "\<exists>s. demo_pushes = Some s \<and> pending (eng s) = 2 \<and>
     (\<forall>s'. (engine_step demo_client)\<^sup>*\<^sup>* s s' \<longrightarrow> (\<nexists>s''. engine_step demo_client s' s'') \<longrightarrow> pending (eng s') = 0)"
proof -
  have "case demo_pushes of None \<Rightarrow> False | Some s \<Rightarrow> pending (eng s) = 2" by code_simp
  then obtain s where s: "demo_pushes = Some s" "pending (eng s) = 2" by (auto split: option.splits)
  have "serial_reachable demo_client s" using demo_run(1) s(1) unfolding demo_pushes_def by blast
  from engine_runs_to_completion [OF this] s show ?thesis by blast
qed

text \<open>
  C27. Pushes from two threads can block each other for ever: a reachable state has two pending
  operations, no thread has an action left, no operation is dispatched and the engine cannot take
  a step.
\<close>

theorem interleaved_pushes_deadlock:
  "\<exists>s. reachable c s \<and> pending (eng s) = 2 \<and> concat (threads s) = [] \<and> executing (eng s) = [] \<and>
     (\<nexists>s'. engine_step c s s')"
proof -
  obtain s where s: "interleaved_pushes = Some s" "pending (eng s) = 2" "concat (threads s) = []"
    "active (eng s) (running s) = []" using interleaved_pushes_stuck by blast
  with interleaved_pushes_reachable [OF s(1)] stuck_after_interleaving [OF s(3,4)] show ?thesis
    by (auto simp: active_def)
qed

text \<open>
  C28. A variable implements a fair readers-writer lock: for every sequence of requests and
  releases in which only holders release, the code succeeds, grants the variable to the same
  operations at the same calls as the lock, and keeps the same queue.
\<close>

theorem variable_refines_lock:
  assumes "lock_run ops ([], []) = Some ((H, Q), tss)"
  shows "\<exists>v. var_run ops ThreadedVar = Inr (v, tss) \<and> var_rel v H \<and> waiting v = Q"
  using var_run_refines [of ThreadedVar "[]" ops "(H, Q)" tss] assms
  by (simp add: ThreadedVar_def var_rel_def waiting_def all_reads_def)

theorem variable_refines_lock_witness:
  "\<exists>v. var_run [AppendOp False 0, AppendOp True 1, AppendOp False 2, AppendOp False 3, CompleteOp False 0, CompleteOp True 1]
       ThreadedVar = Inr (v, [[0], [], [], [], [1], [2, 3]]) \<and> var_rel v [dep 2 False, dep 3 False] \<and> waiting v = []"
  by (rule variable_refines_lock) code_simp



text \<open>
  C30. An operation one of whose variables carries an unreported exception is not run: executing its
  block completes it at once, whatever its function would do, and it carries a live exception
  itself, which its completion hands on.
\<close>

theorem failed_inputs_skip:
  assumes "blks e b = Some k" "oprs e (blk_opr k) = Some t"
    and "\<forall>v \<in> set (opr_const_vars t @ opr_mutable_vars t). vars e v \<noteq> None"
    and "v \<in> set (opr_const_vars t @ opr_mutable_vars t)" "vars e v = Some x" "live_exc e (var_exception x)"
    and "\<not> shutdown_phase e" "opr_prop t \<noteq> kNoSkip" "\<not> opr_wait t"
  shows "\<exists>e' t'. (\<forall>c. execute_fn c b e = Inr (e', Some None)) \<and> oprs e' (blk_opr k) = Some t' \<and>
    live_exc e' (opr_exception t') \<and> vars e' = vars e"
  by (rule execute_skips [OF assms])

theorem failed_inputs_skip_witness:
  "\<exists>s k e' t'. demo_skipped = Some s \<and> blks (eng s) 1 = Some k \<and> (\<forall>c. execute_fn c 1 (eng s) = Inr (e', Some None)) \<and>
     oprs e' (blk_opr k) = Some t' \<and> live_exc e' (opr_exception t')"
proof -
  have "case demo_skipped of None \<Rightarrow> False | Some s \<Rightarrow>
     (case blks (eng s) 1 of None \<Rightarrow> False | Some k \<Rightarrow>
     (case oprs (eng s) (blk_opr k) of None \<Rightarrow> False | Some t \<Rightarrow>
     (case vars (eng s) 0 of None \<Rightarrow> False | Some x \<Rightarrow>
        opr_const_vars t @ opr_mutable_vars t = [0] \<and> live_exc (eng s) (var_exception x) \<and>
        \<not> shutdown_phase (eng s) \<and> opr_prop t \<noteq> kNoSkip \<and> \<not> opr_wait t)))"
    by code_simp
  then obtain s k t x where s: "demo_skipped = Some s" "blks (eng s) 1 = Some k" "oprs (eng s) (blk_opr k) = Some t"
    "vars (eng s) 0 = Some x" "opr_const_vars t @ opr_mutable_vars t = [0]" "live_exc (eng s) (var_exception x)"
    "\<not> shutdown_phase (eng s)" "opr_prop t \<noteq> kNoSkip" "\<not> opr_wait t"
    by (auto simp del: append_eq_Cons_conv split: option.splits)
  have "\<forall>v \<in> set (opr_const_vars t @ opr_mutable_vars t). vars (eng s) v \<noteq> None"
    "0 \<in> set (opr_const_vars t @ opr_mutable_vars t)" unfolding s(5) using s(4) by auto
  from failed_inputs_skip [OF s(2,3) this s(4,6-9)] s(1,2) show ?thesis by blast
qed

text \<open>
  The variables that \<open>BulkFlush\<close> gives to the operator of a bulk always pass \<open>CheckDuplicate\<close>,
  and they are the variables of the bulked operations: all that are written as written, the others
  as read.
\<close>

theorem bulk_variables_pass_check:
  "case DeduplicateVarHandle cs ms of (cs', ms') \<Rightarrow>
     CheckDuplicate cs' ms' = Inr () \<and> set ms' = set ms \<and> set cs' = set cs - set ms"
  using DeduplicateVarHandle_spec [of cs ms]
  by (cases "DeduplicateVarHandle cs ms") (auto simp: CheckDuplicate_iff)

section \<open>The key-value stores\<close>

text \<open>
  C31. On the local store without an updater, when every one of at least two devices pushes its
  array of every key and the keys are pulled afterwards, the calls succeed and every destination
  holds the sum, over the devices, of the arrays pushed under its key, added element by element in
  the order of the grouping. The parallel loop may run its tasks in any order and the sort may be
  any that \<open>std::sort\<close> allows.
\<close>

theorem push_pull_sums:
  assumes "\<And>m. mset (order m) = mset [0..<m]"
    and "\<And>xs. mset (srt xs) = mset xs" "\<And>xs. sorted (map fst (srt xs))"
    and "cpu_ready K n U (c, h)" "device_comm.stored_ok cpu_area K U (st, c, h)" "kv_updater st = None" "2 \<le> n"
    and "length vals = length vkeys" "length bss = length vkeys" "vkeys \<noteq> []" "set vals \<subseteq> U"
      "\<forall>k \<in> set vkeys. count_list vkeys k = n \<and> cint_in_range (k - 1)"
      "\<forall>i < length vkeys. \<exists>ty sh. K (vkeys ! i) = Some (ty, sh) \<and> holds h (vals ! i) ty sh (bss ! i)"
    and "length outs = length okeys" "okeys \<noteq> []" "set okeys \<subseteq> set vkeys" "set outs \<subseteq> U" "distinct outs"
      "\<forall>i < length okeys. \<exists>ty sh. K (okeys ! i) = Some (ty, sh) \<and> dense_at ty sh h (outs ! i)"
  shows "\<exists>st' c' h'. PushPullImpl ops srt (cpu_comm ops order nthr) vkeys okeys vals outs (st, c, h) = Inr (st', c', h') \<and>
    (\<forall>i < length okeys. \<forall>ty sh. K (okeys ! i) = Some (ty, sh) \<longrightarrow>
       holds h' (outs ! i) ty sh (cpu_total ops ty sh (group_of srt vkeys bss (okeys ! i))))"
proof -
  have "cpu_kvstore order srt" by unfold_locales (rule assms(1-3))+
  from local_kvstore.PushPullImpl_sums [OF cpu_kvstore.cpu_store [OF this] assms(4-19)] show ?thesis by blast
qed

theorem push_pull_sums_witness:
  "\<exists>st' c' h'. PushPullImpl demo_ops (sort_key fst) (cpu_comm demo_ops (\<lambda>m. [0..<m]) 4) [5, 5] [5, 5] [0, 1] [0, 1]
       (demo_store, demo_comm, demo_heap) = Inr (st', c', h') \<and> holds h' 1 3 [2] [11, 22]"
proof -
  let ?K = "[5 \<mapsto> (3, [2])] :: int \<rightharpoonup> int \<times> int list"
  have ready: "cpu_ready ?K 2 {0, 1} (demo_comm, demo_heap)"
    by (auto simp: cpu_ready_def demo_comm_def CommCPU_def set_buf_def cpu_area_def demo_heap_def cpu_key_ready_def
        good_shape_def shape_size_def dense_at_def demo_array_def mshadow_sizeof_def type_sizes_def split: if_splits)
  have ok: "device_comm.stored_ok cpu_area ?K {0, 1} (demo_store, demo_comm, demo_heap)"
    unfolding sequential.cpu.stored_ok_def
    by (auto simp: demo_store_def demo_heap_def demo_array_def is_sparse_def cpu_area_def demo_comm_def CommCPU_def set_buf_def)
  have total: "cpu_total demo_ops 3 [2] (group_of (sort_key fst) [5, 5] [[1, 2], [10, 20]] 5) = [11, 22]" by code_simp
  from push_pull_sums [of "\<lambda>m. [0..<m]" "sort_key fst" ?K 2 "{0, 1}" demo_comm demo_heap demo_store "[0, 1]" "[5, 5]"
      "[[1, 2], [10, 20]]" "[0, 1]" "[5, 5]" demo_ops 4] ready ok total
  show ?thesis
    by (force simp: demo_store_def KVStoreLocal_def cint_in_range_def INT_MAX_def less_Suc_eq numeral_2_eq_2 holds_def dense_at_def
        demo_heap_def demo_array_def)
qed

text \<open>
  C32. The parallel sum of dense arrays on the CPU gives the element-wise sum, each element summed
  once and in the order of the sequential loop, whatever the number of threads, the size from which
  arrays are cut and the order in which the tasks run.
\<close>

theorem parallel_sum_elementwise:
  assumes "length x = n" "\<forall>a \<in> set others. length a = n" "0 < bound" "\<And>m. mset (order m) = mset [0..<m]"
  shows "ReduceSumCPUImpl pl bound nthread order others n x =
    Inr (map (\<lambda>k. elem_rest pl (x ! k) (map (\<lambda>a. a ! k) others)) [0..<n])"
  by (rule ReduceSumCPUImpl_elementwise [OF assms])

theorem parallel_sum_elementwise_witness:
  "ReduceSumCPUImpl (+) 2 4 (\<lambda>m. rev [0..<m]) [[1, 2, 3, 4, 5], [10, 20, 30, 40, 50]] 5 [100, 200, 300, 400, 500 :: int] =
     Inr [111, 222, 333, 444, 555]"
  using parallel_sum_elementwise [of "[100, 200, 300, 400, 500 :: int]" 5 "[[1, 2, 3, 4, 5], [10, 20, 30, 40, 50]]" 2
      "\<lambda>m. rev [0..<m]" "(+)" 4]
  by (simp add: upt_rec numeral_eq_Suc)

text \<open>
  C33. Decompressing a compressed gradient gives for every element one threshold up, one threshold
  down or zero, according to the sum of residual and gradient, and the residual keeps what was not
  sent.
\<close>

theorem compression_round_trip:
  assumes "length grad = length res" "length res \<le> 16 * n" "Quantize2Bit n grad res threshold = (out, res')"
  shows "Dequantize2Bit (length res) out threshold = map2 (\<lambda>r g. sent_of threshold (f32_add r g)) res grad \<and>
    res' = map2 (\<lambda>r g. kept_of threshold (f32_add r g)) res grad \<and> length out = 4 * n"
  by (rule quantize_round_trip [OF assms])

theorem compression_round_trip_witness:
  "Dequantize2Bit 3 (fst (Quantize2Bit 1 [Fin 1, Fin (- 2), Fin 0] [Fin 0, Fin 0, Fin 0] (Fin 1))) (Fin 1) =
     [Fin 1, Fin (- 1), Fin 0]"
proof -
  let ?q = "Quantize2Bit 1 [Fin 1, Fin (- 2), Fin 0] [Fin 0, Fin 0, Fin 0] (Fin 1)"
  have "map2 (\<lambda>r g. sent_of (Fin 1) (f32_add r g)) [Fin 0, Fin 0, Fin 0] [Fin 1, Fin (- 2), Fin 0] = [Fin 1, Fin (- 1), Fin 0]"
    by code_simp
  with compression_round_trip [of "[Fin 1, Fin (- 2), Fin 0]" "[Fin 0, Fin 0, Fin 0]" 1 "Fin 1" "fst ?q" "snd ?q"] show ?thesis
    by (simp add: numeral_3_eq_3)
qed

text \<open>
  C34. A round of aggregation at a server: when every child under the root of the tree has pushed its
  dense array of a key, the sum of the pushes in order of arrival goes to all children if the server is
  the root and to its parent otherwise, and the server is ready for the next round with the sum
  stored.
\<close>

theorem server_aggregates_round:
  assumes "good_pushes v n ps" "collected k n [] acc d" "vec_at (ks_sons srv) v = Inr ss"
    and "ps \<noteq> []" "length ps = length ss" "int (length ss) \<le> num_workers (npo s)"
  shows "\<exists>d'. handle_pushes ops k ps (srv, s, d) =
      rmap (\<lambda>s'. (srv, s', d'))
        (if v = MyRank s then ResponseAll (fst (hd ps)) (one_push k (pushed_sum ops (map snd ps))) srv s
         else server_Push (fst (last ps)) (one_push k (pushed_sum ops (map snd ps))) srv s) \<and>
    round_done k n (pushed_sum ops (map snd ps)) d'"
  by (rule handle_pushes_round [OF assms])

theorem server_aggregates_round_witness:
  "\<exists>d'. handle_pushes demo_ops 7 [(demo_push 9, [1, 2, 3, 4]), (demo_push 11, [10, 20, 30, 40])]
       (demo_server, demo_node, (KVStoreDistServer False 0)\<lparr>sync_mode := True\<rparr>) =
      rmap (\<lambda>s'. (demo_server, s', d')) (ResponseAll (demo_push 9) (one_push 7 [11, 22, 33, 44]) demo_server demo_node) \<and>
    round_done 7 1 [11, 22, 33, 44] d'"
proof -
  have "MyRank demo_node = 0" by code_simp
  moreover have "pushed_sum demo_ops [[1, 2, 3, 4], [10, 20, 30, 40]] = [11, 22, 33, 44]" by (simp add: demo_ops_def)
  ultimately show ?thesis
    using server_aggregates_round [of 0 1 "[(demo_push 9, [1, 2, 3, 4]), (demo_push 11, [10, 20, 30, 40])]" 7 "[]"
        "(KVStoreDistServer False 0)\<lparr>sync_mode := True\<rparr>" demo_server "[9, 11]" demo_node demo_ops]
    by (simp add: good_pushes_def tree_push_def demo_push_def collected_def KVStoreDistServer_def UpdateBuf_def
        demo_server_def vec_at_def demo_node_def Postoffice_def)
qed





text \<open>
  C36. String keys: the two dictionaries of the local store stay inverse to each other and hold exactly
  numbers already given out; new strings get the next numbers in order, looking them up gives
  these numbers, and the strings of one call are distinct and new.
\<close>

theorem string_keys_well_formed:
  assumes "keys_inv st" "add_str_keys ss st = Inr (ks, st')"
  shows "keys_inv st' \<and> ks = map (\<lambda>i. next_str_key st + int i) [0..<length ss] \<and> distinct ss \<and>
    (\<forall>s \<in> set ss. str_key_dict st s = None) \<and> LookupKeys ss st' = Inr ks"
  using add_str_keys_spec [OF assms] by blast

theorem string_keys_well_formed_witness:
  "\<exists>st'. add_str_keys [''w'', ''b''] KVStoreLocal = Inr ([0, 1], st') \<and> keys_inv st' \<and> LookupKeys [''w'', ''b''] st' = Inr [0, 1]"
proof -
  have "is_ok (add_str_keys [''w'', ''b''] KVStoreLocal)" by code_simp
  then obtain ks st' where a: "add_str_keys [''w'', ''b''] KVStoreLocal = Inr (ks, st')" by (auto simp: is_ok_iff)
  from string_keys_well_formed [OF keys_inv_initial a] a show ?thesis by (auto simp: KVStoreLocal_def)
qed

text \<open>
  C37. The connectivity test of the link topology is reachability: on a square matrix of weights, \<open>IsConnected\<close>
  returns whether every GPU can be reached from GPU 0 over links of a weight above 1.
\<close>

theorem topology_connected:
  assumes "link_matrix matrix num_gpus" "0 < num_gpus"
  shows "IsConnected matrix num_gpus = Inr (\<forall>j < num_gpus. (nvlink matrix num_gpus)\<^sup>*\<^sup>* 0 j)"
  by (rule IsConnected_reaches [OF assms])

theorem topology_connected_witness:
  "(nvlink (map Fin [0, 2, 1, 2, 0, 3, 1, 3, 0]) 3)\<^sup>*\<^sup>* 0 2 \<and> \<not> (nvlink (map Fin [0, 1, 1, 0]) 2)\<^sup>*\<^sup>* 0 1"
proof -
  have "link_matrix (map Fin [0, 2, 1, 2, 0, 3, 1, 3, 0]) 3" "link_matrix (map Fin [0, 1, 1, 0]) 2"
    by code_simp+
  moreover have "IsConnected (map Fin [0, 2, 1, 2, 0, 3, 1, 3, 0]) 3 = Inr True" "IsConnected (map Fin [0, 1, 1, 0]) 2 = Inr False"
    by code_simp+
  ultimately have yes: "\<forall>j < 3. (nvlink (map Fin [0, 2, 1, 2, 0, 3, 1, 3, 0]) 3)\<^sup>*\<^sup>* 0 j"
    and no: "\<not> (\<forall>j < 2. (nvlink (map Fin [0, 1, 1, 0]) 2)\<^sup>*\<^sup>* 0 j)"
    using topology_connected [of "map Fin [0, 2, 1, 2, 0, 3, 1, 3, 0]" 3] topology_connected [of "map Fin [0, 1, 1, 0]" 2] by simp_all
  from no obtain j where j: "j < 2" "\<not> (nvlink (map Fin [0, 1, 1, 0]) 2)\<^sup>*\<^sup>* 0 j" by blast
  then have "j \<noteq> 0" by (metis rtranclp.rtrancl_refl)
  then have "j = 1" using j(1) by simp
  with yes j(2) show ?thesis by simp
qed

text \<open>
  C38. A partition of the GPUs is split evenly: for every link matrix and every shuffle that permutes, the split by
  Kernighan and Lin returns; the partition keeps half of its GPUs, rounded down, the others go to the new partition, and no other
  GPU moves.
\<close>

theorem partition_balanced:
  assumes "length W = length P * length P" "partition_size = int (count_list P color)" "num_partitions \<notin> set P" "color \<noteq> num_partitions"
    and "\<And>xs g. mset (fst (shuf xs g)) = mset xs"
  shows "\<exists>P' gen'. kl_split shuf W P color partition_size num_partitions gen = Inr (P', gen') \<and> length P' = length P \<and>
    (\<forall>i < length P. P' ! i = P ! i \<or> (P ! i = color \<and> P' ! i = num_partitions)) \<and>
    count_list P' color = count_list P color div 2 \<and>
    count_list P' num_partitions = count_list P color - count_list P color div 2"
  by (rule kl_split_balanced) (rule assms)+

theorem partition_balanced_witness:
  "\<exists>P' gen'. kl_split (\<lambda>xs g. (rev xs, g)) (replicate 25 (Fin 2)) [0, 1, 0, 1, 0] 0 3 2 () = Inr (P', gen') \<and>
    P' ! 1 = 1 \<and> P' ! 3 = 1 \<and> count_list P' 0 = 1 \<and> count_list P' 2 = 2"
proof -
  obtain P' gen' where r: "kl_split (\<lambda>xs g. (rev xs, g)) (replicate 25 (Fin 2)) [0, 1, 0, 1, 0] 0 3 2 () = Inr (P', gen')"
    and keep: "\<forall>i < 5. P' ! i = [0, 1, 0, 1, 0] ! i \<or> ([0, 1, 0, 1, 0 :: int] ! i = 0 \<and> P' ! i = 2)"
    and counts: "count_list P' 0 = 1" "count_list P' 2 = 2"
    using partition_balanced [of "replicate 25 (Fin 2)" "[0, 1, 0, 1, 0]" 3 0 2 "\<lambda>xs g. (rev xs, g)" "()"] by auto
  have "P' ! 1 = 1" "P' ! 3 = 1" using keep [rule_format, of 1] keep [rule_format, of 3] by simp_all
  with r counts show ?thesis by blast
qed

text \<open>
  C39. The iterative search for a tree ends and is the recursive one: with nothing placed but the root, the loop over its explicit
  stack yields the best result and weight, or the fault, of the recursion, for the optimal search and for the search that
  stops at the first tree.
\<close>

theorem backtracking_iterative_recursive:
  assumes "length state = k + 2" "unplaced 1 state"
  shows "IterativeBacktrack W state best num_elements depth optimal =
    Some (rmap (\<lambda>r. snd (fst r)) (RecursiveBacktrack W num_elements depth optimal (Suc k) (state, best)))"
  by (rule IterativeBacktrack_recursive [OF assms])

theorem backtracking_iterative_recursive_witness:
  "IterativeBacktrack (map Fin [0, 2, 2, 0]) [1, - 1] ([- 1, - 1], f32_lowest) 2 1 True = Some (Inr ([1, 0], Fin 2))"
proof -
  have "length [1, - 1 :: int] = 0 + 2" "unplaced 1 [1, - 1]" by (auto simp: unplaced_def nth_Cons split: nat.splits)
  moreover have "RecursiveBacktrack (map Fin [0, 2, 2, 0]) 2 1 True (Suc 0) ([1, - 1], ([- 1, - 1], f32_lowest)) =
      Inr (([1, - 1], ([1, 0], Fin 2)), False)" by code_simp
  ultimately show ?thesis
    using backtracking_iterative_recursive [of "[1, - 1]" 0 "map Fin [0, 2, 2, 0]" "([- 1, - 1], f32_lowest)" 2 1 True] by simp
qed



text \<open>
  C17. Reduction and broadcast along a tree of the GPUs. On a power of two of GPUs, with a tree array as \<open>ComputeTrees\<close> returns it,
  \<open>ReduceInner\<close> meets no fault and gives at the root the element-wise sum over all GPUs, whatever the buffers hold before, each GPU counted
  once; \<open>BroadcastInner\<close> brings it to every GPU.
\<close>

theorem tree_all_reduce:
  fixes val :: "nat \<Rightarrow> 'e :: comm_monoid_add list"
  assumes "tree_array n depth root_gpu topo" "n = 2 ^ depth" "distinct devs" "length devs = n"
    and "length (tb_merged b) = n" "length (tb_copy b) = n" "length dests = n" "\<And>k. length (val k) = m"
  shows "\<exists>s b'. ReduceInner (+) devs topo (level_scan depth) depth (map (\<lambda>k. (devs ! k, val k)) [0..<n]) b = Inr (s, b') \<and>
    s = map (\<lambda>i. \<Sum>k < n. val k ! i) [0..<m] \<and>
    BroadcastInner topo (level_scan depth) depth n True s dests = Inr (replicate n (Some s))"
  by (rule all_reduce [OF assms])

theorem tree_all_reduce_witness:
  "\<exists>b'. ReduceInner (+) [10, 11 :: int] [1, 1, 0] (level_scan 1) 1 [(10, [1 :: int]), (11, [2])]
      \<lparr>tb_merged = [None, None], tb_copy = [None, None]\<rparr> = Inr ([3], b') \<and>
    BroadcastInner [1, 1, 0] (level_scan 1) 1 2 True [3 :: int] [None, None] = Inr [Some [3], Some [3]]"
proof -
  have "tree_array 2 1 1 [1, 1, 0]" by (auto simp: tree_array_def lessThan_Suc numeral_2_eq_2)
  from tree_all_reduce [OF this, of "[10, 11 :: int]" "\<lparr>tb_merged = [None, None], tb_copy = [None, None]\<rparr>" "[None, None]" "\<lambda>k. [int k + 1]" 1]
  show ?thesis by (simp add: upt_rec numeral_2_eq_2)
qed

end
